(* ===== verification/Prelude.thy ===== *)
theory Prelude
  imports Main "HOL-Library.Word" "HOL-Library.Signed_Division" "HOL-Library.Sublist"
begin

text \<open>
  Shared vocabulary of the development: bytes and their big-endian numbers (the
  \<^verbatim>\<open>encoding/binary\<close> calls of the sources), Go's fixed-width integers where a
  wrap-around can be observed, extensible byte contents of files, results as sums, and the
  theorem collections the component theories extend.
\<close>

named_theorems wire \<open>lengths and decoding of encoded values\<close>
named_theorems frame_laws \<open>what an operation leaves unchanged\<close>
named_theorems inv_intros \<open>an operation keeps its component's invariant\<close>

section \<open>Bytes and results\<close>

type_synonym byte = "8 word"
type_synonym bytes = "byte list"

text \<open>A Go string is a sequence of bytes; Isabelle's \<open>char\<close> is a byte as well.\<close>

definition bytes_of :: "string \<Rightarrow> bytes" where
  "bytes_of s = map (\<lambda>c. word_of_int (of_char c)) s"

lemma length_bytes_of [simp, wire]: "length (bytes_of s) = length s"
  by (simp add: bytes_of_def)

lemma of_char_word_inject:
  "(word_of_int (of_char c) :: byte) = word_of_int (of_char d) \<longleftrightarrow> c = d"
proof
  have lt: "(of_char c :: int) < 256" "(of_char d :: int) < 256"
    "0 \<le> (of_char c :: int)" "0 \<le> (of_char d :: int)"
    by (metis of_char_eq_iff of_nat_of_char of_nat_0_le_iff nat_of_char_less_256 of_nat_less_numeral_iff)+
  assume "(word_of_int (of_char c) :: byte) = word_of_int (of_char d)"
  then have "uint (word_of_int (of_char c) :: byte) = uint (word_of_int (of_char d) :: byte)"
    by simp
  then have "(of_char c :: int) mod 256 = of_char d mod 256"
    by (simp add: uint_word_of_int)
  with lt have "(of_char c :: int) = of_char d" by simp
  then show "c = d" by simp
qed simp

lemma bytes_of_inject: "bytes_of s = bytes_of t \<longleftrightarrow> s = t"
  unfolding bytes_of_def
  by (rule inj_map_eq_map) (auto simp: inj_def of_char_word_inject)

section \<open>Big-endian numbers\<close>

lemma unat_bounds [simp]:
  "unat (a :: byte) < 256" "unat (b :: 16 word) < 65536" "unat (c :: 32 word) < 4294967296"
  "unat (d :: 64 word) < 18446744073709551616"
proof -
  show "unat a < 256" by (rule order_less_le_trans [OF unsigned_less]) simp
  show "unat b < 65536" by (rule order_less_le_trans [OF unsigned_less]) simp
  show "unat c < 4294967296" by (rule order_less_le_trans [OF unsigned_less]) simp
  show "unat d < 18446744073709551616" by (rule order_less_le_trans [OF unsigned_less]) simp
qed

text \<open>\<open>be n k\<close> is \<open>k\<close> in \<open>n\<close> bytes, most significant first, as \<^verbatim>\<open>binary.BigEndian.PutUint\<close>
  writes it; \<open>be_nat\<close> reads such bytes.\<close>

fun be :: "nat \<Rightarrow> nat \<Rightarrow> bytes" where
  "be 0 k = []"
| "be (Suc n) k = be n (k div 256) @ [of_nat k]"

definition be_nat :: "bytes \<Rightarrow> nat" where
  "be_nat bs = foldl (\<lambda>a b. a * 256 + unat b) 0 bs"

lemma length_be [simp, wire]: "length (be n k) = n"
  by (induction n arbitrary: k) auto

lemma be_nat_Nil [simp]: "be_nat [] = 0"
  by (simp add: be_nat_def)

lemma be_nat_snoc [simp]: "be_nat (bs @ [b]) = be_nat bs * 256 + unat b"
  by (simp add: be_nat_def)

lemma be_nat_be [wire]: "be_nat (be n k) = k mod 256 ^ n"
proof (induction n arbitrary: k)
  case 0
  show ?case by simp
next
  case (Suc n)
  have u: "unat (of_nat k :: byte) = k mod 256"
    by (simp add: unat_of_nat)
  show ?case
    using Suc.IH [of "k div 256"] mod_mult2_eq [of k 256 "256 ^ n"]
    by (simp add: u mult.commute)
qed

lemma be_nat_bound: "be_nat bs < 256 ^ length bs"
proof (induction bs rule: rev_induct)
  case (snoc b bs)
  show ?case using snoc unat_bounds(1) [of b] by (simp del: unat_bounds)
qed simp

lemma be_be_nat [wire]: "length bs = n \<Longrightarrow> be n (be_nat bs) = bs"
proof (induction n arbitrary: bs)
  case (Suc n)
  then obtain cs b where bs: "bs = cs @ [b]" and len: "length cs = n"
    by (metis length_Suc_conv_rev)
  have b: "unat b < 256" by simp
  have "(of_nat (be_nat cs * 256 + unat b) :: byte) = b"
  proof -
    have "unat (of_nat (be_nat cs * 256 + unat b) :: byte) = (be_nat cs * 256 + unat b) mod 256"
      by (simp only: unat_of_nat) simp
    then have "unat (of_nat (be_nat cs * 256 + unat b) :: byte) = unat b"
      using b by simp
    then show ?thesis by (simp only: word_unat_eq_iff)
  qed
  with Suc.IH [OF len] bs b show ?case by simp
qed simp

lemma be_inject: "i < 256 ^ n \<Longrightarrow> j < 256 ^ n \<Longrightarrow> be n i = be n j \<longleftrightarrow> i = j"
  by (metis be_nat_be mod_less)

definition put16 :: "16 word \<Rightarrow> bytes" where "put16 w = be 2 (unat w)"
definition put32 :: "32 word \<Rightarrow> bytes" where "put32 w = be 4 (unat w)"
definition put64 :: "64 word \<Rightarrow> bytes" where "put64 w = be 8 (unat w)"
definition get16 :: "bytes \<Rightarrow> 16 word" where "get16 bs = of_nat (be_nat bs)"
definition get32 :: "bytes \<Rightarrow> 32 word" where "get32 bs = of_nat (be_nat bs)"
definition get64 :: "bytes \<Rightarrow> 64 word" where "get64 bs = of_nat (be_nat bs)"

lemma length_put [simp, wire]:
  "length (put16 a) = 2" "length (put32 b) = 4" "length (put64 c) = 8"
  by (simp_all add: put16_def put32_def put64_def)

lemma get_put [simp, wire]:
  "get16 (put16 a) = a" "get32 (put32 b) = b" "get64 (put64 c) = c"
  by (simp_all add: put16_def put32_def put64_def get16_def get32_def get64_def be_nat_be)

lemma put_get [wire]:
  "length bs = 2 \<Longrightarrow> put16 (get16 bs) = bs"
  "length bs = 4 \<Longrightarrow> put32 (get32 bs) = bs"
  "length bs = 8 \<Longrightarrow> put64 (get64 bs) = bs"
  using be_nat_bound [of bs]
  by (simp_all add: put16_def put32_def put64_def get16_def get32_def get64_def unat_of_nat be_be_nat)

lemma put_inject [simp]:
  "put16 a = put16 a' \<longleftrightarrow> a = a'" "put32 b = put32 b' \<longleftrightarrow> b = b'" "put64 c = put64 c' \<longleftrightarrow> c = c'"
  by (metis get_put(1), metis get_put(2), metis get_put(3))

section \<open>Fixed-width integers\<close>

text \<open>An \<^verbatim>\<open>int64\<close> is an \<open>int\<close> within its range; arithmetic that can leave the range is
  wrapped explicitly. Go's integer division truncates towards zero: \<open>sdiv\<close>.\<close>

definition wrap64 :: "int \<Rightarrow> int" where
  "wrap64 i = (i + 2 ^ 63) mod 2 ^ 64 - 2 ^ 63"

definition in_int64 :: "int \<Rightarrow> bool" where
  "in_int64 i \<longleftrightarrow> - (2 ^ 63) \<le> i \<and> i < 2 ^ 63"

lemma wrap64_id [simp]: "in_int64 i \<Longrightarrow> wrap64 i = i"
  by (simp add: wrap64_def in_int64_def)

lemma in_int64_wrap64 [simp]: "in_int64 (wrap64 i)"
  using pos_mod_bound [of "2 ^ 64" "i + 2 ^ 63"] pos_mod_sign [of "2 ^ 64" "i + 2 ^ 63"]
  by (simp add: wrap64_def in_int64_def)

abbreviation (input) MaxInt64 :: int where "MaxInt64 \<equiv> 2 ^ 63 - 1"

lemma sdiv_nonneg: "0 \<le> a \<Longrightarrow> 0 < b \<Longrightarrow> a sdiv b = a div (b :: int)"
  by (simp add: signed_divide_int_def sgn_if)

section \<open>Lists read and written by position\<close>

definition slice :: "nat \<Rightarrow> nat \<Rightarrow> 'a list \<Rightarrow> 'a list" where
  "slice off n xs = take n (drop off xs)"

text \<open>Writing bytes at an offset extends the contents with zeros up to the offset, as a
  sparse write past the end of a file does.\<close>

definition write_at :: "bytes \<Rightarrow> nat \<Rightarrow> bytes \<Rightarrow> bytes" where
  "write_at bs off d =
     (if d = [] then bs
      else take off (bs @ replicate (off - length bs) 0) @ d @ drop (off + length d) bs)"

lemma length_slice [simp]: "length (slice off n xs) = min n (length xs - off)"
  by (simp add: slice_def)

lemma length_write_at:
  "length (write_at bs off d) = (if d = [] then length bs else max (length bs) (off + length d))"
  by (auto simp: write_at_def)

lemma nth_write_at:
  "i < length (write_at bs off d) \<Longrightarrow>
   write_at bs off d ! i =
     (if off \<le> i \<and> i < off + length d then d ! (i - off)
      else if i < length bs then bs ! i else 0)"
  by (auto simp: write_at_def nth_append min_def split: if_splits)

lemma slice_write_at_same [simp]: "slice off (length d) (write_at bs off d) = d"
  by (simp add: slice_def write_at_def)

lemma slice_write_at_other:
  assumes "off + n \<le> off' \<or> off' + length d \<le> off" and "off + n \<le> length bs"
  shows "slice off n (write_at bs off' d) = slice off n bs"
proof (rule nth_equalityI)
  show len: "length (slice off n (write_at bs off' d)) = length (slice off n bs)"
    using assms by (auto simp: length_write_at)
  fix i assume "i < length (slice off n (write_at bs off' d))"
  then have i: "i < n" "off + i < length (write_at bs off' d)" by (auto simp: min_def split: if_splits)
  with assms show "slice off n (write_at bs off' d) ! i = slice off n bs ! i"
    by (auto simp: slice_def nth_write_at)
qed

lemma write_at_end [simp]: "write_at bs (length bs) d = bs @ d"
  by (simp add: write_at_def)

lemma write_at_Nil [simp]: "write_at bs off [] = bs"
  by (simp add: write_at_def)

lemma take_write_at: "n \<le> off \<Longrightarrow> n \<le> length bs \<Longrightarrow> take n (write_at bs off d) = take n bs"
  by (auto simp: write_at_def min_def)

lemma slice_append1: "off + n \<le> length xs \<Longrightarrow> slice off n (xs @ ys) = slice off n xs"
  by (auto simp: slice_def)

lemma slice_append2: "off = length xs \<Longrightarrow> slice off n (xs @ ys) = take n ys"
  by (simp add: slice_def)

lemma slice_0 [simp]: "slice 0 n xs = take n xs"
  by (simp add: slice_def)

lemma slice_slice: "o2 + n2 \<le> n1 \<Longrightarrow> slice o2 n2 (slice o1 n1 xs) = slice (o1 + o2) n2 xs"
  by (simp add: slice_def take_drop add.commute)

section \<open>Results\<close>

text \<open>The Go idiom \<^verbatim>\<open>if err != nil { return err }\<close> over results.\<close>

definition bind_res :: "'e + 'a \<Rightarrow> ('a \<Rightarrow> 'e + 'b) \<Rightarrow> 'e + 'b" where
  "bind_res r f = (case r of Inl e \<Rightarrow> Inl e | Inr a \<Rightarrow> f a)"

lemma bind_res_simps [simp]:
  "bind_res (Inl e) f = Inl e" "bind_res (Inr a) f = f a"
  by (simp_all add: bind_res_def)

lemma bind_res_Inr: "bind_res r f = Inr b \<longleftrightarrow> (\<exists>a. r = Inr a \<and> f a = Inr b)"
  by (cases r) auto

section \<open>Steps and what they keep\<close>

text \<open>A component seen as a step relation with a property every step keeps: so does every run.\<close>

locale step_invariant =
  fixes step :: "'s \<Rightarrow> 's \<Rightarrow> bool" and inv :: "'s \<Rightarrow> bool"
  assumes keeps: "inv s \<Longrightarrow> step s t \<Longrightarrow> inv t"
begin

lemma run_keeps: "step\<^sup>*\<^sup>* s t \<Longrightarrow> inv s \<Longrightarrow> inv t"
  by (induction rule: rtranclp_induct) (auto intro: keeps)

end

end
