(* ===== verification/GoStrings.thy ===== *)
theory GoStrings
  imports Prelude
begin

text \<open>
  What the sources use of Go's \<^verbatim>\<open>strings\<close> and \<^verbatim>\<open>path\<close> packages, on
  strings as byte sequences. \<^verbatim>\<open>strings.ToLower\<close> works byte by byte on ASCII strings;
  on any other string it consults the Unicode tables, which are data of the Go distribution:
  they are the parameter \<open>uni\<close>, so that every result holds for whatever tables are used.
\<close>

section \<open>Bytes of a string\<close>

definition ascii :: "char \<Rightarrow> bool" where
  "ascii c \<longleftrightarrow> (of_char c :: nat) < 128"

definition lower_char :: "char \<Rightarrow> char" where
  "lower_char c = (let n = of_char c :: nat in
     if 65 \<le> n \<and> n \<le> 90 then char_of (n + 32) else c)"

definition upper_char :: "char \<Rightarrow> char" where
  "upper_char c = (let n = of_char c :: nat in
     if 97 \<le> n \<and> n \<le> 122 then char_of (n - 32) else c)"

definition ToLower :: "(string \<Rightarrow> string) \<Rightarrow> string \<Rightarrow> string" where
  "ToLower uni s = (if list_all ascii s then map lower_char s else uni s)"

definition backslash :: char where "backslash = CHR 0x5C"

text \<open>\<^verbatim>\<open>strings.ReplaceAll(p, `\`, "/")\<close>\<close>

definition to_slash :: "string \<Rightarrow> string" where
  "to_slash p = map (\<lambda>c. if c = backslash then CHR ''/'' else c) p"

lemma length_to_slash [simp]: "length (to_slash p) = length p"
  by (simp add: to_slash_def)

lemma to_slash_Nil [simp]: "to_slash p = [] \<longleftrightarrow> p = []"
  by (simp add: to_slash_def)

lemma backslash_to_slash [simp]: "backslash \<notin> set (to_slash p)"
  by (auto simp: to_slash_def backslash_def)

lemma to_slash_id: "backslash \<notin> set p \<Longrightarrow> to_slash p = p"
  unfolding to_slash_def by (rule map_idI) auto

section \<open>Splitting and joining\<close>

fun split_on :: "char \<Rightarrow> string \<Rightarrow> string list" where
  "split_on c [] = [[]]"
| "split_on c (x # xs) =
     (if x = c then [] # split_on c xs
      else (case split_on c xs of [] \<Rightarrow> [[x]] | p # ps \<Rightarrow> (x # p) # ps))"

fun join :: "char \<Rightarrow> string list \<Rightarrow> string" where
  "join c [] = []"
| "join c [p] = p"
| "join c (p # q # r) = p @ c # join c (q # r)"

lemma split_on_not_Nil [simp]: "split_on c s \<noteq> []"
  by (cases s) (auto split: list.splits)

lemma join_Cons: "ps \<noteq> [] \<Longrightarrow> join c (p # ps) = p @ c # join c ps"
  by (cases ps) auto

lemma join_split [simp]: "join c (split_on c s) = s"
proof (induction s)
  case (Cons x xs)
  obtain q qs where q: "split_on c xs = q # qs"
    using split_on_not_Nil by (cases "split_on c xs") auto
  have "join c ((x # q) # qs) = x # join c (q # qs)"
    by (cases qs) auto
  with Cons q show ?case by (auto simp: join_Cons)
qed simp

lemma split_on_no_sep: "p \<in> set (split_on c s) \<Longrightarrow> c \<notin> set p"
  by (induction s arbitrary: p) (auto split: if_splits list.splits)

lemma split_on_id: "c \<notin> set p \<Longrightarrow> split_on c p = [p]"
  by (induction p) auto

lemma split_on_append: "c \<notin> set p \<Longrightarrow> split_on c (p @ c # s) = p # split_on c s"
  by (induction p) auto

lemma split_join:
  "ps \<noteq> [] \<Longrightarrow> \<forall>p \<in> set ps. c \<notin> set p \<Longrightarrow> split_on c (join c ps) = ps"
  by (induction c ps rule: join.induct) (auto simp: split_on_id split_on_append)

lemma set_split_on: "p \<in> set (split_on c s) \<Longrightarrow> set p \<subseteq> set s"
  by (induction s arbitrary: p) (fastforce split: if_splits list.splits)+

lemma length_split_on_part: "p \<in> set (split_on c s) \<Longrightarrow> length p \<le> length s"
proof (induction s arbitrary: p)
  case (Cons x xs)
  show ?case
  proof (cases "split_on c xs")
    case (Cons q qs)
    with Cons.prems Cons.IH show ?thesis by (auto split: if_splits intro: le_SucI)
  qed simp
qed simp

section \<open>Positions\<close>

text \<open>\<^verbatim>\<open>strings.IndexByte\<close> and \<^verbatim>\<open>strings.LastIndexByte\<close>, -1 being \<open>None\<close>.\<close>

fun IndexByte :: "string \<Rightarrow> char \<Rightarrow> nat option" where
  "IndexByte [] c = None"
| "IndexByte (x # xs) c = (if x = c then Some 0 else map_option Suc (IndexByte xs c))"

fun LastIndexByte :: "string \<Rightarrow> char \<Rightarrow> nat option" where
  "LastIndexByte [] c = None"
| "LastIndexByte (x # xs) c =
     (case LastIndexByte xs c of Some j \<Rightarrow> Some (Suc j) | None \<Rightarrow> if x = c then Some 0 else None)"

lemma IndexByte_None: "IndexByte s c = None \<longleftrightarrow> c \<notin> set s"
  by (induction s) auto

lemma IndexByte_Some: "IndexByte s c = Some j \<Longrightarrow> j < length s \<and> s ! j = c \<and> c \<notin> set (take j s)"
  by (induction s arbitrary: j) (auto split: if_splits)

lemma LastIndexByte_None: "LastIndexByte s c = None \<longleftrightarrow> c \<notin> set s"
  by (induction s) (auto split: option.splits)

lemma LastIndexByte_Some:
  "LastIndexByte s c = Some j \<Longrightarrow> j < length s \<and> s ! j = c \<and> c \<notin> set (drop (Suc j) s)"
  by (induction s arbitrary: j) (auto split: option.splits if_splits simp: LastIndexByte_None)

lemma LastIndexByte_less: "LastIndexByte (take n s) c = Some j \<Longrightarrow> j < n"
  using LastIndexByte_Some by fastforce

section \<open>Numbers in names\<close>

definition digit :: "nat \<Rightarrow> char" where
  "digit n = char_of (48 + n)"

text \<open>The decimal form of \<^verbatim>\<open>%d\<close> for a count.\<close>

fun dec :: "nat \<Rightarrow> string" where
  "dec n = (if n < 10 then [digit n] else dec (n div 10) @ [digit (n mod 10)])"

declare dec.simps [simp del]

definition undigit :: "char \<Rightarrow> nat" where
  "undigit c = of_char c - 48"

definition undec :: "string \<Rightarrow> nat" where
  "undec s = foldl (\<lambda>a c. 10 * a + undigit c) 0 s"

lemma undigit_digit [simp]: "n < 10 \<Longrightarrow> undigit (digit n) = n"
  by (simp add: undigit_def digit_def)

lemma undec_dec [simp]: "undec (dec n) = n"
proof (induction n rule: dec.induct)
  case (1 n)
  show ?case
  proof (cases "n < 10")
    case True
    then show ?thesis by (subst dec.simps) (simp add: undec_def)
  next
    case False
    with "1.IH" have "undec (dec (n div 10)) = n div 10" by simp
    with False show ?thesis by (subst dec.simps) (simp add: undec_def)
  qed
qed

lemma dec_inject [simp]: "dec m = dec n \<longleftrightarrow> m = n"
  by (metis undec_dec)

lemma dec_digits: "c \<in> set (dec n) \<Longrightarrow> 48 \<le> (of_char c :: nat) \<and> (of_char c :: nat) \<le> 57"
proof (induction n rule: dec.induct)
  case (1 n)
  then show ?case
    by (subst (asm) (2) dec.simps) (auto simp: digit_def split: if_splits)
qed

section \<open>Slash-separated paths\<close>

text \<open>\<^verbatim>\<open>path.Clean\<close>: the components without \<open>.\<close> and empty ones, each \<open>..\<close> taking away
  the component before it; a \<open>..\<close> at the root vanishes, one with nothing before it stays.\<close>

fun clean_parts :: "bool \<Rightarrow> string list \<Rightarrow> string list \<Rightarrow> string list" where
  "clean_parts rooted out [] = rev out"
| "clean_parts rooted out (p # ps) =
     (if p = [] \<or> p = ''.'' then clean_parts rooted out ps
      else if p = ''..'' then
        (case out of
           [] \<Rightarrow> clean_parts rooted (if rooted then [] else [p]) ps
         | q # qs \<Rightarrow> if q = ''..'' then clean_parts rooted (p # out) ps
                   else clean_parts rooted qs ps)
      else clean_parts rooted (p # out) ps)"

definition path_Clean :: "string \<Rightarrow> string" where
  "path_Clean p =
     (let rooted = (p \<noteq> [] \<and> hd p = CHR ''/'');
          body = join CHR ''/'' (clean_parts rooted [] (split_on CHR ''/'' p))
      in if rooted then CHR ''/'' # body else if body = [] then ''.'' else body)"

text \<open>\<^verbatim>\<open>path.Dir\<close>: everything up to the last slash, cleaned.\<close>

definition path_Dir :: "string \<Rightarrow> string" where
  "path_Dir p =
     path_Clean (case LastIndexByte p CHR ''/'' of None \<Rightarrow> [] | Some j \<Rightarrow> take (Suc j) p)"

definition strip_slashes :: "string \<Rightarrow> string" where
  "strip_slashes p = rev (dropWhile (\<lambda>c. c = CHR ''/'') (rev p))"

definition path_Base :: "string \<Rightarrow> string" where
  "path_Base p =
     (if p = [] then ''.''
      else let q = strip_slashes p;
               b = (case LastIndexByte q CHR ''/'' of None \<Rightarrow> q | Some j \<Rightarrow> drop (Suc j) q)
           in if b = [] then ''/'' else b)"

text \<open>\<^verbatim>\<open>path.Ext\<close> of a name without a slash: from its last dot on.\<close>

definition path_Ext :: "string \<Rightarrow> string" where
  "path_Ext name = (case LastIndexByte name CHR ''.'' of None \<Rightarrow> [] | Some j \<Rightarrow> drop j name)"

text \<open>\<^verbatim>\<open>path.Join\<close> of two elements: empty ones are left out, the rest is cleaned.\<close>

definition path_Join :: "string \<Rightarrow> string \<Rightarrow> string" where
  "path_Join a b =
     (if a = [] \<and> b = [] then []
      else path_Clean (if a = [] then b else if b = [] then a else a @ CHR ''/'' # b))"

text \<open>A component that \<^verbatim>\<open>path.Clean\<close> keeps as it is.\<close>

definition plain_part :: "string \<Rightarrow> bool" where
  "plain_part p \<longleftrightarrow> p \<noteq> [] \<and> p \<noteq> ''.'' \<and> p \<noteq> ''..'' \<and> CHR ''/'' \<notin> set p"

lemma clean_parts_plain:
  "\<forall>p \<in> set ps. plain_part p \<Longrightarrow> clean_parts rooted out ps = rev out @ ps"
  by (induction ps arbitrary: out) (auto simp: plain_part_def)

lemma join_plain_not_rooted:
  "ps \<noteq> [] \<Longrightarrow> \<forall>p \<in> set ps. plain_part p \<Longrightarrow> join CHR ''/'' ps \<noteq> [] \<and> hd (join CHR ''/'' ps) \<noteq> CHR ''/''"
proof (induction ps)
  case (Cons p ps)
  then have p: "p \<noteq> []" "CHR ''/'' \<notin> set p"
    by (auto simp: plain_part_def)
  then obtain x p' where x: "p = x # p'" "x \<noteq> CHR ''/''"
    by (cases p) auto
  then show ?case by (cases ps) simp_all
qed simp

lemma path_Clean_plain:
  assumes "ps \<noteq> []" "\<forall>p \<in> set ps. plain_part p"
  shows "path_Clean (join CHR ''/'' ps) = join CHR ''/'' ps"
proof -
  have "split_on CHR ''/'' (join CHR ''/'' ps) = ps"
    using assms by (intro split_join) (auto simp: plain_part_def)
  then show ?thesis
    using assms join_plain_not_rooted [OF assms]
    by (simp add: path_Clean_def clean_parts_plain)
qed

section \<open>Hexadecimal\<close>

text \<open>\<^verbatim>\<open>hex.EncodeToString\<close> and \<^verbatim>\<open>hex.DecodeString\<close>, which reads both cases.\<close>

definition hex_digit :: "nat \<Rightarrow> char" where
  "hex_digit n = (if n < 10 then char_of (48 + n) else char_of (87 + n))"

definition hex :: "bytes \<Rightarrow> string" where
  "hex b = concat (map (\<lambda>x. [hex_digit (unat x div 16), hex_digit (unat x mod 16)]) b)"

definition hex_val :: "char \<Rightarrow> nat option" where
  "hex_val c = (let n = of_char c :: nat in
     if 48 \<le> n \<and> n \<le> 57 then Some (n - 48)
     else if 97 \<le> n \<and> n \<le> 102 then Some (n - 87)
     else if 65 \<le> n \<and> n \<le> 70 then Some (n - 55)
     else None)"

fun unhex :: "string \<Rightarrow> bytes option" where
  "unhex [] = Some []"
| "unhex [c] = None"
| "unhex (c # d # s) =
     (case (hex_val c, hex_val d, unhex s) of
        (Some x, Some y, Some b) \<Rightarrow> Some (of_nat (16 * x + y) # b)
      | _ \<Rightarrow> None)"

lemma of_char_char_of [simp]: "n < 256 \<Longrightarrow> (of_char (char_of n :: char) :: nat) = n"
  by (simp add: of_char_of)

lemma hex_val_digit: "n < 16 \<Longrightarrow> hex_val (hex_digit n) = Some n"
  by (auto simp: hex_val_def hex_digit_def Let_def)

lemma length_hex [simp]: "length (hex b) = 2 * length b"
  by (induction b) (simp_all add: hex_def)

lemma hex_simps [simp]:
  "hex [] = []" "hex (x # b) = hex_digit (unat x div 16) # hex_digit (unat x mod 16) # hex b"
  by (simp_all add: hex_def)

lemma unat_div16: "unat (x :: byte) div 16 < 16"
  using unat_bounds(1) [of x] by (simp add: less_mult_imp_div_less)

lemma unhex_hex: "unhex (hex b) = Some b"
proof (induction b)
  case (Cons x b)
  have "16 * (unat x div 16) + unat x mod 16 = unat x" by simp
  then have "of_nat (16 * (unat x div 16) + unat x mod 16) = (of_nat (unat x) :: byte)" by (simp only:)
  also have "\<dots> = x" by simp
  finally have "of_nat (16 * (unat x div 16) + unat x mod 16) = x" .
  then show ?case using Cons unat_div16 [of x] by (simp add: hex_val_digit)
qed simp

lemma hex_val_inv:
  assumes "hex_val c = Some n"
  shows "n < 16 \<and> hex_digit n = lower_char c"
proof -
  have c: "char_of (of_char c :: nat) = c" by simp
  let ?n = "of_char c :: nat"
  from assms consider "48 \<le> ?n" "?n \<le> 57" "n = ?n - 48" | "97 \<le> ?n" "?n \<le> 102" "n = ?n - 87"
    | "65 \<le> ?n" "?n \<le> 70" "n = ?n - 55"
    by (auto simp: hex_val_def Let_def split: if_splits)
  then show ?thesis by cases (auto simp: hex_digit_def lower_char_def Let_def)
qed

lemma hex_unhex: "unhex s = Some b \<Longrightarrow> hex b = map lower_char s"
proof (induction s arbitrary: b rule: unhex.induct)
  case (3 c d s)
  then obtain x y b' where v: "hex_val c = Some x" "hex_val d = Some y" "unhex s = Some b'" "b = of_nat (16 * x + y) # b'"
    by (auto split: option.splits)
  note V = hex_val_inv [OF v(1)] hex_val_inv [OF v(2)]
  have "unat (of_nat (16 * x + y) :: byte) = (16 * x + y) mod 256" by (simp only: unat_of_nat) simp
  also have "\<dots> = 16 * x + y" using V by simp
  finally have "unat (of_nat (16 * x + y) :: byte) = 16 * x + y" .
  then show ?case using 3 V v by (simp del: of_nat_add of_nat_mult)
qed simp_all

end
