(* ===== verification/Frame.thy ===== *)
theory Frame
  imports GoStrings
begin

text \<open>
  The frame layer of the protocol (\<^verbatim>\<open>pkg/protocol/frame.go\<close>, \<^verbatim>\<open>types.go\<close>): an
  8-byte header (magic, version, type, payload length) followed by the payload. A reader is
  the list of bytes still to come on the connection; reading returns the result and what is
  left. Every read is bounded by a table of limits per frame type (XFER-01).
\<close>

section \<open>Reading a byte stream\<close>

text \<open>\<^verbatim>\<open>io.ReadFull\<close>: exactly \<open>n\<close> bytes, or \<^verbatim>\<open>io.EOF\<close> with nothing read, or
  \<^verbatim>\<open>io.ErrUnexpectedEOF\<close> once some bytes were.\<close>

datatype read_error = EOF | UnexpectedEOF

definition ReadFull :: "nat \<Rightarrow> bytes \<Rightarrow> (read_error + bytes) \<times> bytes" where
  "ReadFull n s =
     (if n \<le> length s then (Inr (take n s), drop n s)
      else (Inl (if s = [] then EOF else UnexpectedEOF), []))"

lemma ReadFull_append [wire]: "length a = n \<Longrightarrow> ReadFull n (a @ s) = (Inr a, s)"
  by (simp add: ReadFull_def)

lemma ReadFull_Inr: "ReadFull n s = (Inr a, r) \<longleftrightarrow> s = a @ r \<and> length a = n"
  by (auto simp: ReadFull_def split: if_splits)

section \<open>Header\<close>

definition MagicBytes :: "16 word" where "MagicBytes = 0x4D58"
definition Version1 :: byte where "Version1 = 0x01"
definition FrameHeaderSize :: nat where "FrameHeaderSize = 8"

definition TypeControl :: byte where "TypeControl = 0x10"
definition TypeDataJoin :: byte where "TypeDataJoin = 0x20"
definition DataJoinLen :: "32 word" where "DataJoinLen = 16"
definition MaxControl :: "32 word" where "MaxControl = 1048576"

record header =
  h_Type :: byte
  h_PayloadLen :: "32 word"

datatype frame_error =
    ErrRead read_error
  | ErrBadMagic
  | ErrBadVersion byte
  | ErrUnexpectedType byte
  | ErrFrameTooLarge "32 word" byte "32 word"

type_synonym limits = "byte \<rightharpoonup> 32 word"

definition EncodeHeader :: "header \<Rightarrow> bytes" where
  "EncodeHeader h = put16 MagicBytes @ [Version1] @ [h_Type h] @ put32 (h_PayloadLen h)"

definition ReadFrameHeader :: "bytes \<Rightarrow> limits \<Rightarrow> (frame_error + header) \<times> bytes" where
  "ReadFrameHeader r limits =
     (case ReadFull FrameHeaderSize r of
        (Inl e, r') \<Rightarrow> (Inl (ErrRead e), r')
      | (Inr buf, r') \<Rightarrow>
          if get16 (slice 0 2 buf) \<noteq> MagicBytes then (Inl ErrBadMagic, r')
          else if buf ! 2 \<noteq> Version1 then (Inl (ErrBadVersion (buf ! 2)), r')
          else
            let h = \<lparr>h_Type = buf ! 3, h_PayloadLen = get32 (slice 4 4 buf)\<rparr>
            in case limits (h_Type h) of
                 None \<Rightarrow> (Inl (ErrUnexpectedType (h_Type h)), r')
               | Some mx \<Rightarrow>
                   if mx < h_PayloadLen h
                   then (Inl (ErrFrameTooLarge (h_PayloadLen h) (h_Type h) mx), r')
                   else (Inr h, r'))"

section \<open>Frames\<close>

definition ReadFrame :: "bytes \<Rightarrow> limits \<Rightarrow> (frame_error + header \<times> bytes) \<times> bytes" where
  "ReadFrame r limits =
     (case ReadFrameHeader r limits of
        (Inl e, r') \<Rightarrow> (Inl e, r')
      | (Inr h, r') \<Rightarrow>
          (case ReadFull (unat (h_PayloadLen h)) r' of
             (Inl e, r'') \<Rightarrow> (Inl (ErrRead e), r'')
           | (Inr p, r'') \<Rightarrow> (Inr (h, p), r'')))"

definition AppendFrame :: "bytes \<Rightarrow> byte \<Rightarrow> bytes \<Rightarrow> bytes" where
  "AppendFrame dst typ payload =
     (dst @ EncodeHeader \<lparr>h_Type = typ, h_PayloadLen = of_nat (length payload)\<rparr>) @ payload"

text \<open>A connection's written bytes grow by the whole frame in one write.\<close>

definition WriteFrame :: "bytes \<Rightarrow> byte \<Rightarrow> bytes \<Rightarrow> bytes" where
  "WriteFrame w typ payload = w @ AppendFrame [] typ payload"

section \<open>Lemmas\<close>

lemma length_EncodeHeader [simp, wire]: "length (EncodeHeader h) = 8"
  by (simp add: EncodeHeader_def)

lemma length_AppendFrame [simp, wire]:
  "length (AppendFrame dst t p) = length dst + 8 + length p"
  by (simp add: AppendFrame_def)

lemma list8: "length (b :: 'a list) = 8 \<Longrightarrow>
  \<exists>b0 b1 b2 b3 b4 b5 b6 b7. b = [b0, b1, b2, b3, b4, b5, b6, b7]"
  by (simp add: numeral_eq_Suc length_Suc_conv) blast

lemma EncodeHeader_fields:
  "take 2 (EncodeHeader h) = put16 MagicBytes" "EncodeHeader h ! 2 = Version1"
  "EncodeHeader h ! 3 = h_Type h" "slice 4 4 (EncodeHeader h) = put32 (h_PayloadLen h)"
  by (simp_all add: EncodeHeader_def slice_def nth_append)

lemma EncodeHeader_parts:
  assumes "length buf = 8" and "get16 (slice 0 2 buf) = MagicBytes" and "buf ! 2 = Version1"
  shows "buf = EncodeHeader \<lparr>h_Type = buf ! 3, h_PayloadLen = get32 (slice 4 4 buf)\<rparr>"
proof -
  obtain b0 b1 b2 b3 b4 b5 b6 b7 where b: "buf = [b0, b1, b2, b3, b4, b5, b6, b7]"
    using list8 [OF assms(1)] by blast
  have "put16 MagicBytes = [b0, b1]"
    using put_get(1) [of "[b0, b1]"] assms(2) b by (simp add: slice_def)
  moreover have "put32 (get32 [b4, b5, b6, b7]) = [b4, b5, b6, b7]"
    by (rule put_get(2)) simp
  ultimately show ?thesis
    using assms(3) b by (simp add: EncodeHeader_def slice_def)
qed

text \<open>A header is accepted exactly when it is the encoding of a header within the limits.\<close>

lemma ReadFrameHeader_Inr:
  "ReadFrameHeader r limits = (Inr h, rest) \<longleftrightarrow>
     r = EncodeHeader h @ rest \<and> (\<exists>mx. limits (h_Type h) = Some mx \<and> h_PayloadLen h \<le> mx)"
  (is "?L \<longleftrightarrow> ?R")
proof
  assume L: ?L
  then obtain buf where buf: "ReadFull 8 r = (Inr buf, rest)"
    by (auto simp: ReadFrameHeader_def FrameHeaderSize_def Let_def
        split: prod.splits sum.splits if_splits option.splits)
  with L have g: "get16 (slice 0 2 buf) = MagicBytes" "buf ! 2 = Version1"
    and h: "h = \<lparr>h_Type = buf ! 3, h_PayloadLen = get32 (slice 4 4 buf)\<rparr>"
    and mx: "\<exists>mx. limits (h_Type h) = Some mx \<and> h_PayloadLen h \<le> mx"
    by (auto simp: ReadFrameHeader_def FrameHeaderSize_def Let_def split: if_splits option.splits)
  from buf have r: "r = buf @ rest" "length buf = 8" by (simp_all add: ReadFull_Inr)
  with EncodeHeader_parts [OF r(2) g] h mx show ?R by simp
next
  assume ?R
  then show ?L
    by (auto simp: ReadFrameHeader_def FrameHeaderSize_def ReadFull_append EncodeHeader_fields Let_def)
qed

lemma ReadFrame_Inr:
  "ReadFrame r limits = (Inr (h, p), rest) \<longleftrightarrow>
     r = EncodeHeader h @ p @ rest \<and> length p = unat (h_PayloadLen h) \<and>
     (\<exists>mx. limits (h_Type h) = Some mx \<and> h_PayloadLen h \<le> mx)"
proof -
  have "ReadFrame r limits = (Inr (h, p), rest) \<longleftrightarrow>
     (\<exists>r'. ReadFrameHeader r limits = (Inr h, r') \<and>
           ReadFull (unat (h_PayloadLen h)) r' = (Inr p, rest))"
    by (auto simp: ReadFrame_def split: prod.splits sum.splits)
  then show ?thesis
    by (auto simp: ReadFrameHeader_Inr ReadFull_Inr)
qed

lemma AppendFrame_fits:
  "length p < 2 ^ 32 \<Longrightarrow> unat (of_nat (length p) :: 32 word) = length p"
  by (simp add: unat_of_nat)

lemma ReadFrame_AppendFrame [wire]:
  assumes "limits t = Some mx" and "length p \<le> unat mx"
  shows "ReadFrame (AppendFrame [] t p @ rest) limits =
    (Inr (\<lparr>h_Type = t, h_PayloadLen = of_nat (length p)\<rparr>, p), rest)"
proof -
  have "length p < 2 ^ 32"
    using assms(2) by (rule order_le_less_trans) (simp add: order_less_le_trans [OF unsigned_less])
  with assms show ?thesis
    by (simp add: ReadFrame_Inr AppendFrame_def AppendFrame_fits word_le_nat_alt)
qed

lemma ReadFrame_iff:
  "ReadFrame r limits = (Inr (h, p), rest) \<longleftrightarrow>
     r = AppendFrame [] (h_Type h) p @ rest \<and> h_PayloadLen h = of_nat (length p) \<and>
     (\<exists>mx. limits (h_Type h) = Some mx \<and> length p \<le> unat mx)"
  (is "?L \<longleftrightarrow> ?R")
proof
  assume L: ?L
  then have "h_PayloadLen h = of_nat (length p)"
    by (simp add: ReadFrame_Inr)
  moreover from this have "EncodeHeader \<lparr>h_Type = h_Type h, h_PayloadLen = of_nat (length p)\<rparr> = EncodeHeader h"
    by (simp add: EncodeHeader_def)
  ultimately show ?R
    using L by (auto simp: ReadFrame_Inr AppendFrame_def word_le_nat_alt)
next
  assume R: ?R
  then have "h = \<lparr>h_Type = h_Type h, h_PayloadLen = of_nat (length p)\<rparr>" by simp
  with R ReadFrame_AppendFrame [of limits "h_Type h" _ p rest] show ?L by metis
qed

section \<open>Properties\<close>

text \<open>C20. Reading is the exact inverse of writing, within the limits and nowhere else: a frame
  is returned if and only if the stream starts with the bytes \<^verbatim>\<open>AppendFrame\<close> makes of that
  type and payload, the type is accepted at this point and the payload is no larger than
  its limit. So no accepted payload is ever larger than announced or allowed (XFER-01), and
  whatever follows the frame is left on the connection.\<close>

theorem frame_roundtrip:
  "ReadFrame r limits = (Inr (h, p), rest) \<longleftrightarrow>
     r = AppendFrame [] (h_Type h) p @ rest \<and> h_PayloadLen h = of_nat (length p) \<and>
     (\<exists>mx. limits (h_Type h) = Some mx \<and> length p \<le> unat mx)"
  by (rule ReadFrame_iff)

text \<open>A stream of frames written one after the other is read back frame by frame.\<close>

fun ReadFrames :: "nat \<Rightarrow> bytes \<Rightarrow> limits \<Rightarrow> (byte \<times> bytes) list" where
  "ReadFrames 0 r limits = []"
| "ReadFrames (Suc n) r limits =
     (case ReadFrame r limits of
        (Inl e, r') \<Rightarrow> []
      | (Inr (h, p), r') \<Rightarrow> (h_Type h, p) # ReadFrames n r' limits)"

lemma ReadFrames_written:
  "\<forall>(t, p) \<in> set fs. \<exists>mx. limits t = Some mx \<and> length p \<le> unat mx \<Longrightarrow>
   ReadFrames (length fs) (foldl (\<lambda>w (t, p). WriteFrame w t p) [] fs @ rest) limits = fs"
proof -
  have fold: "foldl (\<lambda>w (t, p). WriteFrame w t p) w fs =
      w @ concat (map (\<lambda>(t, p). AppendFrame [] t p) fs)" for w fs
    by (induction fs arbitrary: w) (auto simp: WriteFrame_def)
  show "\<forall>(t, p) \<in> set fs. \<exists>mx. limits t = Some mx \<and> length p \<le> unat mx \<Longrightarrow> ?thesis"
    unfolding fold
    by (induction fs) (auto simp: ReadFrame_AppendFrame)
qed

end
