(* ===== verification/Messages.thy ===== *)
theory Messages
  imports Frame
begin

text \<open>
  The data frames of a transfer (\<^verbatim>\<open>pkg/protocol/offer.go\<close>): chunk requests and
  answers, digests and the end of the transfer, each with its \<^verbatim>\<open>Append\<close> and
  \<^verbatim>\<open>Parse\<close> function, and the digest of a file. SHA-256 is the parameter
  \<open>sha\<close> of what uses it.
\<close>

section \<open>Constants\<close>

definition TypeChunkRequest :: byte where "TypeChunkRequest = 0x21"
definition TypeChunkData :: byte where "TypeChunkData = 0x22"
definition TypeChunkError :: byte where "TypeChunkError = 0x23"
definition TypeDigestRequest :: byte where "TypeDigestRequest = 0x24"
definition TypeDigest :: byte where "TypeDigest = 0x25"
definition TypeDone :: byte where "TypeDone = 0x26"

definition ChunkRequestLen :: nat where "ChunkRequestLen = 8"
definition ChunkDataHeaderLen :: nat where "ChunkDataHeaderLen = 44"
definition ChunkErrorLen :: nat where "ChunkErrorLen = 10"
definition DigestRequestLen :: nat where "DigestRequestLen = 4"
definition DigestLen :: nat where "DigestLen = 36"
definition DoneLen :: nat where "DoneLen = 1"
definition DigestIndex :: "32 word" where "DigestIndex = 0xFFFFFFFF"

definition ChunkErrRead :: "16 word" where "ChunkErrRead = 1"
definition ChunkErrSourceChanged :: "16 word" where "ChunkErrSourceChanged = 2"
definition ChunkErrNoSuchChunk :: "16 word" where "ChunkErrNoSuchChunk = 3"

definition DoneComplete :: byte where "DoneComplete = 0"
definition DonePartial :: byte where "DonePartial = 1"

lemmas message_types = TypeChunkRequest_def TypeChunkData_def TypeChunkError_def
  TypeDigestRequest_def TypeDigest_def TypeDone_def

lemmas message_lengths = ChunkRequestLen_def ChunkDataHeaderLen_def ChunkErrorLen_def
  DigestRequestLen_def DigestLen_def DoneLen_def

section \<open>Writing and reading each message\<close>

datatype parse_error =
    BadLength byte nat
  | BadAnnounce nat nat
  | UnknownType byte

definition AppendChunkRequest :: "bytes \<Rightarrow> 32 word \<Rightarrow> 32 word \<Rightarrow> bytes" where
  "AppendChunkRequest dst item index = AppendFrame dst TypeChunkRequest (put32 item @ put32 index)"

definition ParseChunkRequest :: "bytes \<Rightarrow> parse_error + 32 word \<times> 32 word" where
  "ParseChunkRequest p =
     (if length p \<noteq> ChunkRequestLen then Inl (BadLength TypeChunkRequest (length p))
      else Inr (get32 (slice 0 4 p), get32 (slice 4 4 p)))"

definition AppendChunkData ::
  "bytes \<Rightarrow> 32 word \<Rightarrow> 32 word \<Rightarrow> bytes \<Rightarrow> bytes \<Rightarrow> bytes" where
  "AppendChunkData dst item index hsum data =
     (let c = put32 item @ put32 index @ put32 (of_nat (length data)) @ hsum;
          h = EncodeHeader \<lparr>h_Type = TypeChunkData,
                            h_PayloadLen = of_nat (ChunkDataHeaderLen + length data)\<rparr> @ c
      in (dst @ h) @ data)"

definition ParseChunkData ::
  "bytes \<Rightarrow> parse_error + 32 word \<times> 32 word \<times> bytes \<times> bytes" where
  "ParseChunkData p =
     (if length p < ChunkDataHeaderLen then Inl (BadLength TypeChunkData (length p))
      else
        let item = get32 (slice 0 4 p); index = get32 (slice 4 4 p); n = get32 (slice 8 4 p);
            hsum = slice 12 32 p; data = drop ChunkDataHeaderLen p
        in if unat n \<noteq> length data then Inl (BadAnnounce (unat n) (length data))
           else Inr (item, index, hsum, data))"

definition AppendChunkError :: "bytes \<Rightarrow> 32 word \<Rightarrow> 32 word \<Rightarrow> 16 word \<Rightarrow> bytes" where
  "AppendChunkError dst item index code =
     AppendFrame dst TypeChunkError (put32 item @ put32 index @ put16 code)"

definition ParseChunkError :: "bytes \<Rightarrow> parse_error + 32 word \<times> 32 word \<times> 16 word" where
  "ParseChunkError p =
     (if length p \<noteq> ChunkErrorLen then Inl (BadLength TypeChunkError (length p))
      else Inr (get32 (slice 0 4 p), get32 (slice 4 4 p), get16 (slice 8 2 p)))"

definition AppendDigestRequest :: "bytes \<Rightarrow> 32 word \<Rightarrow> bytes" where
  "AppendDigestRequest dst item = AppendFrame dst TypeDigestRequest (put32 item)"

definition ParseDigestRequest :: "bytes \<Rightarrow> parse_error + 32 word" where
  "ParseDigestRequest p =
     (if length p \<noteq> DigestRequestLen then Inl (BadLength TypeDigestRequest (length p))
      else Inr (get32 p))"

definition AppendDigest :: "bytes \<Rightarrow> 32 word \<Rightarrow> bytes \<Rightarrow> bytes" where
  "AppendDigest dst item digest = AppendFrame dst TypeDigest (put32 item @ digest)"

definition ParseDigest :: "bytes \<Rightarrow> parse_error + 32 word \<times> bytes" where
  "ParseDigest p =
     (if length p \<noteq> DigestLen then Inl (BadLength TypeDigest (length p))
      else Inr (get32 (slice 0 4 p), drop 4 p))"

definition AppendDone :: "bytes \<Rightarrow> byte \<Rightarrow> bytes" where
  "AppendDone dst status = AppendFrame dst TypeDone [status]"

definition ParseDone :: "bytes \<Rightarrow> parse_error + byte" where
  "ParseDone p =
     (if length p \<noteq> DoneLen then Inl (BadLength TypeDone (length p)) else Inr (p ! 0))"

section \<open>The data messages together\<close>

text \<open>One type for the six messages, to state what writing and reading them have in common:
  \<open>append_msg\<close> and \<open>parse_msg\<close> only pick the function of the message's type.\<close>

datatype data_msg =
    ChunkRequest "32 word" "32 word"
  | ChunkData "32 word" "32 word" bytes bytes
  | ChunkError "32 word" "32 word" "16 word"
  | DigestRequest "32 word"
  | Digest "32 word" bytes
  | Done byte

fun append_msg :: "bytes \<Rightarrow> data_msg \<Rightarrow> bytes" where
  "append_msg dst (ChunkRequest i k) = AppendChunkRequest dst i k"
| "append_msg dst (ChunkData i k s d) = AppendChunkData dst i k s d"
| "append_msg dst (ChunkError i k c) = AppendChunkError dst i k c"
| "append_msg dst (DigestRequest i) = AppendDigestRequest dst i"
| "append_msg dst (Digest i d) = AppendDigest dst i d"
| "append_msg dst (Done s) = AppendDone dst s"

definition parse_msg :: "byte \<Rightarrow> bytes \<Rightarrow> parse_error + data_msg" where
  "parse_msg t p =
     (if t = TypeChunkRequest then map_sum id (\<lambda>(i, k). ChunkRequest i k) (ParseChunkRequest p)
      else if t = TypeChunkData then map_sum id (\<lambda>(i, k, s, d). ChunkData i k s d) (ParseChunkData p)
      else if t = TypeChunkError then map_sum id (\<lambda>(i, k, c). ChunkError i k c) (ParseChunkError p)
      else if t = TypeDigestRequest then map_sum id DigestRequest (ParseDigestRequest p)
      else if t = TypeDigest then map_sum id (\<lambda>(i, d). Digest i d) (ParseDigest p)
      else if t = TypeDone then map_sum id Done (ParseDone p)
      else Inl (UnknownType t))"

text \<open>A hash and a digest are 32 bytes (\<^verbatim>\<open>[32]byte\<close>), a chunk's data is far below 4 GiB.\<close>

fun msg_ok :: "data_msg \<Rightarrow> bool" where
  "msg_ok (ChunkData i k s d) \<longleftrightarrow> length s = 32 \<and> length d < 2 ^ 32 - 44"
| "msg_ok (Digest i d) \<longleftrightarrow> length d = 32"
| "msg_ok _ \<longleftrightarrow> True"

fun msg_type :: "data_msg \<Rightarrow> byte" where
  "msg_type (ChunkRequest _ _) = TypeChunkRequest"
| "msg_type (ChunkData _ _ _ _) = TypeChunkData"
| "msg_type (ChunkError _ _ _) = TypeChunkError"
| "msg_type (DigestRequest _) = TypeDigestRequest"
| "msg_type (Digest _ _) = TypeDigest"
| "msg_type (Done _) = TypeDone"

fun msg_payload :: "data_msg \<Rightarrow> bytes" where
  "msg_payload (ChunkRequest i k) = put32 i @ put32 k"
| "msg_payload (ChunkData i k s d) = put32 i @ put32 k @ put32 (of_nat (length d)) @ s @ d"
| "msg_payload (ChunkError i k c) = put32 i @ put32 k @ put16 c"
| "msg_payload (DigestRequest i) = put32 i"
| "msg_payload (Digest i d) = put32 i @ d"
| "msg_payload (Done s) = [s]"

lemma append_msg_frame: "msg_ok m \<Longrightarrow> append_msg dst m = AppendFrame dst (msg_type m) (msg_payload m)"
  by (cases m)
    (simp_all add: AppendChunkRequest_def AppendChunkData_def AppendChunkError_def
      AppendDigestRequest_def AppendDigest_def AppendDone_def AppendFrame_def message_lengths)

lemma parse_msg_payload: "msg_ok m \<Longrightarrow> parse_msg (msg_type m) (msg_payload m) = Inr m"
  by (cases m)
    (simp_all add: parse_msg_def message_types message_lengths slice_def ParseChunkRequest_def
      ParseChunkData_def ParseChunkError_def ParseDigestRequest_def ParseDigest_def ParseDone_def
      unat_of_nat Let_def)

text \<open>The payload's parts, cut at the offsets the parsers use, make the payload again.\<close>

lemma put32_slice: "off + 4 \<le> length p \<Longrightarrow> put32 (get32 (slice off 4 p)) = slice off 4 p"
  by (rule put_get(2)) simp

lemma put16_slice: "off + 2 \<le> length p \<Longrightarrow> put16 (get16 (slice off 2 p)) = slice off 2 p"
  by (rule put_get(1)) simp

lemma cut_cons: "slice off n p @ drop (off + n) p = drop off p"
  unfolding slice_def by (metis add.commute append_take_drop_id drop_drop)

lemma cut_8: "length p = 8 \<Longrightarrow> slice 0 4 p @ slice 4 4 p = p"
  using cut_cons [of 0 4 p] by (simp add: slice_def)

lemma cut_10: "length p = 10 \<Longrightarrow> slice 0 4 p @ slice 4 4 p @ slice 8 2 p = p"
  using cut_cons [of 0 4 p] cut_cons [of 4 4 p] by (simp add: slice_def)

lemma cut_44: "slice 0 4 p @ slice 4 4 p @ slice 8 4 p @ slice 12 32 p @ drop 44 p = p"
  using cut_cons [of 0 4 p] cut_cons [of 4 4 p] cut_cons [of 8 4 p] cut_cons [of 12 32 p]
  by simp

lemma ParseChunkRequest_Inr:
  "ParseChunkRequest p = Inr (i, k) \<Longrightarrow> p = put32 i @ put32 k"
  by (auto simp: ParseChunkRequest_def ChunkRequestLen_def put32_slice cut_8
      simp del: slice_0 split: if_splits)

lemma ParseChunkError_Inr:
  "ParseChunkError p = Inr (i, k, c) \<Longrightarrow> p = put32 i @ put32 k @ put16 c"
  by (auto simp: ParseChunkError_def ChunkErrorLen_def put32_slice put16_slice cut_10
      simp del: slice_0 split: if_splits)

lemma ParseChunkData_Inr:
  assumes "ParseChunkData p = Inr (i, k, s, d)"
  shows "p = put32 i @ put32 k @ put32 (of_nat (length d)) @ s @ d \<and> length s = 32 \<and> length p = 44 + length d"
proof -
  from assms have len: "44 \<le> length p" and n: "unat (get32 (slice 8 4 p)) = length d"
    and parts: "i = get32 (slice 0 4 p)" "k = get32 (slice 4 4 p)" "s = slice 12 32 p" "d = drop 44 p"
    by (auto simp: ParseChunkData_def ChunkDataHeaderLen_def Let_def simp del: slice_0 split: if_splits)
  have "put32 (of_nat (length d)) = slice 8 4 p"
    using len by (simp add: put32_slice flip: n)
  with len parts cut_44 [of p] show ?thesis
    by (simp add: put32_slice del: slice_0)
qed

lemma ParseDigestRequest_Inr: "ParseDigestRequest p = Inr i \<Longrightarrow> p = put32 i"
  by (auto simp: ParseDigestRequest_def DigestRequestLen_def put_get split: if_splits)

lemma ParseDigest_Inr: "ParseDigest p = Inr (i, d) \<Longrightarrow> p = put32 i @ d \<and> length d = 32"
  by (auto simp: ParseDigest_def DigestLen_def put_get split: if_splits)

lemma ParseDone_Inr: "ParseDone p = Inr s \<Longrightarrow> p = [s]"
  by (cases p) (auto simp: ParseDone_def DoneLen_def split: if_splits)

lemma map_sum_Inr: "map_sum id f r = Inr b \<longleftrightarrow> (\<exists>a. r = Inr a \<and> b = f a)"
  by (cases r) auto

lemma parse_payload:
  assumes "parse_msg t p = Inr m" and "length p < 2 ^ 32"
  shows "msg_ok m \<and> t = msg_type m \<and> p = msg_payload m"
proof -
  consider
      (creq) i k where "t = TypeChunkRequest" "ParseChunkRequest p = Inr (i, k)" "m = ChunkRequest i k"
    | (data) i k s d where "t = TypeChunkData" "ParseChunkData p = Inr (i, k, s, d)" "m = ChunkData i k s d"
    | (cerr) i k c where "t = TypeChunkError" "ParseChunkError p = Inr (i, k, c)" "m = ChunkError i k c"
    | (dreq) i where "t = TypeDigestRequest" "ParseDigestRequest p = Inr i" "m = DigestRequest i"
    | (dig) i d where "t = TypeDigest" "ParseDigest p = Inr (i, d)" "m = Digest i d"
    | (fin) s where "t = TypeDone" "ParseDone p = Inr s" "m = Done s"
    using assms(1) unfolding parse_msg_def
    by (simp only: map_sum_Inr sum.distinct split: if_splits) (elim exE conjE; force)+
  then show ?thesis
  proof cases
    case data
    with ParseChunkData_Inr [OF data(2)] assms(2) show ?thesis by simp
  qed (auto dest: ParseChunkRequest_Inr ParseChunkError_Inr ParseDigestRequest_Inr
      ParseDigest_Inr ParseDone_Inr)
qed

section \<open>Digest of a file\<close>

definition filedigest_input :: "bytes list \<Rightarrow> bytes" where
  "filedigest_input hashes =
     bytes_of ''medxfer-v1-filedigest'' @ put32 (of_nat (length hashes)) @ concat hashes"

definition FileDigest :: "(bytes \<Rightarrow> bytes) \<Rightarrow> bytes list \<Rightarrow> bytes" where
  "FileDigest sha hashes = sha (filedigest_input hashes)"

lemma concat_fixed_inject:
  assumes "\<forall>x \<in> set xs. length x = n" "\<forall>y \<in> set ys. length y = n" "0 < n"
    and "concat xs = concat ys"
  shows "xs = ys"
  using assms
proof (induction xs arbitrary: ys)
  case Nil
  then show ?case by (cases ys) auto
next
  case (Cons x xs)
  have x: "length x = n" and eq: "x @ concat xs = concat ys"
    using Cons.prems(1,4) by simp_all
  have "ys \<noteq> []" using x eq Cons.prems(3) by auto
  then obtain y ys' where ys: "ys = y # ys'" by (cases ys) blast+
  have y: "length y = n" using Cons.prems(2) ys by simp
  have "x = y \<and> concat xs = concat ys'"
    using eq x y by (simp add: ys)
  with Cons.IH [of ys'] Cons.prems(1-3) ys show ?case by simp
qed

lemma filedigest_input_inject:
  "\<forall>x \<in> set xs. length x = 32 \<Longrightarrow> \<forall>y \<in> set ys. length y = 32 \<Longrightarrow>
   filedigest_input xs = filedigest_input ys \<Longrightarrow> xs = ys"
  by (rule concat_fixed_inject [where n = 32]) (auto simp: filedigest_input_def)

section \<open>Properties\<close>

text \<open>C21. Every data message survives the wire, and nothing else is read as one: on any
  stream, reading a frame and parsing its payload gives message \<open>m\<close> exactly when the stream
  starts with the bytes that \<^verbatim>\<open>Append\<close> function of \<open>m\<close> writes, \<open>m\<close> is well formed and its
  frame is within the reader's limits.\<close>

theorem messages_roundtrip:
  "(\<exists>h p. ReadFrame r limits = (Inr (h, p), rest) \<and> parse_msg (h_Type h) p = Inr m) \<longleftrightarrow>
     msg_ok m \<and> r = append_msg [] m @ rest \<and>
     (\<exists>mx. limits (msg_type m) = Some mx \<and> length (msg_payload m) \<le> unat mx)"
  (is "?L \<longleftrightarrow> ?R")
proof
  assume ?L
  then obtain h p where rd: "ReadFrame r limits = (Inr (h, p), rest)"
    and m: "parse_msg (h_Type h) p = Inr m" by blast
  from rd obtain mx where mx: "limits (h_Type h) = Some mx" "length p \<le> unat mx"
    and r: "r = AppendFrame [] (h_Type h) p @ rest"
    by (auto simp: ReadFrame_iff)
  have "length p < 2 ^ 32"
    using mx(2) by (rule order_le_less_trans) (simp add: order_less_le_trans [OF unsigned_less])
  from parse_payload [OF m this] r mx show ?R
    by (auto simp: append_msg_frame)
next
  assume R: ?R
  then obtain mx where mx: "limits (msg_type m) = Some mx" "length (msg_payload m) \<le> unat mx" by blast
  show ?L
    using R ReadFrame_AppendFrame [of limits, OF mx, of rest] parse_msg_payload [of m]
    by (auto simp: append_msg_frame)
qed

text \<open>A file digest that matches means the same chunk hashes in the same number and
  order, unless the two hash inputs themselves are a collision of SHA-256: nothing in the
  encoding of the digest's input lets two different lists of 32-byte hashes coincide.\<close>

theorem file_digest_binds:
  assumes "FileDigest sha hs = FileDigest sha hs'"
    and "\<forall>x \<in> set hs. length x = 32" and "\<forall>x \<in> set hs'. length x = 32"
  shows "hs = hs' \<or>
    (filedigest_input hs \<noteq> filedigest_input hs' \<and> sha (filedigest_input hs) = sha (filedigest_input hs'))"
  using assms filedigest_input_inject [of hs hs'] by (auto simp: FileDigest_def)

theorem file_digest_binds_witness:
  "(let sha = \<lambda>b. replicate 32 (0 :: byte); h = replicate 32 (7 :: byte)
    in [h] = [h, h] \<or> (filedigest_input [h] \<noteq> filedigest_input [h, h] \<and>
        sha (filedigest_input [h]) = sha (filedigest_input [h, h])))"
  unfolding Let_def
  by (rule file_digest_binds) (simp_all add: FileDigest_def)

end
