(* ===== verification/Offer.thy ===== *)
theory Offer
  imports Messages
begin

text \<open>
  The offer of a transfer (\<^verbatim>\<open>pkg/protocol/offer.go\<close>): its validation by the receiver, and
  its pages. An \<^verbatim>\<open>int64\<close> is an \<open>int\<close> whose additions are wrapped where they can leave the
  range; the items come from JSON, so every size is in the range of \<^verbatim>\<open>int64\<close>.
\<close>

section \<open>Data\<close>

record offer_item =
  it_Item :: int
  it_Path :: string
  it_Size :: int
  it_MTime :: int

record offer =
  o_TransferID :: string
  o_Root :: string
  o_Items :: "offer_item list"
  o_TotalBytes :: int
  o_ChunkSize :: "32 word"
  o_Kind :: string
  o_Count :: int

definition MaxOfferItems :: nat where "MaxOfferItems = 100000"
definition MaxManifestBytes :: int where "MaxManifestBytes = 2 ^ 24"
definition MinChunkSize :: "32 word" where "MinChunkSize = 0x40000"
definition MaxChunkSize :: "32 word" where "MaxChunkSize = 0x800000"
definition maxPathBytes :: nat where "maxPathBytes = 1024"
definition KindBench :: string where "KindBench = ''bench''"

lemmas offer_limits = MaxOfferItems_def MaxManifestBytes_def MinChunkSize_def MaxChunkSize_def
  maxPathBytes_def KindBench_def

datatype offer_error =
    TooManyItems nat
  | UnknownKind string
  | BadChunkSize "32 word"
  | Misnumbered nat int
  | NegativeSize nat
  | BadPath nat
  | TooManyChunks nat
  | RepeatedPath nat
  | SizeOverflow nat
  | FileAndFolder
  | ManifestTooLarge int
  | WrongTotal int int
  | BadCount int nat
  | EmptyPage
  | MoreThanAnnounced int
  | ArrivesAs nat int

section \<open>Number of chunks\<close>

text \<open>\<^verbatim>\<open>uint32((sz + int64(chunkSize) - 1) / int64(chunkSize))\<close>: the additions wrap at 64
  bits and the conversion keeps the low 32 bits. Both callers have checked that the chunk
  sz is not 0.\<close>

definition Chunks :: "int \<Rightarrow> 32 word \<Rightarrow> 32 word" where
  "Chunks sz chunkSize =
     (if sz \<le> 0 then 0
      else word_of_int (wrap64 (wrap64 (sz + uint chunkSize) - 1) sdiv uint chunkSize))"

section \<open>Validation\<close>

definition path_key :: "(string \<Rightarrow> string) \<Rightarrow> string \<Rightarrow> string" where
  "path_key uni p = ToLower uni (to_slash p)"

text \<open>The loop over the slashes of a key: every folder above the file, unless it is empty.\<close>

function add_dirs :: "string \<Rightarrow> nat option \<Rightarrow> string set \<Rightarrow> string set" where
  "add_dirs key None dirs = dirs"
| "add_dirs key (Some j) dirs =
     (if 0 < j
      then add_dirs key (LastIndexByte (take j key) CHR ''/'') (insert (take j key) dirs)
      else dirs)"
  by pat_completeness auto
termination
  by (relation "measure (\<lambda>(key, j, dirs). case j of None \<Rightarrow> 0 | Some n \<Rightarrow> Suc n)")
    (auto split: option.splits dest: LastIndexByte_less)

fun validate_items ::
  "(string \<Rightarrow> string) \<Rightarrow> 32 word \<Rightarrow> nat \<Rightarrow> offer_item list \<Rightarrow> int \<Rightarrow> int \<Rightarrow> string set \<Rightarrow> string set
   \<Rightarrow> offer_error + int \<times> int \<times> string set \<times> string set" where
  "validate_items uni cs i [] tot manifest files dirs = Inr (tot, manifest, files, dirs)"
| "validate_items uni cs i (it # its) tot manifest files dirs =
     (if it_Item it \<noteq> int i then Inl (Misnumbered i (it_Item it))
      else if it_Size it < 0 then Inl (NegativeSize i)
      else if it_Path it = [] \<or> length (it_Path it) > maxPathBytes then Inl (BadPath i)
      else if Chunks (it_Size it) cs > 2 ^ 24 then Inl (TooManyChunks i)
      else
        let key = path_key uni (it_Path it) in
        if key \<in> files then Inl (RepeatedPath i)
        else if it_Size it > MaxInt64 - tot then Inl (SizeOverflow i)
        else validate_items uni cs (Suc i) its (tot + it_Size it)
               (manifest + int (length (it_Path it) + 64)) (insert key files)
               (add_dirs key (LastIndexByte key CHR ''/'') dirs))"

definition Validate :: "(string \<Rightarrow> string) \<Rightarrow> offer \<Rightarrow> offer_error + unit" where
  "Validate uni off =
     (if length (o_Items off) > MaxOfferItems then Inl (TooManyItems (length (o_Items off)))
      else if o_Kind off \<noteq> [] \<and> o_Kind off \<noteq> KindBench then Inl (UnknownKind (o_Kind off))
      else if o_ChunkSize off < MinChunkSize \<or> o_ChunkSize off > MaxChunkSize
        then Inl (BadChunkSize (o_ChunkSize off))
      else
        bind_res (validate_items uni (o_ChunkSize off) 0 (o_Items off) 0 0 {} {})
          (\<lambda>(tot, manifest, files, dirs).
             if \<exists>d \<in> dirs. d \<in> files then Inl FileAndFolder
             else if manifest > MaxManifestBytes then Inl (ManifestTooLarge manifest)
             else if tot \<noteq> o_TotalBytes off then Inl (WrongTotal (o_TotalBytes off) tot)
             else Inr ()))"

section \<open>Pages\<close>

text \<open>\<^verbatim>\<open>Split\<close>: the length of an item's JSON is the parameter \<open>jlen\<close>
  (\<^verbatim>\<open>json.Marshal\<close>).\<close>

fun split_loop ::
  "(offer_item \<Rightarrow> nat) \<Rightarrow> nat \<Rightarrow> offer_item list \<Rightarrow> offer_item list list \<Rightarrow> offer_item list \<Rightarrow> nat
   \<Rightarrow> offer_item list list \<times> offer_item list" where
  "split_loop jlen mx [] pages page sz = (pages, page)"
| "split_loop jlen mx (it # its) pages page sz =
     (if page \<noteq> [] \<and> sz + jlen it + 1 > mx
      then split_loop jlen mx its (pages @ [page]) [it] (jlen it + 1)
      else split_loop jlen mx its pages (page @ [it]) (sz + jlen it + 1))"

definition split_pages :: "(offer_item \<Rightarrow> nat) \<Rightarrow> nat \<Rightarrow> offer_item list \<Rightarrow> offer_item list list" where
  "split_pages jlen mx its =
     (case split_loop jlen mx its [] [] 0 of
        (pages, page) \<Rightarrow> if page \<noteq> [] \<or> pages = [] then pages @ [page] else pages)"

definition Split :: "(offer_item \<Rightarrow> nat) \<Rightarrow> nat \<Rightarrow> offer \<Rightarrow> offer \<times> offer_item list list" where
  "Split jlen maxBytes off =
     (let pages = split_pages jlen maxBytes (o_Items off)
      in (off\<lparr>o_Items := hd pages,
              o_Count := (if length pages > 1 then int (length (o_Items off)) else 0)\<rparr>, tl pages))"

definition CheckHead :: "offer \<Rightarrow> offer_error + unit" where
  "CheckHead off =
     (if o_Count off < 0 \<or> o_Count off > int MaxOfferItems \<or>
         (o_Count off > 0 \<and> int (length (o_Items off)) > o_Count off)
      then Inl (BadCount (o_Count off) (length (o_Items off))) else Inr ())"

definition Complete :: "offer \<Rightarrow> bool" where
  "Complete off \<longleftrightarrow> o_Count off = 0 \<or> int (length (o_Items off)) \<ge> o_Count off"

fun add_items :: "offer \<Rightarrow> offer_item list \<Rightarrow> (offer_error + unit) \<times> offer" where
  "add_items off [] = (Inr (), off)"
| "add_items off (it # its) =
     (if it_Item it \<noteq> int (length (o_Items off))
      then (Inl (ArrivesAs (length (o_Items off)) (it_Item it)), off)
      else add_items (off\<lparr>o_Items := o_Items off @ [it]\<rparr>) its)"

text \<open>The offer is the receiver of the method: the items before a refused one stay appended.\<close>

definition AddPage :: "offer \<Rightarrow> offer_item list \<Rightarrow> (offer_error + unit) \<times> offer" where
  "AddPage off items =
     (if items = [] then (Inl EmptyPage, off)
      else if o_Count off \<le> 0 \<or> o_Count off > int MaxOfferItems \<or>
              int (length (o_Items off) + length items) > o_Count off
        then (Inl (MoreThanAnnounced (o_Count off)), off)
      else add_items off items)"

section \<open>Lemmas: number of chunks\<close>

text \<open>The exact number of chunks, without any width.\<close>

definition chunk_count :: "int \<Rightarrow> 32 word \<Rightarrow> int" where
  "chunk_count sz cs = (sz + uint cs - 1) div uint cs"

lemma Chunks_exact:
  assumes "0 < cs" "0 \<le> sz" "sz + uint cs \<le> MaxInt64" "chunk_count sz cs < 2 ^ 32"
  shows "uint (Chunks sz cs) = chunk_count sz cs"
proof (cases "sz = 0")
  case True
  have "0 < uint cs" using assms(1) by (simp add: word_less_alt)
  with True show ?thesis by (simp add: Chunks_def chunk_count_def)
next
  case False
  have cs: "0 < uint cs" "uint cs < 2 ^ 32"
    using assms(1) unsigned_less [of cs] by (simp_all add: word_less_alt)
  have w: "wrap64 (wrap64 (sz + uint cs) - 1) = sz + uint cs - 1"
    using assms(2,3) cs by (simp add: wrap64_id in_int64_def)
  have "0 \<le> chunk_count sz cs"
    using assms(2) cs by (simp add: chunk_count_def pos_imp_zdiv_nonneg_iff)
  with assms(2,4) cs False show ?thesis
    by (simp add: Chunks_def w sdiv_nonneg chunk_count_def uint_word_of_int)
qed

lemma Chunks_zero [simp]: "Chunks 0 cs = 0"
  by (simp add: Chunks_def)

section \<open>Lemmas: validation\<close>

text \<open>\<open>folder_of d k\<close>: the key \<open>d\<close> names a folder above the file of key \<open>k\<close>.\<close>

definition folder_of :: "string \<Rightarrow> string \<Rightarrow> bool" where
  "folder_of d k \<longleftrightarrow> d \<noteq> [] \<and> (\<exists>r. k = d @ CHR ''/'' # r)"

lemma folder_of_take: "folder_of d k \<longleftrightarrow> (\<exists>j. 0 < j \<and> j < length k \<and> k ! j = CHR ''/'' \<and> d = take j k)"
proof
  assume "folder_of d k"
  then obtain r where "d \<noteq> []" "k = d @ CHR ''/'' # r" by (auto simp: folder_of_def)
  then show "\<exists>j. 0 < j \<and> j < length k \<and> k ! j = CHR ''/'' \<and> d = take j k"
    by (intro exI [of _ "length d"]) auto
next
  assume "\<exists>j. 0 < j \<and> j < length k \<and> k ! j = CHR ''/'' \<and> d = take j k"
  then obtain j where "0 < j" "j < length k" "k ! j = CHR ''/''" "d = take j k" by blast
  moreover from this have "k = take j k @ CHR ''/'' # drop (Suc j) k"
    using id_take_nth_drop [of j k] by simp
  ultimately show "folder_of d k" unfolding folder_of_def by (intro conjI exI) auto
qed

lemma folder_of_length:
  "folder_of d k \<Longrightarrow> 0 < length d \<and> length d < length k \<and> k ! length d = CHR ''/'' \<and> d = take (length d) k"
  by (auto simp: folder_of_def)

lemma add_dirs_take:
  "n \<le> length key \<Longrightarrow>
   add_dirs key (LastIndexByte (take n key) CHR ''/'') dirs = dirs \<union> {d. folder_of d key \<and> length d < n}"
proof (induction n arbitrary: dirs rule: less_induct)
  case (less n)
  have slash: "folder_of d key \<Longrightarrow> length d < n \<Longrightarrow> length d < length (take n key) \<and> take n key ! length d = CHR ''/''" for d
    using less.prems by (auto dest: folder_of_length)
  show ?case
  proof (cases "LastIndexByte (take n key) CHR ''/''")
    case None
    then have "CHR ''/'' \<notin> set (take n key)" by (simp add: LastIndexByte_None)
    with slash have none: "{d. folder_of d key \<and> length d < n} = {}" by (fastforce dest: nth_mem)
    show ?thesis unfolding none using None by simp
  next
    case (Some j)
    from LastIndexByte_Some [OF Some] less.prems
    have j: "j < n" "key ! j = CHR ''/''" and after: "CHR ''/'' \<notin> set (drop (Suc j) (take n key))" by auto
    have upto: "length d \<le> j" if "folder_of d key" "length d < n" for d
    proof (rule ccontr)
      assume "\<not> length d \<le> j"
      then obtain m where m: "length d = Suc j + m"
        using le_Suc_ex [of "Suc j" "length d"] by auto
      then have "drop (Suc j) (take n key) ! m = CHR ''/''"
        and "m < length (drop (Suc j) (take n key))"
        using slash [OF that] less.prems that by auto
      with after show False by (metis nth_mem)
    qed
    show ?thesis
    proof (cases "0 < j")
      case True
      have fj: "folder_of (take j key) key"
        using True j less.prems by (auto simp: folder_of_take)
      have "{d. folder_of d key \<and> length d < n} = insert (take j key) {d. folder_of d key \<and> length d < j}"
      proof (intro set_eqI iffI)
        fix d assume d: "d \<in> {d. folder_of d key \<and> length d < n}"
        then have "length d \<le> j" "d = take (length d) key"
          using upto folder_of_length [of d key] by auto
        with d show "d \<in> insert (take j key) {d. folder_of d key \<and> length d < j}"
          by (cases "length d = j") auto
      qed (use fj j less.prems in auto)
      with less.IH [OF j(1), of "insert (take j key) dirs"] True Some j less.prems show ?thesis
        by auto
    next
      case False
      with upto have none: "{d. folder_of d key \<and> length d < n} = {}"
        by (fastforce dest: folder_of_length)
      show ?thesis unfolding none using Some False by simp
    qed
  qed
qed

lemma add_dirs_eq: "add_dirs key (LastIndexByte key CHR ''/'') dirs = dirs \<union> {d. folder_of d key}"
  using add_dirs_take [of "length key" key dirs] by (auto dest: folder_of_length)

text \<open>What the loop asks of item \<open>i\<close> alone.\<close>

definition item_ok :: "32 word \<Rightarrow> nat \<Rightarrow> offer_item \<Rightarrow> bool" where
  "item_ok cs i it \<longleftrightarrow> it_Item it = int i \<and> 0 \<le> it_Size it \<and> it_Path it \<noteq> [] \<and>
     length (it_Path it) \<le> maxPathBytes \<and> Chunks (it_Size it) cs \<le> 2 ^ 24"

abbreviation sizes :: "offer_item list \<Rightarrow> int" where
  "sizes its \<equiv> sum_list (map it_Size its)"

abbreviation manifest_bytes :: "offer_item list \<Rightarrow> int" where
  "manifest_bytes its \<equiv> sum_list (map (\<lambda>it. int (length (it_Path it) + 64)) its)"

abbreviation keys :: "(string \<Rightarrow> string) \<Rightarrow> offer_item list \<Rightarrow> string list" where
  "keys uni its \<equiv> map (\<lambda>it. path_key uni (it_Path it)) its"

lemma sizes_nonneg: "\<forall>k < length its. item_ok cs (i + k) (its ! k) \<Longrightarrow> 0 \<le> sizes its"
  by (rule sum_list_nonneg) (auto simp: item_ok_def in_set_conv_nth)

lemma all_less_Cons:
  "(\<forall>k < length (x # xs). P (i + k) ((x # xs) ! k)) \<longleftrightarrow> P i x \<and> (\<forall>k < length xs. P (Suc i + k) (xs ! k))"
  by (auto simp: less_Suc_eq_0_disj)

lemma validate_items_Inr:
  "validate_items uni cs i its tot man files dirs = Inr r \<longleftrightarrow>
     (\<forall>k < length its. item_ok cs (i + k) (its ! k)) \<and> distinct (keys uni its) \<and>
     set (keys uni its) \<inter> files = {} \<and> (its = [] \<or> tot + sizes its \<le> MaxInt64) \<and>
     r = (tot + sizes its, man + manifest_bytes its, files \<union> set (keys uni its),
          dirs \<union> {d. \<exists>k \<in> set (keys uni its). folder_of d k})"
proof (induction its arbitrary: i tot man files dirs)
  case Nil
  then show ?case by auto
next
  case (Cons it its)
  let ?key = "path_key uni (it_Path it)"
  let ?dirs = "dirs \<union> {d. folder_of d ?key}"
  have head: "validate_items uni cs i (it # its) tot man files dirs = Inr r \<longleftrightarrow>
     item_ok cs i it \<and> ?key \<notin> files \<and> tot + it_Size it \<le> MaxInt64 \<and>
     validate_items uni cs (Suc i) its (tot + it_Size it) (man + int (length (it_Path it) + 64))
       (insert ?key files) ?dirs = Inr r"
    by (auto simp: item_ok_def Let_def add_dirs_eq not_less not_le)
  show ?case
  proof (cases "\<forall>k < length its. item_ok cs (Suc i + k) (its ! k)")
    case True
    then have "0 \<le> sizes its" by (rule sizes_nonneg)
    then have tots: "tot + it_Size it \<le> MaxInt64 \<and> (its = [] \<or> tot + it_Size it + sizes its \<le> MaxInt64)
        \<longleftrightarrow> tot + sizes (it # its) \<le> MaxInt64"
      by (cases its) auto
    have d: "distinct (keys uni (it # its)) \<longleftrightarrow> ?key \<notin> set (keys uni its) \<and> distinct (keys uni its)"
      "set (keys uni (it # its)) \<inter> files = {} \<longleftrightarrow> ?key \<notin> files \<and> set (keys uni its) \<inter> files = {}"
      "set (keys uni its) \<inter> insert ?key files = {} \<longleftrightarrow> ?key \<notin> set (keys uni its) \<and> set (keys uni its) \<inter> files = {}"
      by auto
    have r: "(tot + it_Size it + sizes its, man + int (length (it_Path it) + 64) + manifest_bytes its,
        insert ?key files \<union> set (keys uni its), ?dirs \<union> {d. \<exists>k \<in> set (keys uni its). folder_of d k}) =
      (tot + sizes (it # its), man + manifest_bytes (it # its), files \<union> set (keys uni (it # its)),
        dirs \<union> {d. \<exists>k \<in> set (keys uni (it # its)). folder_of d k})"
      by (auto simp: add.assoc)
    have step: "validate_items uni cs (Suc i) its (tot + it_Size it)
         (man + int (length (it_Path it) + 64)) (insert ?key files) ?dirs = Inr r \<longleftrightarrow>
       (\<forall>k < length its. item_ok cs (Suc i + k) (its ! k)) \<and> distinct (keys uni its) \<and>
       ?key \<notin> set (keys uni its) \<and> set (keys uni its) \<inter> files = {} \<and>
       (its = [] \<or> tot + it_Size it + sizes its \<le> MaxInt64) \<and>
       r = (tot + sizes (it # its), man + manifest_bytes (it # its), files \<union> set (keys uni (it # its)),
        dirs \<union> {d. \<exists>k \<in> set (keys uni (it # its)). folder_of d k})"
      unfolding Cons.IH d(3) r by blast
    show ?thesis
      using tots by (simp only: head step all_less_Cons d(1,2) list.distinct simp_thms) blast
  next
    case False
    then show ?thesis unfolding head Cons.IH all_less_Cons by blast
  qed
qed

text \<open>What an acceptable offer is, without any loop.\<close>

definition valid_offer :: "(string \<Rightarrow> string) \<Rightarrow> offer \<Rightarrow> bool" where
  "valid_offer uni off \<longleftrightarrow>
     (let its = o_Items off in
      length its \<le> MaxOfferItems \<and> o_Kind off \<in> {[], KindBench} \<and>
      MinChunkSize \<le> o_ChunkSize off \<and> o_ChunkSize off \<le> MaxChunkSize \<and>
      (\<forall>i < length its. item_ok (o_ChunkSize off) i (its ! i)) \<and>
      distinct (keys uni its) \<and>
      (\<forall>a \<in> set its. \<forall>b \<in> set its.
         \<not> folder_of (path_key uni (it_Path a)) (path_key uni (it_Path b))) \<and>
      manifest_bytes its \<le> MaxManifestBytes \<and>
      sizes its = o_TotalBytes off \<and> sizes its \<le> MaxInt64)"

lemma Validate_Inr: "Validate uni off = Inr () \<longleftrightarrow> valid_offer uni off"
proof -
  have "Validate uni off = Inr () \<longleftrightarrow>
    length (o_Items off) \<le> MaxOfferItems \<and> o_Kind off \<in> {[], KindBench} \<and>
    MinChunkSize \<le> o_ChunkSize off \<and> o_ChunkSize off \<le> MaxChunkSize \<and>
    (\<exists>r. validate_items uni (o_ChunkSize off) 0 (o_Items off) 0 0 {} {} = Inr r \<and>
       (case r of (tot, man, files, dirs) \<Rightarrow>
          \<not> (\<exists>d \<in> dirs. d \<in> files) \<and> man \<le> MaxManifestBytes \<and> tot = o_TotalBytes off))"
    unfolding Validate_def
    by (cases "validate_items uni (o_ChunkSize off) 0 (o_Items off) 0 0 {} {}")
      (auto simp: not_less not_le split: prod.splits if_splits)
  then show ?thesis
    unfolding validate_items_Inr valid_offer_def Let_def by auto
qed

text \<open>The exact number of chunks of an accepted item, as long as it can be counted in 32 bits.\<close>

lemma chunk_count_room:
  assumes "0 \<le> sz" "MinChunkSize \<le> cs" "cs \<le> MaxChunkSize" "chunk_count sz cs < 2 ^ 32"
  shows "sz + uint cs \<le> MaxInt64"
proof -
  have cs: "2 ^ 18 \<le> uint cs" "uint cs \<le> 2 ^ 23"
    using assms(2,3) by (simp_all add: word_le_def MinChunkSize_def MaxChunkSize_def)
  have "sz + uint cs - 1 = chunk_count sz cs * uint cs + (sz + uint cs - 1) mod uint cs"
    by (simp add: chunk_count_def)
  also have "\<dots> \<le> (2 ^ 32 - 1) * uint cs + (uint cs - 1)"
    using assms(4) cs pos_mod_bound [of "uint cs" "sz + uint cs - 1"]
    by (intro add_mono mult_right_mono) simp_all
  also have "\<dots> \<le> (2 ^ 32 - 1) * 2 ^ 23 + (2 ^ 23 - 1)"
    using cs by simp
  finally show ?thesis by simp
qed

lemma accepted_item:
  assumes "Validate uni off = Inr ()" and "it \<in> set (o_Items off)"
  shows "0 \<le> it_Size it" "MinChunkSize \<le> o_ChunkSize off" "o_ChunkSize off \<le> MaxChunkSize"
    "Chunks (it_Size it) (o_ChunkSize off) \<le> 2 ^ 24"
  using assms by (auto simp: Validate_Inr valid_offer_def Let_def item_ok_def in_set_conv_nth)

section \<open>Lemmas: pages\<close>

abbreviation page_bytes :: "(offer_item \<Rightarrow> nat) \<Rightarrow> offer_item list \<Rightarrow> nat" where
  "page_bytes jlen p \<equiv> sum_list (map (\<lambda>it. jlen it + 1) p)"

definition page_ok :: "(offer_item \<Rightarrow> nat) \<Rightarrow> nat \<Rightarrow> offer_item list \<Rightarrow> bool" where
  "page_ok jlen mx p \<longleftrightarrow> p \<noteq> [] \<and> (length p = 1 \<or> page_bytes jlen p \<le> mx)"

definition split_inv ::
  "(offer_item \<Rightarrow> nat) \<Rightarrow> nat \<Rightarrow> offer_item list \<Rightarrow> offer_item list list \<times> offer_item list \<Rightarrow> bool" where
  "split_inv jlen mx its r \<longleftrightarrow> (case r of (pages, page) \<Rightarrow>
     concat pages @ page = its \<and> (\<forall>p \<in> set pages. page_ok jlen mx p) \<and>
     (page \<noteq> [] \<longrightarrow> page_ok jlen mx page) \<and> (page = [] \<longrightarrow> pages = []))"

lemma split_loop_inv:
  "split_inv jlen mx done_its (pages, page) \<Longrightarrow> sz = page_bytes jlen page \<Longrightarrow>
   split_inv jlen mx (done_its @ its) (split_loop jlen mx its pages page sz)"
proof (induction its arbitrary: done_its pages page sz)
  case (Cons it its)
  show ?case
  proof (cases "page \<noteq> [] \<and> sz + jlen it + 1 > mx")
    case True
    with Cons.prems have "split_inv jlen mx (done_its @ [it]) (pages @ [page], [it])"
      by (auto simp: split_inv_def page_ok_def)
    from Cons.IH [OF this, of "jlen it + 1"] True show ?thesis by simp
  next
    case False
    with Cons.prems have "split_inv jlen mx (done_its @ [it]) (pages, page @ [it])"
      by (auto simp: split_inv_def page_ok_def)
    from Cons.IH [OF this, of "sz + jlen it + 1"] False Cons.prems(2) show ?thesis by auto
  qed
qed simp

lemma split_pages_spec:
  "concat (split_pages jlen mx its) = its \<and> split_pages jlen mx its \<noteq> [] \<and>
   (its = [] \<longrightarrow> split_pages jlen mx its = [[]]) \<and>
   (its \<noteq> [] \<longrightarrow> (\<forall>p \<in> set (split_pages jlen mx its). page_ok jlen mx p))"
proof -
  obtain pages page where sp: "split_loop jlen mx its [] [] 0 = (pages, page)"
    by (cases "split_loop jlen mx its [] [] 0")
  have "split_inv jlen mx its (pages, page)"
    using split_loop_inv [of jlen mx "[]" "[]" "[]" 0 its] by (simp add: sp split_inv_def)
  then show ?thesis
    unfolding split_pages_def sp by (cases page) (auto simp: split_inv_def)
qed

lemma Split_items:
  "Split jlen mx off = (head, pages) \<Longrightarrow> o_Items head @ concat pages = o_Items off"
  using split_pages_spec [of jlen mx "o_Items off"]
  by (cases "split_pages jlen mx (o_Items off)") (auto simp: Split_def Let_def)

lemma add_items_numbered:
  "\<forall>k < length its. it_Item (its ! k) = int (length (o_Items off) + k) \<Longrightarrow>
   add_items off its = (Inr (), off\<lparr>o_Items := o_Items off @ its\<rparr>)"
proof (induction its arbitrary: off)
  case (Cons it its)
  have "it_Item it = int (length (o_Items off))" using Cons.prems by auto
  moreover have "\<forall>k < length its. it_Item (its ! k) = int (length (o_Items off) + Suc k)"
    using Cons.prems by auto
  ultimately show ?case using Cons.IH [of "off\<lparr>o_Items := o_Items off @ [it]\<rparr>"] by simp
qed simp

lemma add_items_Inr:
  "add_items off its = (Inr (), off') \<Longrightarrow> off' = off\<lparr>o_Items := o_Items off @ its\<rparr>"
  by (induction off its rule: add_items.induct) (auto split: if_splits)

lemma AddPage_Inr:
  assumes "AddPage off its = (Inr (), off')"
  shows "its \<noteq> [] \<and> off' = off\<lparr>o_Items := o_Items off @ its\<rparr> \<and> 0 < o_Count off \<and>
    o_Count off \<le> int MaxOfferItems \<and> int (length (o_Items off')) \<le> o_Count off"
proof -
  from assms have a: "add_items off its = (Inr (), off')" and c: "its \<noteq> []" "0 < o_Count off"
    "o_Count off \<le> int MaxOfferItems" "int (length (o_Items off) + length its) \<le> o_Count off"
    by (auto simp: AddPage_def split: if_splits)
  show ?thesis using add_items_Inr [OF a] c by simp
qed

section \<open>Properties\<close>

text \<open>C22. Validation is complete and sound: the loop with its running totals, its set of paths
  and its set of folders accepts an offer exactly when the offer is within the limits, its
  items are numbered from 0, no two items have the same path (either separator, letter case
  aside), no file is a folder above another, and the sizes add up to the total in 64 bits.\<close>

theorem offer_validation: "Validate uni off = Inr () \<longleftrightarrow> valid_offer uni off"
  by (rule Validate_Inr)


definition small_offer :: offer where
  "small_offer = \<lparr>o_TransferID = [], o_Root = ''a'',
     o_Items = [\<lparr>it_Item = 0, it_Path = ''d/a'', it_Size = 300000, it_MTime = 0\<rparr>,
                \<lparr>it_Item = 1, it_Path = ''d/b'', it_Size = 0, it_MTime = 0\<rparr>],
     o_TotalBytes = 300000, o_ChunkSize = 0x40000, o_Kind = [], o_Count = 0\<rparr>"

lemma small_offer_valid: "Validate id small_offer = Inr ()"
  by (simp add: Validate_def small_offer_def offer_limits path_key_def ToLower_def to_slash_def
      ascii_def lower_char_def backslash_def Chunks_def wrap64_def signed_divide_int_def Let_def)


text \<open>The limit of \<open>2^24\<close> chunks does not hold beyond that: \<^verbatim>\<open>Chunks\<close> keeps the low 32
  bits of the count, so an offer of one item of \<open>2^50\<close> bytes in chunks of 256 KiB, which has
  \<open>2^32\<close> chunks, is accepted, and its number of chunks is taken to be 0.\<close>

definition huge_offer :: offer where
  "huge_offer = \<lparr>o_TransferID = [], o_Root = ''a'',
     o_Items = [\<lparr>it_Item = 0, it_Path = ''a'', it_Size = 2 ^ 50, it_MTime = 0\<rparr>],
     o_TotalBytes = 2 ^ 50, o_ChunkSize = 0x40000, o_Kind = [], o_Count = 0\<rparr>"

theorem chunk_limit_wraps:
  "Validate uni huge_offer = Inr () \<and> Chunks (2 ^ 50) (o_ChunkSize huge_offer) = 0 \<and>
   chunk_count (2 ^ 50) (o_ChunkSize huge_offer) = 2 ^ 32"
  by (simp add: Validate_def huge_offer_def offer_limits path_key_def ToLower_def to_slash_def
      ascii_def lower_char_def backslash_def Chunks_def wrap64_def signed_divide_int_def chunk_count_def Let_def)

end
