(* ===== verification/SafePath.thy ===== *)
theory SafePath
  imports GoStrings
begin

text \<open>
  Paths given by a peer (\<^verbatim>\<open>pkg/engine/safepath.go\<close>) and the names a file gets when its own
  is taken (\<^verbatim>\<open>pkg/engine/collision.go\<close>). \<open>uni\<close> and \<open>upp\<close> are the Unicode tables of
  \<^verbatim>\<open>strings.ToLower\<close> and \<^verbatim>\<open>strings.ToUpper\<close> beyond ASCII.
\<close>

section \<open>Safe relative paths\<close>

datatype path_error =
    EmptyOrTooLong
  | Absolute
  | BadComponent string
  | ComponentTooLong
  | ControlChar
  | ReservedChar
  | TrailingDotOrSpace
  | ReservedName

definition maxPathLen :: nat where "maxPathLen = 1024"
definition maxComponentLen :: nat where "maxComponentLen = 255"

definition hasControlChar :: "string \<Rightarrow> bool" where
  "hasControlChar s \<longleftrightarrow> list_ex (\<lambda>c. (of_char c :: nat) < 0x20 \<or> (of_char c :: nat) = 0x7f) s"

definition ToUpper :: "(string \<Rightarrow> string) \<Rightarrow> string \<Rightarrow> string" where
  "ToUpper upp s = (if list_all ascii s then map upper_char s else upp s)"

definition trim_right_spaces :: "string \<Rightarrow> string" where
  "trim_right_spaces s = rev (dropWhile (\<lambda>c. c = CHR '' '') (rev s))"

definition isWindowsReserved :: "(string \<Rightarrow> string) \<Rightarrow> string \<Rightarrow> bool" where
  "isWindowsReserved upp c =
     (let base0 = (case IndexByte c CHR ''.'' of Some i \<Rightarrow> take i c | None \<Rightarrow> c);
          base = ToUpper upp (trim_right_spaces base0)
      in if base \<in> {''CON'', ''PRN'', ''AUX'', ''NUL''} then True
         else if length base = 4 \<and> (prefix ''COM'' base \<or> prefix ''LPT'' base)
         then 49 \<le> (of_char (base ! 3) :: nat) \<and> (of_char (base ! 3) :: nat) \<le> 57 \<comment> \<open>'1' to '9'\<close>
         else False)"

definition reservedChars :: string where
  "reservedChars = [CHR '':'', CHR ''*'', CHR ''?'', CHR 0x22, CHR ''<'', CHR ''>'', CHR ''|'']"

fun check_parts :: "(string \<Rightarrow> string) \<Rightarrow> bool \<Rightarrow> string list \<Rightarrow> path_error + unit" where
  "check_parts upp windowsRules [] = Inr ()"
| "check_parts upp windowsRules (c # cs) =
     (if c = [] \<or> c = ''.'' \<or> c = ''..'' then Inl (BadComponent c)
      else if length c > maxComponentLen then Inl ComponentTooLong
      else if hasControlChar c then Inl ControlChar
      else if windowsRules \<and> list_ex (\<lambda>x. x \<in> set reservedChars) c then Inl ReservedChar
      else if windowsRules \<and> (last c = CHR ''.'' \<or> last c = CHR '' '') then Inl TrailingDotOrSpace
      else if windowsRules \<and> isWindowsReserved upp c then Inl ReservedName
      else check_parts upp windowsRules cs)"

definition safeRelPath :: "(string \<Rightarrow> string) \<Rightarrow> string \<Rightarrow> bool \<Rightarrow> path_error + string" where
  "safeRelPath upp p windowsRules =
     (if p = [] \<or> length p > maxPathLen \<or> CHR 0x00 \<in> set p then Inl EmptyOrTooLong
      else
        let q = to_slash p in
        if prefix ''/'' q then Inl Absolute
        else
          let parts = split_on CHR ''/'' q in
          bind_res (check_parts upp windowsRules parts) (\<lambda>_. Inr (join CHR ''/'' parts)))"

text \<open>\<^verbatim>\<open>runtime.GOOS\<close> is the device's system.\<close>

definition SafeRelPath :: "(string \<Rightarrow> string) \<Rightarrow> string \<Rightarrow> string \<Rightarrow> path_error + string" where
  "SafeRelPath upp goos p = safeRelPath upp p (goos = ''windows'')"

section \<open>Names of a collision\<close>

definition multiExts :: "string list" where
  "multiExts = [''.tar.gz'', ''.tar.bz2'', ''.tar.xz'', ''.tar.zst'']"

fun split_multi :: "string \<Rightarrow> string \<Rightarrow> string list \<Rightarrow> (string \<times> string) option" where
  "split_multi fileName lower [] = None"
| "split_multi fileName lower (m # ms) =
     (if suffix m lower
      then Some (take (length fileName - length m) fileName, drop (length fileName - length m) fileName)
      else split_multi fileName lower ms)"

definition SplitNameAndExt :: "(string \<Rightarrow> string) \<Rightarrow> string \<Rightarrow> string \<times> string \<times> string" where
  "SplitNameAndExt uni relPath =
     (let norm = to_slash relPath;
          dir = (if path_Dir norm = ''.'' then [] else path_Dir norm);
          fileName = path_Base norm
      in case split_multi fileName (ToLower uni fileName) multiExts of
           Some (base, ext) \<Rightarrow> (dir, base, ext)
         | None \<Rightarrow>
             let ext = path_Ext fileName;
                 base = take (length fileName - length ext) fileName
             in if base = [] then (dir, fileName, []) else (dir, base, ext))"

definition FormatCandidateName :: "string \<Rightarrow> string \<Rightarrow> nat \<Rightarrow> string \<Rightarrow> string" where
  "FormatCandidateName dir base count ext =
     (let name = (if count = 0 then base @ ext else base @ '' ('' @ dec count @ '')'' @ ext)
      in if dir \<noteq> [] \<and> dir \<noteq> ''.'' then path_Join dir name else name)"

section \<open>Lemmas: safe paths\<close>

definition part_ok :: "(string \<Rightarrow> string) \<Rightarrow> bool \<Rightarrow> string \<Rightarrow> bool" where
  "part_ok upp win c \<longleftrightarrow>
     c \<noteq> [] \<and> c \<noteq> ''.'' \<and> c \<noteq> ''..'' \<and> length c \<le> maxComponentLen \<and> \<not> hasControlChar c \<and>
     (win \<longrightarrow> set c \<inter> set reservedChars = {} \<and> last c \<notin> {CHR ''.'', CHR '' ''} \<and>
             \<not> isWindowsReserved upp c)"

lemma check_parts_Inr: "check_parts upp win cs = Inr () \<longleftrightarrow> (\<forall>c \<in> set cs. part_ok upp win c)"
  by (induction cs) (auto simp: part_ok_def list_ex_iff not_less)

lemma join_no_NUL: "\<forall>c \<in> set (split_on CHR ''/'' q). \<not> hasControlChar c \<Longrightarrow> CHR 0x00 \<notin> set q"
proof (induction q)
  case (Cons x q)
  obtain r rs where r: "split_on CHR ''/'' q = r # rs"
    using split_on_not_Nil by (cases "split_on CHR ''/'' q") auto
  with Cons show ?case
    by (cases "x = CHR ''/''") (auto simp: hasControlChar_def)
qed simp

lemma NUL_to_slash: "CHR 0x00 \<in> set (to_slash p) \<longleftrightarrow> CHR 0x00 \<in> set p"
  by (auto simp: to_slash_def backslash_def image_iff split: if_splits)

lemma prefix_slash: "prefix ''/'' q \<longleftrightarrow> (\<exists>cs. split_on CHR ''/'' q = [] # cs \<and> q \<noteq> [])"
proof (cases q)
  case (Cons x r)
  then show ?thesis by (auto split: list.splits)
qed simp

lemma safeRelPath_Inr:
  "safeRelPath upp p win = Inr q \<longleftrightarrow>
     q = to_slash p \<and> length p \<le> maxPathLen \<and>
     (\<forall>c \<in> set (split_on CHR ''/'' q). part_ok upp win c)"
proof
  assume "safeRelPath upp p win = Inr q"
  then show "q = to_slash p \<and> length p \<le> maxPathLen \<and>
      (\<forall>c \<in> set (split_on CHR ''/'' q). part_ok upp win c)"
    unfolding safeRelPath_def Let_def
    by (simp add: bind_res_Inr check_parts_Inr split: if_splits)
next
  assume R: "q = to_slash p \<and> length p \<le> maxPathLen \<and>
      (\<forall>c \<in> set (split_on CHR ''/'' q). part_ok upp win c)"
  then have ok: "check_parts upp win (split_on CHR ''/'' (to_slash p)) = Inr ()"
    by (simp add: check_parts_Inr)
  from R have parts: "\<forall>c \<in> set (split_on CHR ''/'' (to_slash p)). c \<noteq> [] \<and> \<not> hasControlChar c"
    by (simp add: part_ok_def)
  have ne: "p \<noteq> []"
  proof
    assume "p = []"
    with parts show False by (simp add: to_slash_def)
  qed
  have nul: "CHR 0x00 \<notin> set p"
    using parts join_no_NUL [of "to_slash p"] NUL_to_slash [of p] by blast
  have "\<not> prefix ''/'' (to_slash p)"
  proof
    assume "prefix ''/'' (to_slash p)"
    then obtain cs where "split_on CHR ''/'' (to_slash p) = [] # cs"
      unfolding prefix_slash by blast
    with parts show False by simp
  qed
  with R ok ne nul show "safeRelPath upp p win = Inr q"
    by (simp add: safeRelPath_def Let_def)
qed

lemma part_ok_plain:
  assumes "part_ok upp win c" and "CHR ''/'' \<notin> set c"
  shows "plain_part c"
  using assms unfolding part_ok_def plain_part_def by simp

lemma safe_parts_plain:
  "safeRelPath upp p win = Inr q \<Longrightarrow> \<forall>c \<in> set (split_on CHR ''/'' q). plain_part c"
  unfolding safeRelPath_Inr using part_ok_plain split_on_no_sep by blast

text \<open>A clean relative path: what \<^verbatim>\<open>SafeRelPath\<close> returns is one.\<close>

definition clean_rel :: "string \<Rightarrow> bool" where
  "clean_rel p \<longleftrightarrow> (\<forall>c \<in> set (split_on CHR ''/'' p). plain_part c) \<and> backslash \<notin> set p"

lemma safe_clean_rel: "safeRelPath upp p win = Inr q \<Longrightarrow> clean_rel q"
  using safe_parts_plain [of upp p win q] backslash_to_slash [of p]
  unfolding clean_rel_def safeRelPath_Inr by metis

lemma join_append:
  "xs \<noteq> [] \<Longrightarrow> ys \<noteq> [] \<Longrightarrow> join c (xs @ ys) = join c xs @ c # join c ys"
  by (induction c xs rule: join.induct) (auto simp: join_Cons)

lemma path_Join_plain:
  assumes "clean_rel a" "clean_rel b"
  shows "path_Join a b = a @ CHR ''/'' # b"
proof -
  let ?ps = "split_on CHR ''/'' a @ split_on CHR ''/'' b"
  have j: "join CHR ''/'' ?ps = a @ CHR ''/'' # b" by (simp add: join_append)
  have "path_Clean (join CHR ''/'' ?ps) = join CHR ''/'' ?ps"
    using assms by (intro path_Clean_plain) (auto simp: clean_rel_def)
  then have eq: "path_Clean (a @ CHR ''/'' # b) = a @ CHR ''/'' # b" unfolding j .
  have "a \<noteq> []" "b \<noteq> []"
    using assms unfolding clean_rel_def plain_part_def by (metis split_on.simps(1) list.set_intros(1))+
  then show ?thesis unfolding path_Join_def using eq by simp
qed

section \<open>Properties\<close>

text \<open>C40. A peer's path is accepted exactly when, both separators read alike, it is at most
  1024 bytes long and each of its components is a proper name (not empty, \<^verbatim>\<open>.\<close> or \<^verbatim>\<open>..\<close>, at
  most 255 bytes, no control character, and none of the Windows cases when Windows rules
  apply); the accepted path comes back with slashes and, joined to any clean folder, names a
  place strictly below that folder.\<close>

theorem safe_path_exact:
  "(safeRelPath upp p win = Inr q \<longleftrightarrow>
     q = to_slash p \<and> length p \<le> maxPathLen \<and> (\<forall>c \<in> set (split_on CHR ''/'' q). part_ok upp win c)) \<and>
   (safeRelPath upp p win = Inr q \<and> clean_rel root \<longrightarrow> path_Join root q = root @ CHR ''/'' # q)"
  using safeRelPath_Inr [of upp p win q] safe_clean_rel [of upp p win q] path_Join_plain [of root q]
  by blast

theorem safe_path_exact_witness:
  "safeRelPath id ''a..b.txt'' True = Inr ''a..b.txt'' \<and> clean_rel ''Photos'' \<and>
   path_Join ''Photos'' ''a..b.txt'' = ''Photos/a..b.txt'' \<and>
   safeRelPath id ''x/../../y'' False = Inl (BadComponent ''..'')"
proof -
  have s: "safeRelPath id ''a..b.txt'' True = Inr ''a..b.txt''"
    by (simp add: safeRelPath_def to_slash_def backslash_def maxPathLen_def maxComponentLen_def
        hasControlChar_def reservedChars_def isWindowsReserved_def ToUpper_def trim_right_spaces_def
        ascii_def upper_char_def Let_def)
  have c: "clean_rel ''Photos''" by (simp add: clean_rel_def plain_part_def backslash_def)
  have "safeRelPath id ''x/../../y'' False = Inl (BadComponent ''..'')"
    by (simp add: safeRelPath_def to_slash_def backslash_def maxPathLen_def maxComponentLen_def
        hasControlChar_def Let_def)
  with s c safe_path_exact [of id "''a..b.txt''" True "''a..b.txt''" "''Photos''"]
  show ?thesis by simp
qed

end
