(* ===== verification/Candidates.thy ===== *)
theory Candidates
  imports SafePath
begin

text \<open>
  The names tried when one is taken (\<^verbatim>\<open>pkg/engine/collision.go\<close>): for a clean path they start
  with the path itself, are all different, and stay in its folder.
\<close>

section \<open>Folder and name of a clean path\<close>

lemma split_on_app: "split_on c (a @ c # s) = split_on c a @ split_on c s"
proof (induction a)
  case (Cons x a)
  obtain q qs where "split_on c a = q # qs" using split_on_not_Nil [of c a] by (cases "split_on c a") auto
  then show ?case using Cons by simp
qed simp

lemma clean_rel_cases:
  assumes "clean_rel p"
  obtains (name) "plain_part p" "LastIndexByte p CHR ''/'' = None"
  | (folder) d f where "p = d @ CHR ''/'' # f" "clean_rel d" "plain_part f" "backslash \<notin> set f"
      "LastIndexByte p CHR ''/'' = Some (length d)"
proof (cases "LastIndexByte p CHR ''/''")
  case None
  then have "CHR ''/'' \<notin> set p" by (simp add: LastIndexByte_None)
  then have "split_on CHR ''/'' p = [p]" by (rule split_on_id)
  then show thesis using name assms None by (simp add: clean_rel_def)
next
  case (Some j)
  from LastIndexByte_Some [OF Some] have j: "j < length p" "p ! j = CHR ''/''" "CHR ''/'' \<notin> set (drop (Suc j) p)"
    by auto
  let ?d = "take j p" and ?f = "drop (Suc j) p"
  have p: "p = ?d @ CHR ''/'' # ?f" using id_take_nth_drop [OF j(1)] j(2) by simp
  have s: "split_on CHR ''/'' p = split_on CHR ''/'' ?d @ [?f]"
    by (subst p) (simp add: split_on_app split_on_id [OF j(3)] del: append_take_drop_id)
  have "clean_rel ?d" "plain_part ?f" "backslash \<notin> set ?f"
    using assms unfolding clean_rel_def s by (auto dest: in_set_takeD in_set_dropD)
  moreover have "LastIndexByte p CHR ''/'' = Some (length ?d)" using Some j(1) by simp
  ultimately show thesis using folder p by blast
qed

lemma clean_rel_not_Nil: "clean_rel p \<Longrightarrow> p \<noteq> []"
  by (cases p) (simp_all add: clean_rel_def plain_part_def)

lemma clean_rel_hd:
  assumes "clean_rel p"
  shows "hd p \<noteq> CHR ''/''"
proof
  assume "hd p = CHR ''/''"
  then obtain q where "p = CHR ''/'' # q" using clean_rel_not_Nil [OF assms] by (cases p) auto
  then have "[] \<in> set (split_on CHR ''/'' p)" by simp
  then show False using assms unfolding clean_rel_def plain_part_def by blast
qed

lemma clean_parts_skip:
  "clean_parts r out (ps @ [[]]) = clean_parts r out ps"
  by (induction r out ps rule: clean_parts.induct) (auto split: list.splits)

lemma path_Clean_clean:
  assumes "clean_rel p"
  shows "path_Clean p = p" "path_Clean (p @ ''/'') = p"
proof -
  have j: "join CHR ''/'' (split_on CHR ''/'' p) = p" by simp
  have pl: "\<forall>c \<in> set (split_on CHR ''/'' p). plain_part c" using assms by (simp add: clean_rel_def)
  show 1: "path_Clean p = p" using path_Clean_plain [OF split_on_not_Nil pl] j by simp
  have s: "split_on CHR ''/'' (p @ ''/'') = split_on CHR ''/'' p @ [[]]"
    using split_on_app [of "CHR ''/''" p "[]"] by simp
  have "p \<noteq> []" "hd p \<noteq> CHR ''/''" using clean_rel_not_Nil clean_rel_hd assms by blast+
  then show "path_Clean (p @ ''/'') = p"
    using clean_parts_plain [OF pl, of False "[]"] j
    by (simp add: path_Clean_def s clean_parts_skip Let_def)
qed

lemma path_Dir_folder:
  assumes "clean_rel d" "CHR ''/'' \<notin> set f"
  shows "path_Dir (d @ CHR ''/'' # f) = d"
proof -
  have "LastIndexByte (d @ CHR ''/'' # f) CHR ''/'' = Some (length d)"
    using assms(2) by (induction d) (auto simp: LastIndexByte_None split: option.split)
  then show ?thesis using path_Clean_clean(2) [OF assms(1)] by (simp add: path_Dir_def)
qed

lemma path_Dir_name: "CHR ''/'' \<notin> set p \<Longrightarrow> path_Dir p = ''.''"
  by (simp add: path_Dir_def path_Clean_def LastIndexByte_None [THEN iffD2])

lemma strip_slashes_id: "p \<noteq> [] \<Longrightarrow> last p \<noteq> CHR ''/'' \<Longrightarrow> strip_slashes p = p"
  by (cases p rule: rev_cases) (simp_all add: strip_slashes_def)

lemma path_Base_folder:
  assumes "plain_part f" "LastIndexByte (d @ CHR ''/'' # f) CHR ''/'' = Some (length d)"
  shows "path_Base (d @ CHR ''/'' # f) = f"
proof -
  have "f \<noteq> []" "last f \<noteq> CHR ''/''" using assms(1) last_in_set [of f] unfolding plain_part_def by metis+
  then have "strip_slashes (d @ CHR ''/'' # f) = d @ CHR ''/'' # f" by (intro strip_slashes_id) simp_all
  then show ?thesis using assms \<open>f \<noteq> []\<close> by (simp add: path_Base_def)
qed

lemma path_Base_name: "path_Base p = p" if "plain_part p" "LastIndexByte p CHR ''/'' = None"
proof -
  note p = that(1) and n = that(2)
  from p have "p \<noteq> []" "CHR ''/'' \<notin> set p" by (simp_all add: plain_part_def)
  moreover from this have "last p \<noteq> CHR ''/''" using last_in_set [of p] by metis
  ultimately show ?thesis using strip_slashes_id [of p] n by (simp add: path_Base_def)
qed

section \<open>Base and extension\<close>

lemma split_multi_append: "split_multi f l ms = Some (b, e) \<Longrightarrow> b @ e = f"
  by (induction f l ms rule: split_multi.induct) (auto split: if_splits)

lemma SplitNameAndExt_parts:
  assumes "SplitNameAndExt uni p = (d, b, e)"
  shows "b @ e = path_Base (to_slash p)" "d = (if path_Dir (to_slash p) = ''.'' then [] else path_Dir (to_slash p))"
proof -
  let ?f = "path_Base (to_slash p)"
  have x: "suffix (path_Ext ?f) ?f"
    by (auto simp: path_Ext_def suffix_drop split: option.split)
  then have "take (length ?f - length (path_Ext ?f)) ?f @ path_Ext ?f = ?f"
    by (metis append_eq_conv_conj diff_diff_cancel length_append diff_add_inverse2 suffix_def)
  then show "b @ e = ?f"
    using assms by (auto simp: SplitNameAndExt_def Let_def split: option.splits if_splits dest: split_multi_append)
  show "d = (if path_Dir (to_slash p) = ''.'' then [] else path_Dir (to_slash p))"
    using assms by (auto simp: SplitNameAndExt_def Let_def split: option.splits if_splits)
qed

definition candidate_name :: "string \<Rightarrow> nat \<Rightarrow> string \<Rightarrow> string" where
  "candidate_name b n e = (if n = 0 then b @ e else b @ '' ('' @ dec n @ '')'' @ e)"

lemma candidate_name_inject: "candidate_name b m e = candidate_name b n e \<Longrightarrow> m = n"
  by (auto simp: candidate_name_def split: if_splits)

lemma candidate_name_plain:
  assumes "plain_part (b @ e)" "backslash \<notin> set (b @ e)"
  shows "plain_part (candidate_name b n e)" "backslash \<notin> set (candidate_name b n e)"
proof -
  have d: "c \<noteq> CHR ''/'' \<and> c \<noteq> backslash" if "c \<in> set (dec n)" for c
    using dec_digits [OF that] by (auto simp: backslash_def)
  have "CHR ''('' \<in> set (candidate_name b n e)" if "n \<noteq> 0" using that by (simp add: candidate_name_def)
  then have "n \<noteq> 0 \<Longrightarrow> candidate_name b n e \<noteq> [] \<and> candidate_name b n e \<noteq> ''.'' \<and> candidate_name b n e \<noteq> ''..''"
    by auto
  then show "plain_part (candidate_name b n e)"
    using assms d by (cases "n = 0") (auto simp: plain_part_def candidate_name_def)
  show "backslash \<notin> set (candidate_name b n e)"
    using assms d by (auto simp: candidate_name_def backslash_def)
qed

lemma plain_clean_rel: "plain_part p \<Longrightarrow> backslash \<notin> set p \<Longrightarrow> clean_rel p"
  by (simp add: clean_rel_def plain_part_def split_on_id)

text \<open>The \<open>n\<close>th candidate for a clean path.\<close>

lemma candidate_form:
  assumes p: "clean_rel p" and s: "SplitNameAndExt uni p = (d, b, e)"
  shows "plain_part (b @ e) \<and> backslash \<notin> set (b @ e) \<and>
    ((d = [] \<and> p = b @ e \<and> (\<forall>n. FormatCandidateName d b n e = candidate_name b n e)) \<or>
     (clean_rel d \<and> p = d @ CHR ''/'' # b @ e \<and>
        (\<forall>n. FormatCandidateName d b n e = d @ CHR ''/'' # candidate_name b n e)))"
proof -
  have bs: "backslash \<notin> set p" using p by (simp add: clean_rel_def)
  have ts: "to_slash p = p" by (rule to_slash_id [OF bs])
  note S = SplitNameAndExt_parts [OF s, unfolded ts]
  from p show ?thesis
  proof (cases rule: clean_rel_cases)
    case name
    then have be: "b @ e = p" using S(1) path_Base_name by simp
    have "CHR ''/'' \<notin> set p" using name by (simp add: plain_part_def)
    then have "d = []" using S(2) path_Dir_name by simp
    then show ?thesis using name bs be by (auto simp: FormatCandidateName_def candidate_name_def)
  next
    case (folder d' f)
    have f: "CHR ''/'' \<notin> set f" using folder(3) by (simp add: plain_part_def)
    have be: "b @ e = f" using S(1) folder path_Base_folder by simp
    have "d' \<noteq> ''.''"
    proof
      assume "d' = ''.''"
      then have "split_on CHR ''/'' d' = [''.'']" by simp
      then show False using folder(2) by (simp add: clean_rel_def plain_part_def)
    qed
    then have d: "d = d'" using S(2) path_Dir_folder [OF folder(2) f] folder(1) by simp
    have "FormatCandidateName d b n e = d @ CHR ''/'' # candidate_name b n e" for n
    proof -
      have "clean_rel (candidate_name b n e)"
        using candidate_name_plain [of b e n] folder(3,4) be plain_clean_rel by simp
      then have "path_Join d (candidate_name b n e) = d @ CHR ''/'' # candidate_name b n e"
        using path_Join_plain folder(2) d by simp
      then show ?thesis
        using clean_rel_not_Nil [OF folder(2)] \<open>d' \<noteq> ''.''\<close> d
        by (auto simp: FormatCandidateName_def candidate_name_def Let_def)
    qed
    then show ?thesis using folder be d by auto
  qed
qed

lemma candidate_clean:
  assumes "clean_rel p" "SplitNameAndExt uni p = (d, b, e)"
  shows "FormatCandidateName d b 0 e = p"
    "FormatCandidateName d b m e = FormatCandidateName d b n e \<Longrightarrow> m = n"
    "clean_rel (FormatCandidateName d b n e)" "path_Dir (FormatCandidateName d b n e) = path_Dir p"
proof -
  have "FormatCandidateName d b 0 e = p \<and>
    (\<forall>m n. FormatCandidateName d b m e = FormatCandidateName d b n e \<longrightarrow> m = n) \<and>
    (\<forall>n. clean_rel (FormatCandidateName d b n e) \<and> path_Dir (FormatCandidateName d b n e) = path_Dir p)"
    using candidate_form [OF assms]
  proof (elim conjE disjE)
    assume be: "plain_part (b @ e)" "backslash \<notin> set (b @ e)" and p: "p = b @ e"
      and f: "\<forall>n. FormatCandidateName d b n e = candidate_name b n e"
    have c: "clean_rel (candidate_name b n e)" "path_Dir (candidate_name b n e) = ''.''" for n
      using candidate_name_plain [OF be, of n] plain_clean_rel path_Dir_name by (simp_all add: plain_part_def)
    have "candidate_name b 0 e = p" using p by (simp add: candidate_name_def)
    then show ?thesis using f c c(2) [of 0] candidate_name_inject by auto
  next
    assume be: "plain_part (b @ e)" "backslash \<notin> set (b @ e)" and d: "clean_rel d" and p: "p = d @ CHR ''/'' # b @ e"
      and f: "\<forall>n. FormatCandidateName d b n e = d @ CHR ''/'' # candidate_name b n e"
    have c: "clean_rel (d @ CHR ''/'' # candidate_name b n e)" "path_Dir (d @ CHR ''/'' # candidate_name b n e) = d" for n
    proof -
      note P = candidate_name_plain [OF be, of n]
      have s: "CHR ''/'' \<notin> set (candidate_name b n e)" using P(1) by (simp add: plain_part_def)
      then show "path_Dir (d @ CHR ''/'' # candidate_name b n e) = d" by (rule path_Dir_folder [OF d])
      show "clean_rel (d @ CHR ''/'' # candidate_name b n e)"
        using d P s by (auto simp: clean_rel_def split_on_app split_on_id backslash_def)
    qed
    have p0: "d @ CHR ''/'' # candidate_name b 0 e = p" using p by (simp add: candidate_name_def)
    then show ?thesis using f c c(2) [of 0] candidate_name_inject by auto
  qed
  then show "FormatCandidateName d b 0 e = p"
    "FormatCandidateName d b m e = FormatCandidateName d b n e \<Longrightarrow> m = n"
    "clean_rel (FormatCandidateName d b n e)" "path_Dir (FormatCandidateName d b n e) = path_Dir p"
    by blast+
qed

text \<open>The names tried for a clean path \<open>p\<close> (one that \<^verbatim>\<open>SafeRelPath\<close> returned) begin with \<open>p\<close>
  itself, are pairwise different, and are clean paths in the same folder: a rename never loops
  on one name and never leaves the folder the sender asked for.\<close>

theorem candidates_sound:
  assumes "clean_rel p" "SplitNameAndExt uni p = (d, b, e)"
  shows "FormatCandidateName d b 0 e = p \<and>
    (\<forall>m n. FormatCandidateName d b m e = FormatCandidateName d b n e \<longrightarrow> m = n) \<and>
    (\<forall>n. clean_rel (FormatCandidateName d b n e) \<and> path_Dir (FormatCandidateName d b n e) = path_Dir p)"
  using candidate_clean [OF assms] by blast

theorem candidates_sound_witness:
  "FormatCandidateName ''x'' ''doc'' 0 ''.pdf'' = ''x/doc.pdf'' \<and>
   clean_rel (FormatCandidateName ''x'' ''doc'' 7 ''.pdf'')"
proof -
  have "clean_rel ''x/doc.pdf''" by (simp add: clean_rel_def plain_part_def backslash_def)
  moreover have "SplitNameAndExt id ''x/doc.pdf'' = (''x'', ''doc'', ''.pdf'')"
    by (simp add: SplitNameAndExt_def to_slash_def backslash_def path_Dir_def path_Clean_def path_Base_def
        strip_slashes_def path_Ext_def multiExts_def ToLower_def ascii_def lower_char_def suffix_def Let_def)
  ultimately show ?thesis using candidates_sound by blast
qed

end
