(* ===== verification/Paths.thy ===== *)
theory Paths
  imports Candidates
begin

text \<open>
  What \<^verbatim>\<open>path.Clean\<close>, \<^verbatim>\<open>path.Dir\<close>, \<^verbatim>\<open>path.Base\<close> and \<^verbatim>\<open>path.Join\<close> give for a path that is clean
  and ends in a name, absolute or not.
\<close>

section \<open>Cleaned paths\<close>

definition rooted :: "string \<Rightarrow> bool" where
  "rooted p \<longleftrightarrow> p \<noteq> [] \<and> hd p = CHR ''/''"

text \<open>A cleaned path whose last element is a name; \<open>d\<close> is what comes before it.\<close>

lemma clean_parts_app:
  "\<forall>p \<in> set rs. plain_part p \<Longrightarrow> clean_parts ro out (ps @ rs) = clean_parts ro out ps @ rs"
proof (induction ro out ps rule: clean_parts.induct)
  case (1 ro out)
  then show ?case using clean_parts_plain [of rs ro out] by simp
qed (auto split: list.splits)

lemma path_Clean_body:
  "path_Clean p =
     (if rooted p then CHR ''/'' # join CHR ''/'' (clean_parts (rooted p) [] (split_on CHR ''/'' p))
      else if join CHR ''/'' (clean_parts (rooted p) [] (split_on CHR ''/'' p)) = [] then ''.''
      else join CHR ''/'' (clean_parts (rooted p) [] (split_on CHR ''/'' p)))"
  unfolding path_Clean_def rooted_def Let_def by (rule refl)

lemma join_app:
  "ps \<noteq> [] \<Longrightarrow> qs \<noteq> [] \<Longrightarrow> join c (ps @ qs) = join c ps @ c # join c qs"
  by (induction c ps rule: join.induct) (auto simp: join_Cons)

lemma path_Clean_app:
  assumes "path_Clean c = c" "c \<noteq> ''.''" "c \<noteq> ''/''" "\<forall>p \<in> set rs. plain_part p" "rs \<noteq> []"
  shows "path_Clean (c @ CHR ''/'' # join CHR ''/'' rs) = c @ CHR ''/'' # join CHR ''/'' rs"
proof -
  have "c \<noteq> []" using assms(1) by (auto simp: path_Clean_def)
  let ?r = "rooted c" and ?q = "clean_parts (rooted c) [] (split_on CHR ''/'' c)"
  have j: "c = (if ?r then CHR ''/'' # join CHR ''/'' ?q else if join CHR ''/'' ?q = [] then ''.'' else join CHR ''/'' ?q)"
    using assms(1) path_Clean_body [of c] by simp
  then have q: "?q \<noteq> []" using assms(2,3) by (auto split: if_splits)
  have "split_on CHR ''/'' (join CHR ''/'' rs) = rs"
    using split_join [OF assms(5)] assms(4) by (simp add: plain_part_def)
  then have sp: "split_on CHR ''/'' (c @ CHR ''/'' # join CHR ''/'' rs) = split_on CHR ''/'' c @ rs"
    by (simp add: split_on_app)
  have jq: "join CHR ''/'' (?q @ rs) = join CHR ''/'' ?q @ CHR ''/'' # join CHR ''/'' rs"
    by (rule join_app [OF q assms(5)])
  have rt: "rooted (c @ CHR ''/'' # join CHR ''/'' rs) = ?r" using \<open>c \<noteq> []\<close> by (simp add: rooted_def)
  have "path_Clean (c @ CHR ''/'' # join CHR ''/'' rs) =
      (if ?r then CHR ''/'' # join CHR ''/'' (?q @ rs) else if join CHR ''/'' (?q @ rs) = [] then ''.'' else join CHR ''/'' (?q @ rs))"
    unfolding path_Clean_body sp rt clean_parts_app [OF assms(4)] by (rule refl)
  then show ?thesis using j jq assms(2) by (auto split: if_splits)
qed

text \<open>A cleaned path that ends in a name: not \<open>.\<close>, \<open>..\<close> or \<open>/\<close>.\<close>

definition named_path :: "string \<Rightarrow> string \<Rightarrow> bool" where
  "named_path c b \<longleftrightarrow> path_Clean c = c \<and> plain_part b \<and> (c = b \<or> (\<exists>d. c = d @ CHR ''/'' # b))"

lemma path_Clean_slash:
  assumes "path_Clean (d @ CHR ''/'' # b) = d @ CHR ''/'' # b" "plain_part b" "d \<noteq> []"
  shows "path_Clean (d @ ''/'') = d"
proof -
  define Q where "Q = clean_parts (rooted d) [] (split_on CHR ''/'' d)"
  have b: "split_on CHR ''/'' b = [b]" using assms(2) by (simp add: plain_part_def split_on_id)
  have r: "rooted (d @ CHR ''/'' # b) = rooted d" "rooted (d @ ''/'') = rooted d" using assms(3) by (simp_all add: rooted_def)
  have s: "split_on CHR ''/'' (d @ CHR ''/'' # b) = split_on CHR ''/'' d @ [b]" "split_on CHR ''/'' (d @ ''/'') = split_on CHR ''/'' d @ [[]]"
    using split_on_app [of "CHR ''/''" d b] split_on_app [of "CHR ''/''" d "[]"] b by simp_all
  have cb: "clean_parts (rooted d) [] (split_on CHR ''/'' d @ [b]) = Q @ [b]"
    unfolding Q_def by (rule clean_parts_app) (use assms(2) in simp)
  have e: "path_Clean (d @ ''/'') = (if rooted d then CHR ''/'' # join CHR ''/'' Q else if join CHR ''/'' Q = [] then ''.'' else join CHR ''/'' Q)"
    unfolding path_Clean_body r s clean_parts_skip Q_def by (rule refl)
  have nb: "b \<noteq> []" using assms(2) by (simp add: plain_part_def)
  have c: "d @ CHR ''/'' # b = (if rooted d then CHR ''/'' # join CHR ''/'' (Q @ [b]) else if join CHR ''/'' (Q @ [b]) = [] then ''.'' else join CHR ''/'' (Q @ [b]))"
    using assms(1) unfolding path_Clean_body r s cb by simp
  show ?thesis
  proof (cases "Q = []")
    case True
    then have "d @ CHR ''/'' # b = (if rooted d then CHR ''/'' # b else b)" using c nb by simp
    then have "length (d @ CHR ''/'' # b) = length (if rooted d then CHR ''/'' # b else b)" by simp
    then have False using assms(3) by (cases "rooted d") simp_all
    then show ?thesis ..
  next
    case False
    then have j: "join CHR ''/'' (Q @ [b]) = join CHR ''/'' Q @ CHR ''/'' # b" using join_app [of Q "[b]"] by simp
    have "d @ CHR ''/'' # b = (if rooted d then CHR ''/'' # join CHR ''/'' Q else join CHR ''/'' Q) @ CHR ''/'' # b"
      using c j by simp
    then have "d = (if rooted d then CHR ''/'' # join CHR ''/'' Q else join CHR ''/'' Q)" by simp
    then show ?thesis using e assms(3) by (metis)
  qed
qed

lemma path_Clean_trail:
  assumes "d \<noteq> []"
  shows "path_Clean (d @ ''/'') = path_Clean d"
proof -
  have r: "rooted (d @ ''/'') = rooted d" using assms by (simp add: rooted_def)
  have s: "split_on CHR ''/'' (d @ ''/'') = split_on CHR ''/'' d @ [[]]" using split_on_app [of "CHR ''/''" d "[]"] by simp
  show ?thesis unfolding path_Clean_body r s clean_parts_skip by (rule refl)
qed

lemma path_Base_named: "named_path c b \<Longrightarrow> path_Base c = b"
proof -
  assume n: "named_path c b"
  then have b: "plain_part b" "CHR ''/'' \<notin> set b" by (simp_all add: named_path_def plain_part_def)
  from n consider "c = b" | d where "c = d @ CHR ''/'' # b" by (auto simp: named_path_def)
  then show ?thesis
  proof cases
    case 1
    then show ?thesis using path_Base_name [of b] b by (simp add: LastIndexByte_None)
  next
    case 2
    have "LastIndexByte (d @ CHR ''/'' # b) CHR ''/'' = Some (length d)"
      using b(2) by (induction d) (auto simp: LastIndexByte_None split: option.split)
    then show ?thesis using path_Base_folder [OF b(1)] 2 by simp
  qed
qed

lemma path_Dir_named:
  assumes "named_path c b" "c = d @ CHR ''/'' # b" "d \<noteq> []"
  shows "path_Dir c = d" "path_Clean d = d" "d \<noteq> ''.''" "d \<noteq> ''/''"
proof -
  have b: "plain_part b" "CHR ''/'' \<notin> set b" "b \<noteq> []" and cc: "path_Clean c = c"
    using assms(1) by (simp_all add: named_path_def plain_part_def)
  have "LastIndexByte c CHR ''/'' = Some (length d)"
    unfolding assms(2) using b(2) by (induction d) (auto simp: LastIndexByte_None split: option.split)
  then show "path_Dir c = d" using path_Clean_slash [of d b] assms cc b(1) by (simp add: path_Dir_def)
  have "path_Clean (d @ ''/'') = d" by (rule path_Clean_slash [OF _ b(1) assms(3)]) (use cc assms(2) in simp)
  then show "path_Clean d = d" using path_Clean_trail [OF assms(3)] by simp
  have bs: "split_on CHR ''/'' b = [b]" using b(2) by (rule split_on_id)
  have "path_Clean (''.'' @ CHR ''/'' # b) = b" "path_Clean (''/'' @ CHR ''/'' # b) = CHR ''/'' # b"
    using bs b by (simp_all add: path_Clean_def plain_part_def)
  then show "d \<noteq> ''.''" "d \<noteq> ''/''" using cc assms(2) by auto
qed

lemma named_path_cases:
  assumes "named_path c b"
  obtains (name) "c = b" "path_Dir c = ''.''"
  | (root) "c = CHR ''/'' # b" "path_Dir c = ''/''"
  | (folder) d where "d \<noteq> []" "c = d @ CHR ''/'' # b" "path_Dir c = d" "path_Clean d = d" "d \<noteq> ''.''" "d \<noteq> ''/''"
proof -
  have b: "plain_part b" "CHR ''/'' \<notin> set b" using assms by (simp_all add: named_path_def plain_part_def)
  from assms consider "c = b" | "c = CHR ''/'' # b" | d where "d \<noteq> []" "c = d @ CHR ''/'' # b"
    unfolding named_path_def by (metis append_Nil)
  then show thesis
  proof cases
    case 1
    then show thesis using name path_Dir_name b(2) by simp
  next
    case 2
    have "LastIndexByte b CHR ''/'' = None" using b(2) by (simp add: LastIndexByte_None)
    then have "path_Dir c = ''/''" using 2 by (simp add: path_Dir_def path_Clean_def)
    then show thesis using root 2 by blast
  next
    case 3
    then show thesis using folder path_Dir_named [OF assms 3(2,1)] by blast
  qed
qed

text \<open>Another name in the folder of a path.\<close>

lemma path_Join_sibling:
  assumes "named_path c b" "plain_part x"
  shows "path_Join (path_Dir c) x = take (length c - length b) c @ x"
  using assms(1)
proof (cases rule: named_path_cases)
  case name
  have x: "split_on CHR ''/'' x = [x]" "x \<noteq> []" using assms(2) by (simp_all add: plain_part_def split_on_id)
  have "path_Clean (''.'' @ CHR ''/'' # x) = x" using x assms(2) by (simp add: path_Clean_def plain_part_def)
  then show ?thesis using name x by (simp add: path_Join_def)
next
  case root
  have x: "split_on CHR ''/'' x = [x]" "x \<noteq> []" using assms(2) by (simp_all add: plain_part_def split_on_id)
  have "path_Clean (''/'' @ CHR ''/'' # x) = CHR ''/'' # x" using x assms(2) by (simp add: path_Clean_def plain_part_def)
  then show ?thesis using root x by (simp add: path_Join_def)
next
  case (folder d)
  have x: "x \<noteq> []" using assms(2) by (simp add: plain_part_def)
  have "path_Clean (d @ CHR ''/'' # join CHR ''/'' [x]) = d @ CHR ''/'' # join CHR ''/'' [x]"
    by (rule path_Clean_app) (use folder assms(2) in simp_all)
  then show ?thesis using folder x by (simp add: path_Join_def)
qed

end
