(* ===== verification/Manifest.thy ===== *)
theory Manifest
  imports Paths Offer
begin

text \<open>
  What a send is made of: the manifest of files and folders (\<^verbatim>\<open>pkg/manifest/manifest.go\<close>) and
  the offer built from it (\<^verbatim>\<open>pkg/transfer/build.go\<close>, \<^verbatim>\<open>pkg/transfer/files.go\<close>). The
  file system is the parameter \<open>stat\<close>: what \<^verbatim>\<open>os.Stat\<close> says of a path and, for a folder, what
  \<^verbatim>\<open>filepath.WalkDir\<close> meets from it on, in its order. The random bytes and the text of the
  present moment are parameters. The search for a free name has no bound in the code: it is a
  partial function, whose results are options.
\<close>

section \<open>Data\<close>

record manifest_item =
  mi_RelPath :: string
  mi_Size :: int
  mi_MTime :: int
  mi_FullPath :: string

record manifest =
  mf_BatchID :: string
  mf_RootName :: string
  mf_TotalFiles :: nat
  mf_TotalBytes :: int
  mf_Items :: "manifest_item list"

text \<open>An entry of a folder: a call that fails, a folder, a special file, or a regular file with
  what \<^verbatim>\<open>Info\<close> says of it.\<close>

datatype walk_entry =
    WalkErr
  | WalkFolder string
  | WalkSpecial string
  | WalkFile string "(int \<times> int) option"

datatype stat_result =
    StatErr
  | StatFolder "walk_entry list"
  | StatFile int int
  | StatOther

datatype build_error =
    NoPaths
  | CannotAccess string
  | CannotScan string
  | NothingToSend
  | CountMismatch nat nat
  | NotRegularFile nat
  | CannotStat nat

section \<open>Relative paths\<close>

text \<open>\<^verbatim>\<open>filepath.Rel\<close> on Unix: what is left of the target after the components it shares with the
  base, after one \<open>..\<close> for each component left of the base.\<close>

fun strip_common :: "string list \<Rightarrow> string list \<Rightarrow> string list \<times> string list" where
  "strip_common (b # bs) (t # ts) = (if b = t then strip_common bs ts else (b # bs, t # ts))"
| "strip_common bs ts = (bs, ts)"

definition path_elems :: "string \<Rightarrow> string list" where
  "path_elems p = (if p = [] then [] else if p = ''/'' then [[]] else split_on CHR ''/'' p)"

definition filepath_Rel :: "string \<Rightarrow> string \<Rightarrow> string option" where
  "filepath_Rel basepath targpath =
     (let b = path_Clean basepath; t = path_Clean targpath in
      if t = b then Some ''.''
      else
        let b = (if b = ''.'' then [] else b) in
        if rooted b \<noteq> rooted t then None
        else
          case strip_common (path_elems b) (path_elems t) of
            (bs, ts) \<Rightarrow>
              if bs \<noteq> [] \<and> ts \<noteq> [] \<and> hd bs = ''..'' then None
              else Some (join CHR ''/'' (replicate (length bs) ''..'' @ ts)))"

section \<open>Building the manifest\<close>

partial_function (option) unique_name ::
  "(string \<Rightarrow> string) \<Rightarrow> string \<Rightarrow> string \<Rightarrow> string set \<Rightarrow> nat \<Rightarrow> (string \<times> string set) option" where
  "unique_name uni base ext used n =
     (let name = FormatCandidateName [] base n ext; key = ToLower uni name in
      if key \<notin> used then Some (name, insert key used) else unique_name uni base ext used (Suc n))"

definition uniqueTop ::
  "(string \<Rightarrow> string) \<Rightarrow> string \<Rightarrow> bool \<Rightarrow> string set \<Rightarrow> (string \<times> string set) option" where
  "uniqueTop uni tp dir used =
     (case (if dir then (tp, []) else case SplitNameAndExt uni tp of (_, b, e) \<Rightarrow> (b, e)) of
        (base, ext) \<Rightarrow> unique_name uni base ext used 0)"

fun walk_items ::
  "string \<Rightarrow> string \<Rightarrow> string \<Rightarrow> walk_entry list \<Rightarrow> manifest_item list \<Rightarrow> int \<Rightarrow> (manifest_item list \<times> int) option" where
  "walk_items name tp baseDir [] items tot = Some (items, tot)"
| "walk_items name tp baseDir (WalkErr # es) items tot = None"
| "walk_items name tp baseDir (WalkFolder _ # es) items tot = walk_items name tp baseDir es items tot"
| "walk_items name tp baseDir (WalkSpecial _ # es) items tot = walk_items name tp baseDir es items tot"
| "walk_items name tp baseDir (WalkFile p info # es) items tot =
     (case info of
        None \<Rightarrow> None
      | Some (sz, mtime) \<Rightarrow>
          (case filepath_Rel baseDir p of
             None \<Rightarrow> None
           | Some relPath \<Rightarrow>
               walk_items name tp baseDir es
                 (items @ [\<lparr>mi_RelPath = name @ drop (length tp) relPath, mi_Size = sz, mi_MTime = mtime,
                            mi_FullPath = p\<rparr>])
                 (wrap64 (tot + sz))))"

definition add_source ::
  "string \<Rightarrow> string \<Rightarrow> stat_result \<Rightarrow> manifest_item list \<Rightarrow> int \<Rightarrow> (manifest_item list \<times> int) option" where
  "add_source name cleanPath info items tot =
     (case info of
        StatFolder es \<Rightarrow> walk_items name (path_Base cleanPath) (path_Dir cleanPath) es items tot
      | StatFile sz mtime \<Rightarrow>
          Some (items @ [\<lparr>mi_RelPath = name, mi_Size = sz, mi_MTime = mtime, mi_FullPath = cleanPath\<rparr>],
                wrap64 (tot + sz))
      | _ \<Rightarrow> Some (items, tot))"

definition is_folder :: "stat_result \<Rightarrow> bool" where
  "is_folder info \<longleftrightarrow> (case info of StatFolder _ \<Rightarrow> True | _ \<Rightarrow> False)"

fun build_paths ::
  "(string \<Rightarrow> string) \<Rightarrow> (string \<Rightarrow> stat_result) \<Rightarrow> string list \<Rightarrow> string set \<Rightarrow> manifest_item list \<Rightarrow> int
   \<Rightarrow> (build_error + manifest_item list \<times> int) option" where
  "build_paths uni stat [] used items tot = Some (Inr (items, tot))"
| "build_paths uni stat (p # ps) used items tot =
     (let cleanPath = path_Clean p; info = stat cleanPath in
      if info = StatErr then Some (Inl (CannotAccess p))
      else
        case uniqueTop uni (path_Base cleanPath) (is_folder info) used of
          None \<Rightarrow> None
        | Some (name, used') \<Rightarrow>
            (case add_source name cleanPath info items tot of
               None \<Rightarrow> Some (Inl (CannotScan p))
             | Some (items', tot') \<Rightarrow> build_paths uni stat ps used' items' tot'))"

definition Build ::
  "(string \<Rightarrow> string) \<Rightarrow> bytes \<Rightarrow> (string \<Rightarrow> stat_result) \<Rightarrow> string list \<Rightarrow> (build_error + manifest) option" where
  "Build uni rnd stat paths =
     (if paths = [] then Some (Inl NoPaths)
      else
        let rootName = (if length paths = 1 then path_Base (path_Clean (hd paths))
                        else ''batch_'' @ dec (length paths) @ ''_files'') in
        case build_paths uni stat paths {} [] 0 of
          None \<Rightarrow> None
        | Some (Inl e) \<Rightarrow> Some (Inl e)
        | Some (Inr (items, tot)) \<Rightarrow>
            if items = [] then Some (Inl NothingToSend)
            else Some (Inr \<lparr>mf_BatchID = hex rnd, mf_RootName = rootName, mf_TotalFiles = length items,
                            mf_TotalBytes = tot, mf_Items = items\<rparr>))"

section \<open>Building the offer\<close>

definition to_offer_items :: "manifest_item list \<Rightarrow> offer_item list" where
  "to_offer_items ms =
     map (\<lambda>(i, m). \<lparr>it_Item = int i, it_Path = mi_RelPath m, it_Size = mi_Size m, it_MTime = mi_MTime m\<rparr>)
       (enumerate 0 ms)"

text \<open>The offer, the file behind each item, and what \<^verbatim>\<open>Validate\<close> says of it.\<close>

definition BuildOffer ::
  "(string \<Rightarrow> string) \<Rightarrow> bytes \<Rightarrow> string \<Rightarrow> (string \<Rightarrow> stat_result) \<Rightarrow> string list \<Rightarrow> 32 word
   \<Rightarrow> (build_error + offer \<times> string list \<times> (offer_error + unit)) option" where
  "BuildOffer uni rnd moment stat paths chunkSize =
     map_option (\<lambda>r. bind_res r (\<lambda>m.
       let items = to_offer_items (mf_Items m);
           root = (if length paths > 1 then moment
                   else if mf_RootName m = [] \<and> length items = 1 then it_Path (hd items)
                   else mf_RootName m);
           off = \<lparr>o_TransferID = [], o_Root = root, o_Items = items, o_TotalBytes = mf_TotalBytes m,
                  o_ChunkSize = chunkSize, o_Kind = [], o_Count = 0\<rparr>
       in Inr (off, map mi_FullPath (mf_Items m), Validate uni off)))
       (Build uni rnd stat paths)"

text \<open>An open file: nil, one whose \<^verbatim>\<open>Stat\<close> fails, not a regular file, or its size and time.\<close>

datatype open_file = NilFile | FileErr | FileOther | FileReg int int

fun offer_files ::
  "(string \<Rightarrow> string) \<Rightarrow> nat \<Rightarrow> open_file list \<Rightarrow> string list \<Rightarrow> string set \<Rightarrow> offer_item list \<Rightarrow> int
   \<Rightarrow> (build_error + offer_item list \<times> int) option" where
  "offer_files uni i (f # fs) (nm # nms) used items tot =
     (case f of
        FileReg sz mtime \<Rightarrow>
          (let b = path_Base (to_slash nm);
               name = (if b = [] \<or> b = ''.'' \<or> b = ''..'' \<or> b = ''/'' then ''file-'' @ dec (i + 1) else b)
           in case SplitNameAndExt uni name of
                (_, base, ext) \<Rightarrow>
                  (case unique_name uni base ext used 0 of
                     None \<Rightarrow> None
                   | Some (cand, used') \<Rightarrow>
                       offer_files uni (Suc i) fs nms used'
                         (items @ [\<lparr>it_Item = int i, it_Path = cand, it_Size = sz, it_MTime = mtime\<rparr>])
                         (wrap64 (tot + sz))))
      | FileErr \<Rightarrow> Some (Inl (CannotStat i))
      | _ \<Rightarrow> Some (Inl (NotRegularFile i)))"
| "offer_files uni i _ _ used items tot = Some (Inr (items, tot))"

definition BuildOfferFiles ::
  "(string \<Rightarrow> string) \<Rightarrow> string \<Rightarrow> open_file list \<Rightarrow> string list \<Rightarrow> 32 word
   \<Rightarrow> (build_error + offer \<times> (offer_error + unit)) option" where
  "BuildOfferFiles uni moment files names chunkSize =
     (if files = [] \<or> length files \<noteq> length names then Some (Inl (CountMismatch (length files) (length names)))
      else
        map_option (\<lambda>r. bind_res r (\<lambda>(items, tot).
          let off = \<lparr>o_TransferID = [],
                     o_Root = (if length items = 1 then it_Path (hd items) else moment),
                     o_Items = items, o_TotalBytes = tot, o_ChunkSize = chunkSize, o_Kind = [], o_Count = 0\<rparr>
          in Inr (off, Validate uni off)))
          (offer_files uni 0 files names {} [] 0))"

section \<open>The search for a free name\<close>

abbreviation numbered :: "string \<Rightarrow> string \<Rightarrow> nat \<Rightarrow> string" where
  "numbered base ext n \<equiv> FormatCandidateName [] base n ext"

lemma unique_name_Some:
  "unique_name uni base ext used n = Some y \<Longrightarrow>
   \<exists>m \<ge> n. y = (numbered base ext m, insert (ToLower uni (numbered base ext m)) used) \<and>
     ToLower uni (numbered base ext m) \<notin> used \<and> (\<forall>j. n \<le> j \<and> j < m \<longrightarrow> ToLower uni (numbered base ext j) \<in> used)"
proof (induction rule: unique_name.raw_induct [rotated 1, consumes 1, case_names step])
  case (step rec uni base ext used n y)
  show ?case
  proof (cases "ToLower uni (numbered base ext n) \<notin> used")
    case True
    then have "y = (numbered base ext n, insert (ToLower uni (numbered base ext n)) used)"
      using step(2) by (simp add: Let_def)
    then show ?thesis using True by (intro exI [of _ n]) auto
  next
    case False
    then have "rec uni base ext used (Suc n) = Some y" using step(2) by (simp add: Let_def)
    then obtain m where m: "m \<ge> Suc n" "y = (numbered base ext m, insert (ToLower uni (numbered base ext m)) used)"
      "ToLower uni (numbered base ext m) \<notin> used" "\<forall>j. Suc n \<le> j \<and> j < m \<longrightarrow> ToLower uni (numbered base ext j) \<in> used"
      using step(1) by blast
    have "\<forall>j. n \<le> j \<and> j < m \<longrightarrow> ToLower uni (numbered base ext j) \<in> used"
      using m(4) False by (metis Suc_leI le_neq_implies_less)
    then show ?thesis using m by (intro exI [of _ m]) auto
  qed
qed

lemma unique_name_ends:
  assumes "finite used" "inj (\<lambda>n. ToLower uni (numbered base ext n))"
  shows "unique_name uni base ext used n \<noteq> None"
proof -
  let ?k = "\<lambda>n. ToLower uni (numbered base ext n)"
  have "inj_on ?k {n..}" using assms(2) by (rule inj_on_subset) simp
  then have "infinite (?k ` {n..})" using finite_imageD [of ?k "{n..}"] infinite_Ici by metis
  then have "\<not> ?k ` {n..} \<subseteq> used" using assms(1) finite_subset by metis
  then obtain m where "n \<le> m" "?k m \<notin> used" by auto
  then show ?thesis
  proof (induction "m - n" arbitrary: n)
    case 0
    then show ?case by (subst unique_name.simps) (simp add: Let_def)
  next
    case (Suc d)
    then have "d = m - Suc n" "Suc n \<le> m" by arith+
    then show ?case using Suc by (subst unique_name.simps) (simp add: Let_def)
  qed
qed

lemma lower_digit: "48 \<le> (of_char c :: nat) \<Longrightarrow> (of_char c :: nat) \<le> 57 \<Longrightarrow> lower_char c = c"
  by (simp add: lower_char_def Let_def)

lemma ascii_numbered:
  assumes "list_all ascii (b @ e)"
  shows "ToLower uni (numbered b e n) =
    map lower_char b @ (if n = 0 then [] else '' ('' @ dec n @ '')'') @ map lower_char e"
proof -
  have d: "list_all ascii (dec n)" "map lower_char (dec n) = dec n"
    using dec_digits [of _ n] by (auto simp: list_all_iff ascii_def intro!: map_idI lower_digit) fastforce
  have "list_all ascii (numbered b e n)" using assms d by (simp add: FormatCandidateName_def ascii_def)
  then show ?thesis
    using d by (simp add: ToLower_def FormatCandidateName_def) (simp add: lower_char_def)
qed

lemma ascii_inj: "list_all ascii (b @ e) \<Longrightarrow> inj (\<lambda>n. ToLower uni (numbered b e n))"
  by (auto simp: inj_def ascii_numbered split: if_splits)

text \<open>C28. The search of a free name for a path given to a send ends: for a name in ASCII, however many
  names are taken, \<^verbatim>\<open>uniqueTop\<close> returns the first numbered form of it that no earlier path has,
  letter case aside, and notes it as taken.\<close>

theorem unique_top_ends:
  assumes "finite used" "list_all ascii tp" "plain_part tp" "backslash \<notin> set tp"
  shows "\<exists>b e n. uniqueTop uni tp isdir used = Some (numbered b e n, insert (ToLower uni (numbered b e n)) used) \<and>
    b @ e = tp \<and> ToLower uni (numbered b e n) \<notin> used \<and> (\<forall>j < n. ToLower uni (numbered b e j) \<in> used)"
proof -
  obtain d b' e' where sp: "SplitNameAndExt uni tp = (d, b', e')" by (metis prod.exhaust)
  define b where "b = (if isdir then tp else b')"
  define e where "e = (if isdir then [] else e')"
  have "b' @ e' = tp" using candidate_form [OF plain_clean_rel sp] SplitNameAndExt_parts(1) [OF sp]
      path_Base_name [of tp] assms(3,4) by (auto simp: to_slash_id LastIndexByte_None plain_part_def)
  then have be: "b @ e = tp" by (simp add: b_def e_def)
  have u: "uniqueTop uni tp isdir used = unique_name uni b e used 0" using sp by (simp add: uniqueTop_def b_def e_def)
  have "inj (\<lambda>n. ToLower uni (numbered b e n))" by (rule ascii_inj) (use be assms(2) in simp)
  then obtain y where y: "unique_name uni b e used 0 = Some y" using unique_name_ends [OF assms(1)] by fastforce
  then show ?thesis using unique_name_Some [OF y] u be by auto
qed

theorem unique_top_ends_witness:
  "\<exists>b e n. uniqueTop id ''A.txt'' False {''a.txt''} = Some (numbered b e n, insert (ToLower id (numbered b e n)) {''a.txt''}) \<and>
    b @ e = ''A.txt'' \<and> ToLower id (numbered b e n) \<notin> {''a.txt''}"
proof -
  have "list_all ascii ''A.txt''" "plain_part ''A.txt''" "backslash \<notin> set ''A.txt''"
    by (simp_all add: ascii_def plain_part_def backslash_def)
  then show ?thesis using unique_top_ends [of "{''a.txt''}" "''A.txt''" id False] by auto
qed

section \<open>Paths below a folder\<close>

lemma strip_common_append: "strip_common xs (xs @ ys) = ([], ys)"
  by (induction xs) (cases ys; simp)+

lemma Rel_below:
  assumes n: "named_path c b" and rs: "\<forall>p \<in> set rs. plain_part p" "rs \<noteq> []"
  shows "filepath_Rel (path_Dir c) (c @ CHR ''/'' # join CHR ''/'' rs) = Some (b @ CHR ''/'' # join CHR ''/'' rs)"
proof -
  let ?r = "join CHR ''/'' rs" and ?t = "c @ CHR ''/'' # join CHR ''/'' rs"
  have b: "plain_part b" "CHR ''/'' \<notin> set b" "b \<noteq> []" and cc: "path_Clean c = c"
    using n by (simp_all add: named_path_def plain_part_def)
  have srs: "split_on CHR ''/'' ?r = rs" using split_join [OF rs(2)] rs(1) by (simp add: plain_part_def)
  have st: "split_on CHR ''/'' (x @ CHR ''/'' # ?r) = split_on CHR ''/'' x @ rs" for x by (simp add: split_on_app srs)
  have jb: "join CHR ''/'' (b # rs) = b @ CHR ''/'' # ?r" using rs(2) by (simp add: join_Cons)
  have cn: "c \<noteq> ''.''" "c \<noteq> ''/''" "c \<noteq> []" using n by (auto simp: named_path_def plain_part_def Cons_eq_append_conv append_eq_Cons_conv)
  have ct: "path_Clean ?t = ?t" by (rule path_Clean_app [OF cc cn(1,2) rs])
  have et: "path_elems ?t = split_on CHR ''/'' c @ rs" using cn(3) st [of c] by (simp add: path_elems_def append_eq_Cons_conv)
  from n show ?thesis
  proof (cases rule: named_path_cases)
    case name
    have "path_Clean ''.'' = ''.''" by (simp add: path_Clean_def)
    moreover have "\<not> rooted ?t" using b name by (cases b) (auto simp: rooted_def)
    moreover have "?t \<noteq> ''.''" using cn(3) by (cases c) simp_all
    ultimately show ?thesis using ct et name b(2) jb
      by (simp add: filepath_Rel_def Let_def path_elems_def rooted_def split_on_id)
  next
    case root
    moreover have "path_Clean ''/'' = ''/''" by (simp add: path_Clean_def)
    moreover have "split_on CHR ''/'' c = [[], b]" using root b(2) by (simp add: split_on_id)
    ultimately show ?thesis using ct et b jb
      by (simp add: filepath_Rel_def Let_def) (simp add: path_elems_def rooted_def)
  next
    case (folder d)
    have "split_on CHR ''/'' c = split_on CHR ''/'' d @ [b]"
      using folder(2) split_on_app [of "CHR ''/''" d b] b(2) by (simp add: split_on_id)
    then have et': "path_elems ?t = split_on CHR ''/'' d @ (b # rs)" using et by simp
    have "path_elems d = split_on CHR ''/'' d" using folder(1,6) by (simp add: path_elems_def)
    then have sc: "strip_common (path_elems d) (path_elems ?t) = ([], b # rs)" using et' strip_common_append by metis
    have "rooted d = rooted ?t" using folder by (simp add: rooted_def)
    moreover have "?t \<noteq> d" using folder(2) by simp
    ultimately show ?thesis unfolding filepath_Rel_def folder(3,4) ct Let_def using folder(5) sc jb by simp
  qed
qed

section \<open>What the manifest holds\<close>

text \<open>An entry of the walk of a folder: below it, by plain names.\<close>

definition entry_ok :: "string \<Rightarrow> walk_entry \<Rightarrow> bool" where
  "entry_ok c e \<longleftrightarrow> (case e of
     WalkFile p _ \<Rightarrow> \<exists>rs. rs \<noteq> [] \<and> (\<forall>r \<in> set rs. plain_part r) \<and> p = c @ CHR ''/'' # join CHR ''/'' rs
   | _ \<Rightarrow> True)"

definition source_ok :: "(string \<Rightarrow> stat_result) \<Rightarrow> string \<Rightarrow> bool" where
  "source_ok stat p \<longleftrightarrow> (\<exists>b. named_path (path_Clean p) b) \<and>
     (case stat (path_Clean p) of StatFolder es \<Rightarrow> \<forall>e \<in> set es. entry_ok (path_Clean p) e | _ \<Rightarrow> True)"

text \<open>The reference: the items of one source under the name it got.\<close>

definition entry_items :: "string \<Rightarrow> string \<Rightarrow> walk_entry \<Rightarrow> manifest_item list" where
  "entry_items name c e = (case e of
     WalkFile p (Some (sz, mtime)) \<Rightarrow>
       [\<lparr>mi_RelPath = name @ drop (length c) p, mi_Size = sz, mi_MTime = mtime, mi_FullPath = p\<rparr>]
   | _ \<Rightarrow> [])"

definition source_items :: "string \<Rightarrow> string \<Rightarrow> stat_result \<Rightarrow> manifest_item list" where
  "source_items name c info = (case info of
     StatFolder es \<Rightarrow> concat (map (entry_items name c) es)
   | StatFile sz mtime \<Rightarrow> [\<lparr>mi_RelPath = name, mi_Size = sz, mi_MTime = mtime, mi_FullPath = c\<rparr>]
   | _ \<Rightarrow> [])"

definition item_sizes :: "manifest_item list \<Rightarrow> int" where
  "item_sizes ms = sum_list (map mi_Size ms)"

lemma item_sizes_app [simp]: "item_sizes (xs @ ys) = item_sizes xs + item_sizes ys" "item_sizes [] = 0"
  by (simp_all add: item_sizes_def)

lemma wrap64_add [simp]: "wrap64 (wrap64 a + b) = wrap64 (a + b)"
proof -
  have e: "wrap64 a + b + 2 ^ 63 = (a + 2 ^ 63) mod 2 ^ 64 + b" by (simp add: wrap64_def)
  have "(wrap64 a + b + 2 ^ 63) mod 2 ^ 64 = (a + 2 ^ 63 + b) mod 2 ^ 64" unfolding e by (rule mod_add_left_eq)
  moreover have "a + 2 ^ 63 + b = a + b + 2 ^ 63" by simp
  ultimately have "(wrap64 a + b + 2 ^ 63) mod 2 ^ 64 = (a + b + 2 ^ 63) mod 2 ^ 64" by (simp only:)
  then show ?thesis unfolding wrap64_def [of "wrap64 a + b"] wrap64_def [of "a + b"] by (simp only:)
qed

lemma walk_items_spec:
  assumes "walk_items name (path_Base c) (path_Dir c) es items tot = Some (items', tot')"
    "named_path c b" "\<forall>e \<in> set es. entry_ok c e"
  shows "items' = items @ concat (map (entry_items name c) es) \<and>
    wrap64 tot' = wrap64 (tot + item_sizes (concat (map (entry_items name c) es)))"
  using assms
proof (induction es arbitrary: items tot)
  case (Cons e es)
  note pb = path_Base_named [OF Cons.prems(2)]
  show ?case
  proof (cases e)
    case (WalkFile p info)
    obtain rs where rs: "rs \<noteq> []" "\<forall>r \<in> set rs. plain_part r" "p = c @ CHR ''/'' # join CHR ''/'' rs"
      using Cons.prems(3) WalkFile by (auto simp: entry_ok_def)
    have rel: "filepath_Rel (path_Dir c) p = Some (b @ CHR ''/'' # join CHR ''/'' rs)"
      using Rel_below [OF Cons.prems(2) rs(2,1)] rs(3) by simp
    obtain sz mt where info: "info = Some (sz, mt)" using Cons.prems(1) WalkFile by (cases info) auto
    let ?it = "\<lparr>mi_RelPath = name @ drop (length c) p, mi_Size = sz, mi_MTime = mt, mi_FullPath = p\<rparr>"
    have "walk_items name (path_Base c) (path_Dir c) es (items @ [?it]) (wrap64 (tot + sz)) = Some (items', tot')"
      using Cons.prems(1) WalkFile info rel rs(3) pb by simp
    from Cons.IH [OF this Cons.prems(2)] Cons.prems(3)
    have "items' = (items @ [?it]) @ concat (map (entry_items name c) es)"
      "wrap64 tot' = wrap64 (wrap64 (tot + sz) + item_sizes (concat (map (entry_items name c) es)))" by simp_all
    moreover have "entry_items name c e = [?it]" using WalkFile info by (simp add: entry_items_def)
    ultimately show ?thesis by (simp add: item_sizes_def add.assoc)
  qed (use Cons in \<open>simp_all add: entry_items_def\<close>)
qed simp

lemma add_source_spec:
  assumes "add_source name c info items tot = Some (items', tot')" "named_path c b"
    "case info of StatFolder es \<Rightarrow> \<forall>e \<in> set es. entry_ok c e | _ \<Rightarrow> True"
  shows "items' = items @ source_items name c info \<and> wrap64 tot' = wrap64 (tot + item_sizes (source_items name c info))"
  using assms walk_items_spec [of name c _ items tot items' tot' b]
  by (cases info) (auto simp: add_source_def source_items_def item_sizes_def)

lemma build_paths_spec:
  assumes "build_paths uni stat ps used items tot = Some (Inr (items', tot'))" "\<forall>p \<in> set ps. source_ok stat p"
  shows "\<exists>names. length names = length ps \<and> distinct (map (ToLower uni) names) \<and>
    (\<forall>n \<in> set names. ToLower uni n \<notin> used) \<and>
    items' = items @ concat (map2 (\<lambda>n p. source_items n (path_Clean p) (stat (path_Clean p))) names ps) \<and>
    wrap64 tot' = wrap64 (tot + item_sizes (concat (map2 (\<lambda>n p. source_items n (path_Clean p) (stat (path_Clean p))) names ps)))"
  using assms
proof (induction ps arbitrary: used items tot)
  case (Cons p ps)
  let ?c = "path_Clean p" and ?g = "\<lambda>n p. source_items n (path_Clean p) (stat (path_Clean p))"
  obtain b where b: "named_path ?c b" using Cons.prems(2) by (auto simp: source_ok_def)
  obtain name used1 where u: "uniqueTop uni (path_Base ?c) (is_folder (stat ?c)) used = Some (name, used1)"
    using Cons.prems(1) by (auto simp: Let_def split: if_splits option.splits)
  obtain items1 tot1 where a: "add_source name ?c (stat ?c) items tot = Some (items1, tot1)"
    using Cons.prems(1) u by (auto simp: Let_def split: if_splits option.splits)
  have bp: "build_paths uni stat ps used1 items1 tot1 = Some (Inr (items', tot'))"
    using Cons.prems(1) u a by (auto simp: Let_def split: if_splits)
  have A: "items1 = items @ ?g name p" "wrap64 tot1 = wrap64 (tot + item_sizes (?g name p))"
    using add_source_spec [OF a b] Cons.prems(2) by (auto simp: source_ok_def)
  have U: "ToLower uni name \<notin> used" "used1 = insert (ToLower uni name) used"
    using u by (auto simp: uniqueTop_def split: prod.splits dest!: unique_name_Some)
  from Cons.IH [OF bp] Cons.prems(2) obtain names where N: "length names = length ps" "distinct (map (ToLower uni) names)"
    "\<forall>n \<in> set names. ToLower uni n \<notin> used1" "items' = items1 @ concat (map2 ?g names ps)"
    "wrap64 tot' = wrap64 (tot1 + item_sizes (concat (map2 ?g names ps)))" by auto
  have "wrap64 tot' = wrap64 (wrap64 (tot + item_sizes (?g name p)) + item_sizes (concat (map2 ?g names ps)))"
    using N(5) A(2) wrap64_add [of tot1] by simp
  then have "wrap64 tot' = wrap64 (tot + item_sizes (concat (map2 ?g (name # names) (p # ps))))"
    by (simp add: add.assoc)
  then show ?case using N A(1) U by (intro exI [of _ "name # names"]) auto
qed (auto intro: exI [of _ "[]"])

text \<open>C27. The manifest of a send is exactly what the paths hold: under pairwise different names
  (letter case aside), one for each path, each regular file once, with its size and time, a file
  of a folder keeping its path below it; the total is the sum of the sizes, as an \<^verbatim>\<open>int64\<close>.
  Paths end in a name; what a walk meets is below its folder.\<close>

theorem build_exact:
  assumes "Build uni rnd stat paths = Some (Inr m)" "\<forall>p \<in> set paths. source_ok stat p"
  shows "\<exists>names. length names = length paths \<and> distinct (map (ToLower uni) names) \<and>
    mf_Items m = concat (map2 (\<lambda>n p. source_items n (path_Clean p) (stat (path_Clean p))) names paths) \<and>
    mf_Items m \<noteq> [] \<and> mf_TotalFiles m = length (mf_Items m) \<and> wrap64 (mf_TotalBytes m) = wrap64 (item_sizes (mf_Items m))"
proof -
  obtain items tot where b: "build_paths uni stat paths {} [] 0 = Some (Inr (items, tot))" "items \<noteq> []"
    "mf_Items m = items" "mf_TotalFiles m = length items" "mf_TotalBytes m = tot"
    using assms(1) by (auto simp: Build_def Let_def split: if_splits option.splits sum.splits)
  show ?thesis using build_paths_spec [OF b(1) assms(2)] b(2-) by auto
qed

definition ex_stat :: "string \<Rightarrow> stat_result" where
  "ex_stat p = (if p = ''docs'' then StatFolder [WalkFolder ''docs'', WalkFile ''docs/a.txt'' (Some (7, 1))]
     else if p = ''.'' then StatFolder [WalkFolder ''.'', WalkFile ''notes.txt'' (Some (5, 2))]
     else StatErr)"

lemma unique_name_first: "ToLower uni (numbered b e n) \<notin> used \<Longrightarrow>
    unique_name uni b e used n = Some (numbered b e n, insert (ToLower uni (numbered b e n)) used)"
  by (subst unique_name.simps) (simp add: Let_def)

lemma ex_hex: "hex [1] = ''01''"
  by code_simp

lemma ex_build:
  "Build id [1] ex_stat [''docs''] =
     Some (Inr \<lparr>mf_BatchID = ''01'', mf_RootName = ''docs'', mf_TotalFiles = 1, mf_TotalBytes = 7,
       mf_Items = [\<lparr>mi_RelPath = ''docs/a.txt'', mi_Size = 7, mi_MTime = 1, mi_FullPath = ''docs/a.txt''\<rparr>]\<rparr>)"
proof -
  have c: "path_Clean ''docs'' = ''docs''" "path_Base ''docs'' = ''docs''" "path_Dir ''docs'' = ''.''"
    by (simp_all add: path_Clean_def path_Base_def path_Dir_def strip_slashes_def Let_def)
  have u: "uniqueTop id ''docs'' True {} = Some (''docs'', {''docs''})"
    by (simp add: uniqueTop_def unique_name_first FormatCandidateName_def ToLower_def ascii_def lower_char_def Let_def)
  have r: "filepath_Rel ''.'' ''docs/a.txt'' = Some ''docs/a.txt''"
    by (simp add: filepath_Rel_def path_Clean_def path_elems_def rooted_def Let_def)
  have "in_int64 7" by (simp add: in_int64_def)
  then show ?thesis
    using c u r by (simp add: Build_def Let_def ex_stat_def is_folder_def add_source_def ex_hex del: hex_simps)
qed

lemma ex_source_ok: "source_ok ex_stat ''docs''"
proof -
  have c: "path_Clean ''docs'' = ''docs''" by (simp add: path_Clean_def)
  then have "named_path ''docs'' ''docs''" by (simp add: named_path_def plain_part_def)
  moreover have "entry_ok ''docs'' (WalkFile ''docs/a.txt'' (Some (7, 1)))"
    by (auto simp: entry_ok_def plain_part_def intro!: exI [of _ "[''a.txt'']"])
  ultimately show ?thesis using c by (auto simp: source_ok_def ex_stat_def entry_ok_def)
qed

theorem build_exact_witness:
  "\<exists>names. length names = 1 \<and>
    [\<lparr>mi_RelPath = ''docs/a.txt'', mi_Size = 7, mi_MTime = 1, mi_FullPath = ''docs/a.txt''\<rparr>] =
    concat (map2 (\<lambda>n p. source_items n (path_Clean p) (ex_stat (path_Clean p))) names [''docs''])"
  using build_exact [OF ex_build] ex_source_ok by auto

text \<open>A send of the present folder, \<open>.\<close>, names its files wrong: the name cut from each path is
  one byte long, but the path below \<open>.\<close> does not start with it, so the first byte of every path
  is lost, and the offer is valid: \<^verbatim>\<open>notes.txt\<close> is offered as \<^verbatim>\<open>.otes.txt\<close>.\<close>

theorem build_dot_loses_a_byte:
  "\<exists>off. BuildOffer id [1] ''now'' ex_stat [''.''] MinChunkSize = Some (Inr (off, [''notes.txt''], Inr ())) \<and>
     map it_Path (o_Items off) = [''.otes.txt'']"
proof -
  have c: "path_Clean ''.'' = ''.''" "path_Base ''.'' = ''.''" "path_Dir ''.'' = ''.''"
    by (simp_all add: path_Clean_def path_Base_def path_Dir_def strip_slashes_def Let_def)
  have u: "uniqueTop id ''.'' True {} = Some (''.'', {''.''})"
    by (simp add: uniqueTop_def unique_name_first FormatCandidateName_def ToLower_def ascii_def lower_char_def Let_def)
  have r: "filepath_Rel ''.'' ''notes.txt'' = Some ''notes.txt''"
    by (simp add: filepath_Rel_def path_Clean_def path_elems_def rooted_def Let_def)
  have i: "in_int64 5" by (simp add: in_int64_def)
  have b: "Build id [1] ex_stat [''.''] =
     Some (Inr \<lparr>mf_BatchID = ''01'', mf_RootName = ''.'', mf_TotalFiles = 1, mf_TotalBytes = 5,
       mf_Items = [\<lparr>mi_RelPath = ''.otes.txt'', mi_Size = 5, mi_MTime = 2, mi_FullPath = ''notes.txt''\<rparr>]\<rparr>)"
    using c u r i by (simp add: Build_def Let_def ex_stat_def is_folder_def add_source_def ex_hex del: hex_simps)
  have ch: "Chunks 5 MinChunkSize = 1"
    by (simp add: Chunks_def MinChunkSize_def wrap64_def signed_divide_int_def)
  let ?off = "\<lparr>o_TransferID = [], o_Root = ''.'', o_Items = [\<lparr>it_Item = 0, it_Path = ''.otes.txt'', it_Size = 5, it_MTime = 2\<rparr>],
    o_TotalBytes = 5, o_ChunkSize = MinChunkSize, o_Kind = [], o_Count = 0\<rparr>"
  have "Validate id ?off = Inr ()"
    by (simp add: Validate_def ch Let_def path_key_def ToLower_def to_slash_def backslash_def ascii_def)
      (simp add: offer_limits)
  then show ?thesis using b by (simp add: BuildOffer_def to_offer_items_def)
qed

section \<open>Files already open\<close>

lemma path_Base_flat: "path_Base p = ''/'' \<or> path_Base p = ''.'' \<or> (CHR ''/'' \<notin> set (path_Base p) \<and> set (path_Base p) \<subseteq> set p)"
proof -
  let ?q = "strip_slashes p"
  have q: "set ?q \<subseteq> set p" using set_dropWhileD by (fastforce simp: strip_slashes_def)
  show ?thesis
  proof (cases "LastIndexByte ?q CHR ''/''")
    case None
    then have "CHR ''/'' \<notin> set ?q" by (simp add: LastIndexByte_None)
    then show ?thesis using None q by (simp add: path_Base_def Let_def)
  next
    case (Some j)
    then have "CHR ''/'' \<notin> set (drop (Suc j) ?q)" using LastIndexByte_Some by blast
    moreover have "set (drop (Suc j) ?q) \<subseteq> set p" using q set_drop_subset by fastforce
    ultimately show ?thesis using Some by (simp add: path_Base_def Let_def)
  qed
qed

text \<open>The name a file gets: one plain element, without a backslash.\<close>

lemma file_name_plain:
  assumes "name = (if b = [] \<or> b = ''.'' \<or> b = ''..'' \<or> b = ''/'' then ''file-'' @ dec k else b)"
    "b = path_Base (to_slash nm)"
  shows "plain_part name \<and> backslash \<notin> set name"
proof (cases "b = [] \<or> b = ''.'' \<or> b = ''..'' \<or> b = ''/''")
  case True
  have "CHR ''/'' \<notin> set (dec k)" "backslash \<notin> set (dec k)" 
    using dec_digits [of "CHR ''/''" k] dec_digits [of backslash k] by (auto simp: backslash_def)
  then show ?thesis using True assms(1) by (auto simp: plain_part_def backslash_def)
next
  case False
  then have "CHR ''/'' \<notin> set b" "set b \<subseteq> set (to_slash nm)" using path_Base_flat [of "to_slash nm"] assms(2) by auto
  then show ?thesis using False assms(1) backslash_to_slash [of nm] by (auto simp: plain_part_def)
qed

lemma numbered_plain:
  assumes "plain_part name" "backslash \<notin> set name" "SplitNameAndExt uni name = (d, b, e)"
  shows "plain_part (numbered b e n) \<and> backslash \<notin> set (numbered b e n)"
proof -
  have f: "numbered b e n = candidate_name b n e" by (simp add: FormatCandidateName_def candidate_name_def)
  have "plain_part (b @ e)" "backslash \<notin> set (b @ e)"
    using candidate_form [OF plain_clean_rel [OF assms(1,2)] assms(3)] by auto
  then show ?thesis unfolding f using candidate_name_plain by simp
qed

text \<open>What is true of the items so far: their numbers, plain names, all different letter case aside.\<close>

definition flat_items :: "(string \<Rightarrow> string) \<Rightarrow> string set \<Rightarrow> open_file list \<Rightarrow> offer_item list \<Rightarrow> bool" where
  "flat_items uni used fs items \<longleftrightarrow> length items = length fs \<and>
     distinct (map (ToLower uni \<circ> it_Path) items) \<and> (ToLower uni \<circ> it_Path) ` set items \<subseteq> used \<and>
     (\<forall>i < length fs. it_Item (items ! i) = int i \<and> fs ! i = FileReg (it_Size (items ! i)) (it_MTime (items ! i)) \<and>
        plain_part (it_Path (items ! i)) \<and> backslash \<notin> set (it_Path (items ! i)))"

lemma flat_items_snoc:
  assumes "flat_items uni used fs items" "ToLower uni c \<notin> used" "plain_part c" "backslash \<notin> set c"
    "used' = insert (ToLower uni c) used"
  shows "flat_items uni used' (fs @ [FileReg sz mt])
    (items @ [\<lparr>it_Item = int (length fs), it_Path = c, it_Size = sz, it_MTime = mt\<rparr>])"
proof -
  let ?it = "\<lparr>it_Item = int (length fs), it_Path = c, it_Size = sz, it_MTime = mt\<rparr>"
  note A = assms(1) [unfolded flat_items_def]
  have "it_Item ((items @ [?it]) ! i) = int i \<and>
      (fs @ [FileReg sz mt]) ! i = FileReg (it_Size ((items @ [?it]) ! i)) (it_MTime ((items @ [?it]) ! i)) \<and>
      plain_part (it_Path ((items @ [?it]) ! i)) \<and> backslash \<notin> set (it_Path ((items @ [?it]) ! i))"
    if "i < length (fs @ [FileReg sz mt])" for i
    using A that assms(3,4) by (cases "i < length fs") (auto simp: nth_append less_Suc_eq)
  then show ?thesis using A assms(2,5) unfolding flat_items_def by auto
qed

lemma offer_files_flat:
  assumes "offer_files uni (length gs) fs nms used items tot = Some (Inr (items', tot'))" "length fs = length nms"
    "flat_items uni used gs items"
  shows "\<exists>used'. flat_items uni used' (gs @ fs) items'"
  using assms
proof (induction fs arbitrary: gs nms used items tot)
  case (Cons f fs)
  obtain nm nms' where nms: "nms = nm # nms'" using Cons.prems(2) by (cases nms) auto
  define name where "name = (let b = path_Base (to_slash nm) in
    if b = [] \<or> b = ''.'' \<or> b = ''..'' \<or> b = ''/'' then ''file-'' @ dec (length gs + 1) else b)"
  have pl: "plain_part name" "backslash \<notin> set name"
    using file_name_plain [OF _ refl, of name nm "length gs + 1"] by (simp_all add: name_def Let_def)
  obtain d b e where sp: "SplitNameAndExt uni name = (d, b, e)" by (metis prod.exhaust)
  show ?case
  proof (cases f)
    case (FileReg sz mt)
    have st: "offer_files uni (length gs) (f # fs) nms used items tot = (case unique_name uni b e used 0 of
        None \<Rightarrow> None
      | Some (cand, used') \<Rightarrow> offer_files uni (Suc (length gs)) fs nms' used'
            (items @ [\<lparr>it_Item = int (length gs), it_Path = cand, it_Size = sz, it_MTime = mt\<rparr>]) (wrap64 (tot + sz)))"
      using FileReg nms sp unfolding name_def by (simp add: Let_def)
    obtain c used' where u: "unique_name uni b e used 0 = Some (c, used')"
      using Cons.prems(1) st by (cases "unique_name uni b e used 0") auto
    have C: "plain_part c" "backslash \<notin> set c" "ToLower uni c \<notin> used" "used' = insert (ToLower uni c) used"
      using unique_name_Some [OF u] numbered_plain [OF pl sp] by auto
    have f: "flat_items uni used' (gs @ [f]) (items @ [\<lparr>it_Item = int (length gs), it_Path = c, it_Size = sz, it_MTime = mt\<rparr>])"
      unfolding FileReg by (rule flat_items_snoc [OF Cons.prems(3) C(3,1,2,4)])
    have "offer_files uni (length (gs @ [f])) fs nms' used'
        (items @ [\<lparr>it_Item = int (length gs), it_Path = c, it_Size = sz, it_MTime = mt\<rparr>]) (wrap64 (tot + sz)) = Some (Inr (items', tot'))"
      using Cons.prems(1) st u by simp
    from Cons.IH [OF this _ f] show ?thesis using Cons.prems(2) nms by simp
  qed (use Cons.prems(1) nms in simp_all)
qed auto

text \<open>The offer of files already open: one item for each file, in order, with the file's size and
  time, under names that are single plain elements (no separator, not \<open>.\<close> or \<open>..\<close>, whatever names
  the system gave), pairwise different letter case aside. So no item of such an offer can leave its
  folder or land on another one.\<close>

theorem offer_files_names:
  assumes "BuildOfferFiles uni moment fs nms cs = Some (Inr (off, v))"
  shows "length (o_Items off) = length fs \<and> distinct (map (path_key uni \<circ> it_Path) (o_Items off)) \<and>
    (\<forall>i < length fs. it_Item (o_Items off ! i) = int i \<and>
       fs ! i = FileReg (it_Size (o_Items off ! i)) (it_MTime (o_Items off ! i)) \<and>
       plain_part (it_Path (o_Items off ! i)) \<and> backslash \<notin> set (it_Path (o_Items off ! i)))"
proof -
  obtain items tot where o: "offer_files uni 0 fs nms {} [] 0 = Some (Inr (items, tot))" "o_Items off = items"
    "length fs = length nms"
    using assms by (auto simp: BuildOfferFiles_def Let_def bind_res_Inr split: if_splits)
  have "flat_items uni {} [] []" by (simp add: flat_items_def)
  then obtain used where F: "flat_items uni used fs items" using offer_files_flat [of uni "[]" fs nms "{}" "[]" 0] o by auto
  have k: "map (path_key uni \<circ> it_Path) items = map (ToLower uni \<circ> it_Path) items"
  proof (rule map_cong)
    fix x assume "x \<in> set items"
    then obtain i where "i < length items" "x = items ! i" by (metis in_set_conv_nth)
    then have "backslash \<notin> set (it_Path x)" using F by (simp add: flat_items_def)
    then show "(path_key uni \<circ> it_Path) x = (ToLower uni \<circ> it_Path) x" by (simp add: path_key_def to_slash_id)
  qed simp
  show ?thesis unfolding o(2) k using F unfolding flat_items_def by blast
qed

theorem offer_files_names_witness:
  "\<exists>off v. BuildOfferFiles id ''now'' [FileReg 3 1] [''a''] MinChunkSize = Some (Inr (off, v)) \<and> length (o_Items off) = 1"
proof -
  have "SplitNameAndExt id ''a'' = ([], ''a'', [])"
    by (simp add: SplitNameAndExt_def to_slash_def backslash_def path_Dir_def path_Clean_def path_Base_def
        strip_slashes_def path_Ext_def multiExts_def ToLower_def ascii_def lower_char_def suffix_def Let_def)
  moreover have "path_Base (to_slash ''a'') = ''a''"
    by (simp add: to_slash_def backslash_def path_Base_def strip_slashes_def Let_def)
  moreover have "unique_name id ''a'' [] {} 0 = Some (''a'', {''a''})"
    by (simp add: unique_name_first FormatCandidateName_def ToLower_def ascii_def lower_char_def Let_def)
  ultimately obtain off v where "BuildOfferFiles id ''now'' [FileReg 3 1] [''a''] MinChunkSize = Some (Inr (off, v))"
    by (simp add: BuildOfferFiles_def Let_def)
  then show ?thesis using offer_files_names by fastforce
qed

end
