(* ===== verification/Session.thy ===== *)
theory Session
  imports Offer Manifest
begin

text \<open>
  The control channel of a session (\<^verbatim>\<open>pkg/session/session.go\<close>) and the offers it carries in
  pages (\<^verbatim>\<open>pkg/session/offer.go\<close>). A channel is the bytes still to read, the writes made with
  the deadline each was made under, and its own flags. JSON is the pair of parameters
  \<open>marshal\<close> and \<open>unmarshal\<close> (\<^verbatim>\<open>encoding/json\<close>); the QR, PIN and trust fields of a message
  are those of the pairing components.
\<close>

section \<open>Messages\<close>

record item_progress =
  ip_Index :: int
  ip_Bytes :: int

record progress =
  pr_Bytes :: int
  pr_Items :: "item_progress list"

text \<open>An absent pointer field is \<open>None\<close>; an absent field of another type is its zero value.\<close>

record message =
  m_Type :: string
  m_DeviceName :: string
  m_PairingCode :: string
  m_Secret :: string
  m_Suite :: string
  m_Share :: bytes
  m_Confirm :: bytes
  m_TrustsYou :: bool
  m_TrustOffer :: bool
  m_TagKey :: bytes
  m_FileName :: string
  m_FileSize :: int
  m_FileID :: string
  m_DataPort :: int
  m_ResumeBytes :: int
  m_Batch :: "manifest option"
  m_ItemIndex :: int
  m_Item :: "int option"
  m_TransferID :: string
  m_Offer :: "offer option"
  m_Items :: "offer_item list"
  m_ChunkSize :: "32 word"
  m_BenchPingTS :: int
  m_BenchSize :: int
  m_Error :: string
  m_Code :: string
  m_Progress :: "progress option"

definition empty_message :: message where
  "empty_message = \<lparr>m_Type = [], m_DeviceName = [], m_PairingCode = [], m_Secret = [], m_Suite = [],
     m_Share = [], m_Confirm = [], m_TrustsYou = False, m_TrustOffer = False, m_TagKey = [],
     m_FileName = [], m_FileSize = 0, m_FileID = [], m_DataPort = 0, m_ResumeBytes = 0,
     m_Batch = None, m_ItemIndex = 0, m_Item = None, m_TransferID = [], m_Offer = None,
     m_Items = [], m_ChunkSize = 0, m_BenchPingTS = 0, m_BenchSize = 0, m_Error = [], m_Code = [],
     m_Progress = None\<rparr>"

definition TypeError :: string where "TypeError = ''error''"
definition CodeUnsupported :: string where "CodeUnsupported = ''unsupported''"

definition Unsupported :: "string \<Rightarrow> message" where
  "Unsupported msgType =
     empty_message\<lparr>m_Type := TypeError, m_Code := CodeUnsupported,
                   m_Error := ''unsupported message type '' @ msgType\<rparr>"

section \<open>Channel\<close>

datatype session_error =
    FrameError frame_error
  | InvalidJSON
  | TooLarge nat
  | Closed
  | WriteFailed
  | BadOfferMessage string
  | OfferError offer_error

text \<open>Times are nanoseconds; a deadline not set is \<open>None\<close>. \<open>ch_conn\<close> is false for a channel whose
  connection is nil.\<close>

record channel =
  ch_in :: bytes
  ch_writes :: "(int \<times> bytes) list"
  ch_conn :: bool
  ch_closed :: bool
  ch_maxControl :: "32 word"
  ch_writeDeadline :: "int option"

definition sendTimeout :: int where "sendTimeout = 5000000000"

definition NewChannel :: "bytes \<Rightarrow> channel" where
  "NewChannel conn = \<lparr>ch_in = conn, ch_writes = [], ch_conn = True, ch_closed = False,
     ch_maxControl = MaxControl, ch_writeDeadline = None\<rparr>"

definition SetMaxControl :: "channel \<Rightarrow> 32 word \<Rightarrow> channel" where
  "SetMaxControl c n = c\<lparr>ch_maxControl := n\<rparr>"

text \<open>\<open>wok\<close> says whether the connection takes the bytes; the caller's own write deadline comes
  back after the write, and an earlier one still bounds it.\<close>

definition Send ::
  "(message \<Rightarrow> bytes) \<Rightarrow> bool \<Rightarrow> int \<Rightarrow> channel \<Rightarrow> message \<Rightarrow> (session_error + unit) \<times> channel" where
  "Send marshal wok now c msg =
     (let payload = marshal msg in
      if (of_nat (length payload) :: 32 word) > ch_maxControl c then (Inl (TooLarge (length payload)), c)
      else
        let frm = AppendFrame [] TypeControl payload in
        if ch_closed c \<or> \<not> ch_conn c then (Inl Closed, c)
        else
          let prev = ch_writeDeadline c;
              at = (case prev of
                      Some t \<Rightarrow> if t < now + sendTimeout then t else now + sendTimeout
                    | None \<Rightarrow> now + sendTimeout);
              c' = c\<lparr>ch_writeDeadline := Some at\<rparr>;
              c'' = (if wok then c'\<lparr>ch_writes := ch_writes c' @ [(at, frm)]\<rparr> else c')
          in (if wok then Inr () else Inl WriteFailed, c''\<lparr>ch_writeDeadline := prev\<rparr>))"

definition Read ::
  "(bytes \<Rightarrow> message option) \<Rightarrow> channel \<Rightarrow> (session_error + message) \<times> channel" where
  "Read unmarshal c =
     (case ReadFrame (ch_in c) [TypeControl \<mapsto> ch_maxControl c] of
        (Inl e, r) \<Rightarrow> (Inl (FrameError e), c\<lparr>ch_in := r\<rparr>)
      | (Inr (h, payload), r) \<Rightarrow>
          (case unmarshal payload of
             None \<Rightarrow> (Inl InvalidJSON, c\<lparr>ch_in := r\<rparr>)
           | Some msg \<Rightarrow> (Inr msg, c\<lparr>ch_in := r\<rparr>)))"

definition Close :: "channel \<Rightarrow> channel" where
  "Close c = c\<lparr>ch_closed := True\<rparr>"

definition IsClosed :: "channel \<Rightarrow> bool" where
  "IsClosed c \<longleftrightarrow> ch_closed c \<or> \<not> ch_conn c"

text \<open>What the peer will read: the bytes written, in order.\<close>

definition written :: "channel \<Rightarrow> bytes" where
  "written c = concat (map snd (ch_writes c))"

section \<open>Paged offers\<close>

definition TypeOfferItems :: string where "TypeOfferItems = ''offer_items''"

definition offerPageBytes :: nat where "offerPageBytes = 2 ^ 20 - 2 ^ 16"

definition OfferMessages ::
  "(offer_item \<Rightarrow> nat) \<Rightarrow> message \<Rightarrow> offer \<Rightarrow> message \<times> message list" where
  "OfferMessages jlen msg off =
     (let (head, pages) = Split jlen offerPageBytes off
      in (msg\<lparr>m_Offer := Some head\<rparr>,
          map (\<lambda>p. empty_message\<lparr>m_Type := TypeOfferItems, m_TransferID := o_TransferID off, m_Items := p\<rparr>)
            pages))"

text \<open>The loop of \<^verbatim>\<open>ReadOffer\<close>. It ends: every page accepted brings items, and there are never
  more than announced.\<close>

function read_pages ::
  "(bytes \<Rightarrow> message option) \<Rightarrow> channel \<Rightarrow> offer \<Rightarrow> (session_error + offer) \<times> channel" where
  "read_pages unmarshal ch off =
     (if Complete off then (Inr off, ch)
      else case Read unmarshal ch of
             (Inl e, ch') \<Rightarrow> (Inl e, ch')
           | (Inr m, ch') \<Rightarrow>
               if m_Type m \<noteq> TypeOfferItems \<or> m_TransferID m \<noteq> o_TransferID off
               then (Inl (BadOfferMessage (m_Type m)), ch')
               else (case AddPage off (m_Items m) of
                       (Inl e, _) \<Rightarrow> (Inl (OfferError e), ch')
                     | (Inr _, off') \<Rightarrow> read_pages unmarshal ch' off'))"
  by pat_completeness auto
termination
proof (relation "measure (\<lambda>(unmarshal, ch, off). nat (o_Count off) - length (o_Items off))", goal_cases)
  case (2 unmarshal ch off r ch' m s off' a)
  then have "AddPage off (m_Items m) = (Inr (), off')" by simp
  from AddPage_Inr [OF this] show ?case by (cases "m_Items m") auto
qed simp

declare read_pages.simps [simp del]

definition ReadOffer ::
  "(string \<Rightarrow> string) \<Rightarrow> (bytes \<Rightarrow> message option) \<Rightarrow> channel \<Rightarrow> message
   \<Rightarrow> (session_error + offer) \<times> channel" where
  "ReadOffer uni unmarshal ch first =
     (case m_Offer first of
        None \<Rightarrow> (Inl (BadOfferMessage (m_Type first)), ch)
      | Some off \<Rightarrow>
          (case CheckHead off of
             Inl e \<Rightarrow> (Inl (OfferError e), ch)
           | Inr _ \<Rightarrow>
               (case read_pages unmarshal ch off of
                  (Inl e, ch') \<Rightarrow> (Inl e, ch')
                | (Inr off', ch') \<Rightarrow>
                    let off'' = off'\<lparr>o_Count := 0\<rparr>
                    in (case Validate uni off'' of
                          Inl e \<Rightarrow> (Inl (OfferError e), ch')
                        | Inr _ \<Rightarrow> (Inr off'', ch')))))"

section \<open>Lemmas\<close>

definition control_frame :: "(message \<Rightarrow> bytes) \<Rightarrow> message \<Rightarrow> bytes" where
  "control_frame marshal m = AppendFrame [] TypeControl (marshal m)"

text \<open>A message that JSON gives back and that fits in one CONTROL frame of at most \<open>mx\<close> bytes.\<close>

definition carried :: "(message \<Rightarrow> bytes) \<Rightarrow> (bytes \<Rightarrow> message option) \<Rightarrow> 32 word \<Rightarrow> message \<Rightarrow> bool" where
  "carried marshal unmarshal mx m \<longleftrightarrow>
     unmarshal (marshal m) = Some m \<and> length (marshal m) \<le> unat mx"

lemma Read_frame:
  assumes "ch_in c = control_frame marshal m @ rest" "carried marshal unmarshal (ch_maxControl c) m"
  shows "Read unmarshal c = (Inr m, c\<lparr>ch_in := rest\<rparr>)"
  using assms ReadFrame_AppendFrame [of "[TypeControl \<mapsto> ch_maxControl c]" TypeControl
      "ch_maxControl c" "marshal m" rest]
  by (simp add: Read_def control_frame_def carried_def)

lemma Send_writes:
  "Send marshal wok now c m = (Inr (), c') \<Longrightarrow>
   written c' = written c @ control_frame marshal m \<and> ch_writeDeadline c' = ch_writeDeadline c \<and>
   \<not> IsClosed c \<and> ch_maxControl c' = ch_maxControl c"
  by (auto simp: Send_def Let_def written_def control_frame_def IsClosed_def split: if_splits)

text \<open>Pages still to come, read one after the other.\<close>

definition page_message :: "string \<Rightarrow> offer_item list \<Rightarrow> message" where
  "page_message tid p = empty_message\<lparr>m_Type := TypeOfferItems, m_TransferID := tid, m_Items := p\<rparr>"

lemma read_pages_all:
  assumes "ch_in ch = concat (map (\<lambda>p. control_frame marshal (page_message (o_TransferID off) p)) pages) @ rest"
    and "\<forall>p \<in> set pages. p \<noteq> [] \<and> carried marshal unmarshal (ch_maxControl ch) (page_message (o_TransferID off) p)"
    and "\<forall>k < length (o_Items off @ concat pages). it_Item ((o_Items off @ concat pages) ! k) = int k"
    and "pages \<noteq> [] \<Longrightarrow> o_Count off = int (length (o_Items off @ concat pages))"
    and "pages = [] \<Longrightarrow> Complete off"
    and "o_Count off \<le> int MaxOfferItems"
  shows "read_pages unmarshal ch off =
    (Inr (off\<lparr>o_Items := o_Items off @ concat pages\<rparr>), ch\<lparr>ch_in := rest\<rparr>)"
  using assms
proof (induction pages arbitrary: ch off)
  case Nil
  then show ?case by (subst read_pages.simps) simp
next
  case (Cons p pages)
  let ?off = "off\<lparr>o_Items := o_Items off @ p\<rparr>"
  let ?rest = "concat (map (\<lambda>p. control_frame marshal (page_message (o_TransferID off) p)) pages) @ rest"
  have cnt: "o_Count off = int (length (o_Items off @ p @ concat pages))" and p: "p \<noteq> []"
    using Cons.prems(2,4) by auto
  have rd: "Read unmarshal ch = (Inr (page_message (o_TransferID off) p), ch\<lparr>ch_in := ?rest\<rparr>)"
    using Cons.prems(1,2) by (intro Read_frame [where marshal = marshal]) auto
  obtain x xs where px: "p = x # xs" using p by (cases p) auto
  have num: "it_Item (p ! k) = int (length (o_Items off) + k)" if "k < length p" for k
    using Cons.prems(3) [rule_format, of "length (o_Items off) + k"] that by (simp add: nth_append)
  have add: "AddPage off p = (Inr (), ?off)"
    using cnt Cons.prems(6) num
    by (simp add: AddPage_def add_items_numbered) (simp add: px)
  have "pages = [] \<Longrightarrow> Complete ?off"
    using cnt by (simp add: Complete_def)
  then have "read_pages unmarshal (ch\<lparr>ch_in := ?rest\<rparr>) ?off =
      (Inr (?off\<lparr>o_Items := o_Items ?off @ concat pages\<rparr>), ch\<lparr>ch_in := ?rest\<rparr>\<lparr>ch_in := rest\<rparr>)"
    using Cons.prems(2,3,6) cnt by (intro Cons.IH) auto
  moreover have "\<not> Complete off"
    using cnt by (simp add: Complete_def px)
  ultimately show ?case
    using rd add by (subst read_pages.simps) (simp add: page_message_def empty_message_def)
qed

lemma OfferMessages_pages:
  assumes "OfferMessages jlen msg off = (first, follow)"
  obtains head pages where "m_Offer first = Some head" "follow = map (page_message (o_TransferID off)) pages"
    "head = off\<lparr>o_Items := o_Items head,
       o_Count := (if pages = [] then 0 else int (length (o_Items off)))\<rparr>"
    "o_Items head @ concat pages = o_Items off" "\<forall>p \<in> set pages. p \<noteq> []"
proof -
  let ?ps = "split_pages jlen offerPageBytes (o_Items off)"
  note spec = split_pages_spec [of jlen offerPageBytes "o_Items off"]
  then obtain q qs where q: "?ps = q # qs" by (cases ?ps) auto
  let ?head = "off\<lparr>o_Items := q, o_Count := (if qs = [] then 0 else int (length (o_Items off)))\<rparr>"
  show thesis
  proof (rule that [of ?head qs])
    show "m_Offer first = Some ?head" "follow = map (page_message (o_TransferID off)) qs"
      using assms by (auto simp: OfferMessages_def Split_def Let_def q page_message_def)
    show "o_Items ?head @ concat qs = o_Items off" using spec q by auto
    show "\<forall>p \<in> set qs. p \<noteq> []"
      using spec q by (cases "o_Items off = []") (auto simp: page_ok_def)
  qed simp
qed

section \<open>Properties\<close>

text \<open>C39. An offer survives the control channel: whatever the size of the items' JSON, an
  acceptable offer cut into a head and pages, each sent as one CONTROL frame that fits the
  reader's limit, is read back by \<^verbatim>\<open>ReadOffer\<close> as the same offer, item for item, and the
  reader stops exactly after the last page.\<close>

theorem offer_pages_roundtrip:
  assumes valid: "Validate uni off = Inr ()" and count: "o_Count off = 0"
    and msgs: "OfferMessages jlen msg off = (first, follow)"
    and fits: "\<forall>m \<in> set follow. carried marshal unmarshal (ch_maxControl ch) m"
    and stream: "ch_in ch = concat (map (control_frame marshal) follow) @ rest"
  shows "ReadOffer uni unmarshal ch first = (Inr off, ch\<lparr>ch_in := rest\<rparr>)"
proof -
  obtain head pages where h: "m_Offer first = Some head"
      "follow = map (page_message (o_TransferID off)) pages"
      "o_Items head @ concat pages = o_Items off" "\<forall>p \<in> set pages. p \<noteq> []"
    and head: "head = off\<lparr>o_Items := o_Items head,
       o_Count := (if pages = [] then 0 else int (length (o_Items off)))\<rparr>"
    using OfferMessages_pages [OF msgs] by metis
  have tid: "o_TransferID head = o_TransferID off" and
    cnt: "o_Count head = (if pages = [] then 0 else int (length (o_Items off)))"
    by (subst head, simp)+
  have len: "length (o_Items off) \<le> MaxOfferItems"
    and num: "\<forall>k < length (o_Items off). it_Item (o_Items off ! k) = int k"
    using valid by (auto simp: Validate_Inr valid_offer_def Let_def item_ok_def)
  have "length (o_Items head) \<le> length (o_Items off)" using h(3) by (metis length_append le_add1)
  then have chk: "CheckHead head = Inr ()"
    using len cnt by (simp add: CheckHead_def)
  have "read_pages unmarshal ch head =
      (Inr (head\<lparr>o_Items := o_Items head @ concat pages\<rparr>), ch\<lparr>ch_in := rest\<rparr>)"
    using h stream fits num len cnt tid
    by (intro read_pages_all [where marshal = marshal]) (auto simp: comp_def Complete_def)
  moreover have "(head\<lparr>o_Items := o_Items head @ concat pages\<rparr>)\<lparr>o_Count := 0\<rparr> = off"
    using count by (subst (1) head) (simp add: h(3))
  ultimately show ?thesis
    using h(1) chk valid by (simp add: ReadOffer_def Let_def)
qed

text \<open>A JSON that tells the pages of \<open>small_offer\<close> apart by their first item's number.\<close>

definition toy_marshal :: "message \<Rightarrow> bytes" where
  "toy_marshal m = map (\<lambda>it. word_of_int (it_Item it)) (m_Items m)"

definition toy_unmarshal :: "bytes \<Rightarrow> message option" where
  "toy_unmarshal b = Some (page_message [] (map (\<lambda>w. o_Items small_offer ! unat w) b))"

theorem offer_pages_roundtrip_witness:
  "let jlen = \<lambda>_. 600000; (first, follow) = OfferMessages jlen empty_message small_offer;
       ch = NewChannel (concat (map (control_frame toy_marshal) follow) @ [1, 2])
   in length follow = 1 \<and> ReadOffer id toy_unmarshal ch first = (Inr small_offer, ch\<lparr>ch_in := [1, 2]\<rparr>)"
proof -
  let ?jlen = "\<lambda>_ :: offer_item. 600000 :: nat"
  let ?page = "page_message [] [o_Items small_offer ! 1]"
  obtain first follow where m: "OfferMessages ?jlen empty_message small_offer = (first, follow)"
    by (cases "OfferMessages ?jlen empty_message small_offer")
  then have follow: "follow = [?page]"
    by (simp add: OfferMessages_def Split_def split_pages_def small_offer_def offerPageBytes_def
        Let_def page_message_def)
  let ?ch = "NewChannel (concat (map (control_frame toy_marshal) follow) @ [1, 2])"
  have fits: "\<forall>m \<in> set follow. carried toy_marshal toy_unmarshal (ch_maxControl ?ch) m"
    by (simp add: follow carried_def toy_marshal_def toy_unmarshal_def page_message_def
        empty_message_def small_offer_def NewChannel_def MaxControl_def)
  have "ReadOffer id toy_unmarshal ?ch first = (Inr small_offer, ?ch\<lparr>ch_in := [1, 2]\<rparr>)"
    by (rule offer_pages_roundtrip [OF small_offer_valid _ m fits])
      (simp_all add: small_offer_def NewChannel_def)
  with m follow show ?thesis by simp
qed

end
