(* ===== verification/Disk.thy ===== *)
theory Disk
  imports SafePath
begin

text \<open>
  The file system behind the receiver's \<^verbatim>\<open>os.Root\<close>, as the sources use it. A file has the
  contents every reader sees and the contents of its last sync, which is what a power loss
  is sure to leave. Each call takes its outcome from a list of faults given with the state:
  \<open>NoFault\<close> (also when the list is over), or \<open>Fault k\<close>, an I/O error; a write that fails has
  written its first \<open>k\<close> bytes. So every error branch of the sources can be taken, at any
  point, and every theorem holds for all faults. Links and permissions are not modelled.
\<close>

section \<open>State\<close>

datatype fault = NoFault | Fault nat

datatype os_error = NotExist | Exist | IsDir | NotDir | IOError

record fnode =
  fn_data :: bytes
  fn_sync :: bytes

record os =
  os_files :: "string \<rightharpoonup> fnode"
  os_dirs :: "string set"
  os_faults :: "fault list"

definition pop :: "os \<Rightarrow> nat option \<times> os" where
  "pop s = (case os_faults s of
     [] \<Rightarrow> (None, s)
   | NoFault # fs \<Rightarrow> (None, s\<lparr>os_faults := fs\<rparr>)
   | Fault k # fs \<Rightarrow> (Some k, s\<lparr>os_faults := fs\<rparr>))"

text \<open>The folders a name goes through, from the top.\<close>

definition ancestors :: "string \<Rightarrow> string list" where
  "ancestors n = map (\<lambda>j. take j n) (filter (\<lambda>j. n ! j = CHR ''/'') [1..<length n])"

definition anc_error :: "os \<Rightarrow> string \<Rightarrow> os_error option" where
  "anc_error s n = (case filter (\<lambda>d. d \<notin> os_dirs s) (ancestors n) of
     [] \<Rightarrow> None
   | d # _ \<Rightarrow> Some (if os_files s d \<noteq> None then NotDir else NotExist))"

section \<open>Calls\<close>

text \<open>\<^verbatim>\<open>Lstat\<close>: whether the name is a folder.\<close>

definition Lstat :: "os \<Rightarrow> string \<Rightarrow> (os_error + bool) \<times> os" where
  "Lstat s n = (case pop s of
     (Some _, s') \<Rightarrow> (Inl IOError, s')
   | (None, s') \<Rightarrow>
       (case anc_error s' n of
          Some e \<Rightarrow> (Inl e, s')
        | None \<Rightarrow>
            if n \<in> os_dirs s' then (Inr True, s')
            else if os_files s' n \<noteq> None then (Inr False, s')
            else (Inl NotExist, s')))"

text \<open>\<^verbatim>\<open>OpenFile\<close> with \<^verbatim>\<open>O_RDWR\<close>, and \<^verbatim>\<open>O_CREATE|O_EXCL\<close> when \<open>create\<close>.\<close>

definition OpenFile :: "os \<Rightarrow> string \<Rightarrow> bool \<Rightarrow> (os_error + unit) \<times> os" where
  "OpenFile s n create = (case pop s of
     (Some _, s') \<Rightarrow> (Inl IOError, s')
   | (None, s') \<Rightarrow>
       (case anc_error s' n of
          Some e \<Rightarrow> (Inl e, s')
        | None \<Rightarrow>
            if n \<in> os_dirs s' then (Inl (if create then Exist else IsDir), s')
            else if os_files s' n \<noteq> None then (if create then Inl Exist else Inr (), s')
            else if create
              then (Inr (), s'\<lparr>os_files := (os_files s')(n \<mapsto> \<lparr>fn_data = [], fn_sync = []\<rparr>)\<rparr>)
            else (Inl NotExist, s')))"

text \<open>\<^verbatim>\<open>ReadAt\<close>: the bytes read, fewer than asked with an error at the end of the file.\<close>

definition ReadAt :: "os \<Rightarrow> string \<Rightarrow> nat \<Rightarrow> nat \<Rightarrow> (bytes \<times> bool) \<times> os" where
  "ReadAt s n off len = (case pop s of
     (Some k, s') \<Rightarrow> (([], False), s')
   | (None, s') \<Rightarrow>
       (case os_files s' n of
          None \<Rightarrow> (([], False), s')
        | Some nd \<Rightarrow> let b = slice off len (fn_data nd) in ((b, length b = len), s')))"

definition WriteAt :: "os \<Rightarrow> string \<Rightarrow> nat \<Rightarrow> bytes \<Rightarrow> (os_error + unit) \<times> os" where
  "WriteAt s n off d = (case pop s of
     (flt, s') \<Rightarrow>
       (case os_files s' n of
          None \<Rightarrow> (Inl IOError, s')
        | Some nd \<Rightarrow>
            let w = (case flt of None \<Rightarrow> d | Some k \<Rightarrow> take k d)
            in (if flt = None then Inr () else Inl IOError,
                s'\<lparr>os_files := (os_files s')(n \<mapsto> nd\<lparr>fn_data := write_at (fn_data nd) off w\<rparr>)\<rparr>)))"

definition Sync :: "os \<Rightarrow> string \<Rightarrow> (os_error + unit) \<times> os" where
  "Sync s n = (case pop s of
     (Some _, s') \<Rightarrow> (Inl IOError, s')
   | (None, s') \<Rightarrow>
       (case os_files s' n of
          None \<Rightarrow> (Inl IOError, s')
        | Some nd \<Rightarrow> (Inr (), s'\<lparr>os_files := (os_files s')(n \<mapsto> nd\<lparr>fn_sync := fn_data nd\<rparr>)\<rparr>)))"

definition Truncate :: "os \<Rightarrow> string \<Rightarrow> nat \<Rightarrow> (os_error + unit) \<times> os" where
  "Truncate s n len = (case pop s of
     (Some _, s') \<Rightarrow> (Inl IOError, s')
   | (None, s') \<Rightarrow>
       (case os_files s' n of
          None \<Rightarrow> (Inl IOError, s')
        | Some nd \<Rightarrow>
            (Inr (), s'\<lparr>os_files := (os_files s')(n \<mapsto>
               nd\<lparr>fn_data := take len (fn_data nd @ replicate (len - length (fn_data nd)) 0)\<rparr>)\<rparr>)))"

definition CloseF :: "os \<Rightarrow> string \<Rightarrow> (os_error + unit) \<times> os" where
  "CloseF s n = (case pop s of (Some _, s') \<Rightarrow> (Inl IOError, s') | (None, s') \<Rightarrow> (Inr (), s'))"

text \<open>\<^verbatim>\<open>Remove\<close> of a file; a folder is never removed by the calls modelled here.\<close>

definition Remove :: "os \<Rightarrow> string \<Rightarrow> (os_error + unit) \<times> os" where
  "Remove s n = (case pop s of
     (Some _, s') \<Rightarrow> (Inl IOError, s')
   | (None, s') \<Rightarrow>
       (case anc_error s' n of
          Some e \<Rightarrow> (Inl e, s')
        | None \<Rightarrow>
            if os_files s' n = None then (Inl (if n \<in> os_dirs s' then IsDir else NotExist), s')
            else (Inr (), s'\<lparr>os_files := (os_files s')(n := None)\<rparr>)))"

text \<open>\<^verbatim>\<open>Rename\<close> of a file: the target, if a file, is replaced in the same step.\<close>

definition Rename :: "os \<Rightarrow> string \<Rightarrow> string \<Rightarrow> (os_error + unit) \<times> os" where
  "Rename s a b = (case pop s of
     (Some _, s') \<Rightarrow> (Inl IOError, s')
   | (None, s') \<Rightarrow>
       (case (os_files s' a, anc_error s' b) of
          (None, _) \<Rightarrow> (Inl NotExist, s')
        | (Some nd, Some e) \<Rightarrow> (Inl e, s')
        | (Some nd, None) \<Rightarrow>
            if b \<in> os_dirs s' then (Inl Exist, s')
            else (Inr (), s'\<lparr>os_files := (os_files s')(a := None, b \<mapsto> nd)\<rparr>)))"

text \<open>\<^verbatim>\<open>MkdirAll\<close>: the folder and those above it, unless a file is in the way.\<close>

definition MkdirAll :: "os \<Rightarrow> string \<Rightarrow> (os_error + unit) \<times> os" where
  "MkdirAll s d = (case pop s of
     (Some _, s') \<Rightarrow> (Inl IOError, s')
   | (None, s') \<Rightarrow>
       let ds = ancestors d @ [d] in
       if list_ex (\<lambda>x. os_files s' x \<noteq> None) ds then (Inl NotDir, s')
       else (Inr (), s'\<lparr>os_dirs := os_dirs s' \<union> set ds\<rparr>))"

section \<open>Lemmas\<close>

lemma pop_frame:
  "pop s = (f, s') \<Longrightarrow> os_files s' = os_files s \<and> os_dirs s' = os_dirs s"
  by (auto simp: pop_def split: list.splits fault.splits)

lemma pop_no_faults: "os_faults s = [] \<Longrightarrow> pop s = (None, s)"
  by (simp add: pop_def)

lemma anc_error_pop: "pop s = (f, s') \<Longrightarrow> anc_error s' n = anc_error s n"
  using pop_frame [of s f s'] by (simp add: anc_error_def split: list.split)

text \<open>What each call leaves of the files, whatever its outcome.\<close>

lemma Lstat_frame [frame_laws]:
  "Lstat s n = (r, s') \<Longrightarrow> os_files s' = os_files s \<and> os_dirs s' = os_dirs s"
  by (auto simp: Lstat_def dest: pop_frame split: prod.splits option.splits if_splits)

lemma ReadAt_frame [frame_laws]:
  "ReadAt s n off len = (r, s') \<Longrightarrow> os_files s' = os_files s \<and> os_dirs s' = os_dirs s"
  by (auto simp: ReadAt_def Let_def dest: pop_frame split: prod.splits option.splits if_splits)

lemma CloseF_frame [frame_laws]:
  "CloseF s n = (r, s') \<Longrightarrow> os_files s' = os_files s \<and> os_dirs s' = os_dirs s"
  by (auto simp: CloseF_def dest: pop_frame split: prod.splits option.splits)

lemma OpenFile_no_create:
  "OpenFile s n False = (r, s') \<Longrightarrow>
   os_files s' = os_files s \<and> os_dirs s' = os_dirs s \<and> (r = Inr () \<longrightarrow> os_files s n \<noteq> None)"
  by (auto simp: OpenFile_def dest: pop_frame split: prod.splits option.splits if_splits)

lemma OpenFile_create:
  assumes "OpenFile s n True = (r, s')"
  shows "os_dirs s' = os_dirs s"
    "r = Inr () \<Longrightarrow> os_files s n = None \<and> os_files s' = (os_files s)(n \<mapsto> \<lparr>fn_data = [], fn_sync = []\<rparr>)"
    "r \<noteq> Inr () \<Longrightarrow> os_files s' = os_files s"
  using assms by (auto simp: OpenFile_def dest: pop_frame split: prod.splits option.splits if_splits)

lemma WriteAt_files:
  assumes "WriteAt s n off d = (r, s')" "os_files s n = Some nd"
  shows "os_dirs s' = os_dirs s"
    "\<exists>w. prefix w d \<and> (r = Inr () \<longrightarrow> w = d) \<and>
         os_files s' = (os_files s)(n \<mapsto> nd\<lparr>fn_data := write_at (fn_data nd) off w\<rparr>)"
proof -
  obtain flt s1 where p: "pop s = (flt, s1)" by (cases "pop s")
  from pop_frame [OF p] have f: "os_files s1 = os_files s" "os_dirs s1 = os_dirs s" by simp_all
  show "os_dirs s' = os_dirs s"
    using assms by (auto simp: WriteAt_def Let_def p f)
  show "\<exists>w. prefix w d \<and> (r = Inr () \<longrightarrow> w = d) \<and>
         os_files s' = (os_files s)(n \<mapsto> nd\<lparr>fn_data := write_at (fn_data nd) off w\<rparr>)"
    using assms
    by (intro exI [of _ "case flt of None \<Rightarrow> d | Some k \<Rightarrow> take k d"])
      (auto simp: WriteAt_def Let_def p f take_is_prefix split: option.splits)
qed

lemma Sync_files:
  assumes "Sync s n = (r, s')" "os_files s n = Some nd"
  shows "os_dirs s' = os_dirs s"
    "r = Inr () \<Longrightarrow> os_files s' = (os_files s)(n \<mapsto> nd\<lparr>fn_sync := fn_data nd\<rparr>)"
    "r \<noteq> Inr () \<Longrightarrow> os_files s' = os_files s"
  using assms by (auto simp: Sync_def dest: pop_frame split: prod.splits option.splits)

lemma Remove_files:
  assumes "Remove s n = (r, s')"
  shows "os_dirs s' = os_dirs s"
    "os_files s' = (if r = Inr () then (os_files s)(n := None) else os_files s)"
  using assms by (auto simp: Remove_def dest: pop_frame split: prod.splits option.splits if_splits)

lemma Rename_files:
  assumes "Rename s a b = (r, s')"
  shows "os_dirs s' = os_dirs s"
    "r = Inr () \<Longrightarrow> \<exists>nd. os_files s a = Some nd \<and> os_files s' = (os_files s)(a := None, b \<mapsto> nd)"
    "r \<noteq> Inr () \<Longrightarrow> os_files s' = os_files s"
  using assms by (auto simp: Rename_def dest: pop_frame split: prod.splits option.splits if_splits)

lemma MkdirAll_frame [frame_laws]: "MkdirAll s d = (r, s') \<Longrightarrow> os_files s' = os_files s"
  by (auto simp: MkdirAll_def Let_def dest: pop_frame split: prod.splits option.splits if_splits)

section \<open>CRC-32\<close>

text \<open>\<^verbatim>\<open>crc32.ChecksumIEEE\<close>: the reflected polynomial \<open>0xEDB88320\<close>, bit by bit.\<close>

fun crc_bits :: "nat \<Rightarrow> 32 word \<Rightarrow> 32 word" where
  "crc_bits 0 c = c"
| "crc_bits (Suc n) c =
     crc_bits n (if bit c 0 then Bit_Operations.xor (drop_bit 1 c) 0xEDB88320 else drop_bit 1 c)"

definition crc_byte :: "32 word \<Rightarrow> byte \<Rightarrow> 32 word" where
  "crc_byte c b = crc_bits 8 (Bit_Operations.xor c (ucast b))"

definition crc32 :: "bytes \<Rightarrow> 32 word" where
  "crc32 bs = Bit_Operations.not (foldl crc_byte 0xFFFFFFFF bs)"

end
