(* ===== verification/Store.thy ===== *)
theory Store
  imports Disk Offer
begin

text \<open>
  One file being received (\<^verbatim>\<open>pkg/store/store.go\<close>): the data goes to
  \<^verbatim>\<open>name.part\<close>, a journal \<^verbatim>\<open>name.part.state\<close> says which chunks are durable, and the file
  gets its name once complete. Each method is one function on the file and the disk, with every
  error branch; a call of the disk takes its outcome from the disk's faults. SHA-256 is the
  parameter \<open>sha\<close>. The background commit is the flag \<open>f_bg\<close>: it runs as a step of its own
  (\<open>BgCommit\<close>), or where a method waits for it.
\<close>

section \<open>Data\<close>

definition PartSuffix :: string where "PartSuffix = ''.part''"
definition JournalSuffix :: string where "JournalSuffix = ''.part.state''"
definition DefaultCommitBytes :: int where "DefaultCommitBytes = 2 ^ 26"
definition DefaultCommitInterval :: int where "DefaultCommitInterval = 2000000000"
definition verifyTail :: nat where "verifyTail = 8"
definition headerLen :: nat where "headerLen = 57"
definition recordLen :: nat where "recordLen = 40"
definition magic :: bytes where "magic = bytes_of ''MXST''"

datatype store_error =
    ErrForeign
  | ErrExists
  | ErrIncomplete
  | ErrPathConflict
  | ErrOS os_error
  | ErrChunkSizeZero
  | ErrClosed
  | ErrDoesNotFit

record params =
  p_Key :: bytes
  p_Size :: int
  p_ChunkSize :: "32 word"
  p_CommitBytes :: int
  p_CommitInterval :: int
  p_VerifyFull :: bool
  p_NoSync :: bool
  p_Overwrite :: bool
  p_Owned :: bool

type_synonym jrecord = "nat \<times> bytes"

record sfile =
  f_name :: string
  f_p :: params
  f_n :: nat
  f_part :: bool
  f_journal :: bool
  f_have :: "bool list"
  f_hashes :: "bytes list"
  f_resumed :: int
  f_order :: "nat list"
  f_pending :: "jrecord list"
  f_pendingBytes :: int
  f_lastCommit :: int
  f_journalEnd :: nat
  f_closed :: bool
  f_bg :: bool
  f_bgErr :: "store_error option"

definition ResumeKey_input :: "bytes \<Rightarrow> string \<Rightarrow> int \<Rightarrow> int \<Rightarrow> bytes" where
  "ResumeKey_input sender path sz mtime =
     bytes_of ''medxfer-v1-resume'' @ sender @ put64 (of_nat (length path)) @ bytes_of path
       @ put64 (word_of_int sz) @ put64 (word_of_int mtime)"

definition ResumeKey :: "(bytes \<Rightarrow> bytes) \<Rightarrow> bytes \<Rightarrow> string \<Rightarrow> int \<Rightarrow> int \<Rightarrow> bytes" where
  "ResumeKey sha sender path sz mtime = sha (ResumeKey_input sender path sz mtime)"

definition param_chunks :: "params \<Rightarrow> 32 word" where
  "param_chunks p =
     (if p_Size p \<le> 0 then 0
      else word_of_int (wrap64 (wrap64 (p_Size p + uint (p_ChunkSize p)) - 1) sdiv uint (p_ChunkSize p)))"

abbreviation csize :: "sfile \<Rightarrow> nat" where "csize f \<equiv> unat (p_ChunkSize (f_p f))"

abbreviation chunk_off :: "sfile \<Rightarrow> nat \<Rightarrow> nat" where "chunk_off f i \<equiv> i * csize f"

definition chunkLen :: "sfile \<Rightarrow> nat \<Rightarrow> nat" where
  "chunkLen f i = nat (min (int (csize f)) (p_Size (f_p f) - int (chunk_off f i)))"

definition osName :: "sfile \<Rightarrow> string \<Rightarrow> string" where
  "osName f suf = f_name f @ suf"

abbreviation part_name :: "sfile \<Rightarrow> string" where "part_name f \<equiv> osName f PartSuffix"
abbreviation journal_name :: "sfile \<Rightarrow> string" where "journal_name f \<equiv> osName f JournalSuffix"

section \<open>Journal format\<close>

definition header_body :: "sfile \<Rightarrow> bytes" where
  "header_body f = magic @ [1] @ p_Key (f_p f) @ put64 (word_of_int (p_Size (f_p f)))
     @ put32 (p_ChunkSize (f_p f)) @ put32 (of_nat (f_n f))"

definition header :: "sfile \<Rightarrow> bytes" where
  "header f = header_body f @ put32 (crc32 (header_body f))"

definition rec_bytes :: "jrecord \<Rightarrow> bytes" where
  "rec_bytes r = (let b = put32 (of_nat (fst r)) @ snd r in b @ put32 (crc32 b))"

section \<open>Opening\<close>

text \<open>The loop of \<^verbatim>\<open>load\<close>: records from \<open>off\<close> up to the first one that is short, has a wrong
  CRC or an index out of range.\<close>

function load_loop :: "os \<Rightarrow> nat \<Rightarrow> sfile \<Rightarrow> nat \<times> sfile \<times> os" where
  "load_loop s off f =
     (case ReadAt s (journal_name f) off recordLen of
        ((r, ok), s') \<Rightarrow>
          if length r < recordLen then (off, f, s')
          else if get32 (slice 36 4 r) \<noteq> crc32 (take 36 r) then (off, f, s')
          else
            let index = unat (get32 (slice 0 4 r)) in
            if index \<ge> f_n f then (off, f, s')
            else load_loop s' (off + recordLen)
                   (f\<lparr>f_hashes := (f_hashes f)[index := slice 4 32 r], f_have := (f_have f)[index := True],
                      f_order := f_order f @ [index]\<rparr>))"
  by pat_completeness auto
termination
proof (relation "measure (\<lambda>(s, off, f).
    case os_files s (journal_name f) of None \<Rightarrow> 0 | Some nd \<Rightarrow> length (fn_data nd) - off)", goal_cases)
  case (2 s off f x s' r ok index)
  then have rd: "ReadAt s (journal_name f) off recordLen = ((r, ok), s')" by simp
  moreover have "length r \<ge> recordLen" using 2 by simp
  moreover have "os_files s' = os_files s" using ReadAt_frame [OF rd] by simp
  ultimately show ?case
    by (auto simp: ReadAt_def recordLen_def Let_def osName_def dest: pop_frame
        split: prod.splits option.splits)
qed simp

declare load_loop.simps [simp del]

definition load :: "sfile \<Rightarrow> os \<Rightarrow> (store_error + unit) \<times> sfile \<times> os" where
  "load f s =
     (case ReadAt s (journal_name f) 0 headerLen of
        ((h, ok), s1) \<Rightarrow>
          if \<not> ok then (Inl ErrForeign, f, s1)
          else if h \<noteq> header f then (Inl ErrForeign, f, s1)
          else
            (case load_loop s1 headerLen f of
               (off, f', s2) \<Rightarrow>
                 (case Truncate s2 (journal_name f') off of
                    (Inl e, s3) \<Rightarrow> (Inl (ErrOS e), f', s3)
                  | (Inr _, s3) \<Rightarrow> (Inr (), f'\<lparr>f_journalEnd := off\<rparr>, s3))))"

text \<open>The chunks to check again: from the end of the journal, each once, 8 at most unless all.\<close>

fun check_list :: "bool \<Rightarrow> nat list \<Rightarrow> nat list \<Rightarrow> nat list" where
  "check_list full [] check = check"
| "check_list full (i # is) check =
     (if full \<or> length check < verifyTail
      then check_list full is (if i \<in> set check then check else check @ [i])
      else check)"

fun verify_chunks :: "(bytes \<Rightarrow> bytes) \<Rightarrow> nat list \<Rightarrow> sfile \<Rightarrow> os \<Rightarrow> sfile \<times> os" where
  "verify_chunks sha [] f s = (f, s)"
| "verify_chunks sha (i # is) f s =
     (case ReadAt s (part_name f) (chunk_off f i) (chunkLen f i) of
        ((b, ok), s') \<Rightarrow>
          verify_chunks sha is
            (if \<not> ok \<or> sha b \<noteq> f_hashes f ! i then f\<lparr>f_have := (f_have f)[i := False]\<rparr> else f) s')"

definition have_bytes :: "sfile \<Rightarrow> int" where
  "have_bytes f = (\<Sum>i \<leftarrow> [0..<f_n f]. if f_have f ! i then int (chunkLen f i) else 0)"

definition verify :: "(bytes \<Rightarrow> bytes) \<Rightarrow> sfile \<Rightarrow> os \<Rightarrow> sfile \<times> os" where
  "verify sha f s =
     (case verify_chunks sha (check_list (p_VerifyFull (f_p f)) (rev (f_order f)) []) f s of
        (f', s') \<Rightarrow> (f'\<lparr>f_resumed := f_resumed f' + have_bytes f'\<rparr>, s'))"

definition removeStale :: "sfile \<Rightarrow> os \<Rightarrow> (store_error + unit) \<times> os" where
  "removeStale f s =
     (case Remove s (part_name f) of
        (r1, s1) \<Rightarrow>
          if r1 \<noteq> Inr () \<and> r1 \<noteq> Inl NotExist then (map_sum ErrOS id r1, s1)
          else (case Remove s1 (journal_name f) of
                  (r2, s2) \<Rightarrow>
                    if r2 \<noteq> Inr () \<and> r2 \<noteq> Inl NotExist then (map_sum ErrOS id r2, s2)
                    else (Inr (), s2)))"

definition ensureJournal :: "sfile \<Rightarrow> os \<Rightarrow> (store_error + unit) \<times> sfile \<times> os" where
  "ensureJournal f s =
     (if f_journal f then (Inr (), f, s)
      else
        case OpenFile s (journal_name f) True of
          (Inl e, s1) \<Rightarrow> (Inl (if e = Exist then ErrForeign else ErrOS e), f, s1)
        | (Inr _, s1) \<Rightarrow>
            (case WriteAt s1 (journal_name f) 0 (header f) of
               (Inl e, s2) \<Rightarrow>
                 (Inl (ErrOS e), f, snd (Remove (snd (CloseF s2 (journal_name f))) (journal_name f)))
             | (Inr _, s2) \<Rightarrow> (Inr (), f\<lparr>f_journal := True, f_journalEnd := headerLen\<rparr>, s2)))"

definition reset_chunks :: "sfile \<Rightarrow> sfile" where
  "reset_chunks f = f\<lparr>f_have := replicate (f_n f) False, f_hashes := replicate (f_n f) (replicate 32 0),
                      f_order := []\<rparr>"

definition new_file :: "string \<Rightarrow> params \<Rightarrow> int \<Rightarrow> sfile" where
  "new_file name p now =
     reset_chunks \<lparr>f_name = name, f_p = p, f_n = unat (param_chunks p), f_part = False, f_journal = False,
       f_have = [], f_hashes = [], f_resumed = 0, f_order = [], f_pending = [], f_pendingBytes = 0,
       f_lastCommit = now, f_journalEnd = 0, f_closed = False, f_bg = False, f_bgErr = None\<rparr>"

definition default_params :: "params \<Rightarrow> params" where
  "default_params p =
     p\<lparr>p_CommitBytes := (if p_CommitBytes p \<le> 0 then DefaultCommitBytes else p_CommitBytes p),
       p_CommitInterval := (if p_CommitInterval p \<le> 0 then DefaultCommitInterval else p_CommitInterval p)\<rparr>"

text \<open>The second half of \<^verbatim>\<open>Open\<close>: there is no journal; a new file is made.\<close>

definition open_create :: "sfile \<Rightarrow> os \<Rightarrow> (store_error + sfile) \<times> os" where
  "open_create f s =
     (case (if \<not> p_Owned (f_p f) then ensureJournal f s else (Inr (), f, s)) of
        (Inl e, f1, s1) \<Rightarrow> (Inl e, s1)
      | (Inr _, f1, s1) \<Rightarrow>
          (case OpenFile s1 (part_name f1) True of
             (Inr _, s2) \<Rightarrow> (Inr (f1\<lparr>f_part := True\<rparr>), s2)
           | (Inl e, s2) \<Rightarrow>
               (Inl (if e = Exist then ErrForeign else ErrOS e),
                if f_journal f1
                then snd (Remove (snd (CloseF s2 (journal_name f1))) (journal_name f1)) else s2)))"

definition open_new :: "sfile \<Rightarrow> os \<Rightarrow> (store_error + sfile) \<times> os" where
  "open_new f s =
     (case Lstat s (part_name f) of
        (Inl _, s1) \<Rightarrow> open_create f s1
      | (Inr _, s1) \<Rightarrow>
          if \<not> p_Owned (f_p f) then (Inl ErrForeign, s1)
          else (case removeStale f s1 of
                  (Inl e, s2) \<Rightarrow> (Inl e, s2)
                | (Inr _, s2) \<Rightarrow> open_create f s2))"

definition open_journal :: "(bytes \<Rightarrow> bytes) \<Rightarrow> sfile \<Rightarrow> os \<Rightarrow> (store_error + sfile) \<times> os" where
  "open_journal sha f s =
     (case load f s of
        (Inl e, f1, s1) \<Rightarrow>
          let s2 = snd (CloseF s1 (journal_name f)) in
          if \<not> p_Owned (f_p f) \<or> e \<noteq> ErrForeign then (Inl e, s2)
          else (case removeStale f1 s2 of
                  (Inl e', s3) \<Rightarrow> (Inl e', s3)
                | (Inr _, s3) \<Rightarrow> open_new (reset_chunks f1) s3)
      | (Inr _, f1, s1) \<Rightarrow>
          (case OpenFile s1 (part_name f1) False of
             (Inr _, s2) \<Rightarrow> (case verify sha (f1\<lparr>f_part := True, f_journal := True\<rparr>) s2 of (f2, s3) \<Rightarrow> (Inr f2, s3))
           | (Inl e, s2) \<Rightarrow>
               let s3 = snd (CloseF s2 (journal_name f)) in
               if e \<noteq> NotExist then (Inl (ErrOS e), s3)
               else (case Remove s3 (journal_name f1) of
                       (Inl e', s4) \<Rightarrow> (Inl (ErrOS e'), s4)
                     | (Inr _, s4) \<Rightarrow> open_new (reset_chunks f1) s4)))"

definition Open ::
  "(bytes \<Rightarrow> bytes) \<Rightarrow> int \<Rightarrow> os \<Rightarrow> string \<Rightarrow> params \<Rightarrow> (store_error + sfile) \<times> os" where
  "Open sha now s name p0 =
     (if p_ChunkSize p0 = 0 then (Inl ErrChunkSizeZero, s)
      else
        let p = default_params p0; f = new_file name p now in
        case (if path_Dir name \<noteq> ''.'' then MkdirAll s (path_Dir name) else (Inr (), s)) of
          (Inl e, s1) \<Rightarrow> (Inl ErrPathConflict, s1)
        | (Inr _, s1) \<Rightarrow>
            (case OpenFile s1 (journal_name f) False of
               (Inr _, s2) \<Rightarrow> open_journal sha f s2
             | (Inl e, s2) \<Rightarrow> if e \<noteq> NotExist then (Inl (ErrOS e), s2) else open_new f s2))"

end
