(* ===== verification/StoreOps.thy ===== *)
theory StoreOps
  imports Store
begin

text \<open>
  Writing, committing and finishing a file being received (\<^verbatim>\<open>pkg/store/store.go\<close>). Every
  function returns its error, the file and the disk. The sync of the folder after a rename has
  no effect on the disk of the model, whose names are durable at once.
\<close>

section \<open>Reading the state\<close>

definition Has :: "sfile \<Rightarrow> nat \<Rightarrow> bool" where
  "Has f i \<longleftrightarrow> i < f_n f \<and> f_have f ! i"

definition Hashes :: "sfile \<Rightarrow> store_error + bytes list" where
  "Hashes f = (if list_ex (\<lambda>h. \<not> h) (f_have f) then Inl ErrIncomplete else Inr (f_hashes f))"

section \<open>Writing and committing\<close>

definition WriteChunk ::
  "sfile \<Rightarrow> os \<Rightarrow> nat \<Rightarrow> bytes \<Rightarrow> bytes \<Rightarrow> (store_error + unit) \<times> sfile \<times> os" where
  "WriteChunk f s i data hsum =
     (if i \<ge> f_n f \<or> length data \<noteq> chunkLen f i then (Inl ErrDoesNotFit, f, s)
      else
        case WriteAt s (part_name f) (chunk_off f i) data of
          (Inl e, s1) \<Rightarrow> (Inl (ErrOS e), f, s1)
        | (Inr _, s1) \<Rightarrow>
            (Inr (), f\<lparr>f_have := (f_have f)[i := True], f_hashes := (f_hashes f)[i := hsum],
                       f_pending := f_pending f @ [(i, hsum)],
                       f_pendingBytes := f_pendingBytes f + int (length data)\<rparr>, s1))"

text \<open>\<^verbatim>\<open>commit\<close>: the data is synced, then (\<open>commit_records\<close>) the records are written and the
  journal synced. The two halves are apart because other chunks may be written between them.\<close>

definition commit_records :: "sfile \<Rightarrow> os \<Rightarrow> jrecord list \<Rightarrow> (store_error + unit) \<times> sfile \<times> os" where
  "commit_records f s batch =
     (let buf = concat (map rec_bytes batch) in
      case ensureJournal f s of
        (Inl e, f1, s1) \<Rightarrow> (Inl e, f1, s1)
      | (Inr _, f1, s1) \<Rightarrow>
          (case WriteAt s1 (journal_name f1) (f_journalEnd f1) buf of
             (Inl e, s2) \<Rightarrow> (Inl (ErrOS e), f1, s2)
           | (Inr _, s2) \<Rightarrow>
               (case (if p_NoSync (f_p f1) then (Inr (), s2) else Sync s2 (journal_name f1)) of
                  (Inl e, s3) \<Rightarrow> (Inl (ErrOS e), f1, s3)
                | (Inr _, s3) \<Rightarrow> (Inr (), f1\<lparr>f_journalEnd := f_journalEnd f1 + length buf\<rparr>, s3))))"

definition commit :: "sfile \<Rightarrow> os \<Rightarrow> jrecord list \<Rightarrow> (store_error + unit) \<times> sfile \<times> os" where
  "commit f s batch =
     (case (if p_NoSync (f_p f) then (Inr (), s) else Sync s (part_name f)) of
        (Inl e, s1) \<Rightarrow> (Inl (ErrOS e), f, s1)
      | (Inr _, s1) \<Rightarrow> commit_records f s1 batch)"

definition Commit :: "sfile \<Rightarrow> os \<Rightarrow> int \<Rightarrow> (store_error + unit) \<times> sfile \<times> os" where
  "Commit f s now =
     (let batch = f_pending f;
          f1 = f\<lparr>f_pending := [], f_pendingBytes := 0, f_lastCommit := now\<rparr>
      in if batch = [] then (Inr (), f1, s)
         else case commit f1 s batch of
                (Inl e, f2, s1) \<Rightarrow> (Inl e, f2\<lparr>f_pending := batch @ f_pending f2\<rparr>, s1)
              | (Inr _, f2, s1) \<Rightarrow> (Inr (), f2, s1))"

text \<open>The goroutine of a background commit: its error is kept for the next call.\<close>

definition BgCommit :: "sfile \<Rightarrow> os \<Rightarrow> int \<Rightarrow> sfile \<times> os" where
  "BgCommit f s now =
     (case Commit f s now of
        (Inl e, f1, s1) \<Rightarrow>
          (f1\<lparr>f_bgErr := (if f_bgErr f1 = None then Some e else f_bgErr f1), f_bg := False\<rparr>, s1)
      | (Inr _, f1, s1) \<Rightarrow> (f1\<lparr>f_bg := False\<rparr>, s1))"

definition commit_due :: "sfile \<Rightarrow> int \<Rightarrow> bool" where
  "commit_due f now \<longleftrightarrow> f_pending f \<noteq> [] \<and>
     (f_pendingBytes f \<ge> p_CommitBytes (f_p f) \<or> now - f_lastCommit f \<ge> p_CommitInterval (f_p f))"

text \<open>A writer whose commit is due while one still runs waits for that one, which then runs to
  its end.\<close>

definition CommitIfDue :: "sfile \<Rightarrow> os \<Rightarrow> int \<Rightarrow> (store_error + unit) \<times> sfile \<times> os" where
  "CommitIfDue f s now =
     (case f_bgErr f of
        Some e \<Rightarrow> (Inl e, f\<lparr>f_bgErr := None\<rparr>, s)
      | None \<Rightarrow>
          if \<not> commit_due f now then (Inr (), f, s)
          else if f_bg f then
            (case BgCommit f s now of
               (f1, s1) \<Rightarrow>
                 (case f_bgErr f1 of
                    Some e \<Rightarrow> (Inl e, f1\<lparr>f_bgErr := None\<rparr>, s1)
                  | None \<Rightarrow> (Inr (), f1\<lparr>f_bg := True\<rparr>, s1)))
          else (Inr (), f\<lparr>f_bg := True\<rparr>, s))"

definition Settle :: "sfile \<Rightarrow> os \<Rightarrow> int \<Rightarrow> (store_error + unit) \<times> sfile \<times> os" where
  "Settle f s now =
     (case (if f_bg f then BgCommit f s now else (f, s)) of
        (f1, s1) \<Rightarrow>
          ((case f_bgErr f1 of None \<Rightarrow> Inr () | Some e \<Rightarrow> Inl e), f1\<lparr>f_bgErr := None\<rparr>, s1))"

definition notePending :: "sfile \<Rightarrow> os \<Rightarrow> (store_error + unit) \<times> sfile \<times> os" where
  "notePending f s =
     (let batch = f_pending f; saved = p_NoSync (f_p f);
          f1 = f\<lparr>f_pending := [], f_pendingBytes := 0, f_p := (f_p f)\<lparr>p_NoSync := True\<rparr>\<rparr>
      in case commit f1 s batch of
           (r, f2, s1) \<Rightarrow>
             (let f3 = f2\<lparr>f_p := (f_p f2)\<lparr>p_NoSync := saved\<rparr>\<rparr> in
              if r = Inr () \<and> \<not> saved
              then (case Sync s1 (journal_name f3) of (r', s2) \<Rightarrow> (map_sum ErrOS id r', f3, s2))
              else (r, f3, s1)))"

section \<open>Closing\<close>

definition closeFiles :: "sfile \<Rightarrow> os \<Rightarrow> (store_error + unit) \<times> os" where
  "closeFiles f s =
     (case (if f_part f then CloseF s (part_name f) else (Inr (), s)) of
        (r1, s1) \<Rightarrow>
          (case (if f_journal f then CloseF s1 (journal_name f) else (Inr (), s1)) of
             (r2, s2) \<Rightarrow> (map_sum ErrOS id (if r1 = Inr () then r2 else r1), s2)))"

definition closeJournal :: "sfile \<Rightarrow> os \<Rightarrow> os" where
  "closeJournal f s = (if f_journal f then snd (CloseF s (journal_name f)) else s)"

text \<open>\<^verbatim>\<open>markClosed\<close>: whether the file was closed already.\<close>

definition markClosed :: "sfile \<Rightarrow> bool \<times> sfile" where
  "markClosed f = (f_closed f, f\<lparr>f_closed := True\<rparr>)"

definition first_err :: "(store_error + unit) \<Rightarrow> (store_error + unit) \<Rightarrow> store_error + unit" where
  "first_err a b = (case a of Inl e \<Rightarrow> Inl e | Inr _ \<Rightarrow> b)"

definition Close :: "sfile \<Rightarrow> os \<Rightarrow> int \<Rightarrow> (store_error + unit) \<times> sfile \<times> os" where
  "Close f s now =
     (case markClosed f of
        (True, f0) \<Rightarrow> (Inr (), f0, s)
      | (False, f0) \<Rightarrow>
          (case Settle f0 s now of
             (r1, f1, s1) \<Rightarrow>
               (case Commit f1 s1 now of
                  (r2, f2, s2) \<Rightarrow>
                    (let r = first_err r1 r2 in
                     case (if r = Inr () \<and> \<not> f_journal f2
                           then (case ensureJournal f2 s2 of
                                   (Inl e, f3, s3) \<Rightarrow> (Inl e, f3, s3)
                                 | (Inr _, f3, s3) \<Rightarrow>
                                     if p_NoSync (f_p f3) then (Inr (), f3, s3)
                                     else (case Sync s3 (journal_name f3) of
                                             (r3, s4) \<Rightarrow> (map_sum ErrOS id r3, f3, s4)))
                           else (r, f2, s2)) of
                       (r4, f4, s4) \<Rightarrow>
                         (case closeFiles f4 s4 of (r5, s5) \<Rightarrow> (first_err r4 r5, f4, s5))))))"

definition Suspend :: "sfile \<Rightarrow> os \<Rightarrow> int \<Rightarrow> (store_error + unit) \<times> sfile \<times> os" where
  "Suspend f s now =
     (case Close f s now of
        (r, f1, s1) \<Rightarrow>
          if \<not> f_journal f1
          then (case Remove s1 (part_name f1) of
                  (r2, s2) \<Rightarrow>
                    (if r2 = Inr () \<or> r2 = Inl NotExist then r else first_err r (map_sum ErrOS id r2), f1, s2))
          else (r, f1, s1))"

section \<open>Finishing\<close>

fun rename_tries :: "nat \<Rightarrow> os \<Rightarrow> string \<Rightarrow> string \<Rightarrow> (os_error + unit) \<times> os" where
  "rename_tries 0 s a b = (Inr (), s)"
| "rename_tries (Suc k) s a b =
     (case Rename s a b of
        (Inr u, s1) \<Rightarrow> (Inr u, s1)
      | (Inl e, s1) \<Rightarrow> if k = 0 then (Inl e, s1) else rename_tries k s1 a b)"

definition renameTries :: nat where "renameTries = 4"

definition publish :: "sfile \<Rightarrow> os \<Rightarrow> (store_error + unit) \<times> sfile \<times> os" where
  "publish f s =
     (case Lstat s (f_name f) of
        (l, s1) \<Rightarrow>
          (case (if (\<exists>d. l = Inr d) \<and> \<not> p_Overwrite (f_p f) then (Inl ErrExists, s1)
                 else (case rename_tries renameTries s1 (part_name f) (f_name f) of
                         (r, s2) \<Rightarrow> (map_sum ErrOS id r, s2))) of
             (Inl e, s2) \<Rightarrow>
               (case notePending f s2 of (_, f1, s3) \<Rightarrow> (Inl e, f1, closeJournal f1 s3))
           | (Inr _, s2) \<Rightarrow> (Inr (), f, s2)))"

definition dropJournal :: "sfile \<Rightarrow> os \<Rightarrow> (store_error + unit) \<times> os" where
  "dropJournal f s =
     (if \<not> f_journal f then (Inr (), s)
      else case Remove (closeJournal f s) (journal_name f) of (r, s1) \<Rightarrow> (map_sum ErrOS id r, s1))"

definition Finalize :: "sfile \<Rightarrow> os \<Rightarrow> int \<Rightarrow> (store_error + unit) \<times> sfile \<times> os" where
  "Finalize f s now =
     (case Hashes f of
        Inl e \<Rightarrow> (Inl e, f, s)
      | Inr _ \<Rightarrow>
          (case markClosed f of
             (True, f0) \<Rightarrow> (Inl ErrClosed, f0, s)
           | (False, f0) \<Rightarrow>
               (case Settle f0 s now of
                  (_, f1, s1) \<Rightarrow>
                    (case (if p_NoSync (f_p f1) then (Inr (), s1) else Sync s1 (part_name f1)) of
                       (Inl e, s2) \<Rightarrow> (Inl (ErrOS e), f1\<lparr>f_closed := False\<rparr>, s2)
                     | (Inr _, s2) \<Rightarrow>
                         (case CloseF s2 (part_name f1) of
                            (Inl e, s3) \<Rightarrow> (Inl (ErrOS e), f1, closeJournal f1 s3)
                          | (Inr _, s3) \<Rightarrow>
                              (case publish f1 s3 of
                                 (Inl e, f2, s4) \<Rightarrow> (Inl e, f2, s4)
                               | (Inr _, f2, s4) \<Rightarrow>
                                   (case dropJournal f2 s4 of (r, s5) \<Rightarrow> (r, f2, s5))))))))"

definition Discard :: "sfile \<Rightarrow> os \<Rightarrow> (store_error + unit) \<times> sfile \<times> os" where
  "Discard f s =
     (let f1 = snd (markClosed f); s1 = snd (closeFiles f1 s) in
      case Remove s1 (part_name f1) of
        (r2, s2) \<Rightarrow>
          if f_journal f1
          then (case Remove s2 (journal_name f1) of
                  (r3, s3) \<Rightarrow> (map_sum ErrOS id (if r2 = Inr () then r3 else r2), f1, s3))
          else (map_sum ErrOS id r2, f1, s2))"

end
