(* ===== verification/StoreInv.thy ===== *)
theory StoreInv
  imports StoreOps
begin

text \<open>
  The invariant of a file being received, and that every operation keeps it whatever fails:
  a chunk the file says it has is on disk with its hash, and a record in the journal is about a
  chunk whose bytes are durable (invariant J of the sources, STO-03).
\<close>

section \<open>The invariant\<close>

text \<open>The chunk is in these contents, with this hash.\<close>

definition on_disk :: "(bytes \<Rightarrow> bytes) \<Rightarrow> sfile \<Rightarrow> bytes \<Rightarrow> nat \<Rightarrow> bytes \<Rightarrow> bool" where
  "on_disk sha f c i h \<longleftrightarrow>
     chunk_off f i + chunkLen f i \<le> length c \<and> sha (slice (chunk_off f i) (chunkLen f i) c) = h"

text \<open>The chunk's bytes are synced, and not written over since.\<close>

definition durable :: "sfile \<Rightarrow> fnode \<Rightarrow> nat \<Rightarrow> bool" where
  "durable f pd i \<longleftrightarrow>
     chunk_off f i + chunkLen f i \<le> length (fn_sync pd) \<and>
     chunk_off f i + chunkLen f i \<le> length (fn_data pd) \<and>
     slice (chunk_off f i) (chunkLen f i) (fn_sync pd) = slice (chunk_off f i) (chunkLen f i) (fn_data pd)"

definition known :: "sfile \<Rightarrow> jrecord \<Rightarrow> bool" where
  "known f r \<longleftrightarrow> fst r < f_n f \<and> f_have f ! fst r \<and> f_hashes f ! fst r = snd r \<and> length (snd r) = 32"

definition rec_good :: "sfile \<Rightarrow> fnode \<Rightarrow> jrecord \<Rightarrow> bool" where
  "rec_good f pd r \<longleftrightarrow> known f r \<and> durable f pd (fst r)"

abbreviation recs_bytes :: "jrecord list \<Rightarrow> bytes" where
  "recs_bytes rs \<equiv> concat (map rec_bytes rs)"

text \<open>The journal: its header, the committed records, and what a failed write may have left
  after them, which is the beginning of the records still to commit.\<close>

definition journal_shape :: "sfile \<Rightarrow> fnode \<Rightarrow> jrecord list \<Rightarrow> bytes \<Rightarrow> jrecord list \<Rightarrow> bytes \<Rightarrow> bool" where
  "journal_shape f pd pend jdata recs junk \<longleftrightarrow>
     jdata = header f @ recs_bytes recs @ junk \<and>
     f_journalEnd f = headerLen + recordLen * length recs \<and>
     (\<forall>r \<in> set recs. rec_good f pd r) \<and>
     prefix junk (recs_bytes pend) \<and> (\<forall>r \<in> set (take (length junk div recordLen) pend). rec_good f pd r)"

definition journal_ok :: "sfile \<Rightarrow> jrecord list \<Rightarrow> os \<Rightarrow> fnode \<Rightarrow> bool" where
  "journal_ok f pend s pd \<longleftrightarrow>
     (case os_files s (journal_name f) of
        None \<Rightarrow> \<not> f_journal f
      | Some jd \<Rightarrow>
          if f_journal f then \<exists>recs junk. journal_shape f pd pend (fn_data jd) recs junk
          else prefix (fn_data jd) (header f))"

definition shape_ok :: "sfile \<Rightarrow> bool" where
  "shape_ok f \<longleftrightarrow> 0 < csize f \<and> length (f_have f) = f_n f \<and> length (f_hashes f) = f_n f \<and>
     length (p_Key (f_p f)) = 32 \<and> f_n f < 2 ^ 32 \<and> (\<forall>i < f_n f. 0 < chunkLen f i) \<and> f_n f = unat (param_chunks (f_p f))"

definition data_ok :: "(bytes \<Rightarrow> bytes) \<Rightarrow> sfile \<Rightarrow> fnode \<Rightarrow> bool" where
  "data_ok sha f pd \<longleftrightarrow>
     (\<forall>i < f_n f. f_have f ! i \<longrightarrow> on_disk sha f (fn_data pd) i (f_hashes f ! i))"

definition InvP :: "(bytes \<Rightarrow> bytes) \<Rightarrow> jrecord list \<Rightarrow> sfile \<Rightarrow> os \<Rightarrow> bool" where
  "InvP sha pend f s \<longleftrightarrow>
     shape_ok f \<and> (\<forall>r \<in> set pend. known f r) \<and>
     (\<exists>pd. os_files s (part_name f) = Some pd \<and> data_ok sha f pd \<and> journal_ok f pend s pd)"

definition Inv :: "(bytes \<Rightarrow> bytes) \<Rightarrow> sfile \<Rightarrow> os \<Rightarrow> bool" where
  "Inv sha f s \<longleftrightarrow> InvP sha (f_pending f) f s"

lemma InvP_D:
  assumes "InvP sha pend f s" "os_files s (part_name f) = Some pd"
  shows "shape_ok f" "\<forall>r \<in> set pend. known f r" "data_ok sha f pd" "journal_ok f pend s pd"
  using assms by (auto simp: InvP_def)

lemma InvP_I:
  assumes "shape_ok f" "\<forall>r \<in> set pend. known f r" "os_files s (part_name f) = Some pd"
    "data_ok sha f pd" "journal_ok f pend s pd"
  shows "InvP sha pend f s"
  using assms by (auto simp: InvP_def)

section \<open>Names, lengths, ranges\<close>

lemma part_not_journal [simp]: "part_name f \<noteq> journal_name f" "journal_name f \<noteq> part_name f"
  by (simp_all add: osName_def PartSuffix_def JournalSuffix_def)

lemma name_not_part [simp]:
  "f_name f \<noteq> part_name f" "part_name f \<noteq> f_name f" "f_name f \<noteq> journal_name f" "journal_name f \<noteq> f_name f"
  by (simp_all add: osName_def PartSuffix_def JournalSuffix_def)

lemma length_header [simp]: "length (p_Key (f_p f)) = 32 \<Longrightarrow> length (header f) = headerLen"
  by (simp add: header_def header_body_def magic_def headerLen_def)

lemma length_rec_bytes [simp]: "length (snd r) = 32 \<Longrightarrow> length (rec_bytes r) = recordLen"
  by (simp add: rec_bytes_def Let_def recordLen_def)

lemma length_recs_bytes: "\<forall>r \<in> set rs. length (snd r) = 32 \<Longrightarrow> length (recs_bytes rs) = recordLen * length rs"
  by (induction rs) simp_all

lemma recs_bytes_take:
  "\<forall>r \<in> set rs. length (snd r) = 32 \<Longrightarrow> take (recordLen * k) (recs_bytes rs) = recs_bytes (take k rs)"
proof (induction rs arbitrary: k)
  case (Cons r rs)
  then show ?case by (cases k) simp_all
qed simp

lemma chunkLen_le: "chunkLen f i \<le> csize f"
  unfolding chunkLen_def by (metis min.cobounded1 nat_int nat_mono)

lemma chunk_ranges:
  assumes "i \<noteq> j"
  shows "chunk_off f i + chunkLen f i \<le> chunk_off f j \<or> chunk_off f j + chunkLen f j \<le> chunk_off f i"
proof -
  have "chunk_off f a + chunkLen f a \<le> chunk_off f b" if "a < b" for a b
  proof -
    have "chunk_off f a + csize f \<le> chunk_off f b"
      using that mult_le_mono1 [of "Suc a" b "csize f"] by simp
    then show ?thesis using chunkLen_le [of f a] by linarith
  qed
  then show ?thesis using assms by (meson nat_neq_iff)
qed

lemma known_hash: "known f r \<Longrightarrow> length (snd r) = 32"
  by (simp add: known_def)

section \<open>What the disk may change\<close>

text \<open>A write inside a chunk the file does not have yet disturbs nothing the invariant speaks of.\<close>

lemma on_disk_write:
  assumes "on_disk sha f c j h" "j \<noteq> i" "length d \<le> chunkLen f i"
  shows "on_disk sha f (write_at c (chunk_off f i) d) j h"
proof -
  have "slice (chunk_off f j) (chunkLen f j) (write_at c (chunk_off f i) d) = slice (chunk_off f j) (chunkLen f j) c"
    using assms chunk_ranges [of j i f] by (intro slice_write_at_other) (auto simp: on_disk_def)
  then show ?thesis using assms(1) by (auto simp: on_disk_def length_write_at)
qed

lemma durable_write:
  assumes "durable f pd j" "j \<noteq> i" "length d \<le> chunkLen f i"
  shows "durable f (pd\<lparr>fn_data := write_at (fn_data pd) (chunk_off f i) d\<rparr>) j"
proof -
  have "slice (chunk_off f j) (chunkLen f j) (write_at (fn_data pd) (chunk_off f i) d)
      = slice (chunk_off f j) (chunkLen f j) (fn_data pd)"
    using assms chunk_ranges [of j i f] by (intro slice_write_at_other) (auto simp: durable_def)
  then show ?thesis using assms(1) by (auto simp: durable_def length_write_at)
qed

lemma rec_good_write:
  assumes "rec_good f pd r" "\<not> f_have f ! i" "length d \<le> chunkLen f i"
  shows "rec_good f (pd\<lparr>fn_data := write_at (fn_data pd) (chunk_off f i) d\<rparr>) r"
  using assms durable_write [of f pd "fst r" i d] by (auto simp: rec_good_def known_def)

lemma journal_shape_mono:
  assumes "journal_shape f pd pend jdata recs junk"
    and "\<And>r. rec_good f pd r \<Longrightarrow> rec_good f pd' r"
  shows "journal_shape f pd' pend jdata recs junk"
  using assms by (auto simp: journal_shape_def)

lemma journal_ok_imp:
  assumes "journal_ok f pend s pd"
    and "\<And>jd recs junk. journal_shape f pd pend jd recs junk \<Longrightarrow> journal_shape g pd' pend' jd recs junk"
    and "f_journal g = f_journal f" "header g = header f" "journal_name g = journal_name f"
    and "os_files s' (journal_name f) = os_files s (journal_name f)"
  shows "journal_ok g pend' s' pd'"
proof (cases "os_files s (journal_name f)")
  case (Some jd)
  show ?thesis
  proof (cases "f_journal f")
    case True
    with assms(1) Some obtain recs junk where "journal_shape f pd pend (fn_data jd) recs junk"
      by (auto simp: journal_ok_def)
    from assms(2) [OF this] show ?thesis
      using True Some assms by (auto simp: journal_ok_def)
  qed (use Some assms in \<open>simp add: journal_ok_def\<close>)
qed (use assms in \<open>simp add: journal_ok_def\<close>)

lemma journal_ok_mono:
  assumes "journal_ok f pend s pd" "\<And>r. rec_good f pd r \<Longrightarrow> rec_good f pd' r"
    and "os_files s' (journal_name f) = os_files s (journal_name f)"
  shows "journal_ok f pend s' pd'"
  by (rule journal_ok_imp [OF assms(1) _ refl refl refl assms(3)]) (erule journal_shape_mono [OF _ assms(2)])

lemma InvP_write:
  assumes inv: "InvP sha pend f s" and pd: "os_files s (part_name f) = Some pd"
    and i: "\<not> f_have f ! i" "length d \<le> chunkLen f i"
    and s': "os_files s' = (os_files s)(part_name f \<mapsto> pd\<lparr>fn_data := write_at (fn_data pd) (chunk_off f i) d\<rparr>)"
  shows "InvP sha pend f s'"
proof -
  let ?pd = "pd\<lparr>fn_data := write_at (fn_data pd) (chunk_off f i) d\<rparr>"
  note D = InvP_D [OF inv pd]
  have "on_disk sha f (fn_data ?pd) j (f_hashes f ! j)" if "j < f_n f" "f_have f ! j" for j
  proof -
    have "j \<noteq> i" using that i by blast
    with that D(3) i(2) show ?thesis by (auto simp: data_ok_def intro!: on_disk_write)
  qed
  then have "data_ok sha f ?pd" by (simp add: data_ok_def)
  moreover have "journal_ok f pend s' ?pd"
    by (rule journal_ok_mono [OF D(4)]) (erule rec_good_write [OF _ i], simp add: s')
  ultimately show ?thesis using D s' by (intro InvP_I [of f pend s' ?pd]) auto
qed

text \<open>Syncing the data makes every chunk the file has durable.\<close>

lemma durable_synced:
  assumes "InvP sha pend f s" "os_files s (part_name f) = Some pd" "fn_sync pd = fn_data pd"
    and "known f r"
  shows "rec_good f pd r"
  using assms by (auto simp: InvP_def data_ok_def rec_good_def known_def durable_def on_disk_def)

lemma InvP_sync:
  assumes inv: "InvP sha pend f s" and pd: "os_files s (part_name f) = Some pd"
    and s': "os_files s' = (os_files s)(part_name f \<mapsto> pd\<lparr>fn_sync := fn_data pd\<rparr>)"
  shows "InvP sha pend f s'"
proof -
  let ?pd = "pd\<lparr>fn_sync := fn_data pd\<rparr>"
  note D = InvP_D [OF inv pd]
  have "journal_ok f pend s' ?pd"
    by (rule journal_ok_mono [OF D(4)]) (auto simp: s' rec_good_def durable_def)
  moreover have "data_ok sha f ?pd" using D(3) by (simp add: data_ok_def)
  ultimately show ?thesis using D s' by (intro InvP_I [of f pend s' ?pd]) auto
qed

text \<open>Neither a change of the other files nor of the bookkeeping fields matters.\<close>

lemma InvP_os_frame:
  assumes "InvP sha pend f s" "os_files s' (part_name f) = os_files s (part_name f)"
    "os_files s' (journal_name f) = os_files s (journal_name f)"
  shows "InvP sha pend f s'"
  using assms by (auto simp: InvP_def journal_ok_def)

definition same_file :: "sfile \<Rightarrow> sfile \<Rightarrow> bool" where
  "same_file f g \<longleftrightarrow> f_name g = f_name f \<and> f_n g = f_n f \<and> f_have g = f_have f \<and> f_hashes g = f_hashes f \<and>
     p_Key (f_p g) = p_Key (f_p f) \<and> p_Size (f_p g) = p_Size (f_p f) \<and> p_ChunkSize (f_p g) = p_ChunkSize (f_p f)"

lemma same_file_simps:
  assumes "same_file f g"
  shows "header g = header f" "osName g = osName f" "chunkLen g = chunkLen f" "csize g = csize f"
    "known g = known f" "durable g = durable f" "rec_good g = rec_good f" "on_disk sha g = on_disk sha f"
    "shape_ok g = shape_ok f" "data_ok sha g = data_ok sha f"
proof -
  note s = assms [unfolded same_file_def]
  show 1: "header g = header f" using s by (simp add: header_def header_body_def)
  show 2: "osName g = osName f" using s by (intro ext) (simp add: osName_def)
  show 3: "chunkLen g = chunkLen f" using s by (intro ext) (simp add: chunkLen_def)
  show 4: "csize g = csize f" using s by simp
  show 5: "known g = known f" using s by (intro ext) (simp add: known_def)
  show 6: "durable g = durable f" using s by (intro ext) (simp add: durable_def 3)
  show "rec_good g = rec_good f" by (intro ext) (simp add: rec_good_def 5 6)
  show 7: "on_disk sha g = on_disk sha f" using s by (intro ext) (simp add: on_disk_def 3)
  show "shape_ok g = shape_ok f" using s 3 by (simp add: shape_ok_def param_chunks_def)
  show "data_ok sha g = data_ok sha f" using s 7 by (auto simp: data_ok_def)
qed

lemma InvP_same_file:
  assumes "InvP sha pend f s" "same_file f g" "f_journal g = f_journal f" "f_journalEnd g = f_journalEnd f"
  shows "InvP sha pend g s"
proof -
  note g = same_file_simps [OF assms(2)]
  have n: "f_n g = f_n f" using assms(2) by (simp add: same_file_def)
  have "journal_shape g pd pend = journal_shape f pd pend" for pd
    using assms(4) by (intro ext) (simp add: journal_shape_def g)
  then have "journal_ok g pend s pd = journal_ok f pend s pd" for pd
    using assms(3) by (simp add: journal_ok_def g split: option.split)
  then show ?thesis using assms(1) g by (simp add: InvP_def)
qed

lemma same_file_refl [simp]: "same_file f f"
  by (simp add: same_file_def)

lemma same_file_trans: "same_file f g \<Longrightarrow> same_file g h \<Longrightarrow> same_file f h"
  by (simp add: same_file_def)

end
