(* ===== verification/StoreCommit.thy ===== *)
theory StoreCommit
  imports StoreInv
begin

text \<open>
  The operations that write keep the invariant of a file being received, whatever the disk
  refuses, also when chunks are written while a commit runs. The journal never gets a record
  before the bytes of its chunk are durable.
\<close>

section \<open>The journal\<close>

lemma prefix_overwrite:
  assumes "prefix w q" "prefix j q"
  shows "prefix (w @ drop (length w) j) q"
proof (cases "length j \<le> length w")
  case False
  then have "prefix w j" using assms prefix_length_prefix [of w q j] by auto
  then have "w @ drop (length w) j = j" by (auto simp: prefix_def)
  then show ?thesis using assms by simp
qed (use assms in simp)

lemma write_at_tail: "write_at (a @ j) (length a) w = a @ w @ drop (length w) j"
  by (cases "w = []") (simp_all add: write_at_def)

lemma ensureJournal_InvP:
  assumes inv: "InvP sha pend f s" and r: "ensureJournal f s = (r, f', s')"
  shows "InvP sha pend f' s'" "same_file f f'" "f_p f' = f_p f" "f_pending f' = f_pending f"
    "os_files s' (part_name f) = os_files s (part_name f)" "r = Inr () \<Longrightarrow> f_journal f'"
proof -
  from inv obtain pd where pd: "os_files s (part_name f) = Some pd" by (auto simp: InvP_def)
  note D = InvP_D [OF inv pd]
  have "InvP sha pend f' s' \<and> same_file f f' \<and> f_p f' = f_p f \<and> f_pending f' = f_pending f \<and>
    os_files s' (part_name f) = os_files s (part_name f) \<and> (r = Inr () \<longrightarrow> f_journal f')"
  proof (cases "f_journal f")
    case True
    with r inv show ?thesis by (simp add: ensureJournal_def)
  next
    case nj: False
    obtain ro s1 where o: "OpenFile s (journal_name f) True = (ro, s1)"
      by (cases "OpenFile s (journal_name f) True")
    show ?thesis
    proof (cases ro)
      case (Inl e)
      with OpenFile_create(3) [OF o] have "os_files s1 = os_files s" by simp
      moreover have "f' = f \<and> s' = s1 \<and> r \<noteq> Inr ()" using r nj o Inl by (auto simp: ensureJournal_def)
      ultimately show ?thesis using InvP_os_frame [OF inv, of s1] by simp
    next
      case (Inr u)
      with OpenFile_create(2) [OF o] have o1: "os_files s (journal_name f) = None"
        "os_files s1 = (os_files s)(journal_name f \<mapsto> \<lparr>fn_data = [], fn_sync = []\<rparr>)" by simp_all
      then have j1: "os_files s1 (journal_name f) = Some \<lparr>fn_data = [], fn_sync = []\<rparr>" by simp
      obtain rw s2 where w: "WriteAt s1 (journal_name f) 0 (header f) = (rw, s2)"
        by (cases "WriteAt s1 (journal_name f) 0 (header f)")
      have wa: "write_at [] 0 h = h" for h by (simp add: write_at_def)
      from WriteAt_files(2) [OF w j1] obtain h where h: "prefix h (header f)" "rw = Inr () \<longrightarrow> h = header f"
        "os_files s2 = (os_files s1)(journal_name f \<mapsto> \<lparr>fn_data = h, fn_sync = []\<rparr>)"
        by (auto simp: wa)
      have part2: "os_files s2 (part_name f) = Some pd" using h(3) o1(2) pd by simp
      show ?thesis
      proof (cases rw)
        case (Inl e)
        obtain rc s3 where c: "CloseF s2 (journal_name f) = (rc, s3)" by (cases "CloseF s2 (journal_name f)")
        obtain rr s4 where rm: "Remove s3 (journal_name f) = (rr, s4)" by (cases "Remove s3 (journal_name f)")
        have f': "f' = f" "s' = s4" "r \<noteq> Inr ()"
          using r nj o Inr w Inl c rm by (auto simp: ensureJournal_def)
        have s3: "os_files s3 = os_files s2" using CloseF_frame [OF c] by simp
        have part: "os_files s4 (part_name f) = Some pd"
          using Remove_files(2) [OF rm] s3 part2 by simp
        have "os_files s4 (journal_name f) = None \<or> os_files s4 (journal_name f) = Some \<lparr>fn_data = h, fn_sync = []\<rparr>"
          using Remove_files(2) [OF rm] s3 h(3) by simp
        then have "journal_ok f pend s4 pd" using nj h(1) by (auto simp: journal_ok_def)
        then show ?thesis using InvP_I [OF D(1,2) part D(3)] f' part pd by simp
      next
        case (Inr u')
        then have hh: "h = header f" using h(2) by simp
        have f': "f' = f\<lparr>f_journal := True, f_journalEnd := headerLen\<rparr>" "s' = s2"
          using r nj o \<open>ro = Inr u\<close> w Inr by (auto simp: ensureJournal_def)
        have sf: "same_file f f'" by (simp add: f' same_file_def)
        note g = same_file_simps [OF sf]
        have "f_journalEnd f' = headerLen" using f'(1) by simp
        then have "journal_shape f' pd pend (header f) [] []" by (simp add: journal_shape_def g(1))
        moreover have "os_files s' (journal_name f') = Some \<lparr>fn_data = header f, fn_sync = []\<rparr>"
          using h(3) hh f'(2) by (simp add: g(2))
        moreover have "f_journal f'" using f'(1) by simp
        ultimately have "journal_ok f' pend s' pd" by (auto simp: journal_ok_def)
        moreover have "os_files s' (part_name f') = Some pd" using part2 f'(2) by (simp add: g(2))
        ultimately have "InvP sha pend f' s'" using D g by (intro InvP_I [of f' pend s' pd]) auto
        then show ?thesis using sf f' part2 pd by simp
      qed
    qed
  qed
  then show "InvP sha pend f' s'" "same_file f f'" "f_p f' = f_p f" "f_pending f' = f_pending f"
    "os_files s' (part_name f) = os_files s (part_name f)" "r = Inr () \<Longrightarrow> f_journal f'"
    by blast+
qed

section \<open>A commit\<close>

lemma length_jdata:
  assumes "shape_ok f" "journal_shape f pd pend jd recs junk"
  shows "length (header f @ recs_bytes recs) = f_journalEnd f"
  using assms length_recs_bytes [of recs]
  by (auto simp: journal_shape_def shape_ok_def rec_good_def dest: known_hash)

lemma take_div_junk:
  assumes "\<forall>r \<in> set batch. rec_good f pd r" "\<forall>r \<in> set (take k pend). rec_good f pd r"
    and "pend = batch @ rest" "m \<le> max k (length batch)"
  shows "\<forall>r \<in> set (take m pend). rec_good f pd r"
proof
  fix r assume "r \<in> set (take m pend)"
  then obtain i where i: "i < m" "i < length pend" "r = pend ! i" by (auto simp: in_set_conv_nth)
  show "rec_good f pd r"
  proof (cases "i < length batch")
    case True
    then show ?thesis using i assms(1,3) by (simp add: nth_append)
  next
    case False
    with i assms(4) have "i < k" by simp
    then show ?thesis using i assms(2) by (metis in_set_conv_nth length_take min_less_iff_conj nth_take)
  qed
qed

text \<open>Overwriting the end of the journal with the beginning \<open>w\<close> of the batch.\<close>

lemma journal_shape_write:
  assumes js: "journal_shape f pd (batch @ rest) jd recs junk" and sh: "shape_ok f"
    and good: "\<forall>r \<in> set batch. rec_good f pd r" and w: "prefix w (recs_bytes batch)"
  shows "\<exists>junk'. journal_shape f pd (batch @ rest) (write_at jd (f_journalEnd f) w) recs junk'"
proof -
  let ?junk = "w @ drop (length w) junk"
  have jd: "jd = (header f @ recs_bytes recs) @ junk" using js by (simp add: journal_shape_def)
  have "write_at jd (f_journalEnd f) w = (header f @ recs_bytes recs) @ ?junk"
    unfolding jd length_jdata [OF sh js, symmetric] by (rule write_at_tail)
  moreover have "prefix ?junk (recs_bytes (batch @ rest))"
    using js w by (intro prefix_overwrite) (simp_all add: journal_shape_def prefix_prefix)
  moreover have m: "length ?junk div recordLen \<le> max (length junk div recordLen) (length batch)"
  proof -
    have lb: "length (recs_bytes batch) = recordLen * length batch"
      using good by (intro length_recs_bytes) (auto simp: rec_good_def dest: known_hash)
    have "length w \<le> recordLen * length batch" using w lb by (metis prefix_length_le)
    then have "length ?junk \<le> max (length junk) (recordLen * length batch)" by simp
    then have "length ?junk div recordLen \<le> max (length junk) (recordLen * length batch) div recordLen"
      by (rule div_le_mono)
    then show ?thesis by (auto simp: max_def recordLen_def split: if_splits)
  qed
  then have "\<forall>r \<in> set (take (length ?junk div recordLen) (batch @ rest)). rec_good f pd r"
    using take_div_junk [where rest = rest, OF good _ refl m] js unfolding journal_shape_def by blast
  ultimately have "journal_shape f pd (batch @ rest) (write_at jd (f_journalEnd f) w) recs ?junk"
    using js by (simp add: journal_shape_def)
  then show ?thesis by blast
qed

text \<open>Once the whole batch is written, its records are committed and the rest is pending.\<close>

lemma journal_shape_committed:
  assumes js: "journal_shape f pd (batch @ rest) jd recs junk" and sh: "shape_ok f"
    and good: "\<forall>r \<in> set batch. rec_good f pd r"
    and g: "same_file f g" "f_journalEnd g = f_journalEnd f + length (recs_bytes batch)"
  shows "\<exists>recs' junk'. journal_shape g pd rest (write_at jd (f_journalEnd f) (recs_bytes batch)) recs' junk'"
proof -
  let ?n = "length (recs_bytes batch)"
  have lb: "?n = recordLen * length batch"
    using good by (intro length_recs_bytes) (auto simp: rec_good_def dest: known_hash)
  have jd: "jd = (header f @ recs_bytes recs) @ junk" using js by (simp add: journal_shape_def)
  have 1: "write_at jd (f_journalEnd f) (recs_bytes batch)
      = header f @ recs_bytes (recs @ batch) @ drop ?n junk"
    unfolding jd length_jdata [OF sh js, symmetric] write_at_tail by simp
  have 2: "prefix (drop ?n junk) (recs_bytes rest)"
  proof (cases "?n \<le> length junk")
    case True
    with js obtain z where "junk @ z = recs_bytes batch @ recs_bytes rest"
      by (auto simp: journal_shape_def prefix_def)
    then have "drop ?n (junk @ z) = recs_bytes rest" by simp
    with True show ?thesis by (simp, metis prefixI)
  qed simp
  have 3: "\<forall>r \<in> set (take (length (drop ?n junk) div recordLen) rest). rec_good f pd r"
  proof
    fix r assume r: "r \<in> set (take (length (drop ?n junk) div recordLen) rest)"
    have "length (drop ?n junk) div recordLen = length junk div recordLen - length batch"
      unfolding lb recordLen_def length_drop by arith
    then have "r \<in> set (take (length junk div recordLen) (batch @ rest))"
      using r by simp
    then show "rec_good f pd r" using js by (auto simp: journal_shape_def)
  qed
  note s = same_file_simps [OF g(1)]
  have "journal_shape g pd rest (write_at jd (f_journalEnd f) (recs_bytes batch)) (recs @ batch) (drop ?n junk)"
    using js good 1 2 3 g(2) lb by (auto simp: journal_shape_def s(1) s(7) distrib_left)
  then show ?thesis by blast
qed

lemma journal_ok_write:
  assumes "journal_ok f pend s pd" "f_journal f" "os_files s (journal_name f) = Some jd"
  obtains recs junk where "journal_shape f pd pend (fn_data jd) recs junk"
  using assms by (auto simp: journal_ok_def)

lemma journal_okI:
  "f_journal f \<Longrightarrow> os_files s (journal_name f) = Some jd \<Longrightarrow> \<exists>recs junk. journal_shape f pd pend (fn_data jd) recs junk
     \<Longrightarrow> journal_ok f pend s pd"
  by (simp add: journal_ok_def)

text \<open>The second half of a commit: its batch is durable already.\<close>

lemma commit_records_InvP:
  assumes inv: "InvP sha (batch @ rest) f s" and pd: "os_files s (part_name f) = Some pd"
    and good: "\<forall>r \<in> set batch. rec_good f pd r"
    and r: "commit_records f s batch = (r, f', s')"
  shows "InvP sha (if r = Inr () then rest else batch @ rest) f' s'" "same_file f f'"
    "f_pending f' = f_pending f" "f_p f' = f_p f" "os_files s' (part_name f) = Some pd"
proof -
  obtain re f1 s1 where e: "ensureJournal f s = (re, f1, s1)" by (cases "ensureJournal f s")
  note E = ensureJournal_InvP [OF inv e]
  note g = same_file_simps [OF E(2)]
  have part1: "os_files s1 (part_name f1) = Some pd" using E(5) pd by (simp add: g(2))
  note D = InvP_D [OF E(1) part1]
  have "InvP sha (if r = Inr () then rest else batch @ rest) f' s' \<and> same_file f f' \<and>
      f_pending f' = f_pending f \<and> f_p f' = f_p f \<and> os_files s' (part_name f) = Some pd"
  proof (cases re)
    case (Inl x)
    then have "r = Inl x" "f' = f1" "s' = s1" using r e by (auto simp: commit_records_def Let_def)
    then show ?thesis using E pd by auto
  next
    case (Inr u)
    then have j: "f_journal f1" using E(6) by simp
    have "os_files s1 (journal_name f1) \<noteq> None" using D(4) j by (auto simp: journal_ok_def split: option.splits)
    then obtain jd where jd: "os_files s1 (journal_name f1) = Some jd" by blast
    from journal_ok_write [OF D(4) j jd] obtain recs junk
      where js: "journal_shape f1 pd (batch @ rest) (fn_data jd) recs junk" .
    have good1: "\<forall>r \<in> set batch. rec_good f1 pd r" using good by (simp add: g(7))
    obtain rw s2 where w: "WriteAt s1 (journal_name f1) (f_journalEnd f1) (recs_bytes batch) = (rw, s2)"
      by (cases "WriteAt s1 (journal_name f1) (f_journalEnd f1) (recs_bytes batch)")
    from WriteAt_files(2) [OF w jd] obtain v where v: "prefix v (recs_bytes batch)"
      "rw = Inr () \<longrightarrow> v = recs_bytes batch"
      and f2: "os_files s2 = (os_files s1)(journal_name f1 \<mapsto>
         jd\<lparr>fn_data := write_at (fn_data jd) (f_journalEnd f1) v\<rparr>)" by blast
    let ?jd = "jd\<lparr>fn_data := write_at (fn_data jd) (f_journalEnd f1) v\<rparr>"
    have written: "\<exists>recs junk. journal_shape f1 pd (batch @ rest) (fn_data ?jd) recs junk"
      using journal_shape_write [OF js D(1) good1 v(1)] by auto
    have keep: "InvP sha (batch @ rest) f1 s3 \<and> os_files s3 (part_name f) = Some pd"
      if "os_files s3 (journal_name f1) = Some jd3" "fn_data jd3 = fn_data ?jd"
        "os_files s3 (part_name f1) = os_files s1 (part_name f1)" for s3 jd3
    proof -
      have "journal_ok f1 (batch @ rest) s3 pd" using written that(2) by (intro journal_okI [OF j that(1)]) simp
      then show ?thesis using InvP_I [OF D(1,2) _ D(3)] that(3) part1 g(2) by simp
    qed
    show ?thesis
    proof (cases rw)
      case (Inl x)
      then have "r = Inl (ErrOS x)" "f' = f1" "s' = s2"
        using r e \<open>re = Inr u\<close> w by (auto simp: commit_records_def Let_def)
      then show ?thesis using keep [of s2 ?jd] f2 E by simp
    next
      case (Inr u')
      then have v2: "v = recs_bytes batch" using v by simp
      obtain rs s3 where sy: "(if p_NoSync (f_p f1) then (Inr (), s2) else Sync s2 (journal_name f1)) = (rs, s3)"
        by fastforce
      have j2: "os_files s2 (journal_name f1) = Some ?jd" using f2 by simp
      have "\<exists>jd3. os_files s3 (journal_name f1) = Some jd3 \<and> fn_data jd3 = fn_data ?jd \<and>
          os_files s3 (part_name f1) = os_files s1 (part_name f1)"
      proof (cases "p_NoSync (f_p f1)")
        case True
        then show ?thesis using sy f2 by auto
      next
        case False
        with sy have sn: "Sync s2 (journal_name f1) = (rs, s3)" by simp
        show ?thesis
          using Sync_files(2,3) [OF sn j2] f2 by (cases "rs = Inr ()") auto
      qed
      then obtain jd3 where j3: "os_files s3 (journal_name f1) = Some jd3" "fn_data jd3 = fn_data ?jd"
        "os_files s3 (part_name f1) = os_files s1 (part_name f1)" by blast
      show ?thesis
      proof (cases rs)
        case (Inl x)
        then have "r = Inl (ErrOS x)" "f' = f1" "s' = s3"
          using r e \<open>re = Inr u\<close> w Inr sy by (auto simp: commit_records_def Let_def)
        then show ?thesis using keep [OF j3] E by simp
      next
        case (Inr u'')
        let ?g = "f1\<lparr>f_journalEnd := f_journalEnd f1 + length (recs_bytes batch)\<rparr>"
        have f': "r = Inr ()" "f' = ?g" "s' = s3"
          using r e \<open>re = Inr u\<close> w \<open>rw = Inr u'\<close> sy Inr by (auto simp: commit_records_def Let_def)
        have sf: "same_file f1 ?g" by (simp add: same_file_def)
        note h = same_file_simps [OF sf]
        have "\<exists>recs junk. journal_shape ?g pd rest (fn_data jd3) recs junk"
          using journal_shape_committed [OF js D(1) good1 sf] j3(2) v2 by simp
        then have "journal_ok ?g rest s3 pd" using j j3(1) h(2) by (intro journal_okI [of ?g s3 jd3]) simp_all
        moreover have "\<forall>r \<in> set rest. known ?g r" using D(2) by (simp add: h(5))
        moreover have "os_files s3 (part_name ?g) = Some pd" using j3(3) part1 by (simp add: h(2))
        ultimately have "InvP sha rest ?g s3" using D h by (intro InvP_I [of ?g rest s3 pd]) auto
        then show ?thesis
          using f' same_file_trans [OF E(2) sf] E j3(3) part1 by (simp add: g(2))
      qed
    qed
  qed
  then show "InvP sha (if r = Inr () then rest else batch @ rest) f' s'" "same_file f f'"
    "f_pending f' = f_pending f" "f_p f' = f_p f" "os_files s' (part_name f) = Some pd" by blast+
qed

lemma commit_InvP:
  assumes inv: "InvP sha (batch @ rest) f s" and ns: "\<not> p_NoSync (f_p f)"
    and r: "commit f s batch = (r, f', s')"
  shows "InvP sha (if r = Inr () then rest else batch @ rest) f' s'" "same_file f f'"
    "f_pending f' = f_pending f" "f_p f' = f_p f"
proof -
  from inv obtain pd where pd: "os_files s (part_name f) = Some pd" by (auto simp: InvP_def)
  obtain rs s1 where sy: "Sync s (part_name f) = (rs, s1)" by (cases "Sync s (part_name f)")
  have "InvP sha (if r = Inr () then rest else batch @ rest) f' s' \<and> same_file f f' \<and>
      f_pending f' = f_pending f \<and> f_p f' = f_p f"
  proof (cases rs)
    case (Inl x)
    with Sync_files(3) [OF sy pd] have "os_files s1 = os_files s" by simp
    then have "InvP sha (batch @ rest) f s1" using InvP_os_frame [OF inv, of s1] by simp
    moreover have "r = Inl (ErrOS x)" "f' = f" "s' = s1" using r sy Inl ns by (auto simp: commit_def)
    ultimately show ?thesis by simp
  next
    case (Inr u)
    then have f1: "os_files s1 = (os_files s)(part_name f \<mapsto> pd\<lparr>fn_sync := fn_data pd\<rparr>)"
      using Sync_files(2) [OF sy pd] by simp
    then have pd1: "os_files s1 (part_name f) = Some (pd\<lparr>fn_sync := fn_data pd\<rparr>)" by simp
    note inv1 = InvP_sync [OF inv pd f1]
    have "\<forall>r \<in> set batch. rec_good f (pd\<lparr>fn_sync := fn_data pd\<rparr>) r"
      using InvP_D(2) [OF inv1 pd1] durable_synced [OF inv1 pd1] by simp
    moreover have "commit_records f s1 batch = (r, f', s')" using r sy Inr ns by (simp add: commit_def)
    ultimately show ?thesis using commit_records_InvP [OF inv1 pd1] by blast
  qed
  then show "InvP sha (if r = Inr () then rest else batch @ rest) f' s'" "same_file f f'"
    "f_pending f' = f_pending f" "f_p f' = f_p f" by blast+
qed

section \<open>Writing a chunk\<close>

lemma InvP_extend:
  assumes inv: "InvP sha pend f s" and x: "known f x"
  shows "InvP sha (pend @ [x]) f s"
proof -
  from inv obtain pd where pd: "os_files s (part_name f) = Some pd" by (auto simp: InvP_def)
  note D = InvP_D [OF inv pd]
  have "journal_shape f pd (pend @ [x]) jd recs junk" if js: "journal_shape f pd pend jd recs junk"
    for jd recs junk
  proof -
    have "length junk \<le> length (recs_bytes pend)" using js by (auto simp: journal_shape_def prefix_length_le)
    also have "\<dots> = recordLen * length pend"
      using D(2) by (intro length_recs_bytes) (auto dest: known_hash)
    finally have "length junk div recordLen \<le> length pend" by (simp add: recordLen_def)
    then show ?thesis using js by (simp add: journal_shape_def prefix_prefix)
  qed
  then have "journal_ok f (pend @ [x]) s pd"
    by (rule journal_ok_imp [OF D(4)]) simp_all
  then show ?thesis using D x pd by (intro InvP_I [of f "pend @ [x]" s pd]) auto
qed

definition mark :: "sfile \<Rightarrow> nat \<Rightarrow> bytes \<Rightarrow> sfile" where
  "mark f i h = f\<lparr>f_have := (f_have f)[i := True], f_hashes := (f_hashes f)[i := h]\<rparr>"

lemma mark_simps [simp]:
  "header (mark f i h) = header f" "osName (mark f i h) = osName f" "chunkLen (mark f i h) = chunkLen f"
  "f_p (mark f i h) = f_p f" "f_journal (mark f i h) = f_journal f" "f_n (mark f i h) = f_n f"
  "f_journalEnd (mark f i h) = f_journalEnd f" "f_pending (mark f i h) = f_pending f"
  "durable (mark f i h) = durable f" "on_disk sha (mark f i h) = on_disk sha f"
  by (auto simp: mark_def header_def header_body_def osName_def chunkLen_def durable_def on_disk_def
      fun_eq_iff)

lemma known_mark:
  assumes "known f r" "\<not> f_have f ! i" "shape_ok f"
  shows "known (mark f i h) r"
  using assms by (cases "fst r = i") (auto simp: known_def mark_def shape_ok_def)

lemma rec_good_mark:
  "rec_good f pd r \<Longrightarrow> \<not> f_have f ! i \<Longrightarrow> shape_ok f \<Longrightarrow> rec_good (mark f i h) pd r"
  by (simp add: rec_good_def known_mark)

lemma InvP_mark:
  assumes inv: "InvP sha pend f s" and pd: "os_files s (part_name f) = Some pd"
    and i: "\<not> f_have f ! i" and d: "on_disk sha f (fn_data pd) i h"
  shows "InvP sha pend (mark f i h) s"
proof -
  note D = InvP_D [OF inv pd]
  have js: "journal_shape (mark f i h) pd pend jd recs junk" if "journal_shape f pd pend jd recs junk"
    for jd recs junk
    using that rec_good_mark [OF _ i D(1)] by (simp add: journal_shape_def)
  have "shape_ok (mark f i h)" using D(1) by (simp add: shape_ok_def) (simp add: mark_def)
  moreover have "\<forall>r \<in> set pend. known (mark f i h) r" using D(2) known_mark [OF _ i D(1)] by blast
  moreover have "data_ok sha (mark f i h) pd"
    unfolding data_ok_def
  proof (intro allI impI)
    fix j assume j: "j < f_n (mark f i h)" "f_have (mark f i h) ! j"
    show "on_disk sha (mark f i h) (fn_data pd) j (f_hashes (mark f i h) ! j)"
    proof (cases "j = i")
      case True
      then show ?thesis using j d D(1) by (simp add: shape_ok_def) (simp add: mark_def)
    next
      case False
      then have "f_have f ! j" "f_hashes (mark f i h) ! j = f_hashes f ! j" using j by (simp_all add: mark_def)
      then show ?thesis using j D(3) by (simp add: data_ok_def)
    qed
  qed
  moreover have "journal_ok (mark f i h) pend s pd"
    by (rule journal_ok_imp [OF D(4) js]) simp_all
  ultimately show ?thesis using pd by (intro InvP_I [of _ pend s pd]) auto
qed

lemma InvP_cong_file:
  "InvP sha pend f s \<Longrightarrow> same_file f g \<Longrightarrow> f_journal g = f_journal f \<Longrightarrow> f_journalEnd g = f_journalEnd f
   \<Longrightarrow> InvP sha pend g s"
  by (rule InvP_same_file)

text \<open>A chunk written for the first time, whose hash the caller checked.\<close>

lemma WriteChunk_InvP:
  assumes inv: "InvP sha pend f s" and pd: "os_files s (part_name f) = Some pd"
    and i: "\<not> f_have f ! i" and h: "sha data = h" "length h = 32"
    and r: "WriteChunk f s i data h = (r, f', s')"
  shows "if r = Inr () then InvP sha (pend @ [(i, h)]) f' s' \<and> f_pending f' = f_pending f @ [(i, h)]
         else InvP sha pend f' s' \<and> f' = f"
    "\<exists>pd'. os_files s' (part_name f) = Some pd' \<and> (\<forall>x. rec_good f pd x \<longrightarrow> rec_good f' pd' x)"
    "f_p f' = f_p f" "part_name f' = part_name f" "Inr () = r \<Longrightarrow> known f' (i, h)"
proof -
  note D = InvP_D [OF inv pd]
  have all: "(if r = Inr () then InvP sha (pend @ [(i, h)]) f' s' \<and> f_pending f' = f_pending f @ [(i, h)]
         else InvP sha pend f' s' \<and> f' = f) \<and>
    (\<exists>pd'. os_files s' (part_name f) = Some pd' \<and> (\<forall>x. rec_good f pd x \<longrightarrow> rec_good f' pd' x)) \<and>
    f_p f' = f_p f \<and> part_name f' = part_name f \<and> (Inr () = r \<longrightarrow> known f' (i, h))"
  proof (cases "i \<ge> f_n f \<or> length data \<noteq> chunkLen f i")
    case True
    with r inv pd show ?thesis by (auto simp: WriteChunk_def)
  next
    case ok: False
    obtain rw s1 where w: "WriteAt s (part_name f) (chunk_off f i) data = (rw, s1)"
      by (cases "WriteAt s (part_name f) (chunk_off f i) data")
    from WriteAt_files(2) [OF w pd] obtain v where v: "prefix v data" "rw = Inr () \<longrightarrow> v = data"
      "os_files s1 = (os_files s)(part_name f \<mapsto> pd\<lparr>fn_data := write_at (fn_data pd) (chunk_off f i) v\<rparr>)"
      by blast
    let ?pd = "pd\<lparr>fn_data := write_at (fn_data pd) (chunk_off f i) v\<rparr>"
    have lv: "length v \<le> chunkLen f i" using v(1) ok by (metis prefix_length_le)
    have pd1: "os_files s1 (part_name f) = Some ?pd" using v(3) by simp
    note inv1 = InvP_write [OF inv pd i lv v(3)]
    have rg: "rec_good f ?pd x" if "rec_good f pd x" for x by (rule rec_good_write [OF that i lv])
    show ?thesis
    proof (cases rw)
      case (Inl e)
      then have "f' = f" "s' = s1" "r = Inl (ErrOS e)" using r ok w by (auto simp: WriteChunk_def)
      then show ?thesis using inv1 pd1 rg by auto
    next
      case (Inr u)
      then have vd: "v = data" using v by simp
      let ?m = "mark f i h"
      have f': "r = Inr ()" "s' = s1" "f' = ?m\<lparr>f_pending := f_pending f @ [(i, h)],
                       f_pendingBytes := f_pendingBytes f + int (length data)\<rparr>"
        using r ok w Inr by (auto simp: WriteChunk_def mark_def)
      have ld: "length data = chunkLen f i" using ok by simp
      have off: "chunk_off f i + chunkLen f i \<le> length (fn_data ?pd)"
      proof -
        have "0 < chunkLen f i" using D(1) ok by (simp add: shape_ok_def)
        then have "data \<noteq> []" using ld by auto
        then show ?thesis using vd ld by (simp add: length_write_at)
      qed
      have "on_disk sha f (fn_data ?pd) i h"
        using off slice_write_at_same [of "chunk_off f i" data "fn_data pd"] vd ld h
        by (simp add: on_disk_def)
      then have m: "InvP sha pend ?m s1" by (rule InvP_mark [OF inv1 pd1 i])
      have k: "known ?m (i, h)" using D(1) ok h by (auto simp: known_def mark_def shape_ok_def)
      have sf: "same_file ?m f'" by (simp add: f'(3) same_file_def)
      note g = same_file_simps [OF sf]
      have "InvP sha (pend @ [(i, h)]) f' s1"
        by (rule InvP_same_file [OF InvP_extend [OF m k] sf]) (simp_all add: f'(3))
      moreover have "rec_good f' ?pd x" if "rec_good f pd x" for x
        using rec_good_mark [OF rg [OF that] i D(1)] by (simp add: g(7))
      ultimately show ?thesis
        using f' pd1 k g by auto
    qed
  qed
  show "if r = Inr () then InvP sha (pend @ [(i, h)]) f' s' \<and> f_pending f' = f_pending f @ [(i, h)]
         else InvP sha pend f' s' \<and> f' = f"
    "\<exists>pd'. os_files s' (part_name f) = Some pd' \<and> (\<forall>x. rec_good f pd x \<longrightarrow> rec_good f' pd' x)"
    "f_p f' = f_p f" "part_name f' = part_name f" "Inr () = r \<Longrightarrow> known f' (i, h)" using all by blast+
qed

end
