(* ===== verification/StoreLoad.thy ===== *)
theory StoreLoad
  imports StoreCommit
begin

text \<open>
  What opening a file again reads back (\<^verbatim>\<open>load\<close> and \<^verbatim>\<open>verify\<close> of
  \<^verbatim>\<open>pkg/store/store.go\<close>): the records of the journal up to the first block that is not one,
  and of these the chunks found on the disk.
\<close>

section \<open>Records\<close>

definition rec_of :: "bytes \<Rightarrow> jrecord" where
  "rec_of b = (unat (get32 (slice 0 4 b)), slice 4 32 b)"

text \<open>A block of the journal that \<^verbatim>\<open>load\<close> takes for a record of a file of \<open>n\<close> chunks.\<close>

definition valid_block :: "nat \<Rightarrow> bytes \<Rightarrow> bool" where
  "valid_block n b \<longleftrightarrow>
     length b = recordLen \<and> get32 (slice 36 4 b) = crc32 (take 36 b) \<and> fst (rec_of b) < n"

abbreviation block :: "nat \<Rightarrow> bytes \<Rightarrow> bytes" where
  "block k b \<equiv> slice (headerLen + recordLen * k) recordLen b"

definition apply_rec :: "sfile \<Rightarrow> jrecord \<Rightarrow> sfile" where
  "apply_rec f r = f\<lparr>f_hashes := (f_hashes f)[fst r := snd r], f_have := (f_have f)[fst r := True],
     f_order := f_order f @ [fst r]\<rparr>"

lemma rec_bytes_rec_of:
  assumes "valid_block n b"
  shows "rec_bytes (rec_of b) = b" "length (snd (rec_of b)) = 32"
proof -
  have l: "length b = 40" using assms by (simp add: valid_block_def recordLen_def)
  have "put32 (of_nat (unat (get32 (take 4 b)))) = take 4 b" using l by (simp add: put_get)
  moreover have "take 4 b @ slice 4 32 b = take 36 b"
    using take_add [of 4 32 b] by (simp add: slice_def)
  moreover have "put32 (crc32 (take 36 b)) = slice 36 4 b"
  proof -
    have "put32 (get32 (slice 36 4 b)) = slice 36 4 b" using l by (intro put_get(2)) simp
    then show ?thesis using assms by (simp add: valid_block_def)
  qed
  moreover have "take 36 b @ slice 36 4 b = b" using l by (simp add: slice_def)
  ultimately show "rec_bytes (rec_of b) = b" by (simp add: rec_bytes_def rec_of_def Let_def)
  show "length (snd (rec_of b)) = 32" using l by (simp add: rec_of_def)
qed

lemma rec_of_rec_bytes:
  assumes "length (snd r) = 32" "fst r < 2 ^ 32"
  shows "rec_of (rec_bytes r) = r" "fst r < n \<Longrightarrow> valid_block n (rec_bytes r)"
proof -
  have u: "unat (of_nat (fst r) :: 32 word) = fst r" using assms(2) by (simp add: unat_of_nat)
  show 1: "rec_of (rec_bytes r) = r"
    using assms(1) u by (simp add: rec_of_def rec_bytes_def Let_def slice_def prod_eq_iff)
  show "valid_block n (rec_bytes r)" if "fst r < n"
    unfolding valid_block_def 1 using that assms(1)
    by (simp add: recordLen_def rec_bytes_def Let_def slice_def)
qed

lemma rec_bytes_inject:
  assumes "rec_bytes r = rec_bytes q" "length (snd r) = 32" "fst r < 2 ^ 32" "length (snd q) = 32" "fst q < 2 ^ 32"
  shows "r = q"
  using assms rec_of_rec_bytes(1) by metis

text \<open>The \<open>k\<close>th block of a list of records.\<close>

lemma slice_recs:
  assumes "\<forall>r \<in> set rs. length (snd r) = 32" "k < length rs"
  shows "slice (recordLen * k) recordLen (recs_bytes rs) = rec_bytes (rs ! k)"
  using assms
proof (induction rs arbitrary: k)
  case (Cons r rs)
  then show ?case
    by (cases k) (simp_all add: slice_def)
qed simp

section \<open>\<^verbatim>\<open>load\<close>\<close>

definition contents :: "os \<Rightarrow> string \<Rightarrow> bytes" where
  "contents s n = (case os_files s n of None \<Rightarrow> [] | Some nd \<Rightarrow> fn_data nd)"

lemma ReadAt_contents:
  assumes "ReadAt s n off len = ((b, ok), s')"
  shows "b = slice off len (contents s n) \<or> b = []" "ok \<Longrightarrow> b = slice off len (contents s n) \<and> length b = len"
    "os_faults s = [] \<Longrightarrow> b = slice off len (contents s n) \<and> os_faults s' = []"
    "os_faults s = [] \<Longrightarrow> os_files s n \<noteq> None \<Longrightarrow> ok \<longleftrightarrow> length b = len"
  using assms
  by (auto simp: ReadAt_def contents_def Let_def pop_def slice_def split: prod.splits option.splits list.splits fault.splits)

lemma load_loop_spec:
  "load_loop s off f = (off', f', s') \<Longrightarrow>
   \<exists>rs. off' = off + recordLen * length rs \<and> f' = foldl apply_rec f rs \<and> os_files s' = os_files s \<and>
     (\<forall>k < length rs. valid_block (f_n f) (slice (off + recordLen * k) recordLen (contents s (journal_name f))) \<and>
        rs ! k = rec_of (slice (off + recordLen * k) recordLen (contents s (journal_name f)))) \<and>
     (os_faults s = [] \<longrightarrow> os_faults s' = [] \<and>
        \<not> valid_block (f_n f) (slice off' recordLen (contents s (journal_name f))))"
proof (induction s off f arbitrary: off' f' s' rule: load_loop.induct)
  case (1 s off f)
  obtain b ok s1 where rd: "ReadAt s (journal_name f) off recordLen = ((b, ok), s1)"
    by (metis prod.exhaust)
  note R = ReadAt_contents [OF rd]
  have fr: "os_files s1 = os_files s" using ReadAt_frame [OF rd] by simp
  let ?c = "contents s (journal_name f)"
  show ?case
  proof (cases "valid_block (f_n f) b")
    case False
    have "load_loop s off f = (off, f, s1)"
    proof -
      have "length b \<le> recordLen" using R(1) by auto
      then have "length b < recordLen \<or> get32 (slice 36 4 b) \<noteq> crc32 (take 36 b) \<or>
          f_n f \<le> unat (get32 (slice 0 4 b))"
        using False by (auto simp: valid_block_def rec_of_def)
      then show ?thesis by (subst load_loop.simps) (auto simp: rd Let_def)
    qed
    then have "off' = off" "f' = f" "s' = s1" using 1(2) by simp_all
    moreover have "os_faults s = [] \<longrightarrow> os_faults s1 = [] \<and> \<not> valid_block (f_n f) (slice off recordLen ?c)"
      using R(3) False by auto
    ultimately show ?thesis using fr by (intro exI [of _ "[]"]) simp
  next
    case True
    then have b: "b = slice off recordLen ?c" "length b = recordLen"
      using R(1) by (auto simp: valid_block_def recordLen_def)
    let ?g = "apply_rec f (rec_of b)"
    have step: "load_loop s off f = load_loop s1 (off + recordLen) ?g"
      using True by (subst load_loop.simps) (simp add: rd Let_def valid_block_def rec_of_def apply_rec_def)
    have g: "f_n ?g = f_n f" "journal_name ?g = journal_name f"
      by (simp_all add: apply_rec_def osName_def)
    have c: "contents s1 = contents s" using fr by (simp add: contents_def fun_eq_iff)
    have t: "\<not> length b < recordLen" "\<not> get32 (slice 36 4 b) \<noteq> crc32 (take 36 b)"
      "\<not> f_n f \<le> unat (get32 (slice 0 4 b))"
      using True by (simp_all add: valid_block_def rec_of_def)
    have eq: "f\<lparr>f_hashes := (f_hashes f)[unat (get32 (slice 0 4 b)) := slice 4 32 b],
        f_have := (f_have f)[unat (get32 (slice 0 4 b)) := True],
        f_order := f_order f @ [unat (get32 (slice 0 4 b))]\<rparr> = ?g"
      by (simp add: apply_rec_def rec_of_def)
    note IH0 = 1(1) [OF rd [symmetric] refl t(1) t(2) refl t(3), unfolded eq]
    have ll: "load_loop s1 (off + recordLen) ?g = (off', f', s')" using 1(2) step by simp
    have IH: "\<exists>rs. off' = (off + recordLen) + recordLen * length rs \<and> f' = foldl apply_rec ?g rs \<and>
       os_files s' = os_files s1 \<and>
     (\<forall>k < length rs. valid_block (f_n ?g) (slice (off + recordLen + recordLen * k) recordLen (contents s1 (journal_name ?g))) \<and>
        rs ! k = rec_of (slice (off + recordLen + recordLen * k) recordLen (contents s1 (journal_name ?g)))) \<and>
     (os_faults s1 = [] \<longrightarrow> os_faults s' = [] \<and>
        \<not> valid_block (f_n ?g) (slice off' recordLen (contents s1 (journal_name ?g))))"
      by (rule IH0 [OF ll])
    then obtain rs where rs: "off' = off + recordLen + recordLen * length rs" "f' = foldl apply_rec ?g rs"
      "os_files s' = os_files s"
      "\<forall>k < length rs. valid_block (f_n f) (slice (off + recordLen + recordLen * k) recordLen ?c) \<and>
         rs ! k = rec_of (slice (off + recordLen + recordLen * k) recordLen ?c)"
      "os_faults s1 = [] \<longrightarrow> os_faults s' = [] \<and> \<not> valid_block (f_n f) (slice off' recordLen ?c)"
      unfolding g c fr by blast
    have "valid_block (f_n f) (slice (off + recordLen * k) recordLen ?c) \<and>
        (rec_of b # rs) ! k = rec_of (slice (off + recordLen * k) recordLen ?c)"
      if "k < length (rec_of b # rs)" for k
    proof (cases k)
      case 0
      then show ?thesis using True b(1) by simp
    next
      case (Suc j)
      then show ?thesis using that rs(4) by (simp add: add.assoc)
    qed
    then show ?thesis
      using rs R(3) by (intro exI [of _ "rec_of b # rs"]) simp
  qed
qed

lemma apply_rec_simps [simp]:
  "f_name (apply_rec f r) = f_name f" "f_p (apply_rec f r) = f_p f" "f_n (apply_rec f r) = f_n f"
  "f_journal (apply_rec f r) = f_journal f" "f_part (apply_rec f r) = f_part f"
  "f_pending (apply_rec f r) = f_pending f" "f_order (apply_rec f r) = f_order f @ [fst r]"
  "f_resumed (apply_rec f r) = f_resumed f" "f_closed (apply_rec f r) = f_closed f"
  "length (f_have (apply_rec f r)) = length (f_have f)"
  "length (f_hashes (apply_rec f r)) = length (f_hashes f)"
  by (simp_all add: apply_rec_def)

lemma apply_recs_simps [simp]:
  "f_name (foldl apply_rec f rs) = f_name f" "f_p (foldl apply_rec f rs) = f_p f"
  "f_n (foldl apply_rec f rs) = f_n f" "f_journal (foldl apply_rec f rs) = f_journal f"
  "f_part (foldl apply_rec f rs) = f_part f" "f_pending (foldl apply_rec f rs) = f_pending f"
  "f_order (foldl apply_rec f rs) = f_order f @ map fst rs"
  "f_resumed (foldl apply_rec f rs) = f_resumed f" "f_closed (foldl apply_rec f rs) = f_closed f"
  "length (f_have (foldl apply_rec f rs)) = length (f_have f)"
  "length (f_hashes (foldl apply_rec f rs)) = length (f_hashes f)"
  by (induction rs arbitrary: f) simp_all

lemma apply_recs_have:
  "i < length (f_have f) \<Longrightarrow> f_have (foldl apply_rec f rs) ! i \<longleftrightarrow> f_have f ! i \<or> i \<in> fst ` set rs"
proof (induction rs arbitrary: f)
  case (Cons r rs)
  show ?case
    using Cons.prems Cons.IH [of "apply_rec f r"] by (cases "fst r = i") (auto simp: apply_rec_def)
qed simp

lemma apply_recs_hash:
  assumes "\<forall>r \<in> set rs. snd r = H (fst r)" "i < length (f_hashes f)"
    and "i \<in> fst ` set rs \<or> f_hashes f ! i = H i"
  shows "f_hashes (foldl apply_rec f rs) ! i = H i"
  using assms
proof (induction rs arbitrary: f)
  case (Cons r rs)
  have "f_hashes (apply_rec f r) ! i = H i \<or> i \<in> fst ` set rs"
    using Cons.prems by (cases "fst r = i") (auto simp: apply_rec_def)
  then show ?case using Cons.prems Cons.IH [of "apply_rec f r"] by auto
qed auto

lemma load_spec:
  assumes "load f s = (r, g, s')"
  defines "c \<equiv> contents s (journal_name f)"
  shows "f_name g = f_name f" "f_p g = f_p f" "f_n g = f_n f" "f_pending g = f_pending f"
    "r \<noteq> Inr () \<Longrightarrow> os_files s' = os_files s"
    "r = Inr () \<Longrightarrow> \<exists>rs off jd.
       os_files s (journal_name f) = Some jd \<and> take headerLen c = header f \<and> headerLen \<le> length c \<and>
       off = headerLen + recordLen * length rs \<and>
       g = (foldl apply_rec f rs)\<lparr>f_journalEnd := off\<rparr> \<and>
       (\<forall>k < length rs. valid_block (f_n f) (block k c) \<and> rs ! k = rec_of (block k c)) \<and>
       os_files s' = (os_files s)(journal_name f \<mapsto> jd\<lparr>fn_data := take off c\<rparr>) \<and>
       (os_faults s = [] \<longrightarrow> os_faults s' = [] \<and> \<not> valid_block (f_n f) (slice off recordLen c))"
proof -
  obtain h ok s1 where rd: "ReadAt s (journal_name f) 0 headerLen = ((h, ok), s1)" by (metis prod.exhaust)
  note R = ReadAt_contents [OF rd]
  have fr: "os_files s1 = os_files s" using ReadAt_frame [OF rd] by simp
  have c1: "contents s1 = contents s" using fr by (simp add: contents_def fun_eq_iff)
  have "f_name g = f_name f \<and> f_p g = f_p f \<and> f_n g = f_n f \<and> f_pending g = f_pending f \<and>
    (r \<noteq> Inr () \<longrightarrow> os_files s' = os_files s) \<and> (r = Inr () \<longrightarrow> (\<exists>rs off jd.
       os_files s (journal_name f) = Some jd \<and> take headerLen c = header f \<and> headerLen \<le> length c \<and>
       off = headerLen + recordLen * length rs \<and>
       g = (foldl apply_rec f rs)\<lparr>f_journalEnd := off\<rparr> \<and>
       (\<forall>k < length rs. valid_block (f_n f) (block k c) \<and> rs ! k = rec_of (block k c)) \<and>
       os_files s' = (os_files s)(journal_name f \<mapsto> jd\<lparr>fn_data := take off c\<rparr>) \<and>
       (os_faults s = [] \<longrightarrow> os_faults s' = [] \<and> \<not> valid_block (f_n f) (slice off recordLen c))))"
  proof (cases "ok \<and> h = header f")
    case False
    then have "load f s = (Inl ErrForeign, f, s1)" using rd by (auto simp: load_def)
    then show ?thesis using assms(1) fr by simp
  next
    case True
    obtain off f1 s2 where l: "load_loop s1 headerLen f = (off, f1, s2)" by (metis prod.exhaust)
    from load_loop_spec [OF l] obtain rs where rs: "off = headerLen + recordLen * length rs"
      "f1 = foldl apply_rec f rs" "os_files s2 = os_files s"
      "\<forall>k < length rs. valid_block (f_n f) (block k c) \<and> rs ! k = rec_of (block k c)"
      "os_faults s1 = [] \<longrightarrow> os_faults s2 = [] \<and> \<not> valid_block (f_n f) (slice off recordLen c)"
      unfolding c1 fr c_def [symmetric] by blast
    have jn: "journal_name f1 = journal_name f" by (simp add: rs(2) osName_def)
    obtain rt s3 where t: "Truncate s2 (journal_name f) off = (rt, s3)" by (metis prod.exhaust)
    have hc: "take headerLen c = header f" "headerLen \<le> length c"
      using R(2) True by (auto simp: c_def)
    then have "contents s (journal_name f) \<noteq> []" by (auto simp: c_def headerLen_def)
    then obtain jd where jd: "os_files s (journal_name f) = Some jd" "c = fn_data jd"
      by (auto simp: contents_def c_def split: option.splits)
    have off: "off \<le> length c"
    proof (cases "length rs")
      case 0
      then show ?thesis using rs(1) hc(2) by simp
    next
      case (Suc k)
      then have "length (block k c) = recordLen" using rs(4) by (auto simp: valid_block_def)
      then show ?thesis using Suc rs(1) by (auto simp: min_def recordLen_def split: if_splits)
    qed
    have tr: "(rt \<noteq> Inr () \<longrightarrow> os_files s3 = os_files s) \<and> (rt = Inr () \<longrightarrow>
        os_files s3 = (os_files s)(journal_name f \<mapsto> jd\<lparr>fn_data := take off c\<rparr>)) \<and>
        (os_faults s2 = [] \<longrightarrow> os_faults s3 = [])"
      using t jd off rs(3)
      by (auto simp: Truncate_def pop_def fun_upd_def split: list.splits fault.splits option.splits prod.splits)
    have ld: "load f s = (case rt of Inl e \<Rightarrow> (Inl (ErrOS e), f1, s3) | Inr _ \<Rightarrow> (Inr (), f1\<lparr>f_journalEnd := off\<rparr>, s3))"
      using True by (simp add: load_def rd l jn t)
    show ?thesis
    proof (cases rt)
      case (Inl e)
      then show ?thesis using assms(1) ld tr rs(2) by auto
    next
      case (Inr u)
      then have "r = Inr ()" "g = f1\<lparr>f_journalEnd := off\<rparr>" "s' = s3" using assms(1) ld by simp_all
      moreover have "os_faults s = [] \<longrightarrow> os_faults s1 = []" using R(3) by simp
      ultimately show ?thesis using tr Inr rs hc jd by (auto intro!: exI [of _ rs])
    qed
  qed
  then show "f_name g = f_name f" "f_p g = f_p f" "f_n g = f_n f" "f_pending g = f_pending f"
    "r \<noteq> Inr () \<Longrightarrow> os_files s' = os_files s"
    "r = Inr () \<Longrightarrow> \<exists>rs off jd.
       os_files s (journal_name f) = Some jd \<and> take headerLen c = header f \<and> headerLen \<le> length c \<and>
       off = headerLen + recordLen * length rs \<and>
       g = (foldl apply_rec f rs)\<lparr>f_journalEnd := off\<rparr> \<and>
       (\<forall>k < length rs. valid_block (f_n f) (block k c) \<and> rs ! k = rec_of (block k c)) \<and>
       os_files s' = (os_files s)(journal_name f \<mapsto> jd\<lparr>fn_data := take off c\<rparr>) \<and>
       (os_faults s = [] \<longrightarrow> os_faults s' = [] \<and> \<not> valid_block (f_n f) (slice off recordLen c))" by blast+
qed

end
