(* ===== verification/StoreCrash.thy ===== *)
theory StoreCrash
  imports StoreLoad
begin

text \<open>
  Opening a file again, also after a power loss. A power loss keeps of a file's contents what
  was synced and not written over since; of the journal, any part, but a block that still reads
  as a record is one that was written (its CRC stands for that).
\<close>

section \<open>Power loss\<close>

text \<open>What a power loss may leave of a file: every byte synced and unchanged since is there.\<close>

definition survives :: "fnode \<Rightarrow> bytes \<Rightarrow> bool" where
  "survives nd c \<longleftrightarrow>
     (\<forall>i < length (fn_sync nd). i < length (fn_data nd) \<longrightarrow> fn_sync nd ! i = fn_data nd ! i \<longrightarrow>
        i < length c \<and> c ! i = fn_data nd ! i)"

text \<open>What it may leave of a journal: no block reads as a record that was not written there.\<close>

definition untorn :: "nat \<Rightarrow> bytes \<Rightarrow> bytes \<Rightarrow> bool" where
  "untorn n j c \<longleftrightarrow> (\<forall>k. valid_block n (block k c) \<longrightarrow> block k c = block k j)"

definition crashed :: "sfile \<Rightarrow> os \<Rightarrow> os \<Rightarrow> bool" where
  "crashed f s s' \<longleftrightarrow>
     (\<forall>nd. os_files s' (part_name f) = Some nd \<longrightarrow> fn_sync nd = fn_data nd \<and>
        (\<exists>pd. os_files s (part_name f) = Some pd \<and> survives pd (fn_data nd))) \<and>
     (\<forall>nj. os_files s' (journal_name f) = Some nj \<longrightarrow>
        (\<exists>jd. os_files s (journal_name f) = Some jd \<and> untorn (f_n f) (fn_data jd) (fn_data nj)))"

lemma durable_survives:
  assumes "durable f pd i" "survives pd c" "0 < chunkLen f i"
  shows "chunk_off f i + chunkLen f i \<le> length c"
    "slice (chunk_off f i) (chunkLen f i) c = slice (chunk_off f i) (chunkLen f i) (fn_data pd)"
proof -
  let ?o = "chunk_off f i" and ?n = "chunkLen f i"
  have d: "?o + ?n \<le> length (fn_sync pd)" "?o + ?n \<le> length (fn_data pd)"
    "slice ?o ?n (fn_sync pd) = slice ?o ?n (fn_data pd)"
    using assms(1) by (simp_all add: durable_def)
  have at: "?o + j < length c \<and> c ! (?o + j) = fn_data pd ! (?o + j)" if "j < ?n" for j
  proof -
    have "slice ?o ?n (fn_sync pd) ! j = slice ?o ?n (fn_data pd) ! j" using d(3) by simp
    then have "fn_sync pd ! (?o + j) = fn_data pd ! (?o + j)" using d that by (simp add: slice_def)
    then show ?thesis using assms(2) d that by (simp add: survives_def)
  qed
  from at [of "?n - 1"] assms(3) show l: "?o + ?n \<le> length c" by linarith
  show "slice ?o ?n c = slice ?o ?n (fn_data pd)"
    by (rule nth_equalityI) (use l d at in \<open>auto simp: slice_def\<close>)
qed

lemma rec_good_survives:
  assumes "rec_good f pd r" "survives pd c" "shape_ok f" "data_ok sha f pd"
  shows "on_disk sha f c (fst r) (snd r)"
proof -
  have k: "fst r < f_n f" "f_have f ! fst r" "f_hashes f ! fst r = snd r"
    using assms(1) by (simp_all add: rec_good_def known_def)
  then have "on_disk sha f (fn_data pd) (fst r) (snd r)" using assms(4) by (auto simp: data_ok_def)
  moreover have "0 < chunkLen f (fst r)" using assms(3) k by (simp add: shape_ok_def)
  ultimately show ?thesis
    using durable_survives [of f pd "fst r" c] assms(1,2) by (simp add: on_disk_def rec_good_def)
qed

text \<open>A record that the journal shows is one the invariant vouches for.\<close>

lemma journal_block_good:
  assumes ok: "journal_ok f pend s pd" and sh: "shape_ok f" and pend: "\<forall>r \<in> set pend. known f r"
    and jd: "os_files s (journal_name f) = Some jd"
    and b: "length (block k (fn_data jd)) = recordLen"
  shows "\<exists>r. rec_good f pd r \<and> block k (fn_data jd) = rec_bytes r"
proof (cases "f_journal f")
  case False
  then have "prefix (fn_data jd) (header f)" using ok jd by (simp add: journal_ok_def)
  then have "length (fn_data jd) \<le> headerLen"
    using sh prefix_length_le [of "fn_data jd" "header f"] by (simp add: shape_ok_def)
  then show ?thesis using b by (simp add: recordLen_def)
next
  case True
  obtain recs junk where js: "journal_shape f pd pend (fn_data jd) recs junk"
    using journal_ok_write [OF ok True jd] .
  have l: "\<forall>r \<in> set recs. length (snd r) = 32" "\<forall>r \<in> set pend. length (snd r) = 32"
    using js pend by (auto simp: journal_shape_def rec_good_def dest: known_hash)
  have lh: "length (header f) = headerLen" using sh by (simp add: shape_ok_def)
  have lr: "length (recs_bytes recs) = recordLen * length recs" using l(1) by (rule length_recs_bytes)
  have d: "fn_data jd = header f @ recs_bytes recs @ junk" using js by (simp add: journal_shape_def)
  then have blk: "block k (fn_data jd) = slice (recordLen * k) recordLen (recs_bytes recs @ junk)"
    using lh by (simp add: slice_def)
  show ?thesis
  proof (cases "k < length recs")
    case True
    then have "recordLen * k + recordLen \<le> recordLen * length recs"
      using mult_le_mono2 [of "Suc k" "length recs" recordLen] by simp
    then have "block k (fn_data jd) = slice (recordLen * k) recordLen (recs_bytes recs)"
      unfolding blk by (intro slice_append1) (simp add: lr)
    then have "block k (fn_data jd) = rec_bytes (recs ! k)" using slice_recs [OF l(1) True] by simp
    moreover have "rec_good f pd (recs ! k)" using js True by (simp add: journal_shape_def)
    ultimately show ?thesis by blast
  next
    case False
    let ?j = "k - length recs"
    have kj: "recordLen * k = length (recs_bytes recs) + recordLen * ?j"
      using False by (simp add: lr diff_mult_distrib2)
    then have bj: "block k (fn_data jd) = slice (recordLen * ?j) recordLen junk"
      unfolding blk by (simp add: slice_def)
    then have lj: "recordLen * ?j + recordLen \<le> length junk"
      using b by (auto simp: min_def recordLen_def split: if_splits)
    obtain z where z: "recs_bytes pend = junk @ z" using js by (auto simp: journal_shape_def prefix_def)
    have "?j < length pend"
    proof -
      have "length junk \<le> recordLen * length pend" using length_recs_bytes [OF l(2)] z by simp
      then have "recordLen * ?j < recordLen * length pend" using lj by (simp add: recordLen_def)
      then show ?thesis by simp
    qed
    moreover have "slice (recordLen * ?j) recordLen junk = slice (recordLen * ?j) recordLen (recs_bytes pend)"
      unfolding z using slice_append1 [OF lj] by simp
    ultimately have "block k (fn_data jd) = rec_bytes (pend ! ?j)"
      using bj slice_recs [OF l(2)] by simp
    moreover have "?j < length junk div recordLen" using lj by (simp add: recordLen_def)
    then have "rec_good f pd (pend ! ?j)"
      using js \<open>?j < length pend\<close> nth_mem [of ?j "take (length junk div recordLen) pend"]
      by (simp add: journal_shape_def)
    ultimately show ?thesis by blast
  qed
qed

lemma block_rec_good:
  assumes "InvP sha pend f s" "os_files s (part_name f) = Some pd" "os_files s (journal_name f) = Some jd"
    and v: "valid_block (f_n f) (block k (fn_data jd))"
  shows "rec_good f pd (rec_of (block k (fn_data jd)))"
proof -
  note D = InvP_D [OF assms(1,2)]
  have "length (block k (fn_data jd)) = recordLen" using v by (simp add: valid_block_def)
  from journal_block_good [OF D(4,1,2) assms(3) this] obtain r
    where r: "rec_good f pd r" "block k (fn_data jd) = rec_bytes r" by blast
  then have "length (snd r) = 32" "fst r < 2 ^ 32" using D(1) by (auto simp: rec_good_def known_def shape_ok_def)
  then show ?thesis using r rec_of_rec_bytes(1) by simp
qed

section \<open>\<^verbatim>\<open>verify\<close>\<close>

lemma verify_chunks_spec:
  "verify_chunks sha is f s = (g, s') \<Longrightarrow>
     g = f\<lparr>f_have := f_have g\<rparr> \<and> length (f_have g) = length (f_have f) \<and>
     (\<forall>i < length (f_have f). f_have g ! i \<longrightarrow> f_have f ! i) \<and>
     os_files s' = os_files s \<and> os_dirs s' = os_dirs s"
proof (induction "is" arbitrary: f s)
  case (Cons i "is")
  obtain b ok s1 where rd: "ReadAt s (part_name f) (chunk_off f i) (chunkLen f i) = ((b, ok), s1)"
    by (metis prod.exhaust)
  let ?f = "f\<lparr>f_have := (f_have f)[i := False]\<rparr>"
  note fr = ReadAt_frame [OF rd]
  show ?case
  proof (cases "\<not> ok \<or> sha b \<noteq> f_hashes f ! i")
    case True
    then have "verify_chunks sha is ?f s1 = (g, s')" using Cons.prems rd by simp
    note IH = Cons.IH [OF this]
    have "f_have f ! j" if "j < length (f_have f)" "f_have g ! j" for j
      using IH that by (cases "j = i") auto
    then show ?thesis using IH fr by simp
  next
    case False
    then have "verify_chunks sha is f s1 = (g, s')" using Cons.prems rd by simp
    from Cons.IH [OF this] show ?thesis using fr by simp
  qed
qed simp

text \<open>Without faults, a chunk that is on the disk keeps its place.\<close>

lemma verify_chunks_keeps:
  assumes "verify_chunks sha is f s = (g, s')" "os_faults s = []" "os_files s (part_name f) = Some nd"
    and "\<forall>i \<in> set is. on_disk sha f (fn_data nd) i (f_hashes f ! i)"
  shows "g = f \<and> os_faults s' = []"
  using assms
proof (induction "is" arbitrary: s)
  case (Cons i "is")
  obtain b ok s1 where rd: "ReadAt s (part_name f) (chunk_off f i) (chunkLen f i) = ((b, ok), s1)"
    by (metis prod.exhaust)
  have "b = slice (chunk_off f i) (chunkLen f i) (fn_data nd)" "os_faults s1 = []" "ok \<longleftrightarrow> length b = chunkLen f i"
    using ReadAt_contents(3,4) [OF rd] Cons.prems by (simp_all add: contents_def)
  moreover have "on_disk sha f (fn_data nd) i (f_hashes f ! i)" using Cons.prems(4) by simp
  ultimately have "ok" "sha b = f_hashes f ! i" "os_faults s1 = []" by (auto simp: on_disk_def)
  moreover have "os_files s1 = os_files s" using ReadAt_frame [OF rd] by simp
  ultimately show ?case using Cons.prems rd Cons.IH [of s1] by simp
qed simp

lemma check_list_subset: "set (check_list full is check) \<subseteq> set is \<union> set check"
proof (induction full "is" check rule: check_list.induct)
  case (2 full i "is" check)
  then show ?case by (auto split: if_splits)
qed simp

section \<open>A new file\<close>

text \<open>A file of which nothing is received yet.\<close>

definition fresh :: "sfile \<Rightarrow> bool" where
  "fresh f \<longleftrightarrow> shape_ok f \<and> f_have f = replicate (f_n f) False \<and> f_pending f = [] \<and> f_order f = [] \<and> \<not> f_journal f"

definition params_ok :: "params \<Rightarrow> bool" where
  "params_ok p \<longleftrightarrow> p_ChunkSize p \<noteq> 0 \<and> length (p_Key p) = 32 \<and> 0 \<le> p_Size p \<and> p_Size p < 2 ^ 62"

lemma param_chunks_bound:
  assumes p: "params_ok p" and i: "i < unat (param_chunks p)"
  shows "int i * uint (p_ChunkSize p) < p_Size p"
proof -
  let ?c = "uint (p_ChunkSize p)" and ?s = "p_Size p"
  have "0 < p_ChunkSize p" using p by (simp add: params_ok_def word_neq_0_conv)
  then have c: "0 < ?c" "?c < 2 ^ 32"
    using unsigned_less [of "p_ChunkSize p"] by (simp_all add: word_less_alt)
  have s: "0 < ?s" "?s < 2 ^ 62" using p i by (auto simp: params_ok_def param_chunks_def split: if_splits)
  let ?q = "(?s + ?c - 1) div ?c"
  have "wrap64 (wrap64 (?s + ?c) - 1) = ?s + ?c - 1" using c s by (simp add: in_int64_def)
  then have pc: "param_chunks p = word_of_int ?q" using s c by (simp add: param_chunks_def sdiv_nonneg)
  have q: "0 \<le> ?q" using s c by (simp add: pos_imp_zdiv_nonneg_iff)
  have "int (unat (param_chunks p)) = ?q mod 2 ^ 32"
    by (simp add: pc uint_word_of_int flip: uint_nat)
  also have "\<dots> \<le> ?q" using q by (simp add: zmod_le_nonneg_dividend)
  finally have "int i + 1 \<le> ?q" using i by linarith
  then have "(int i + 1) * ?c \<le> ?q * ?c" using c by (intro mult_right_mono) auto
  also have "\<dots> \<le> ?s + ?c - 1" using c div_mult_mod_eq [of "?s + ?c - 1" ?c] pos_mod_sign [of ?c "?s + ?c - 1"] by linarith
  finally show ?thesis by (simp add: algebra_simps)
qed

lemma new_file_simps [simp]:
  "f_name (new_file name p now) = name" "f_p (new_file name p now) = p"
  "f_n (new_file name p now) = unat (param_chunks p)" "f_journal (new_file name p now) = False"
  "f_pending (new_file name p now) = []"
  "f_have (new_file name p now) = replicate (unat (param_chunks p)) False"
  "length (f_hashes (new_file name p now)) = unat (param_chunks p)" "f_order (new_file name p now) = []"
  by (simp_all add: new_file_def reset_chunks_def)

lemma fresh_new_file:
  assumes p: "params_ok p"
  shows "fresh (new_file name p now)"
proof -
  have c: "0 < unat (p_ChunkSize p)" using p by (simp add: params_ok_def unat_gt_0)
  have "0 < chunkLen (new_file name p now) i" if i: "i < unat (param_chunks p)" for i
  proof -
    have "int (i * unat (p_ChunkSize p)) < p_Size p" using param_chunks_bound [OF p i] by simp
    then show ?thesis using c unfolding chunkLen_def new_file_simps by linarith
  qed
  moreover have "unat (param_chunks p) < 2 ^ 32" by simp
  ultimately show ?thesis
    using p c unfolding fresh_def shape_ok_def new_file_simps length_replicate params_ok_def by blast
qed

lemma ancestors_suffix:
  assumes "CHR ''/'' \<notin> set suf"
  shows "ancestors (name @ suf) = ancestors name"
proof -
  have suf: "(name @ suf) ! j \<noteq> CHR ''/''" if "length name \<le> j" "j < length (name @ suf)" for j
  proof -
    have "suf ! (j - length name) \<in> set suf" using that by (intro nth_mem) simp
    then have "suf ! (j - length name) \<noteq> CHR ''/''" using assms by metis
    then show ?thesis using that(1) by (simp add: nth_append)
  qed
  have split: "[1..<length (name @ suf)] = [1..<length name] @ [max 1 (length name)..<length (name @ suf)]"
    using upt_add_eq_append [of 1 "length name" "length suf"]
    by (cases "1 \<le> length name") (simp_all add: max_def not_le)
  have "filter (\<lambda>j. (name @ suf) ! j = CHR ''/'') [max 1 (length name)..<length (name @ suf)] = []"
    using suf unfolding filter_empty_conv by simp
  then have "filter (\<lambda>j. (name @ suf) ! j = CHR ''/'') [1..<length (name @ suf)]
      = filter (\<lambda>j. (name @ suf) ! j = CHR ''/'') [1..<length name]"
    unfolding split filter_append by simp
  also have "\<dots> = filter (\<lambda>j. name ! j = CHR ''/'') [1..<length name]"
    by (rule filter_cong) (simp_all add: nth_append)
  finally show ?thesis
    unfolding ancestors_def by (intro map_cong) simp_all
qed

lemma ancestors_osName:
  "ancestors (part_name f) = ancestors (f_name f)" "ancestors (journal_name f) = ancestors (f_name f)"
  by (simp_all add: osName_def PartSuffix_def JournalSuffix_def ancestors_suffix)

text \<open>A call that says \<open>NotExist\<close> for the journal while its folder is there: no journal is there.\<close>

lemma OpenFile_NotExist:
  assumes "OpenFile s n False = (Inl NotExist, s')" "anc_error s n = None"
  shows "os_files s' n = None"
  using assms anc_error_pop [of s] by (auto simp: OpenFile_def split: prod.splits option.splits if_splits)

lemma Remove_NotExist:
  assumes "Remove s n = (r, s')" "r = Inr () \<or> r = Inl NotExist" "anc_error s n = None"
  shows "os_files s' n = None"
  using assms anc_error_pop [of s] by (auto simp: Remove_def split: prod.splits option.splits if_splits)

lemma anc_error_cong:
  assumes "os_dirs s' = os_dirs s" "anc_error s n = None"
  shows "anc_error s' n = None"
  using assms by (auto simp: anc_error_def split: list.splits)

lemma anc_error_names: "anc_error s (part_name f) = None \<longleftrightarrow> anc_error s (journal_name f) = None"
  unfolding anc_error_def ancestors_osName by (simp split: list.split)

lemma ensureJournal_new:
  assumes "ensureJournal f s = (Inr (), g, s')" "\<not> f_journal f"
  shows "os_files s (journal_name f) = None" "os_dirs s' = os_dirs s"
    "os_files s' = (os_files s)(journal_name f \<mapsto> \<lparr>fn_data = header f, fn_sync = []\<rparr>)"
    "g = f\<lparr>f_journal := True, f_journalEnd := headerLen\<rparr>"
proof -
  obtain ro s1 where o: "OpenFile s (journal_name f) True = (ro, s1)" by (metis prod.exhaust)
  obtain rw s2 where w: "WriteAt s1 (journal_name f) 0 (header f) = (rw, s2)" by (metis prod.exhaust)
  from assms o w have ro: "ro = Inr ()" and rw: "rw = Inr ()"
    and g: "g = f\<lparr>f_journal := True, f_journalEnd := headerLen\<rparr>" "s' = s2"
    by (auto simp: ensureJournal_def split: sum.splits)
  note O = OpenFile_create(2) [OF o ro]
  have wa: "write_at [] 0 h = h" for h by (simp add: write_at_def)
  have j1: "os_files s1 (journal_name f) = Some \<lparr>fn_data = [], fn_sync = []\<rparr>" using O by simp
  show "os_files s (journal_name f) = None" using O by simp
  show "os_dirs s' = os_dirs s" using WriteAt_files(1) [OF w j1] OpenFile_create(1) [OF o] g by simp
  show "os_files s' = (os_files s)(journal_name f \<mapsto> \<lparr>fn_data = header f, fn_sync = []\<rparr>)"
    using WriteAt_files(2) [OF w j1] O g(2) rw by (auto simp: wa)
  show "g = f\<lparr>f_journal := True, f_journalEnd := headerLen\<rparr>" by (fact g)
qed

lemma open_create_InvP:
  assumes f: "fresh f" and r: "open_create f s = (Inr g, s')"
    and j: "anc_error s (part_name f) = None \<Longrightarrow> os_files s (journal_name f) = None"
  shows "InvP sha [] g s' \<and> f_pending g = [] \<and> f_p g = f_p f \<and> f_name g = f_name f \<and> (\<forall>i. \<not> Has g i)"
proof -
  obtain re f1 s1 where e: "(if \<not> p_Owned (f_p f) then ensureJournal f s else (Inr (), f, s)) = (re, f1, s1)"
    by (metis prod.exhaust)
  obtain ro s2 where o: "OpenFile s1 (part_name f1) True = (ro, s2)" by (metis prod.exhaust)
  from r e o have re: "re = Inr ()" and ro: "ro = Inr ()" and g: "g = f1\<lparr>f_part := True\<rparr>" "s' = s2"
    by (auto simp: open_create_def split: sum.splits)
  note O = OpenFile_create(2) [OF o ro]
  let ?nd = "\<lparr>fn_data = [], fn_sync = []\<rparr>"
  have nj: "\<not> f_journal f" and sh: "shape_ok f" and hv: "f_have f = replicate (f_n f) False" "f_pending f = []"
    using f by (simp_all add: fresh_def)
  have "same_file f g \<and> os_files s' (part_name f) = Some ?nd \<and> journal_ok g [] s' ?nd \<and>
      f_pending g = [] \<and> f_p g = f_p f"
  proof (cases "p_Owned (f_p f)")
    case True
    then have f1: "f1 = f" "s1 = s" using e by simp_all
    have "anc_error s (part_name f) = None"
      using o ro anc_error_pop [of s] unfolding f1
      by (auto simp: OpenFile_def split: prod.splits option.splits if_splits)
    from j [OF this] have "os_files s' (journal_name f) = None" using O f1 g by simp
    then have "journal_ok g [] s' ?nd" using nj by (simp add: journal_ok_def g f1 osName_def)
    then show ?thesis using O f1 g hv by (simp add: same_file_def)
  next
    case False
    with e re have "ensureJournal f s = (Inr (), f1, s1)" by simp
    note E = ensureJournal_new [OF this nj]
    have sf: "same_file f g" by (simp add: g E(4) same_file_def)
    note gs = same_file_simps [OF sf]
    have p1: "part_name f1 = part_name f" by (simp add: E(4) osName_def)
    have je: "f_journalEnd g = headerLen" "f_journal g" by (simp_all add: g E(4))
    have "journal_shape g ?nd [] (header f) [] []" by (simp add: journal_shape_def gs(1) je)
    then have "\<exists>recs junk. journal_shape g ?nd [] (header f) recs junk" by blast
    moreover have jn: "os_files s' (journal_name g) = Some \<lparr>fn_data = header f, fn_sync = []\<rparr>"
      using O E(3) g(2) p1 by (simp add: gs(2))
    ultimately have "journal_ok g [] s' ?nd" using journal_okI [OF je(2) jn] by (simp only: fnode.simps)
    then show ?thesis using sf O p1 g hv E(4) by simp
  qed
  then have sf: "same_file f g" and pd: "os_files s' (part_name f) = Some ?nd"
    and jo: "journal_ok g [] s' ?nd" and gp: "f_pending g = []" "f_p g = f_p f" by blast+
  note gs = same_file_simps [OF sf]
  have hg: "f_have g = replicate (f_n g) False" "f_name g = f_name f"
    using sf hv by (simp_all add: same_file_def)
  have "shape_ok g" using sh by (simp add: gs(9))
  moreover have "data_ok sha g ?nd" by (simp add: data_ok_def hg(1))
  moreover have "os_files s' (part_name g) = Some ?nd" using pd by (simp add: gs(2))
  ultimately have "InvP sha [] g s'" using jo by (intro InvP_I [of g "[]" s' ?nd]) simp_all
  then show ?thesis using gp hg by (simp add: Has_def)
qed

lemma map_sum_unit [simp]: "map_sum h id r = Inr () \<longleftrightarrow> r = Inr ()"
  by (cases r) simp_all

lemma removeStale_files:
  assumes "removeStale f s = (Inr (), s')"
  shows "anc_error s' (journal_name f) = None \<Longrightarrow> os_files s' (journal_name f) = None"
    "os_dirs s' = os_dirs s"
proof -
  obtain r1 s1 where 1: "Remove s (part_name f) = (r1, s1)" by (metis prod.exhaust)
  obtain r2 s2 where 2: "Remove s1 (journal_name f) = (r2, s2)" by (metis prod.exhaust)
  have s': "s' = s2" "r2 = Inr () \<or> r2 = Inl NotExist"
    using assms 1 2 by (auto simp: removeStale_def split: if_splits)
  note d = Remove_files(1) [OF 2]
  show "anc_error s' (journal_name f) = None \<Longrightarrow> os_files s' (journal_name f) = None"
    using Remove_NotExist [OF 2 s'(2)] anc_error_cong [of s1 s2 "journal_name f"] d s'(1) by simp
  show "os_dirs s' = os_dirs s" using d Remove_files(1) [OF 1] s' by simp
qed

lemma open_new_InvP:
  assumes f: "fresh f" and r: "open_new f s = (Inr g, s')"
    and j: "anc_error s (part_name f) = None \<Longrightarrow> os_files s (journal_name f) = None"
  shows "InvP sha [] g s' \<and> f_pending g = [] \<and> f_p g = f_p f \<and> f_name g = f_name f \<and> (\<forall>i. \<not> Has g i)"
proof -
  obtain l s1 where l: "Lstat s (part_name f) = (l, s1)" by (metis prod.exhaust)
  have fr: "os_files s1 = os_files s" "os_dirs s1 = os_dirs s" using Lstat_frame [OF l] by simp_all
  show ?thesis
  proof (cases l)
    case (Inl e)
    then have c: "open_create f s1 = (Inr g, s')" using r l by (simp add: open_new_def)
    show ?thesis
    proof (rule open_create_InvP [OF f c])
      assume "anc_error s1 (part_name f) = None"
      then have "anc_error s (part_name f) = None" by (rule anc_error_cong [OF fr(2) [symmetric]])
      from j [OF this] show "os_files s1 (journal_name f) = None" by (simp add: fr)
    qed
  next
    case (Inr d)
    then obtain s2 where rs: "removeStale f s1 = (Inr (), s2)" and c: "open_create f s2 = (Inr g, s')"
      using r l by (auto simp: open_new_def split: if_splits prod.splits sum.splits)
    show ?thesis
    proof (rule open_create_InvP [OF f c])
      assume "anc_error s2 (part_name f) = None"
      then show "os_files s2 (journal_name f) = None"
        using removeStale_files(1) [OF rs] by (simp add: anc_error_names)
    qed
  qed
qed

end
