(* ===== verification/StoreReopen.thy ===== *)
theory StoreReopen
  imports StoreCrash
begin

text \<open>
  Opening a file again, after a stop or a power loss: what it then says it has is on the disk,
  with the hash the sender gave, and the invariant holds again.
\<close>

section \<open>The same file in two sessions\<close>

definition alike :: "sfile \<Rightarrow> sfile \<Rightarrow> bool" where
  "alike f g \<longleftrightarrow> f_name g = f_name f \<and> f_n g = f_n f \<and>
     p_Key (f_p g) = p_Key (f_p f) \<and> p_Size (f_p g) = p_Size (f_p f) \<and> p_ChunkSize (f_p g) = p_ChunkSize (f_p f)"

lemma alike_simps:
  assumes "alike f g"
  shows "header g = header f" "osName g = osName f" "chunkLen g = chunkLen f" "csize g = csize f"
    "durable g = durable f" "on_disk sha g = on_disk sha f"
proof -
  note s = assms [unfolded alike_def]
  show "header g = header f" using s by (simp add: header_def header_body_def)
  show "osName g = osName f" using s by (intro ext) (simp add: osName_def)
  show 3: "chunkLen g = chunkLen f" using s by (intro ext) (simp add: chunkLen_def)
  show "csize g = csize f" using s by simp
  show "durable g = durable f" using s by (intro ext) (simp add: durable_def 3)
  show "on_disk sha g = on_disk sha f" using s by (intro ext) (simp add: on_disk_def 3)
qed

section \<open>Reading the journal back\<close>

text \<open>Every record read back after a power loss is one the invariant vouches for.\<close>

lemma loaded_good:
  assumes inv: "InvP sha pend f s" and pd: "os_files s (part_name f) = Some pd"
    and cr: "crashed f s s'" and nj: "os_files s' (journal_name f) = Some nj"
    and rs: "\<forall>k < length rs. valid_block (f_n f) (block k (fn_data nj)) \<and> rs ! k = rec_of (block k (fn_data nj))"
  shows "\<forall>r \<in> set rs. rec_good f pd r"
proof
  fix r assume "r \<in> set rs"
  then obtain k where k: "k < length rs" "r = rs ! k" by (auto simp: in_set_conv_nth)
  from cr nj obtain jd where jd: "os_files s (journal_name f) = Some jd" "untorn (f_n f) (fn_data jd) (fn_data nj)"
    by (auto simp: crashed_def)
  have v: "valid_block (f_n f) (block k (fn_data nj))" "r = rec_of (block k (fn_data nj))" using rs k by auto
  then have "block k (fn_data nj) = block k (fn_data jd)" using jd(2) by (simp add: untorn_def)
  then show "rec_good f pd r" using block_rec_good [OF inv pd jd(1), of k] v by simp
qed

lemma take_blocks:
  assumes "length c \<ge> headerLen"
    and "\<forall>k < length rs. valid_block n (block k c) \<and> rs ! k = rec_of (block k c)"
    and "m \<le> length rs"
  shows "take (headerLen + recordLen * m) c = take headerLen c @ recs_bytes (take m rs)"
  using assms(3)
proof (induction m)
  case (Suc m)
  have "take (headerLen + recordLen * Suc m) c = take (headerLen + recordLen * m) c @ block m c"
    using take_add [of "headerLen + recordLen * m" recordLen c] by (simp add: slice_def algebra_simps)
  also have "block m c = rec_bytes (rs ! m)"
    using rec_bytes_rec_of(1) [of n "block m c"] assms(2) Suc.prems by simp
  finally show ?case using Suc by (simp add: take_Suc_conv_app_nth)
qed simp

text \<open>The file as \<open>load\<close> and \<open>verify\<close> leave it.\<close>

lemma resumed_file:
  assumes inv: "InvP sha pend f s" and pd: "os_files s (part_name f) = Some pd"
    and f0: "fresh f0" and al: "alike f f0"
    and sv: "survives pd c"
    and rs: "\<forall>r \<in> set rs. rec_good f pd r"
    and g: "g = (foldl apply_rec f0 rs)\<lparr>f_journalEnd := e, f_part := True, f_journal := True\<rparr>"
  shows "alike f g" "length (f_have g) = f_n f"
    "\<And>i. i < f_n f \<Longrightarrow> f_have g ! i \<longleftrightarrow> i \<in> fst ` set rs"
    "\<And>i. i < f_n f \<Longrightarrow> f_have g ! i \<Longrightarrow> Has f i \<and> f_hashes g ! i = f_hashes f ! i \<and>
       on_disk sha g c i (f_hashes f ! i)"
    "\<And>r. r \<in> set rs \<Longrightarrow> known g r \<and> on_disk sha g c (fst r) (snd r)"
proof -
  note D = InvP_D [OF inv pd]
  have n: "f_n f0 = f_n f" using al by (simp add: alike_def)
  have len: "length (f_have f0) = f_n f" "length (f_hashes f0) = f_n f" "\<forall>i < f_n f. \<not> f_have f0 ! i"
    using f0 n by (auto simp: fresh_def shape_ok_def)
  show ag: "alike f g" using al by (simp add: alike_def g)
  show "length (f_have g) = f_n f" using len by (simp add: g)
  show hv: "\<And>i. i < f_n f \<Longrightarrow> f_have g ! i \<longleftrightarrow> i \<in> fst ` set rs"
    using len apply_recs_have [of _ f0 rs] by (simp add: g)
  have H: "\<forall>r \<in> set rs. snd r = f_hashes f ! fst r \<and> fst r < f_n f \<and> f_have f ! fst r \<and> length (snd r) = 32"
    using rs by (auto simp: rec_good_def known_def)
  have hash: "f_hashes g ! i = f_hashes f ! i" if "i \<in> fst ` set rs" for i
  proof -
    have "i < f_n f" using that H by auto
    then have "f_hashes (foldl apply_rec f0 rs) ! i = f_hashes f ! i"
      using apply_recs_hash [of rs "\<lambda>i. f_hashes f ! i" i f0] H that len by simp
    then show ?thesis by (simp add: g)
  qed
  have od: "on_disk sha g c (fst r) (snd r)" if "r \<in> set rs" for r
    using rec_good_survives [OF _ sv D(1,3)] rs that alike_simps(6) [OF ag] by simp
  show "Has f i \<and> f_hashes g ! i = f_hashes f ! i \<and> on_disk sha g c i (f_hashes f ! i)"
    if "i < f_n f" "f_have g ! i" for i
  proof -
    have "i \<in> fst ` set rs" using hv that by blast
    then obtain r where r: "r \<in> set rs" "fst r = i" by auto
    then show ?thesis using H hash [of i] od [OF r(1)] \<open>i \<in> fst ` set rs\<close> by (auto simp: Has_def)
  qed
  show "known g r \<and> on_disk sha g c (fst r) (snd r)" if "r \<in> set rs" for r
  proof -
    have r: "fst r \<in> fst ` set rs" "fst r < f_n f" using that H by auto
    have "f_n g = f_n f" using ag by (simp add: alike_def)
    then show ?thesis using r hv [OF r(2)] hash [OF r(1)] H that od [OF that] by (auto simp: known_def)
  qed
qed

lemma resumed_InvP:
  assumes inv: "InvP sha pend f s" and pd: "os_files s (part_name f) = Some pd"
    and f0: "fresh f0" and al: "alike f f0"
    and nd: "os_files s'' (part_name f) = Some nd" "survives pd (fn_data nd)" "fn_sync nd = fn_data nd"
    and rs: "\<forall>r \<in> set rs. rec_good f pd r"
    and g: "g = (foldl apply_rec f0 rs)\<lparr>f_journalEnd := headerLen + recordLen * length rs,
       f_part := True, f_journal := True\<rparr>"
    and jd: "os_files s'' (journal_name f) = Some jd" "fn_data jd = header f @ recs_bytes rs"
  shows "InvP sha [] g s''"
proof -
  note R = resumed_file [OF inv pd f0 al nd(2) rs g]
  note a = alike_simps [OF R(1)]
  have n: "f_n g = f_n f" using R(1) by (simp add: alike_def)
  have sh: "shape_ok g"
  proof -
    have "shape_ok f0" using f0 by (simp add: fresh_def)
    moreover have "f_p g = f_p f0" "f_n g = f_n f0" "length (f_have g) = length (f_have f0)"
      "length (f_hashes g) = length (f_hashes f0)" by (simp_all add: g)
    moreover have "chunkLen g = chunkLen f0" using a(3) alike_simps(3) [OF al] by simp
    ultimately show ?thesis by (simp add: shape_ok_def)
  qed
  have "data_ok sha g nd" using R(4) n by (auto simp: data_ok_def)
  moreover have "rec_good g nd r" if "r \<in> set rs" for r
    using R(5) [OF that] nd(3) by (simp add: rec_good_def durable_def on_disk_def)
  then have "journal_shape g nd [] (fn_data jd) rs []"
    using jd(2) a(1) by (simp add: journal_shape_def) (simp add: g)
  then have "\<exists>recs junk. journal_shape g nd [] (fn_data jd) recs junk" by blast
  moreover have "os_files s'' (journal_name g) = Some jd" "f_journal g" using jd(1) a(2) by (simp_all add: g)
  moreover have "os_files s'' (part_name g) = Some nd" using nd(1) a(2) by simp
  ultimately show ?thesis using sh by (intro InvP_I [of g "[]" s'' nd]) (auto intro: journal_okI)
qed

section \<open>\<^verbatim>\<open>Open\<close>\<close>

definition same_params :: "sfile \<Rightarrow> params \<Rightarrow> bool" where
  "same_params f p \<longleftrightarrow> p_Key p = p_Key (f_p f) \<and> p_Size p = p_Size (f_p f) \<and> p_ChunkSize p = p_ChunkSize (f_p f)"

lemma default_params_simps [simp]:
  "p_Key (default_params p) = p_Key p" "p_Size (default_params p) = p_Size p"
  "p_ChunkSize (default_params p) = p_ChunkSize p" "param_chunks (default_params p) = param_chunks p"
  "p_NoSync (default_params p) = p_NoSync p" "p_Owned (default_params p) = p_Owned p"
  "p_Overwrite (default_params p) = p_Overwrite p"
  "params_ok (default_params p) = params_ok p"
  by (simp_all add: default_params_def param_chunks_def params_ok_def)

lemma alike_new_file:
  assumes "shape_ok f" "same_params f p"
  shows "alike f (new_file (f_name f) (default_params p) now)"
  using assms by (simp add: alike_def same_params_def shape_ok_def param_chunks_def)

lemma OpenFile_faults:
  "OpenFile s n cr = (r, s') \<Longrightarrow> os_faults s = [] \<Longrightarrow> os_faults s' = []"
  by (auto simp: OpenFile_def pop_no_faults split: option.splits if_splits)

lemma MkdirAll_faults:
  "MkdirAll s n = (r, s') \<Longrightarrow> os_faults s = [] \<Longrightarrow> os_faults s' = []"
  by (auto simp: MkdirAll_def pop_no_faults Let_def split: option.splits if_splits)

lemma load_journal: "load f s = (r, g, s') \<Longrightarrow> f_journal g = f_journal f"
  by (auto simp: load_def split: prod.splits if_splits sum.splits dest!: load_loop_spec)

lemma fresh_reset:
  assumes f: "fresh f" and g: "f_name g = f_name f" "f_p g = f_p f" "f_n g = f_n f" "f_pending g = []" "\<not> f_journal g"
  shows "fresh (reset_chunks g)"
proof -
  have c: "chunkLen (reset_chunks g) = chunkLen f"
    using g by (intro ext) (simp add: chunkLen_def reset_chunks_def)
  show ?thesis
    using f g unfolding fresh_def shape_ok_def c by (simp add: reset_chunks_def)
qed

lemma reset_simps [simp]:
  "f_name (reset_chunks f) = f_name f" "f_p (reset_chunks f) = f_p f" "osName (reset_chunks f) = osName f"
  by (simp_all add: reset_chunks_def osName_def fun_eq_iff)

text \<open>What \<open>Open\<close> may give: a file of which nothing is received, or what the journal says.\<close>

lemma open_journal_cases:
  assumes f: "fresh f0" and r: "open_journal sha f0 s = (Inr g, s')"
  shows "(InvP sha [] g s' \<and> f_pending g = [] \<and> f_p g = f_p f0 \<and> f_name g = f_name f0 \<and> (\<forall>i. \<not> Has g i)) \<or>
    (\<exists>rs nj nd f2. os_files s (journal_name f0) = Some nj \<and> os_files s (part_name f0) = Some nd \<and>
       take headerLen (fn_data nj) = header f0 \<and> headerLen \<le> length (fn_data nj) \<and>
       (\<forall>k < length rs. valid_block (f_n f0) (block k (fn_data nj)) \<and> rs ! k = rec_of (block k (fn_data nj))) \<and>
       f2 = (foldl apply_rec f0 rs)\<lparr>f_journalEnd := headerLen + recordLen * length rs, f_part := True, f_journal := True\<rparr> \<and>
       f_p g = f_p f0 \<and> f_name g = f_name f0 \<and> f_n g = f_n f0 \<and> f_hashes g = f_hashes f2 \<and> f_pending g = [] \<and>
       (\<forall>i < length (f_have f2). f_have g ! i \<longrightarrow> f_have f2 ! i) \<and>
       os_files s' = (os_files s)(journal_name f0 \<mapsto>
          nj\<lparr>fn_data := take (headerLen + recordLen * length rs) (fn_data nj)\<rparr>) \<and>
       (os_faults s = [] \<longrightarrow> (\<forall>r \<in> set rs. on_disk sha f2 (fn_data nd) (fst r) (f_hashes f2 ! fst r)) \<longrightarrow>
          (\<exists>x. g = f2\<lparr>f_resumed := x\<rparr>)))"
proof -
  obtain rl f1 s1 where l: "load f0 s = (rl, f1, s1)" by (metis prod.exhaust)
  note L = load_spec [OF l]
  have sh0: "shape_ok f0" "\<not> f_journal f0" "f_pending f0 = []" using f by (simp_all add: fresh_def)
  show ?thesis
  proof (cases rl)
    case (Inl e)
    then obtain s2 s3 where rs: "removeStale f1 s2 = (Inr (), s3)" and o: "open_new (reset_chunks f1) s3 = (Inr g, s')"
      using r l by (auto simp: open_journal_def Let_def split: if_splits prod.splits sum.splits)
    have fr: "fresh (reset_chunks f1)"
      using fresh_reset [OF f] L(1-4) load_journal [OF l] sh0 by simp
    have "InvP sha [] g s' \<and> f_pending g = [] \<and> f_p g = f_p (reset_chunks f1) \<and>
        f_name g = f_name (reset_chunks f1) \<and> (\<forall>i. \<not> Has g i)"
      by (rule open_new_InvP [OF fr o]) (use removeStale_files(1) [OF rs] in \<open>simp add: anc_error_names\<close>)
    then show ?thesis using L by simp
  next
    case (Inr u)
    with L(6) obtain rs off nj where nj: "os_files s (journal_name f0) = Some nj"
      and hd: "take headerLen (fn_data nj) = header f0" "headerLen \<le> length (fn_data nj)"
      and off: "off = headerLen + recordLen * length rs"
      and f1: "f1 = (foldl apply_rec f0 rs)\<lparr>f_journalEnd := off\<rparr>"
      and blk: "\<forall>k < length rs. valid_block (f_n f0) (block k (fn_data nj)) \<and> rs ! k = rec_of (block k (fn_data nj))"
      and s1: "os_files s1 = (os_files s)(journal_name f0 \<mapsto> nj\<lparr>fn_data := take off (fn_data nj)\<rparr>)"
      and nf: "os_faults s = [] \<longrightarrow> os_faults s1 = []"
      by (auto simp: contents_def)
    have on: "osName f1 = osName f0" by (intro ext) (simp add: f1 osName_def)
    obtain ro s2 where o: "OpenFile s1 (part_name f1) False = (ro, s2)" by (metis prod.exhaust)
    note O = OpenFile_no_create [OF o]
    show ?thesis
    proof (cases ro)
      case (Inl e)
      then obtain s3 s4 where c: "CloseF s2 (journal_name f0) = (s3, s4)" by (cases "CloseF s2 (journal_name f0)")
      have en: "e = NotExist" and ex: "\<exists>s5. Remove s4 (journal_name f1) = (Inr (), s5) \<and> open_new (reset_chunks f1) s5 = (Inr g, s')"
        using r l \<open>rl = Inr u\<close> o Inl c
        by (auto simp: open_journal_def Let_def split: if_splits prod.splits sum.splits)
      then obtain s5 where rm: "Remove s4 (journal_name f1) = (Inr (), s5)"
        and on': "open_new (reset_chunks f1) s5 = (Inr g, s')" by blast
      have fr: "fresh (reset_chunks f1)"
        using fresh_reset [OF f] L(1-4) load_journal [OF l] sh0 by simp
      have "InvP sha [] g s' \<and> f_pending g = [] \<and> f_p g = f_p (reset_chunks f1) \<and>
          f_name g = f_name (reset_chunks f1) \<and> (\<forall>i. \<not> Has g i)"
        by (rule open_new_InvP [OF fr on']) (use Remove_files(2) [OF rm] in simp)
      then show ?thesis using L by simp
    next
      case (Inr u')
      let ?f2 = "f1\<lparr>f_part := True, f_journal := True\<rparr>"
      obtain g1 s3 where v: "verify_chunks sha (check_list (p_VerifyFull (f_p ?f2)) (rev (f_order ?f2)) []) ?f2 s2 = (g1, s3)"
        by (metis prod.exhaust)
      have g: "g = g1\<lparr>f_resumed := f_resumed g1 + have_bytes g1\<rparr>" "s' = s3"
        using r l \<open>rl = Inr u\<close> o Inr v by (auto simp: open_journal_def verify_def)
      note V = verify_chunks_spec [OF v]
      have s2: "os_files s2 = os_files s1" using O by simp
      have "os_files s1 (part_name f0) \<noteq> None" using O Inr on by simp
      then obtain nd where nd: "os_files s (part_name f0) = Some nd" using s1 by auto
      have f2: "?f2 = (foldl apply_rec f0 rs)\<lparr>f_journalEnd := headerLen + recordLen * length rs, f_part := True, f_journal := True\<rparr>"
        by (simp add: f1 off)
      have osf2: "osName ?f2 = osName f1" by (intro ext) (simp add: osName_def)
      have keep: "\<exists>x. g = ?f2\<lparr>f_resumed := x\<rparr>"
        if "os_faults s = []" "\<forall>r \<in> set rs. on_disk sha ?f2 (fn_data nd) (fst r) (f_hashes ?f2 ! fst r)"
      proof -
        have "os_faults s2 = []" using OpenFile_faults [OF o] nf that by simp
        moreover have "os_files s2 (part_name ?f2) = Some nd"
          using s2 s1 nd on osf2 by simp
        moreover have "\<forall>i \<in> set (check_list (p_VerifyFull (f_p ?f2)) (rev (f_order ?f2)) []).
            on_disk sha ?f2 (fn_data nd) i (f_hashes ?f2 ! i)"
        proof
          fix i assume "i \<in> set (check_list (p_VerifyFull (f_p ?f2)) (rev (f_order ?f2)) [])"
          then have "i \<in> set (f_order ?f2)" using check_list_subset by fastforce
          then have "i \<in> fst ` set rs" using f by (simp add: f1 fresh_def) 
          then show "on_disk sha ?f2 (fn_data nd) i (f_hashes ?f2 ! i)" using that(2) by auto
        qed
        ultimately have "g1 = ?f2" using verify_chunks_keeps [OF v] by blast
        then show ?thesis using g by blast
      qed
      have gf: "f_p g1 = f_p ?f2 \<and> f_name g1 = f_name ?f2 \<and> f_n g1 = f_n ?f2 \<and> f_hashes g1 = f_hashes ?f2 \<and>
          f_pending g1 = f_pending ?f2"
        by (subst (1 2 3 4 5) conjunct1 [OF V]) simp
      have "os_files s' = (os_files s)(journal_name f0 \<mapsto>
          nj\<lparr>fn_data := take (headerLen + recordLen * length rs) (fn_data nj)\<rparr>)"
        using V s2 s1 g(2) off by simp
      then show ?thesis
        using nj nd hd blk f2 V keep gf g(1) sh0
        by (intro disjI2 exI [of _ rs] exI [of _ nj] exI [of _ nd] exI [of _ ?f2]) (simp add: f1)
    qed
  qed
qed

lemma Open_cases:
  assumes "Open sha now s name p = (Inr g, s')"
  obtains s2 where "os_files s2 = os_files s" "os_faults s = [] \<Longrightarrow> os_faults s2 = []" "p_ChunkSize p \<noteq> 0"
      "open_journal sha (new_file name (default_params p) now) s2 = (Inr g, s')"
  | s2 where "os_files s2 = os_files s"
      "anc_error s2 (part_name (new_file name (default_params p) now)) = None \<Longrightarrow>
         os_files s2 (journal_name (new_file name (default_params p) now)) = None" "p_ChunkSize p \<noteq> 0"
      "open_new (new_file name (default_params p) now) s2 = (Inr g, s')"
proof -
  let ?f = "new_file name (default_params p) now"
  have cs: "p_ChunkSize p \<noteq> 0" using assms by (auto simp: Open_def)
  obtain rm s1 where m: "(if path_Dir name \<noteq> ''.'' then MkdirAll s (path_Dir name) else (Inr (), s)) = (rm, s1)"
    by (metis prod.exhaust)
  have f1: "os_files s1 = os_files s" using m MkdirAll_frame by (auto split: if_splits)
  have nf1: "os_faults s = [] \<Longrightarrow> os_faults s1 = []" using m MkdirAll_faults by (auto split: if_splits)
  obtain ro s2 where o: "OpenFile s1 (journal_name ?f) False = (ro, s2)" by (metis prod.exhaust)
  have f2: "os_files s2 = os_files s" "os_dirs s2 = os_dirs s1" using OpenFile_no_create [OF o] f1 by simp_all
  obtain u where rm: "rm = Inr u" using assms cs m by (cases rm) (auto simp: Open_def Let_def)
  show thesis
  proof (cases ro)
    case (Inr v)
    then have "open_journal sha ?f s2 = (Inr g, s')" using assms cs m rm o by (simp add: Open_def Let_def)
    then show thesis using that(1) f2 nf1 OpenFile_faults [OF o] cs by blast
  next
    case (Inl e)
    then have "e = NotExist" and n: "open_new ?f s2 = (Inr g, s')"
      using assms cs m rm o by (auto simp: Open_def Let_def split: if_splits)
    then have o': "OpenFile s1 (journal_name ?f) False = (Inl NotExist, s2)" using o Inl by simp
    have d: "os_dirs s1 = os_dirs s2" using f2 by simp
    have jn: "os_files s2 (journal_name ?f) = None" if "anc_error s2 (part_name ?f) = None"
      by (rule OpenFile_NotExist [OF o' anc_error_cong [OF d iffD1 [OF anc_error_names that]]])
    show thesis by (rule that(2) [OF f2(1) jn cs n])
  qed
qed

lemma survives_refl: "fn_sync nd = fn_data nd \<Longrightarrow> survives nd (fn_data nd)"
  by (simp add: survives_def)

lemma reopen:
  assumes inv: "InvP sha pend f s" and cr: "crashed f s s1" and p: "same_params f p" "params_ok p"
    and r: "Open sha now s1 (f_name f) p = (Inr g, s')"
  shows "f_name g = f_name f \<and> f_p g = default_params p \<and> f_pending g = [] \<and>
    (\<forall>i. Has g i \<longrightarrow> Has f i \<and> f_hashes g ! i = f_hashes f ! i \<and>
       on_disk sha f (contents s' (part_name f)) i (f_hashes f ! i)) \<and>
    (os_faults s1 = [] \<longrightarrow> InvP sha [] g s')"
proof -
  let ?f0 = "new_file (f_name f) (default_params p) now"
  have fr: "fresh ?f0" by (rule fresh_new_file) (use p in simp)
  have sh: "shape_ok f" using inv by (simp add: InvP_def)
  have al: "alike f ?f0" by (rule alike_new_file [OF sh p(1)])
  note a = alike_simps [OF al]
  obtain pd where pd: "os_files s (part_name f) = Some pd" using inv by (auto simp: InvP_def)
  from r show ?thesis
  proof (cases rule: Open_cases)
    case (2 s2)
    have "InvP sha [] g s' \<and> f_pending g = [] \<and> f_p g = f_p ?f0 \<and> f_name g = f_name ?f0 \<and> (\<forall>i. \<not> Has g i)"
      by (rule open_new_InvP [OF fr 2(4)]) (rule 2(2))
    then show ?thesis by simp
  next
    case (1 s2)
    from open_journal_cases [OF fr 1(4)] show ?thesis
    proof (elim disjE exE conjE)
      assume "InvP sha [] g s'" "f_pending g = []" "f_p g = f_p ?f0" "f_name g = f_name ?f0" "\<forall>i. \<not> Has g i"
      then show ?thesis by simp
    next
      fix rs nj nd f2
      assume nj: "os_files s2 (journal_name ?f0) = Some nj" and nd: "os_files s2 (part_name ?f0) = Some nd"
        and hd: "take headerLen (fn_data nj) = header ?f0" "headerLen \<le> length (fn_data nj)"
        and blk: "\<forall>k < length rs. valid_block (f_n ?f0) (block k (fn_data nj)) \<and> rs ! k = rec_of (block k (fn_data nj))"
        and f2: "f2 = (foldl apply_rec ?f0 rs)\<lparr>f_journalEnd := headerLen + recordLen * length rs, f_part := True, f_journal := True\<rparr>"
        and g: "f_p g = f_p ?f0" "f_name g = f_name ?f0" "f_n g = f_n ?f0" "f_hashes g = f_hashes f2" "f_pending g = []"
        and hv: "\<forall>i < length (f_have f2). f_have g ! i \<longrightarrow> f_have f2 ! i"
        and s': "os_files s' = (os_files s2)(journal_name ?f0 \<mapsto>
          nj\<lparr>fn_data := take (headerLen + recordLen * length rs) (fn_data nj)\<rparr>)"
        and keep: "os_faults s2 = [] \<longrightarrow> (\<forall>r \<in> set rs. on_disk sha f2 (fn_data nd) (fst r) (f_hashes f2 ! fst r)) \<longrightarrow>
          (\<exists>x. g = f2\<lparr>f_resumed := x\<rparr>)"
      have nj1: "os_files s1 (journal_name f) = Some nj" and nd1: "os_files s1 (part_name f) = Some nd"
        using nj nd 1(1) a(2) by simp_all
      have n0: "f_n ?f0 = f_n f" using al by (simp add: alike_def)
      have sv: "survives pd (fn_data nd)" "fn_sync nd = fn_data nd"
        using cr nd1 pd by (auto simp: crashed_def)
      have good: "\<forall>r \<in> set rs. rec_good f pd r"
        using loaded_good [OF inv pd cr nj1 blk [unfolded n0]] by blast
      note R = resumed_file [OF inv pd fr al sv(1) good f2]
      have part': "os_files s' (part_name f) = Some nd" using s' nd a(2) by simp
      then have cp: "contents s' (part_name f) = fn_data nd" by (simp add: contents_def)
      have ng: "f_n g = f_n f" using g(3) n0 by simp
      have R1: "Has f i \<and> f_hashes g ! i = f_hashes f ! i \<and> on_disk sha f (contents s' (part_name f)) i (f_hashes f ! i)"
        if "Has g i" for i
      proof -
        have i: "i < f_n f" "f_have g ! i" using that ng by (simp_all add: Has_def)
        then have "f_have f2 ! i" using hv R(2) by simp
        from R(4) [OF i(1) this] show ?thesis using g(4) alike_simps(6) [OF R(1)] cp by simp
      qed
      have R2: "InvP sha [] g s'" if nf: "os_faults s1 = []"
      proof -
        have "\<forall>r \<in> set rs. on_disk sha f2 (fn_data nd) (fst r) (f_hashes f2 ! fst r)"
          using R(5) by (auto simp: known_def)
        then obtain x where x: "g = f2\<lparr>f_resumed := x\<rparr>" using keep 1(2) nf by blast
        have "InvP sha [] f2 s'"
        proof (rule resumed_InvP [OF inv pd fr al part' sv good f2])
          show "os_files s' (journal_name f) =
              Some (nj\<lparr>fn_data := take (headerLen + recordLen * length rs) (fn_data nj)\<rparr>)"
            using s' a(2) by simp
          show "fn_data (nj\<lparr>fn_data := take (headerLen + recordLen * length rs) (fn_data nj)\<rparr>) = header f @ recs_bytes rs"
            using take_blocks [OF hd(2) blk, of "length rs"] hd(1) a(1) by simp
        qed
        then show ?thesis
          by (rule InvP_same_file) (simp_all add: x same_file_def)
      qed
      show ?thesis using R1 R2 g by simp
    qed
  qed
qed

end
