(* ===== verification/StoreMachine.thy ===== *)
theory StoreMachine
  imports StoreReopen
begin

text \<open>
  A file being received as a state machine: chunks are written by several goroutines, a commit
  runs in the background in three steps (its batch is taken, the data is synced, the records are
  written), the disk refuses calls, the device loses power and the file is opened again.
\<close>

section \<open>Steps\<close>

datatype phase =
    Idle
  | Taken "jrecord list"
  | Synced "jrecord list"

type_synonym store_state = "sfile \<times> phase \<times> os"

inductive store_step :: "(bytes \<Rightarrow> bytes) \<Rightarrow> store_state \<Rightarrow> store_state \<Rightarrow> bool" for sha where
  chunk: "\<not> f_have f ! i \<Longrightarrow> length (sha data) = 32 \<Longrightarrow> WriteChunk f s i data (sha data) = (r, f', s')
    \<Longrightarrow> store_step sha (f, ph, s) (f', ph, s')"
| take: "store_step sha (f, Idle, s)
    (f\<lparr>f_pending := [], f_pendingBytes := 0, f_lastCommit := now\<rparr>, Taken (f_pending f), s)"
| sync_ok: "Sync s (part_name f) = (Inr (), s') \<Longrightarrow> store_step sha (f, Taken b, s) (f, Synced b, s')"
| sync_fail: "Sync s (part_name f) = (Inl e, s')
    \<Longrightarrow> store_step sha (f, Taken b, s) (f\<lparr>f_pending := b @ f_pending f\<rparr>, Idle, s')"
| record_ok: "commit_records f s b = (Inr (), f', s') \<Longrightarrow> store_step sha (f, Synced b, s) (f', Idle, s')"
| record_fail: "commit_records f s b = (Inl e, f', s')
    \<Longrightarrow> store_step sha (f, Synced b, s) (f'\<lparr>f_pending := b @ f_pending f'\<rparr>, Idle, s')"
| journal: "ensureJournal f s = (r, f', s') \<Longrightarrow> store_step sha (f, Idle, s) (f', Idle, s')"
| note_file: "same_file f g \<Longrightarrow> f_p g = f_p f \<Longrightarrow> f_journal g = f_journal f \<Longrightarrow> f_journalEnd g = f_journalEnd f
    \<Longrightarrow> f_pending g = f_pending f \<Longrightarrow> store_step sha (f, ph, s) (g, ph, s)"
| disk: "os_files s' (part_name f) = os_files s (part_name f)
    \<Longrightarrow> map_option fn_data (os_files s' (journal_name f)) = map_option fn_data (os_files s (journal_name f))
    \<Longrightarrow> store_step sha (f, ph, s) (f, ph, s')"
| power_loss: "crashed f s s1 \<Longrightarrow> os_faults s1 = [] \<Longrightarrow> same_params f p \<Longrightarrow> params_ok p \<Longrightarrow> \<not> p_NoSync p
    \<Longrightarrow> Open sha now s1 (f_name f) p = (Inr g, s') \<Longrightarrow> store_step sha (f, ph, s) (g, Idle, s')"

inductive_cases store_stepE: "store_step sha (f, ph, s) t"

definition phase_batch :: "phase \<Rightarrow> jrecord list" where
  "phase_batch ph = (case ph of Idle \<Rightarrow> [] | Taken b \<Rightarrow> b | Synced b \<Rightarrow> b)"

lemma phase_batch_simps [simp]:
  "phase_batch Idle = []" "phase_batch (Taken b) = b" "phase_batch (Synced b) = b"
  by (simp_all add: phase_batch_def)

definition synced_ok :: "store_state \<Rightarrow> bool" where
  "synced_ok x \<longleftrightarrow> (case x of (f, ph, s) \<Rightarrow>
     (\<forall>b pd. ph = Synced b \<longrightarrow> os_files s (part_name f) = Some pd \<longrightarrow> (\<forall>r \<in> set b. rec_good f pd r)))"

definition store_inv :: "(bytes \<Rightarrow> bytes) \<Rightarrow> store_state \<Rightarrow> bool" where
  "store_inv sha x \<longleftrightarrow> (case x of (f, ph, s) \<Rightarrow>
     \<not> p_NoSync (f_p f) \<and> InvP sha (phase_batch ph @ f_pending f) f s) \<and> synced_ok x"

lemma store_invI:
  "\<not> p_NoSync (f_p f) \<Longrightarrow> InvP sha (phase_batch ph @ f_pending f) f s \<Longrightarrow> synced_ok (f, ph, s)
   \<Longrightarrow> store_inv sha (f, ph, s)"
  by (simp add: store_inv_def)

lemma synced_ok_other: "(\<And>b. ph \<noteq> Synced b) \<Longrightarrow> synced_ok (f, ph, s)"
  by (simp add: synced_ok_def)

lemma InvP_disk:
  assumes "InvP sha pend f s" "os_files s' (part_name f) = os_files s (part_name f)"
    "map_option fn_data (os_files s' (journal_name f)) = map_option fn_data (os_files s (journal_name f))"
  shows "InvP sha pend f s'"
proof -
  from assms(1) obtain pd where pd: "os_files s (part_name f) = Some pd" by (auto simp: InvP_def)
  note D = InvP_D [OF assms(1) pd]
  have "journal_ok f pend s' pd"
    using D(4) assms(3) unfolding journal_ok_def
    by (cases "os_files s (journal_name f)"; cases "os_files s' (journal_name f)") simp_all
  then show ?thesis using D pd assms(2) by (intro InvP_I [of f pend s' pd]) simp_all
qed

lemma store_step_keeps:
  assumes inv: "store_inv sha x" and st: "store_step sha x y"
  shows "store_inv sha y"
  using st inv
proof cases
  case (chunk f i data s r f' s' ph)
  then have ns: "\<not> p_NoSync (f_p f)" and I: "InvP sha (phase_batch ph @ f_pending f) f s"
    using inv by (simp_all add: store_inv_def)
  from I obtain pd where pd: "os_files s (part_name f) = Some pd" by (auto simp: InvP_def)
  note W = WriteChunk_InvP [OF I pd chunk(3) refl chunk(4,5)]
  obtain pd' where pd': "os_files s' (part_name f) = Some pd'" "\<forall>x. rec_good f pd x \<longrightarrow> rec_good f' pd' x"
    using W(2) by blast
  have "InvP sha (phase_batch ph @ f_pending f') f' s'"
    using W(1) by (cases "r = Inr ()") auto
  moreover have "synced_ok (f', ph, s')"
    using inv pd pd' W(4) chunk(1) by (auto simp: store_inv_def synced_ok_def)
  ultimately show ?thesis using ns W(3) chunk(2) by (simp add: store_inv_def)
next
  case (take f s now)
  have "same_file f (f\<lparr>f_pending := [], f_pendingBytes := 0, f_lastCommit := now\<rparr>)" by (simp add: same_file_def)
  then show ?thesis using inv take
    by (auto simp: store_inv_def intro!: store_invI synced_ok_other intro: InvP_same_file)
next
  case (sync_ok s f s' b)
  then have ns: "\<not> p_NoSync (f_p f)" and I: "InvP sha (b @ f_pending f) f s"
    using inv by (simp_all add: store_inv_def)
  from I obtain pd where pd: "os_files s (part_name f) = Some pd" by (auto simp: InvP_def)
  from Sync_files(2) [OF sync_ok(3) pd refl]
  have f': "os_files s' = (os_files s)(part_name f \<mapsto> pd\<lparr>fn_sync := fn_data pd\<rparr>)" .
  then have pd': "os_files s' (part_name f) = Some (pd\<lparr>fn_sync := fn_data pd\<rparr>)" by simp
  note I' = InvP_sync [OF I pd f']
  have "synced_ok (f, Synced b, s')"
    using InvP_D(2) [OF I' pd'] durable_synced [OF I' pd'] pd' by (simp add: synced_ok_def)
  then show ?thesis using sync_ok ns I' by (simp add: store_inv_def)
next
  case (sync_fail s f e s' b)
  then have ns: "\<not> p_NoSync (f_p f)" and I: "InvP sha (b @ f_pending f) f s"
    using inv by (simp_all add: store_inv_def)
  from I obtain pd where pd: "os_files s (part_name f) = Some pd" by (auto simp: InvP_def)
  from Sync_files(3) [OF sync_fail(3) pd] have "os_files s' = os_files s" by simp
  then have "InvP sha (b @ f_pending f) f s'" using InvP_os_frame [OF I, of s'] by simp
  then have "InvP sha (b @ f_pending f) (f\<lparr>f_pending := b @ f_pending f\<rparr>) s'"
    by (rule InvP_same_file) (simp_all add: same_file_def)
  then show ?thesis using sync_fail ns by (simp add: store_inv_def synced_ok_def)
next
  case (record_ok f s b f' s')
  then have ns: "\<not> p_NoSync (f_p f)" and I: "InvP sha (b @ f_pending f) f s"
    using inv by (simp_all add: store_inv_def)
  from I obtain pd where pd: "os_files s (part_name f) = Some pd" by (auto simp: InvP_def)
  have "\<forall>r \<in> set b. rec_good f pd r" using inv record_ok pd by (simp add: store_inv_def synced_ok_def)
  note C = commit_records_InvP [OF I pd this record_ok(3)]
  show ?thesis using C ns record_ok by (simp add: store_inv_def synced_ok_def)
next
  case (record_fail f s b e f' s')
  then have ns: "\<not> p_NoSync (f_p f)" and I: "InvP sha (b @ f_pending f) f s"
    using inv by (simp_all add: store_inv_def)
  from I obtain pd where pd: "os_files s (part_name f) = Some pd" by (auto simp: InvP_def)
  have "\<forall>r \<in> set b. rec_good f pd r" using inv record_fail pd by (simp add: store_inv_def synced_ok_def)
  note C = commit_records_InvP [OF I pd this record_fail(3)]
  have "InvP sha (b @ f_pending f') (f'\<lparr>f_pending := b @ f_pending f'\<rparr>) s'"
    by (rule InvP_same_file [of _ _ f']) (use C in \<open>simp_all add: same_file_def\<close>)
  then show ?thesis using C ns record_fail by (simp add: store_inv_def synced_ok_def)
next
  case (journal f s r f' s')
  then have ns: "\<not> p_NoSync (f_p f)" and I: "InvP sha (f_pending f) f s"
    using inv by (simp_all add: store_inv_def)
  show ?thesis using ensureJournal_InvP [OF I journal(3)] ns journal by (simp add: store_inv_def synced_ok_def)
next
  case (note_file f g ph s)
  then have "InvP sha (phase_batch ph @ f_pending g) g s"
    using inv by (auto simp: store_inv_def intro: InvP_same_file)
  then show ?thesis using note_file inv same_file_simps [OF note_file(3)]
    by (simp add: store_inv_def synced_ok_def)
next
  case (disk s' f s ph)
  then have "InvP sha (phase_batch ph @ f_pending f) f s'"
    using inv InvP_disk [of sha _ f s s'] by (simp add: store_inv_def)
  then show ?thesis using disk inv by (simp add: store_inv_def synced_ok_def)
next
  case (power_loss f s s1 p now g s' ph)
  then have I: "InvP sha (phase_batch ph @ f_pending f) f s" using inv by (simp add: store_inv_def)
  show ?thesis using reopen [OF I power_loss(3,5,6,8)] power_loss by (simp add: store_inv_def synced_ok_def)
qed

interpretation store: step_invariant "store_step sha" "store_inv sha" for sha
  by unfold_locales (rule store_step_keeps)

section \<open>The file's operations as steps\<close>

text \<open>A commit without other writers is the three steps in a row: the machine's commit is the
  code's.\<close>

lemma Commit_steps:
  assumes r: "Commit f s now = (r, f', s')" and ns: "\<not> p_NoSync (f_p f)"
  shows "(store_step sha)\<^sup>*\<^sup>* (f, Idle, s) (f', Idle, s')"
proof (cases "f_pending f = []")
  case True
  then have "f' = f\<lparr>f_pending := [], f_pendingBytes := 0, f_lastCommit := now\<rparr>" "s' = s"
    using r by (simp_all add: Commit_def Let_def)
  moreover have "store_step sha (f, Idle, s) (f\<lparr>f_pending := [], f_pendingBytes := 0, f_lastCommit := now\<rparr>, Idle, s)"
    using True by (intro store_step.note_file) (simp_all add: same_file_def)
  ultimately show ?thesis by simp
next
  case False
  let ?b = "f_pending f" and ?f = "f\<lparr>f_pending := [], f_pendingBytes := 0, f_lastCommit := now\<rparr>"
  have pn: "part_name ?f = part_name f" by (simp add: osName_def)
  have t: "store_step sha (f, Idle, s) (?f, Taken ?b, s)" by (rule store_step.take)
  obtain rs s1 where sy: "Sync s (part_name ?f) = (rs, s1)" by (metis prod.exhaust)
  show ?thesis
  proof (cases rs)
    case (Inl e)
    then have "f' = ?f\<lparr>f_pending := ?b @ f_pending ?f\<rparr>" "s' = s1"
      using r False sy ns by (auto simp: Commit_def commit_def Let_def)
    moreover have "store_step sha (?f, Taken ?b, s) (?f\<lparr>f_pending := ?b @ f_pending ?f\<rparr>, Idle, s1)"
      by (rule store_step.sync_fail) (use sy Inl in simp)
    ultimately show ?thesis using t by (simp add: converse_rtranclp_into_rtranclp)
  next
    case (Inr u)
    then have u: "store_step sha (?f, Taken ?b, s) (?f, Synced ?b, s1)"
      by (intro store_step.sync_ok) (use sy in simp)
    obtain rc f2 s2 where c: "commit_records ?f s1 ?b = (rc, f2, s2)" by (metis prod.exhaust)
    have cm: "commit ?f s ?b = (rc, f2, s2)" using sy Inr ns c by (simp add: commit_def)
    show ?thesis
    proof (cases rc)
      case (Inl e)
      then have "f' = f2\<lparr>f_pending := ?b @ f_pending f2\<rparr>" "s' = s2"
        using r False cm by (simp_all add: Commit_def Let_def)
      moreover have "store_step sha (?f, Synced ?b, s1) (f2\<lparr>f_pending := ?b @ f_pending f2\<rparr>, Idle, s2)"
        by (rule store_step.record_fail) (use c Inl in simp)
      ultimately show ?thesis using t u by (meson converse_rtranclp_into_rtranclp r_into_rtranclp)
    next
      case (Inr v)
      then have "f' = f2" "s' = s2" using r False cm by (simp_all add: Commit_def Let_def)
      moreover have "store_step sha (?f, Synced ?b, s1) (f2, Idle, s2)"
        by (rule store_step.record_ok) (use c Inr in simp)
      ultimately show ?thesis using t u by (meson converse_rtranclp_into_rtranclp r_into_rtranclp)
    qed
  qed
qed

text \<open>Only the fields the invariant does not read.\<close>

lemma note_steps:
  assumes "(store_step sha)\<^sup>*\<^sup>* x (f, ph, s)" "same_file f g" "f_p g = f_p f" "f_journal g = f_journal f"
    "f_journalEnd g = f_journalEnd f" "f_pending g = f_pending f"
  shows "(store_step sha)\<^sup>*\<^sup>* x (g, ph, s)"
  using assms by (meson rtranclp.rtrancl_into_rtrancl store_step.note_file)

end
