(* ===== verification/StoreProps.thy ===== *)
theory StoreProps
  imports StoreMachine
begin

text \<open>
  The guarantees of a file being received, on every run of \<open>store_step\<close> from the moment it is
  opened for the first time.
\<close>

section \<open>Runs\<close>

text \<open>The states a file goes through, from its first \<^verbatim>\<open>Open\<close>.\<close>

definition store_run :: "(bytes \<Rightarrow> bytes) \<Rightarrow> string \<Rightarrow> params \<Rightarrow> store_state \<Rightarrow> bool" where
  "store_run sha name p x \<longleftrightarrow>
     params_ok p \<and> \<not> p_NoSync p \<and>
     (\<exists>now s0 f0 s1. os_files s0 (name @ PartSuffix) = None \<and> os_files s0 (name @ JournalSuffix) = None \<and>
        Open sha now s0 name p = (Inr f0, s1) \<and> (store_step sha)\<^sup>*\<^sup>* (f0, Idle, s1) x)"

lemma Open_new_InvP:
  assumes "Open sha now s name p = (Inr f, s')" "params_ok p"
    and "os_files s (name @ PartSuffix) = None" "os_files s (name @ JournalSuffix) = None"
  shows "InvP sha [] f s' \<and> f_pending f = [] \<and> f_p f = default_params p \<and> f_name f = name"
proof -
  let ?f = "new_file name (default_params p) now"
  have fr: "fresh ?f" by (rule fresh_new_file) (use assms in simp)
  have jn: "journal_name ?f = name @ JournalSuffix" by (simp add: osName_def)
  from assms(1) show ?thesis
  proof (cases rule: Open_cases)
    case (1 s2)
    from open_journal_cases [OF fr 1(4)] 1(1) assms(4) show ?thesis by (auto simp: jn)
  next
    case (2 s2)
    have "InvP sha [] f s' \<and> f_pending f = [] \<and> f_p f = f_p ?f \<and> f_name f = f_name ?f \<and> (\<forall>i. \<not> Has f i)"
      by (rule open_new_InvP [OF fr 2(4)]) (rule 2(2))
    then show ?thesis by simp
  qed
qed

lemma store_run_inv: "store_run sha name p x \<Longrightarrow> store_inv sha x"
  unfolding store_run_def
  by (elim conjE exE, erule store.run_keeps)
    (use Open_new_InvP in \<open>fastforce simp: store_inv_def synced_ok_def\<close>)

section \<open>An example run\<close>

text \<open>A file of 3 bytes in one chunk, in the transfer's own folder, received and committed.\<close>

definition ex_sha :: "bytes \<Rightarrow> bytes" where
  "ex_sha b = replicate 32 (case b of [] \<Rightarrow> 0 | x # _ \<Rightarrow> x)"

definition ex_params :: params where
  "ex_params = \<lparr>p_Key = replicate 32 0, p_Size = 3, p_ChunkSize = 4, p_CommitBytes = 0, p_CommitInterval = 0,
     p_VerifyFull = False, p_NoSync = False, p_Overwrite = False, p_Owned = True\<rparr>"

definition ex_os :: os where
  "ex_os = \<lparr>os_files = Map.empty, os_dirs = {}, os_faults = []\<rparr>"

definition ex_data :: bytes where "ex_data = [1, 2, 3]"

definition ex_f0 :: sfile where
  "ex_f0 = (new_file ''a'' (default_params ex_params) 0)\<lparr>f_part := True\<rparr>"

definition ex_s0 :: os where
  "ex_s0 = ex_os\<lparr>os_files := [''a.part'' \<mapsto> \<lparr>fn_data = [], fn_sync = []\<rparr>]\<rparr>"

lemma ex_params_ok: "params_ok ex_params" "\<not> p_NoSync ex_params"
  by (simp_all add: params_ok_def ex_params_def)

lemma ex_chunks: "param_chunks ex_params = 1"
  by (simp add: param_chunks_def ex_params_def sdiv_nonneg wrap64_def)

lemma ex_names: "part_name ex_f0 = ''a.part''" "journal_name ex_f0 = ''a.part.state''" "f_name ex_f0 = ''a''"
  by (simp_all add: osName_def ex_f0_def PartSuffix_def JournalSuffix_def)

lemma ex_dir: "path_Dir ''a'' = ''.''"
  by (simp add: path_Dir_def path_Clean_def)

lemma ex_ancestors: "ancestors ''a.part'' = []" "ancestors ''a.part.state'' = []"
  by (simp_all add: ancestors_def upt_rec)

lemma ex_open: "Open ex_sha 0 ex_os ''a'' ex_params = (Inr ex_f0, ex_s0)"
proof -
  let ?f = "new_file ''a'' (default_params ex_params) 0"
  have n: "part_name ?f = ''a.part''" "journal_name ?f = ''a.part.state''"
    by (simp_all add: osName_def PartSuffix_def JournalSuffix_def)
  have pop: "pop ex_os = (None, ex_os)" by (simp add: pop_def ex_os_def)
  have anc: "anc_error ex_os ''a.part'' = None" "anc_error ex_os ''a.part.state'' = None"
    by (simp_all add: anc_error_def ex_ancestors)
  have 1: "OpenFile ex_os ''a.part.state'' False = (Inl NotExist, ex_os)"
    by (simp add: OpenFile_def pop anc) (simp add: ex_os_def)
  have 2: "Lstat ex_os ''a.part'' = (Inl NotExist, ex_os)"
    by (simp add: Lstat_def pop anc) (simp add: ex_os_def)
  have 3: "OpenFile ex_os ''a.part'' True = (Inr (), ex_s0)"
    by (simp add: OpenFile_def pop anc) (simp add: ex_os_def ex_s0_def)
  have o: "p_Owned ex_params" by (simp add: ex_params_def)
  have "open_new ?f ex_os = (Inr ex_f0, ex_s0)"
    by (simp add: open_new_def open_create_def n 2 3 o ex_f0_def)
  then show ?thesis
    unfolding Open_def ex_dir by (simp add: n 1 Let_def) (simp add: ex_params_def)
qed

definition ex_f1 :: sfile where
  "ex_f1 = ex_f0\<lparr>f_have := [True], f_hashes := [ex_sha ex_data], f_pending := [(0, ex_sha ex_data)],
     f_pendingBytes := 3\<rparr>"

definition ex_s1 :: os where
  "ex_s1 = ex_os\<lparr>os_files := [''a.part'' \<mapsto> \<lparr>fn_data = ex_data, fn_sync = []\<rparr>]\<rparr>"

definition ex_f2 :: sfile where
  "ex_f2 = ex_f1\<lparr>f_pending := [], f_pendingBytes := 0, f_lastCommit := 0, f_journal := True, f_journalEnd := 97\<rparr>"

definition ex_journal :: bytes where
  "ex_journal = header ex_f0 @ rec_bytes (0, ex_sha ex_data)"

definition ex_s2 :: os where
  "ex_s2 = ex_os\<lparr>os_files := [''a.part'' \<mapsto> \<lparr>fn_data = ex_data, fn_sync = ex_data\<rparr>,
     ''a.part.state'' \<mapsto> \<lparr>fn_data = ex_journal, fn_sync = ex_journal\<rparr>]\<rparr>"

lemma ex_f0_simps: "f_n ex_f0 = 1" "csize ex_f0 = 4" "chunkLen ex_f0 0 = 3" "f_have ex_f0 = [False]"
  "f_hashes ex_f0 = [replicate 32 0]" "f_pending ex_f0 = []" "f_pendingBytes ex_f0 = 0" "f_journal ex_f0 = False"
  by (simp_all add: ex_f0_def new_file_def reset_chunks_def ex_chunks chunkLen_def)
    (simp_all add: ex_params_def)

lemma ex_write: "WriteChunk ex_f0 ex_s0 0 ex_data (ex_sha ex_data) = (Inr (), ex_f1, ex_s1)"
proof -
  have "WriteAt ex_s0 ''a.part'' 0 ex_data = (Inr (), ex_s1)"
    by (simp add: WriteAt_def pop_def ex_s0_def ex_s1_def ex_os_def write_at_def ex_data_def)
  then show ?thesis
    by (simp add: WriteChunk_def ex_names ex_f0_simps) (simp add: ex_data_def ex_f1_def ex_f0_simps)
qed

lemma ex_same: "same_file ex_f0 ex_f0"
  by simp

lemma ex_commit: "Commit ex_f1 ex_s1 0 = (Inr (), ex_f2, ex_s2)"
proof -
  let ?f = "ex_f1\<lparr>f_pending := [], f_pendingBytes := 0, f_lastCommit := 0\<rparr>"
  let ?g = "?f\<lparr>f_journal := True, f_journalEnd := headerLen\<rparr>"
  let ?h = "header ex_f0"
  let ?s1 = "ex_os\<lparr>os_files := [''a.part'' \<mapsto> \<lparr>fn_data = ex_data, fn_sync = ex_data\<rparr>]\<rparr>"
  let ?s2 = "?s1\<lparr>os_files := (os_files ?s1)(''a.part.state'' \<mapsto> \<lparr>fn_data = [], fn_sync = []\<rparr>)\<rparr>"
  let ?s3 = "?s1\<lparr>os_files := (os_files ?s1)(''a.part.state'' \<mapsto> \<lparr>fn_data = ?h, fn_sync = []\<rparr>)\<rparr>"
  let ?s4 = "?s1\<lparr>os_files := (os_files ?s1)(''a.part.state'' \<mapsto> \<lparr>fn_data = ex_journal, fn_sync = []\<rparr>)\<rparr>"
  have n: "part_name ?f = ''a.part''" "journal_name ?f = ''a.part.state''" "journal_name ?g = ''a.part.state''"
    using ex_names by (simp_all add: osName_def ex_f1_def)
  have h: "header ?f = ?h" by (simp add: header_def header_body_def ex_f1_def)
  have lh: "length ?h = 57"
    by (simp add: header_def header_body_def magic_def ex_f0_def ex_params_def default_params_def)
  have 1: "Sync ex_s1 ''a.part'' = (Inr (), ?s1)"
    by (simp add: Sync_def pop_def ex_s1_def ex_os_def)
  have 2: "OpenFile ?s1 ''a.part.state'' True = (Inr (), ?s2)"
    by (simp add: OpenFile_def pop_def ex_os_def anc_error_def ex_ancestors)
  have 3: "WriteAt ?s2 ''a.part.state'' 0 ?h = (Inr (), ?s3)"
    by (simp add: WriteAt_def pop_def ex_os_def write_at_def Let_def)
  have 4: "WriteAt ?s3 ''a.part.state'' 57 (rec_bytes (0, ex_sha ex_data)) = (Inr (), ?s4)"
    using write_at_end [of ?h "rec_bytes (0, ex_sha ex_data)"] lh
    by (simp add: WriteAt_def pop_def ex_os_def ex_journal_def)
  have 5: "Sync ?s4 ''a.part.state'' = (Inr (), ex_s2)"
    by (simp add: Sync_def pop_def ex_s2_def ex_os_def)
  have ns: "\<not> p_NoSync (f_p ?f)" by (simp add: ex_f1_def ex_f0_def ex_params_def)
  have nj: "\<not> f_journal ?f" by (simp add: ex_f1_def ex_f0_simps)
  have lr: "length (rec_bytes (0, ex_sha ex_data)) = 40"
    by (simp add: recordLen_def [symmetric] ex_sha_def)
  have ej: "ensureJournal ?f ?s1 = (Inr (), ?g, ?s3)"
    unfolding ensureJournal_def n h 2 using 3 nj by simp
  have cr: "commit_records ?f ?s1 [(0, ex_sha ex_data)] = (Inr (), ex_f2, ex_s2)"
    unfolding commit_records_def Let_def ej using n(3) 4 5 ns lr
    by (simp add: headerLen_def ex_f2_def)
  show ?thesis
    unfolding Commit_def Let_def commit_def using n(1) 1 ns cr by (simp add: ex_f1_def)
qed

lemma ex_run1: "store_run ex_sha ''a'' ex_params (ex_f1, Idle, ex_s1)"
proof -
  have "store_step ex_sha (ex_f0, Idle, ex_s0) (ex_f1, Idle, ex_s1)"
    by (rule store_step.chunk [where i = 0 and data = ex_data and r = "Inr ()"])
      (simp_all add: ex_f0_simps ex_write, simp add: ex_sha_def)
  then have "(store_step ex_sha)\<^sup>*\<^sup>* (ex_f0, Idle, ex_s0) (ex_f1, Idle, ex_s1)" by (rule r_into_rtranclp)
  moreover have "os_files ex_os (''a'' @ PartSuffix) = None" "os_files ex_os (''a'' @ JournalSuffix) = None"
    by (simp_all add: ex_os_def)
  ultimately show ?thesis
    using ex_params_ok ex_open unfolding store_run_def by blast
qed

lemma store_run_trans:
  assumes "store_run sha name p x" "(store_step sha)\<^sup>*\<^sup>* x y"
  shows "store_run sha name p y"
  using assms unfolding store_run_def by (meson rtranclp_trans)

lemma ex_run: "store_run ex_sha ''a'' ex_params (ex_f2, Idle, ex_s2)"
  by (rule store_run_trans [OF ex_run1 Commit_steps [OF ex_commit]])
    (simp add: ex_f1_def ex_f0_def ex_params_def)

section \<open>The journal\<close>

text \<open>C16. The journal never names a chunk that is not durable (invariant J, STO-03): at every
  moment of a run, with chunks written while a commit runs and any call of the disk refused, a
  block of the journal that \<^verbatim>\<open>load\<close> would take for a record is about a chunk the file has,
  whose bytes are synced on the disk with the hash the record gives.\<close>

theorem journal_names_durable:
  assumes run: "store_run sha name p (f, ph, s)"
    and pd: "os_files s (part_name f) = Some pd" and jd: "os_files s (journal_name f) = Some jd"
    and b: "valid_block (f_n f) (block k (fn_data jd))"
  shows "Has f (fst (rec_of (block k (fn_data jd)))) \<and>
    durable f pd (fst (rec_of (block k (fn_data jd)))) \<and>
    on_disk sha f (fn_sync pd) (fst (rec_of (block k (fn_data jd)))) (snd (rec_of (block k (fn_data jd))))"
proof -
  have I: "InvP sha (phase_batch ph @ f_pending f) f s"
    using store_run_inv [OF run] by (simp add: store_inv_def)
  have g: "rec_good f pd (rec_of (block k (fn_data jd)))" by (rule block_rec_good [OF I pd jd b])
  then have "on_disk sha f (fn_data pd) (fst (rec_of (block k (fn_data jd)))) (snd (rec_of (block k (fn_data jd))))"
    using InvP_D(3) [OF I pd] by (auto simp: rec_good_def known_def data_ok_def)
  then show ?thesis
    using g by (simp add: Has_def known_def rec_good_def durable_def on_disk_def)
qed

lemma ex_names2: "part_name ex_f2 = ''a.part''" "journal_name ex_f2 = ''a.part.state''" "f_n ex_f2 = 1"
  using ex_names ex_f0_simps by (simp_all add: osName_def ex_f2_def ex_f1_def)

lemma ex_block: "block 0 ex_journal = rec_bytes (0, ex_sha ex_data)"
proof -
  have "length (header ex_f0) = headerLen"
    by (rule length_header) (simp add: ex_f0_def ex_params_def default_params_def)
  moreover have "length (rec_bytes (0, ex_sha ex_data)) = recordLen"
    by (rule length_rec_bytes) (simp add: ex_sha_def)
  ultimately show ?thesis by (simp add: ex_journal_def slice_def)
qed

lemma ex_rec: "rec_of (rec_bytes (0, ex_sha ex_data)) = (0, ex_sha ex_data)"
  "valid_block 1 (rec_bytes (0, ex_sha ex_data))"
  using rec_of_rec_bytes(1) [of "(0, ex_sha ex_data)"] rec_of_rec_bytes(2) [of "(0, ex_sha ex_data)" 1]
  by (simp_all add: ex_sha_def)

theorem journal_names_durable_witness:
  "Has ex_f2 0 \<and> durable ex_f2 \<lparr>fn_data = ex_data, fn_sync = ex_data\<rparr> 0 \<and>
   on_disk ex_sha ex_f2 ex_data 0 (ex_sha ex_data)"
proof -
  let ?pd = "\<lparr>fn_data = ex_data, fn_sync = ex_data\<rparr>" and ?jd = "\<lparr>fn_data = ex_journal, fn_sync = ex_journal\<rparr>"
  have pd: "os_files ex_s2 (part_name ex_f2) = Some ?pd" and jd: "os_files ex_s2 (journal_name ex_f2) = Some ?jd"
    by (simp_all add: ex_names2) (simp_all add: ex_s2_def)
  have "valid_block (f_n ex_f2) (block 0 (fn_data ?jd))"
    unfolding fnode.simps ex_names2 ex_block by (rule ex_rec(2))
  from journal_names_durable [OF ex_run pd jd this] show ?thesis
    unfolding fnode.simps ex_block ex_rec fst_conv snd_conv .
qed

section \<open>Resuming\<close>

text \<open>C17. A resume trusts nothing it should not: whatever a power loss leaves of the partial
  file and of its journal (the journal's CRC rules out only records never written), and whatever
  calls the disk then refuses, a file that \<^verbatim>\<open>Open\<close> opens again has only chunks it had before,
  each with the same hash and its bytes on the disk.\<close>

theorem resume_sound:
  assumes run: "store_run sha name p (f, ph, s)" and cr: "crashed f s s1"
    and q: "same_params f q" "params_ok q"
    and r: "Open sha now s1 (f_name f) q = (Inr g, s')" and i: "Has g i"
  shows "Has f i \<and> f_hashes g ! i = f_hashes f ! i \<and>
    on_disk sha f (contents s' (part_name f)) i (f_hashes f ! i)"
proof -
  have "InvP sha (phase_batch ph @ f_pending f) f s"
    using store_run_inv [OF run] by (simp add: store_inv_def)
  from reopen [OF this cr q r] show ?thesis using i by blast
qed

text \<open>The example file after a stop that lost nothing.\<close>

definition ex_f3 :: sfile where
  "ex_f3 = ex_f0\<lparr>f_have := [True], f_hashes := [ex_sha ex_data], f_order := [0], f_journalEnd := 97,
     f_journal := True, f_resumed := 3\<rparr>"

lemma ex_crashed: "crashed ex_f2 ex_s2 ex_s2"
  unfolding crashed_def ex_names2
  by (auto simp: ex_s2_def survives_def untorn_def)

lemma ex_load:
  "load (new_file ''a'' (default_params ex_params) 0) ex_s2 =
     (Inr (), (apply_rec (new_file ''a'' (default_params ex_params) 0) (0, ex_sha ex_data))\<lparr>f_journalEnd := 97\<rparr>, ex_s2)"
proof -
  let ?f = "new_file ''a'' (default_params ex_params) 0" and ?h = "header ex_f0" and ?r = "(0, ex_sha ex_data)"
  have n: "part_name ?f = ''a.part''" "journal_name ?f = ''a.part.state''"
    by (simp_all add: osName_def PartSuffix_def JournalSuffix_def)
  have h: "header ?f = ?h" by (simp add: ex_f0_def header_def header_body_def)
  have lh: "length ?h = 57" by (simp add: header_def header_body_def magic_def ex_f0_def ex_params_def default_params_def)
  have lr: "length (rec_bytes ?r) = 40" by (simp add: recordLen_def [symmetric] ex_sha_def)
  have nd: "os_files ex_s2 ''a.part.state'' = Some \<lparr>fn_data = ex_journal, fn_sync = ex_journal\<rparr>"
    "os_files ex_s2 ''a.part'' = Some \<lparr>fn_data = ex_data, fn_sync = ex_data\<rparr>" by (simp_all add: ex_s2_def)
  have pop: "pop ex_s2 = (None, ex_s2)" by (simp add: pop_def ex_s2_def ex_os_def)
  have rd: "ReadAt ex_s2 ''a.part.state'' off len =
      ((slice off len ex_journal, length (slice off len ex_journal) = len), ex_s2)" for off len
    by (simp add: ReadAt_def pop nd Let_def)
  have op: "OpenFile ex_s2 ''a.part.state'' False = (Inr (), ex_s2)" "OpenFile ex_s2 ''a.part'' False = (Inr (), ex_s2)"
    by (simp_all add: OpenFile_def pop nd anc_error_def ex_ancestors) (simp_all add: ex_s2_def ex_os_def)
  have jl: "length ex_journal = 97" using lh lr by (simp add: ex_journal_def)
  let ?g = "apply_rec ?f ?r"
  have "slice 57 40 ex_journal = rec_bytes ?r" using ex_block by (simp add: headerLen_def recordLen_def)
  then have sl: "load_loop ex_s2 57 ?f = load_loop ex_s2 97 ?g"
    using ex_rec lr by (subst load_loop.simps)
      (simp add: n rd jl recordLen_def valid_block_def Let_def rec_of_def apply_rec_def ex_chunks)
  have jg: "journal_name ?g = ''a.part.state''" using n by (simp add: osName_def)
  have "load_loop ex_s2 97 ?g = (97, ?g, ex_s2)"
    by (subst load_loop.simps) (simp add: jg rd jl recordLen_def)
  with sl have ll: "load_loop ex_s2 headerLen ?f = (97, ?g, ex_s2)" by (simp add: headerLen_def)
  have tr: "Truncate ex_s2 ''a.part.state'' 97 = (Inr (), ex_s2)"
    by (simp add: Truncate_def pop nd jl) (simp add: ex_s2_def fun_upd_idem_iff)
  have hd: "take 57 ex_journal = ?h" using lh by (simp add: ex_journal_def)
  show ?thesis
    unfolding load_def n rd using ll tr jg hd h jl lh by (simp add: headerLen_def)
qed

lemma ex_reopen: "Open ex_sha 0 ex_s2 ''a'' ex_params = (Inr ex_f3, ex_s2)"
proof -
  let ?f = "new_file ''a'' (default_params ex_params) 0"
  let ?g = "apply_rec ?f (0, ex_sha ex_data)"
  note ld = ex_load
  have n: "part_name ?f = ''a.part''" "journal_name ?f = ''a.part.state''"
    by (simp_all add: osName_def PartSuffix_def JournalSuffix_def)
  have nd: "os_files ex_s2 ''a.part.state'' = Some \<lparr>fn_data = ex_journal, fn_sync = ex_journal\<rparr>"
    "os_files ex_s2 ''a.part'' = Some \<lparr>fn_data = ex_data, fn_sync = ex_data\<rparr>" by (simp_all add: ex_s2_def)
  have pop: "pop ex_s2 = (None, ex_s2)" by (simp add: pop_def ex_s2_def ex_os_def)
  have op: "OpenFile ex_s2 ''a.part.state'' False = (Inr (), ex_s2)" "OpenFile ex_s2 ''a.part'' False = (Inr (), ex_s2)"
    by (simp_all add: OpenFile_def pop nd anc_error_def ex_ancestors) (simp_all add: ex_s2_def ex_os_def)
  let ?g2 = "?g\<lparr>f_journalEnd := 97, f_part := True, f_journal := True\<rparr>"
  have pg: "part_name (?g\<lparr>f_journalEnd := 97\<rparr>) = ''a.part''" "part_name ?g2 = ''a.part''"
    using n by (simp_all add: osName_def)
  have cl: "chunkLen ?g2 0 = 3" using ex_f0_simps(3) by (simp add: chunkLen_def ex_f0_def)
  have hs: "f_hashes ?g2 = [ex_sha ex_data]" "f_have ?g2 = [True]" "f_order ?g2 = [0]" "f_n ?g2 = 1" "f_resumed ?g2 = 0"
    by (simp_all add: apply_rec_def ex_chunks) (simp_all add: new_file_def reset_chunks_def ex_chunks)
  have rp: "ReadAt ex_s2 (part_name ?g2) (chunk_off ?g2 0) (chunkLen ?g2 0) = ((ex_data, True), ex_s2)"
    unfolding pg(2) cl by (simp add: ReadAt_def pop nd ex_data_def)
  have "check_list b [0] [] = [0]" for b by (simp add: verifyTail_def)
  moreover have "verify_chunks ex_sha [0] ?g2 ex_s2 = (?g2, ex_s2)"
    unfolding verify_chunks.simps rp using hs(1) by simp
  moreover have "have_bytes ?g2 = 3"
    unfolding have_bytes_def hs(4) hs(2) using cl by (simp only: upt_0 upt_Suc One_nat_def) simp
  ultimately have vf: "verify ex_sha ?g2 ex_s2 = (?g2\<lparr>f_resumed := 3\<rparr>, ex_s2)"
    unfolding verify_def using hs(3,5) by simp
  have "open_journal ex_sha ?f ex_s2 = (Inr (?g2\<lparr>f_resumed := 3\<rparr>), ex_s2)"
    using ld pg op vf by (simp add: open_journal_def)
  moreover have "?g2\<lparr>f_resumed := 3\<rparr> = ex_f3"
    by (simp add: ex_f3_def ex_f0_def apply_rec_def new_file_def reset_chunks_def ex_chunks)
  ultimately show ?thesis
    unfolding Open_def ex_dir using op n by (simp add: Let_def) (simp add: ex_params_def)
qed

theorem resume_sound_witness:
  "Has ex_f2 0 \<and> f_hashes ex_f3 ! 0 = f_hashes ex_f2 ! 0 \<and>
   on_disk ex_sha ex_f2 (contents ex_s2 (part_name ex_f2)) 0 (f_hashes ex_f2 ! 0)"
proof (rule resume_sound [OF ex_run ex_crashed _ ex_params_ok(1)])
  have fn: "f_name ex_f2 = ''a''" "f_p ex_f2 = default_params ex_params"
    by (simp_all add: ex_f2_def ex_f1_def ex_f0_def)
  show "same_params ex_f2 ex_params" by (simp add: same_params_def fn)
  show "Open ex_sha 0 ex_s2 (f_name ex_f2) ex_params = (Inr ex_f3, ex_s2)" unfolding fn by (rule ex_reopen)
  show "Has ex_f3 0" by (simp add: Has_def ex_f3_def ex_f0_simps)
qed

end
