(* ===== verification/StoreFinal.thy ===== *)
theory StoreFinal
  imports StoreProps
begin

text \<open>
  Finishing a file: \<^verbatim>\<open>Finalize\<close> gives it its name only once every chunk is there, durable
  and with its hash, and never replaces a file of the user unless told to.
\<close>

section \<open>What the file's calls leave alone\<close>

text \<open>The file's own names.\<close>

definition own :: "sfile \<Rightarrow> string set" where
  "own f = {part_name f, journal_name f}"

lemma own_same: "same_file f g \<Longrightarrow> own g = own f"
  by (simp add: own_def same_file_simps(2))

definition os_frame :: "string set \<Rightarrow> os \<Rightarrow> os \<Rightarrow> bool" where
  "os_frame ns s s' \<longleftrightarrow> (\<forall>n. n \<notin> ns \<longrightarrow> os_files s' n = os_files s n)"

lemma os_frame_refl [simp]: "os_frame ns s s"
  by (simp add: os_frame_def)

lemma os_frame_trans: "os_frame ns s s' \<Longrightarrow> os_frame ns s' s'' \<Longrightarrow> os_frame ns s s''"
  by (simp add: os_frame_def)

lemma os_frame_same: "os_files s' = os_files s \<Longrightarrow> os_frame ns s s'"
  by (simp add: os_frame_def)

lemma WriteAt_frame: "WriteAt s n off d = (r, s') \<Longrightarrow> n \<in> ns \<Longrightarrow> os_frame ns s s'"
  by (auto simp: WriteAt_def os_frame_def Let_def dest: pop_frame split: prod.splits option.splits)

lemma Sync_frame: "Sync s n = (r, s') \<Longrightarrow> n \<in> ns \<Longrightarrow> os_frame ns s s'"
  by (auto simp: Sync_def os_frame_def dest: pop_frame split: prod.splits option.splits)

lemma Remove_frame: "Remove s n = (r, s') \<Longrightarrow> n \<in> ns \<Longrightarrow> os_frame ns s s'"
  using Remove_files(2) [of s n r s'] by (auto simp: os_frame_def)

lemma OpenFile_frame: "OpenFile s n c = (r, s') \<Longrightarrow> n \<in> ns \<Longrightarrow> os_frame ns s s'"
  by (auto simp: OpenFile_def os_frame_def dest: pop_frame split: prod.splits option.splits if_splits)

lemma CloseF_os_frame: "CloseF s n = (r, s') \<Longrightarrow> os_frame ns s s'"
  using CloseF_frame by (auto intro: os_frame_same)

lemma ensureJournal_frame:
  assumes "ensureJournal f s = (r, f', s')"
  shows "os_frame (own f) s s' \<and> same_file f f' \<and> f_p f' = f_p f \<and> f_pending f' = f_pending f"
proof (cases "f_journal f")
  case True
  then show ?thesis using assms by (simp add: ensureJournal_def)
next
  case False
  obtain ro s1 where o: "OpenFile s (journal_name f) True = (ro, s1)" by (metis prod.exhaust)
  obtain rw s2 where w: "WriteAt s1 (journal_name f) 0 (header f) = (rw, s2)" by (metis prod.exhaust)
  obtain rc s3 where c: "CloseF s2 (journal_name f) = (rc, s3)" by (metis prod.exhaust)
  obtain rr s4 where m: "Remove s3 (journal_name f) = (rr, s4)" by (metis prod.exhaust)
  have j: "journal_name f \<in> own f" by (simp add: own_def)
  have 1: "os_frame (own f) s s1" by (rule OpenFile_frame [OF o j])
  have 2: "os_frame (own f) s s2" by (rule os_frame_trans [OF 1 WriteAt_frame [OF w j]])
  have 4: "os_frame (own f) s s4"
    by (rule os_frame_trans [OF os_frame_trans [OF 2 CloseF_os_frame [OF c]] Remove_frame [OF m j]])
  show ?thesis
    using assms False o w c m 1 2 4 by (auto simp: ensureJournal_def same_file_def split: sum.splits)
qed

lemma commit_records_frame:
  assumes "commit_records f s b = (r, f', s')"
  shows "os_frame (own f) s s' \<and> same_file f f' \<and> f_p f' = f_p f \<and> f_pending f' = f_pending f"
proof -
  obtain re f1 s1 where e: "ensureJournal f s = (re, f1, s1)" by (metis prod.exhaust)
  note E = ensureJournal_frame [OF e]
  have ow: "own f1 = own f" using E own_same by blast
  have j: "journal_name f1 \<in> own f" using ow by (auto simp: own_def)
  obtain rw s2 where w: "WriteAt s1 (journal_name f1) (f_journalEnd f1) (recs_bytes b) = (rw, s2)"
    by (metis prod.exhaust)
  obtain rs s3 where sy: "(if p_NoSync (f_p f1) then (Inr (), s2) else Sync s2 (journal_name f1)) = (rs, s3)"
    by (metis prod.exhaust)
  have 2: "os_frame (own f) s s2" using os_frame_trans [OF _ WriteAt_frame [OF w j]] E by blast
  have "os_frame (own f) s2 s3" using sy Sync_frame [OF _ j] by (auto split: if_splits)
  then have 3: "os_frame (own f) s s3" using 2 os_frame_trans by blast
  have g: "same_file f (f1\<lparr>f_journalEnd := x\<rparr>)" for x
    using E by (simp add: same_file_def)
  show ?thesis
    using assms e w sy E 2 3 g by (auto simp: commit_records_def Let_def split: sum.splits)
qed

lemma commit_frame:
  assumes "commit f s b = (r, f', s')"
  shows "os_frame (own f) s s' \<and> same_file f f' \<and> f_p f' = f_p f \<and> f_pending f' = f_pending f"
proof -
  obtain rs s1 where sy: "(if p_NoSync (f_p f) then (Inr (), s) else Sync s (part_name f)) = (rs, s1)"
    by (metis prod.exhaust)
  have 1: "os_frame (own f) s s1"
    using sy Sync_frame [of s "part_name f" rs s1 "own f"] by (auto simp: own_def split: if_splits)
  show ?thesis
  proof (cases rs)
    case (Inl e)
    then show ?thesis using assms sy 1 by (simp add: commit_def)
  next
    case (Inr u)
    then have "commit_records f s1 b = (r, f', s')" using assms sy by (simp add: commit_def)
    from commit_records_frame [OF this] show ?thesis using 1 os_frame_trans by blast
  qed
qed

lemma Commit_frame:
  assumes "Commit f s now = (r, f', s')"
  shows "os_frame (own f) s s' \<and> same_file f f' \<and> f_p f' = f_p f"
proof (cases "f_pending f = []")
  case True
  then show ?thesis using assms by (auto simp: Commit_def Let_def same_file_def)
next
  case False
  let ?f = "f\<lparr>f_pending := [], f_pendingBytes := 0, f_lastCommit := now\<rparr>"
  obtain rc f2 s2 where c: "commit ?f s (f_pending f) = (rc, f2, s2)" by (metis prod.exhaust)
  have sf: "same_file f ?f" by (simp add: same_file_def)
  have "own ?f = own f" by (rule own_same [OF sf])
  then show ?thesis
    using commit_frame [OF c] assms False c same_file_trans [OF sf]
    by (auto simp: Commit_def Let_def same_file_def split: sum.splits)
qed

lemma BgCommit_frame:
  assumes "BgCommit f s now = (f', s')"
  shows "os_frame (own f) s s' \<and> same_file f f' \<and> f_p f' = f_p f"
proof -
  obtain r f1 s1 where c: "Commit f s now = (r, f1, s1)" by (metis prod.exhaust)
  from Commit_frame [OF c] show ?thesis
    using assms c by (auto simp: BgCommit_def same_file_def split: sum.splits)
qed

lemma Settle_frame:
  assumes "Settle f s now = (r, f', s')"
  shows "os_frame (own f) s s' \<and> same_file f f' \<and> f_p f' = f_p f"
proof (cases "f_bg f")
  case True
  obtain f1 s1 where c: "BgCommit f s now = (f1, s1)" by (metis prod.exhaust)
  from BgCommit_frame [OF c] show ?thesis
    using assms c True by (auto simp: Settle_def same_file_def)
qed (use assms in \<open>auto simp: Settle_def same_file_def\<close>)

text \<open>The background commit and the wait for it are runs of the machine.\<close>

lemma BgCommit_steps:
  assumes "BgCommit f s now = (f', s')" "\<not> p_NoSync (f_p f)"
  shows "(store_step sha)\<^sup>*\<^sup>* (f, Idle, s) (f', Idle, s')"
proof -
  obtain r f1 s1 where c: "Commit f s now = (r, f1, s1)" by (metis prod.exhaust)
  note st = Commit_steps [OF c assms(2), of sha]
  have "(\<exists>x. f' = f1\<lparr>f_bgErr := x, f_bg := False\<rparr>) \<or> f' = f1\<lparr>f_bg := False\<rparr>" "s' = s1"
    using assms(1) c by (cases r; auto simp: BgCommit_def)+
  then show ?thesis using note_steps [OF st, of f'] by (auto simp: same_file_def)
qed

lemma Settle_steps:
  assumes "Settle f s now = (r, f', s')" "\<not> p_NoSync (f_p f)"
  shows "(store_step sha)\<^sup>*\<^sup>* (f, Idle, s) (f', Idle, s')"
proof -
  obtain f1 s1 where c: "(if f_bg f then BgCommit f s now else (f, s)) = (f1, s1)" by (metis prod.exhaust)
  have st: "(store_step sha)\<^sup>*\<^sup>* (f, Idle, s) (f1, Idle, s1)"
    using c BgCommit_steps [OF _ assms(2)] by (auto split: if_splits)
  have "f' = f1\<lparr>f_bgErr := None\<rparr>" "s' = s1" using assms(1) c by (simp_all add: Settle_def)
  then show ?thesis using note_steps [OF st, of f'] by (simp add: same_file_def)
qed

section \<open>\<^verbatim>\<open>Finalize\<close>\<close>

lemma notePending_frame:
  assumes "notePending f s = (r, f', s')"
  shows "os_frame (own f) s s' \<and> same_file f f' \<and> f_p f' = f_p f"
proof -
  let ?f = "f\<lparr>f_pending := [], f_pendingBytes := 0, f_p := (f_p f)\<lparr>p_NoSync := True\<rparr>\<rparr>"
  have sf: "same_file f ?f" by (simp add: same_file_def)
  obtain rc f2 s1 where c: "commit ?f s (f_pending f) = (rc, f2, s1)" by (metis prod.exhaust)
  note C = commit_frame [OF c, unfolded own_same [OF sf]]
  let ?g = "f2\<lparr>f_p := (f_p f2)\<lparr>p_NoSync := p_NoSync (f_p f)\<rparr>\<rparr>"
  have g: "same_file f ?g" "f_p ?g = f_p f"
    using C same_file_trans [OF sf] by (auto simp: same_file_def)
  have j: "journal_name ?g \<in> own f" using own_same [OF g(1)] by (auto simp: own_def)
  obtain rj s2 where y: "Sync s1 (journal_name ?g) = (rj, s2)" by (metis prod.exhaust)
  have 2: "os_frame (own f) s s2" using os_frame_trans [OF _ Sync_frame [OF y j]] C by blast
  have "f' = ?g \<and> (s' = s1 \<or> s' = s2)"
    using assms c y by (cases "rc = Inr () \<and> \<not> p_NoSync (f_p f)") (simp_all add: notePending_def Let_def)
  then show ?thesis using 2 C g by auto
qed

lemma rename_tries_files:
  assumes "rename_tries (Suc k) s a b = (r, s')"
  shows "(r \<noteq> Inr () \<and> os_files s' = os_files s) \<or>
    (r = Inr () \<and> (\<exists>nd. os_files s a = Some nd \<and> os_files s' = (os_files s)(a := None, b \<mapsto> nd)))"
  using assms
proof (induction k arbitrary: s)
  case 0
  obtain r1 s1 where m: "Rename s a b = (r1, s1)" by (metis prod.exhaust)
  have "r1 = r" "s1 = s'" using 0 m by (cases r1; simp)+
  then show ?case using Rename_files(2,3) [OF m] by metis
next
  case (Suc k)
  obtain r1 s1 where m: "Rename s a b = (r1, s1)" by (metis prod.exhaust)
  show ?case
  proof (cases r1)
    case (Inl e)
    then have "rename_tries (Suc k) s1 a b = (r, s')" using Suc.prems m by simp
    moreover have "os_files s1 = os_files s" using Rename_files(3) [OF m] Inl by simp
    ultimately show ?thesis using Suc.IH [of s1] by simp
  next
    case (Inr u)
    then have "r = Inr ()" "s' = s1" using Suc.prems m by simp_all
    moreover have "r1 = Inr ()" using Inr by simp
    ultimately show ?thesis using Rename_files(2) [OF m] by metis
  qed
qed

lemma Lstat_no_faults:
  assumes "Lstat s n = (l, s')" "os_faults s = []" "os_files s n \<noteq> None" "anc_error s n = None"
  shows "\<exists>d. l = Inr d"
  using assms by (auto simp: Lstat_def pop_no_faults split: if_splits)

text \<open>The name is given in one step, from the partial file as it is then.\<close>

lemma publish_files:
  assumes "publish f s = (r, f', s')"
  shows "same_file f f' \<and> f_p f' = f_p f \<and>
    ((r \<noteq> Inr () \<and> os_frame (own f) s s') \<or>
     (r = Inr () \<and> f' = f \<and> (\<exists>nd. os_files s (part_name f) = Some nd \<and>
          os_files s' = (os_files s)(part_name f := None, f_name f \<mapsto> nd))))"
    "r = Inr () \<Longrightarrow> \<not> p_Overwrite (f_p f) \<Longrightarrow> os_faults s = [] \<Longrightarrow> anc_error s (f_name f) = None \<Longrightarrow>
       os_files s (f_name f) = None"
proof -
  obtain l s1 where l: "Lstat s (f_name f) = (l, s1)" by (metis prod.exhaust)
  have f1: "os_files s1 = os_files s" using Lstat_frame [OF l] by simp
  obtain rt s2 where t: "rename_tries renameTries s1 (part_name f) (f_name f) = (rt, s2)" by (metis prod.exhaust)
  have T: "(rt \<noteq> Inr () \<and> os_files s2 = os_files s) \<or>
    (rt = Inr () \<and> (\<exists>nd. os_files s (part_name f) = Some nd \<and> os_files s2 = (os_files s)(part_name f := None, f_name f \<mapsto> nd)))"
    using rename_tries_files [of 3 s1 "part_name f" "f_name f" rt s2] t f1
    by (simp add: renameTries_def eval_nat_numeral)
  let ?ex = "(\<exists>d. l = Inr d) \<and> \<not> p_Overwrite (f_p f)"
  obtain ru s3 where u: "(if ?ex then (Inl ErrExists, s1) else (map_sum ErrOS id rt, s2)) = (ru, s3)"
    by (metis prod.exhaust)
  have p: "publish f s = (case (ru, s3) of
      (Inl e, s2) \<Rightarrow> (case notePending f s2 of (_, f1, s3) \<Rightarrow> (Inl e, f1, closeJournal f1 s3))
    | (Inr _, s2) \<Rightarrow> (Inr (), f, s2))"
    unfolding publish_def l prod.case t u ..
  show "same_file f f' \<and> f_p f' = f_p f \<and>
    ((r \<noteq> Inr () \<and> os_frame (own f) s s') \<or>
     (r = Inr () \<and> f' = f \<and> (\<exists>nd. os_files s (part_name f) = Some nd \<and>
          os_files s' = (os_files s)(part_name f := None, f_name f \<mapsto> nd))))"
  proof (cases ru)
    case (Inl e)
    have "os_files s3 = os_files s" using u Inl T f1 by (auto split: if_splits)
    then have 3: "os_frame (own f) s s3" by (rule os_frame_same)
    obtain rn g s4 where n: "notePending f s3 = (rn, g, s4)" by (metis prod.exhaust)
    note N = notePending_frame [OF n]
    have "os_frame (own f) s4 (closeJournal g s4)"
      using CloseF_os_frame [of s4 "journal_name g"] by (auto simp: closeJournal_def split: prod.splits) (metis prod.collapse)
    then have "os_frame (own f) s (closeJournal g s4)" using N 3 os_frame_trans by blast
    moreover have "publish f s = (Inl e, g, closeJournal g s4)" using p Inl n by simp
    then have "r = Inl e" "f' = g" "s' = closeJournal g s4" using assms by simp_all
    ultimately show ?thesis using N by simp
  next
    case (Inr v)
    then have "rt = Inr ()" "s3 = s2" using u by (auto split: if_splits)
    moreover have "publish f s = (Inr (), f, s3)" using p Inr by simp
    then have "r = Inr ()" "f' = f" "s' = s3" using assms by simp_all
    ultimately show ?thesis using T by simp
  qed
  show "os_files s (f_name f) = None"
    if "r = Inr ()" "\<not> p_Overwrite (f_p f)" "os_faults s = []" "anc_error s (f_name f) = None"
  proof (rule ccontr)
    assume "os_files s (f_name f) \<noteq> None"
    then have "\<exists>d. l = Inr d" using Lstat_no_faults [OF l] that by blast
    then have "ru = Inl ErrExists" using u that(2) by simp
    then show False using assms p that(1) by (auto split: prod.splits)
  qed
qed

text \<open>What a finished file is: under its name, durable, every chunk with the hash noted.\<close>

definition published :: "(bytes \<Rightarrow> bytes) \<Rightarrow> sfile \<Rightarrow> os \<Rightarrow> bool" where
  "published sha f s \<longleftrightarrow> (\<exists>nd. os_files s (f_name f) = Some nd \<and> fn_sync nd = fn_data nd \<and>
     (\<forall>i < f_n f. Has f i \<and> on_disk sha f (fn_data nd) i (f_hashes f ! i)))"

lemma dropJournal_frame:
  assumes "dropJournal f s = (r, s')"
  shows "os_frame {journal_name f} s s'"
proof -
  obtain rc s1 where c: "CloseF s (journal_name f) = (rc, s1)" by (metis prod.exhaust)
  obtain rm s2 where m: "Remove s1 (journal_name f) = (rm, s2)" by (metis prod.exhaust)
  have "os_frame {journal_name f} s s2"
    by (rule os_frame_trans [OF CloseF_os_frame [OF c] Remove_frame [OF m]]) simp
  then show ?thesis using assms c m by (auto simp: dropJournal_def closeJournal_def split: if_splits)
qed

lemma Finalize_cases:
  assumes "Finalize f s now = (r, f', s')"
  obtains (incomplete) "Hashes f = Inl ErrIncomplete" "f' = f" "s' = s" "r \<noteq> Inr ()"
  | (unpublished) "r \<noteq> Inr ()" "os_frame (own f) s s'"
  | (published) rx f1 s1 s2 s3 s4 where "\<forall>i < f_n f. length (f_have f) = f_n f \<longrightarrow> Has f i" "same_file f f1" "f_p f1 = f_p f"
      "Settle (f\<lparr>f_closed := True\<rparr>) s now = (rx, f1, s1)"
      "(if p_NoSync (f_p f1) then (Inr (), s1) else Sync s1 (part_name f1)) = (Inr (), s2)"
      "CloseF s2 (part_name f1) = (Inr (), s3)"
      "publish f1 s3 = (Inr (), f1, s4)" "dropJournal f1 s4 = (r, s')"
proof (cases "Hashes f")
  case (Inl e)
  then have "e = ErrIncomplete" by (simp add: Hashes_def split: if_splits)
  moreover have "r = Inl e" "f' = f" "s' = s" using assms Inl by (simp_all add: Finalize_def)
  ultimately show thesis using incomplete Inl by blast
next
  case (Inr hs)
  then have have_all: "\<forall>i < f_n f. length (f_have f) = f_n f \<longrightarrow> Has f i"
    by (auto simp: Hashes_def Has_def list_ex_iff split: if_splits)
  show thesis
  proof (cases "f_closed f")
    case True
    then have "r = Inl ErrClosed" "s' = s" using assms Inr by (simp_all add: Finalize_def markClosed_def)
    then show thesis using unpublished by simp
  next
    case False
    let ?f0 = "f\<lparr>f_closed := True\<rparr>"
    have sf0: "same_file f ?f0" by (simp add: same_file_def)
    obtain rx f1 s1 where st: "Settle ?f0 s now = (rx, f1, s1)" by (metis prod.exhaust)
    note S = Settle_frame [OF st, unfolded own_same [OF sf0]]
    have sf1: "same_file f f1" using same_file_trans [OF sf0] S by blast
    have own1: "own f1 = own f" by (rule own_same [OF sf1])
    obtain ry s2 where sy: "(if p_NoSync (f_p f1) then (Inr (), s1) else Sync s1 (part_name f1)) = (ry, s2)"
      by (metis prod.exhaust)
    have 2: "os_frame (own f) s s2"
      using os_frame_trans [of "own f" s s1 s2] S sy Sync_frame [of s1 "part_name f1" ry s2 "own f"] own1
      by (auto simp: own_def split: if_splits)
    obtain rc s3 where c: "CloseF s2 (part_name f1) = (rc, s3)" by (metis prod.exhaust)
    have 3: "os_frame (own f) s s3" by (rule os_frame_trans [OF 2 CloseF_os_frame [OF c]])
    obtain rp f2 s4 where p: "publish f1 s3 = (rp, f2, s4)" by (metis prod.exhaust)
    note P = publish_files(1) [OF p, unfolded own1]
    obtain rd s5 where d: "dropJournal f2 s4 = (rd, s5)" by (metis prod.exhaust)
    show thesis
    proof (cases ry)
      case (Inl e)
      then show thesis using unpublished assms Inr False st sy 2 by (auto simp add: Finalize_def markClosed_def)
    next
      case y: (Inr u)
      show thesis
      proof (cases rc)
        case (Inl e)
        have "os_frame (own f) s3 (closeJournal f1 s3)"
          using CloseF_os_frame [of s3 "journal_name f1"]
          by (cases "CloseF s3 (journal_name f1)") (simp add: closeJournal_def)
        then have "os_frame (own f) s (closeJournal f1 s3)" by (rule os_frame_trans [OF 3])
        then show thesis using unpublished assms Inr False st sy y c Inl
          by (auto simp add: Finalize_def markClosed_def)
      next
        case cc: (Inr v)
        show thesis
        proof (cases rp)
          case (Inl e)
          then have "os_frame (own f) s s4" using P os_frame_trans [OF 3] by blast
          then show thesis using unpublished assms Inr False st sy y c cc p Inl
            by (auto simp add: Finalize_def markClosed_def)
        next
          case pp: (Inr w)
          then have f2: "f2 = f1" using P by simp
          have "r = rd" "s' = s5"
            using assms Inr False st sy y c cc p pp d by (simp_all add: Finalize_def markClosed_def)
          then show thesis
            using published [of f1 rx s1 s2 s3 s4] have_all sf1 S st sy y c cc p pp d f2 by simp
        qed
      qed
    qed
  qed
qed

text \<open>After the wait for the background commit the file is as it was, still within its invariant.\<close>

lemma Settle_run:
  assumes run: "store_run sha name p (f, Idle, s)" and st: "Settle (f\<lparr>f_closed := True\<rparr>) s now = (rx, f1, s1)"
  shows "\<not> p_NoSync (f_p f)" "InvP sha (f_pending f1) f1 s1"
proof -
  let ?f0 = "f\<lparr>f_closed := True\<rparr>"
  show ns: "\<not> p_NoSync (f_p f)" using store_run_inv [OF run] by (simp add: store_inv_def)
  have "store_step sha (f, Idle, s) (?f0, Idle, s)" by (rule store_step.note_file) (simp_all add: same_file_def)
  moreover have "(store_step sha)\<^sup>*\<^sup>* (?f0, Idle, s) (f1, Idle, s1)"
    by (rule Settle_steps [OF st]) (use ns in simp)
  ultimately have "(store_step sha)\<^sup>*\<^sup>* (f, Idle, s) (f1, Idle, s1)" by (rule converse_rtranclp_into_rtranclp)
  then have "store_inv sha (f1, Idle, s1)" using store_run_inv [OF run] by (rule store.run_keeps)
  then show "InvP sha (f_pending f1) f1 s1" by (simp add: store_inv_def)
qed

text \<open>From there to the end without an error: the synced partial file gets the name.\<close>

lemma publish_run:
  assumes f1: "same_file f f1" and pd: "os_files s1 (part_name f1) = Some pd" and dk: "data_ok sha f pd"
    and have_all: "\<forall>i < f_n f. Has f i"
    and sy: "Sync s1 (part_name f1) = (Inr (), s2)" and c: "CloseF s2 (part_name f1) = (Inr (), s3)"
    and p: "publish f1 s3 = (Inr (), f1, s4)" and d: "dropJournal f1 s4 = (r, s')"
  shows "published sha f s'" "os_files s' (part_name f) = None"
    "\<And>n. n \<noteq> f_name f \<Longrightarrow> n \<notin> own f \<Longrightarrow> os_files s' n = os_files s1 n"
proof -
  note g = same_file_simps [OF f1]
  have n1: "f_name f1 = f_name f" using f1 by (simp add: same_file_def)
  let ?pd = "pd\<lparr>fn_sync := fn_data pd\<rparr>"
  have s2: "os_files s2 = (os_files s1)(part_name f1 \<mapsto> ?pd)" using Sync_files(2) [OF sy pd] by simp
  have s3: "os_files s3 = os_files s2" using CloseF_frame [OF c] by simp
  obtain nd where nd: "os_files s3 (part_name f1) = Some nd"
    "os_files s4 = (os_files s3)(part_name f1 := None, f_name f1 \<mapsto> nd)"
    using publish_files(1) [OF p] by auto
  have "nd = ?pd" using nd(1) s2 s3 by simp
  have D: "os_frame {journal_name f1} s4 s'" by (rule dropJournal_frame [OF d])
  have "os_files s' (f_name f) = Some nd"
    using D nd(2) n1 name_not_part(3) [of f1] by (simp add: os_frame_def)
  then show "published sha f s'"
    unfolding published_def using \<open>nd = ?pd\<close> have_all dk by (auto simp: data_ok_def Has_def)
  show "os_files s' (part_name f) = None" using D nd(2) g(2) n1 by (auto simp: os_frame_def)
  show "os_files s' n = os_files s1 n" if n: "n \<noteq> f_name f" "n \<notin> own f" for n
    using D nd(2) s3 s2 n n1 g(2) by (auto simp: os_frame_def own_def)
qed

text \<open>C19. A file gets its name only when it is complete and durable (STO-01): whatever the disk
  refuses, \<^verbatim>\<open>Finalize\<close> either leaves the name as it was, or has put there a file that has every
  chunk with its hash and is synced; when it succeeds it did the latter and the partial file is
  gone. It touches no other name.\<close>

theorem finalize_publishes:
  assumes run: "store_run sha name p (f, Idle, s)" and r: "Finalize f s now = (r, f', s')"
  shows "(os_files s' (f_name f) = os_files s (f_name f) \<or> published sha f s') \<and>
    (r = Inr () \<longrightarrow> published sha f s' \<and> os_files s' (part_name f) = None) \<and>
    (\<forall>n. n \<noteq> f_name f \<and> n \<noteq> part_name f \<and> n \<noteq> journal_name f \<longrightarrow> os_files s' n = os_files s n)"
  using r
proof (cases rule: Finalize_cases)
  case incomplete
  then show ?thesis by simp
next
  case unpublished
  then show ?thesis by (auto simp: os_frame_def own_def)
next
  case (published rx f1 s1 s2 s3 s4)
  note S = Settle_run [OF run published(4)]
  note g = same_file_simps [OF published(2)]
  obtain pd where pd: "os_files s1 (part_name f1) = Some pd" using S(2) by (auto simp: InvP_def)
  have dk: "data_ok sha f pd" "shape_ok f" using InvP_D(1,3) [OF S(2) pd] g(9,10) by simp_all
  have "\<forall>i < f_n f. Has f i" using published(1) dk(2) by (simp add: shape_ok_def)
  moreover have "Sync s1 (part_name f1) = (Inr (), s2)" using published(3,5) S(1) by simp
  ultimately have P: "published sha f s'" "os_files s' (part_name f) = None"
    "\<And>n. n \<noteq> f_name f \<Longrightarrow> n \<notin> own f \<Longrightarrow> os_files s' n = os_files s1 n"
    using publish_run [OF published(2) pd dk(1) _ _ published(6-8)] by blast+
  have "own (f\<lparr>f_closed := True\<rparr>) = own f" by (simp add: own_def osName_def)
  then have "os_frame (own f) s s1" using Settle_frame [OF published(4)] by simp
  then show ?thesis using P by (auto simp: os_frame_def own_def)
qed

definition ex_s5 :: os where
  "ex_s5 = ex_os\<lparr>os_files := [''a'' \<mapsto> \<lparr>fn_data = ex_data, fn_sync = ex_data\<rparr>]\<rparr>"

lemma ex_finalize: "Finalize ex_f2 ex_s2 0 = (Inr (), ex_f2\<lparr>f_closed := True\<rparr>, ex_s5)"
proof -
  let ?f = "ex_f2\<lparr>f_closed := True\<rparr>" and ?nd = "\<lparr>fn_data = ex_data, fn_sync = ex_data\<rparr>"
  let ?s3 = "ex_os\<lparr>os_files := [''a'' \<mapsto> ?nd, ''a.part.state'' \<mapsto> \<lparr>fn_data = ex_journal, fn_sync = ex_journal\<rparr>]\<rparr>"
  have ff: "f_have ex_f2 = [True]" "f_closed ex_f2 = False" "f_bg ex_f2 = False" "f_bgErr ex_f2 = None"
    "p_NoSync (f_p ex_f2) = False" "p_Overwrite (f_p ex_f2) = False" "f_journal ex_f2 = True" "f_name ex_f2 = ''a''"
    by (simp_all add: ex_f2_def ex_f1_def ex_f0_def new_file_def reset_chunks_def ex_params_def default_params_def)
  have n: "part_name ?f = ''a.part''" "journal_name ?f = ''a.part.state''" "f_name ?f = ''a''"
    using ex_names2 ff by (simp_all add: osName_def)
  have pop: "pop ex_s2 = (None, ex_s2)" "pop ?s3 = (None, ?s3)"
    by (simp_all add: pop_def ex_s2_def ex_os_def)
  have nd: "os_files ex_s2 ''a.part'' = Some ?nd" "os_files ex_s2 ''a'' = None" "os_dirs ex_s2 = {}"
    by (simp_all add: ex_s2_def ex_os_def)
  have anc: "anc_error s ''a'' = None" "anc_error s ''a.part.state'' = None" for s
    by (simp_all add: anc_error_def ex_ancestors) (simp add: ancestors_def upt_rec)
  have sy: "Sync ex_s2 ''a.part'' = (Inr (), ex_s2)"
    by (simp add: Sync_def pop nd) (simp add: ex_s2_def fun_upd_twist)
  have cl: "CloseF ex_s2 ''a.part'' = (Inr (), ex_s2)" "CloseF ?s3 ''a.part.state'' = (Inr (), ?s3)"
    by (simp_all add: CloseF_def pop)
  have ls: "Lstat ex_s2 ''a'' = (Inl NotExist, ex_s2)" by (simp add: Lstat_def pop nd anc)
  have "Rename ex_s2 ''a.part'' ''a'' = (Inr (), ?s3)"
    by (simp add: Rename_def pop nd anc) (auto simp: ex_s2_def ex_os_def fun_eq_iff)
  then have rn: "rename_tries renameTries ex_s2 ''a.part'' ''a'' = (Inr (), ?s3)"
    by (simp add: renameTries_def eval_nat_numeral)
  have pb: "publish ?f ex_s2 = (Inr (), ?f, ?s3)"
    unfolding publish_def n ls using rn by simp
  have rm: "Remove ?s3 ''a.part.state'' = (Inr (), ex_s5)"
    by (simp add: Remove_def pop anc) (auto simp: ex_s5_def ex_os_def fun_eq_iff)
  have dj: "dropJournal ?f ?s3 = (Inr (), ex_s5)"
    unfolding dropJournal_def closeJournal_def n using cl rm ff by simp
  have st: "Settle ?f ex_s2 0 = (Inr (), ?f, ex_s2)"
  proof -
    have "?f\<lparr>f_bgErr := None\<rparr> = ?f" using ff by simp
    then show ?thesis using ff by (simp add: Settle_def)
  qed
  have "Hashes ex_f2 = Inr (f_hashes ex_f2)" by (simp add: Hashes_def ff)
  then show ?thesis
    using st sy cl pb dj ff n by (simp add: Finalize_def markClosed_def)
qed

theorem finalize_publishes_witness:
  "published ex_sha ex_f2 ex_s5 \<and> os_files ex_s5 (part_name ex_f2) = None"
  using finalize_publishes [OF ex_run ex_finalize] by simp

text \<open>A file of the user is never replaced unless the transfer says so: when the disk answers
  (\<^verbatim>\<open>Lstat\<close> does not fail), \<^verbatim>\<open>publish\<close> of a file without \<^verbatim>\<open>Overwrite\<close> refuses a name that is
  taken, and leaves what is there.\<close>

theorem publish_keeps_existing:
  assumes "publish f s = (r, f', s')" "\<not> p_Overwrite (f_p f)" "os_faults s = []"
    and "anc_error s (f_name f) = None" "os_files s (f_name f) \<noteq> None"
  shows "r \<noteq> Inr () \<and> os_files s' (f_name f) = os_files s (f_name f)"
  using publish_files [OF assms(1)] assms by (auto simp: os_frame_def own_def)

definition ex_taken :: os where
  "ex_taken = ex_os\<lparr>os_files := [''a'' \<mapsto> \<lparr>fn_data = [9], fn_sync = [9]\<rparr>,
     ''a.part'' \<mapsto> \<lparr>fn_data = ex_data, fn_sync = ex_data\<rparr>]\<rparr>"

theorem publish_keeps_existing_witness:
  "fst (publish ex_f2 ex_taken) \<noteq> Inr () \<and>
   os_files (snd (snd (publish ex_f2 ex_taken))) ''a'' = Some \<lparr>fn_data = [9], fn_sync = [9]\<rparr>"
proof -
  obtain r f' s' where p: "publish ex_f2 ex_taken = (r, f', s')" by (metis prod.exhaust)
  have fn: "f_name ex_f2 = ''a''" "\<not> p_Overwrite (f_p ex_f2)"
    by (simp_all add: ex_f2_def ex_f1_def ex_f0_def ex_params_def)
  have tk: "os_faults ex_taken = []" "anc_error ex_taken (f_name ex_f2) = None"
    "os_files ex_taken (f_name ex_f2) = Some \<lparr>fn_data = [9], fn_sync = [9]\<rparr>"
    unfolding fn by (simp_all add: ex_taken_def ex_os_def anc_error_def ancestors_def upt_rec)
  show ?thesis
    using publish_keeps_existing [OF p fn(2) tk(1,2)] tk(3) p fn(1) by simp
qed

text \<open>The test for a taken name takes any failure of \<^verbatim>\<open>Lstat\<close> for a free name: when that call
  fails with an I/O error and the rename works, a file of the user is replaced although the
  transfer must not overwrite.\<close>

theorem publish_replaces_when_lstat_fails:
  "publish ex_f2 (ex_taken\<lparr>os_faults := [Fault 0]\<rparr>) =
     (Inr (), ex_f2, ex_taken\<lparr>os_files := [''a'' \<mapsto> \<lparr>fn_data = ex_data, fn_sync = ex_data\<rparr>]\<rparr>)"
proof -
  have fn: "f_name ex_f2 = ''a''" "part_name ex_f2 = ''a.part''"
    using ex_names2 by (simp_all add: ex_f2_def ex_f1_def ex_f0_def)
  have l: "Lstat (ex_taken\<lparr>os_faults := [Fault 0]\<rparr>) ''a'' = (Inl IOError, ex_taken)"
    by (simp add: Lstat_def pop_def ex_taken_def ex_os_def)
  have "Rename ex_taken ''a.part'' ''a'' =
      (Inr (), ex_taken\<lparr>os_files := [''a'' \<mapsto> \<lparr>fn_data = ex_data, fn_sync = ex_data\<rparr>]\<rparr>)"
    by (simp add: Rename_def pop_def ex_taken_def ex_os_def anc_error_def ancestors_def upt_rec)
  then have "rename_tries renameTries ex_taken ''a.part'' ''a'' =
      (Inr (), ex_taken\<lparr>os_files := [''a'' \<mapsto> \<lparr>fn_data = ex_data, fn_sync = ex_data\<rparr>]\<rparr>)"
    by (simp add: renameTries_def eval_nat_numeral)
  then show ?thesis unfolding publish_def fn l by simp
qed

end
