(* ===== verification/StoreSaved.thy ===== *)
theory StoreSaved
  imports StoreFinal
begin

text \<open>
  A commit loses nothing: once it succeeds, its records and those before it are in the journal,
  synced, and \<^verbatim>\<open>load\<close> reads every one of them back.
\<close>

text \<open>The records the journal holds before the commit; none when there is no journal yet.\<close>

definition journal_holds :: "sfile \<Rightarrow> os \<Rightarrow> jrecord list \<Rightarrow> bool" where
  "journal_holds f s recs \<longleftrightarrow>
     (if f_journal f
      then \<exists>jd junk. os_files s (journal_name f) = Some jd \<and> fn_data jd = header f @ recs_bytes recs @ junk \<and>
             f_journalEnd f = headerLen + recordLen * length recs
      else recs = []) \<and> (\<forall>r \<in> set recs. length (snd r) = 32)"

lemma journal_holds_ex:
  assumes "journal_ok f pend s pd"
  shows "\<exists>recs. journal_holds f s recs \<and> (\<forall>r \<in> set recs. rec_good f pd r)"
proof (cases "f_journal f")
  case True
  with assms obtain jd where jd: "os_files s (journal_name f) = Some jd"
    by (auto simp: journal_ok_def split: option.splits)
  obtain recs junk where js: "journal_shape f pd pend (fn_data jd) recs junk"
    using journal_ok_write [OF assms True jd] .
  then have "journal_holds f s recs"
    using True jd by (auto simp: journal_holds_def journal_shape_def rec_good_def dest: known_hash)
  then show ?thesis using js by (auto simp: journal_shape_def)
qed (simp add: journal_holds_def)

lemma commit_records_writes:
  assumes r: "commit_records f s batch = (Inr (), f', s')" and sh: "shape_ok f"
    and h: "journal_holds f s recs" and ns: "\<not> p_NoSync (f_p f)"
  shows "\<exists>jd junk. os_files s' (journal_name f) = Some jd \<and>
    fn_data jd = header f @ recs_bytes (recs @ batch) @ junk \<and> fn_sync jd = fn_data jd"
proof -
  obtain re f1 s1 where e: "ensureJournal f s = (re, f1, s1)" by (metis prod.exhaust)
  note E = ensureJournal_frame [OF e]
  have re: "re = Inr ()" using r e by (cases re) (simp_all add: commit_records_def Let_def)
  have "\<exists>jd junk. os_files s1 (journal_name f) = Some jd \<and> fn_data jd = header f @ recs_bytes recs @ junk \<and>
      f_journalEnd f1 = headerLen + recordLen * length recs"
  proof (cases "f_journal f")
    case True
    then have "f1 = f" "s1 = s" using e by (simp_all add: ensureJournal_def)
    then show ?thesis using h True by (simp add: journal_holds_def)
  next
    case False
    then show ?thesis
      using ensureJournal_new [OF e [unfolded re] False] h by (simp add: journal_holds_def)
  qed
  then obtain jd junk where jd: "os_files s1 (journal_name f) = Some jd"
    "fn_data jd = (header f @ recs_bytes recs) @ junk" "f_journalEnd f1 = headerLen + recordLen * length recs"
    by auto
  have jn: "journal_name f1 = journal_name f" using same_file_simps(2) [of f f1] E by simp
  have l: "length (header f @ recs_bytes recs) = f_journalEnd f1"
    using jd(3) sh h length_recs_bytes [of recs] by (simp add: shape_ok_def journal_holds_def)
  obtain rw s2 where w: "WriteAt s1 (journal_name f1) (f_journalEnd f1) (recs_bytes batch) = (rw, s2)"
    by (metis prod.exhaust)
  have rw: "rw = Inr ()" using r e re w by (cases rw) (simp_all add: commit_records_def Let_def)
  from WriteAt_files(2) [OF w jd(1) [folded jn]] rw
  have s2: "os_files s2 (journal_name f) = Some (jd\<lparr>fn_data := write_at (fn_data jd) (f_journalEnd f1) (recs_bytes batch)\<rparr>)"
    by (auto simp: jn)
  have wd: "write_at (fn_data jd) (f_journalEnd f1) (recs_bytes batch)
      = header f @ recs_bytes (recs @ batch) @ drop (length (recs_bytes batch)) junk"
    unfolding jd(2) l [symmetric] write_at_tail by simp
  obtain rs s3 where sy: "Sync s2 (journal_name f1) = (rs, s3)" by (metis prod.exhaust)
  have ns1: "\<not> p_NoSync (f_p f1)" using ns E by simp
  have rs: "rs = Inr ()" and s': "s' = s3"
    using r e re w rw sy ns1 by (cases rs; simp add: commit_records_def Let_def)+
  from Sync_files(2) [OF sy s2 [folded jn] rs] show ?thesis using s' wd by (simp add: jn)
qed

text \<open>\<^verbatim>\<open>load\<close> reads all the records at the start of a journal.\<close>

lemma load_reads:
  assumes l: "load f s = (Inr (), g, s')" and nf: "os_faults s = []"
    and jd: "contents s (journal_name f) = header f @ recs_bytes recs @ junk"
    and sh: "length (header f) = headerLen"
    and recs: "\<forall>r \<in> set recs. length (snd r) = 32 \<and> fst r < f_n f" "f_n f < 2 ^ 32"
    and f: "length (f_have f) = f_n f" "length (f_hashes f) = f_n f"
  shows "\<exists>rs. set recs \<subseteq> set rs \<and>
    g = (foldl apply_rec f rs)\<lparr>f_journalEnd := headerLen + recordLen * length rs\<rparr> \<and>
    (\<forall>r \<in> set rs. \<exists>k. valid_block (f_n f) (block k (contents s (journal_name f))) \<and>
       r = rec_of (block k (contents s (journal_name f))))"
proof -
  let ?c = "contents s (journal_name f)"
  from load_spec(6) [OF l refl] obtain rs where
    g: "g = (foldl apply_rec f rs)\<lparr>f_journalEnd := headerLen + recordLen * length rs\<rparr>"
    and rs: "\<forall>k < length rs. valid_block (f_n f) (block k ?c) \<and> rs ! k = rec_of (block k ?c)"
    and stop: "\<not> valid_block (f_n f) (block (length rs) ?c)" using nf by auto
  have blk: "block k ?c = rec_bytes (recs ! k)" if k: "k < length recs" for k
  proof -
    have l32: "\<forall>r \<in> set recs. length (snd r) = 32" using recs by simp
    have "block k ?c = slice (recordLen * k) recordLen (recs_bytes recs @ junk)"
      unfolding jd using sh by (simp add: slice_def)
    also have "\<dots> = slice (recordLen * k) recordLen (recs_bytes recs)"
    proof (rule slice_append1)
      show "recordLen * k + recordLen \<le> length (recs_bytes recs)"
        using length_recs_bytes [OF l32] mult_le_mono2 [of "Suc k" "length recs" recordLen] k by simp
    qed
    also have "\<dots> = rec_bytes (recs ! k)" by (rule slice_recs [OF l32 k])
    finally show ?thesis .
  qed
  have valid: "valid_block (f_n f) (block k ?c)" "rec_of (block k ?c) = recs ! k" if k: "k < length recs" for k
  proof -
    have "length (snd (recs ! k)) = 32" "fst (recs ! k) < f_n f" using recs(1) k by simp_all
    then show "valid_block (f_n f) (block k ?c)" "rec_of (block k ?c) = recs ! k"
      using blk [OF k] rec_of_rec_bytes(1) [of "recs ! k"] rec_of_rec_bytes(2) [of "recs ! k" "f_n f"] recs(2)
      by simp_all
  qed
  have "length recs \<le> length rs" using stop valid by (meson not_le_imp_less)
  moreover have "take (length recs) rs = recs"
    using calculation valid rs by (intro nth_equalityI) simp_all
  ultimately have "set recs \<subseteq> set rs" by (metis set_take_subset)
  moreover have "\<forall>r \<in> set rs. \<exists>k. valid_block (f_n f) (block k ?c) \<and> r = rec_of (block k ?c)"
    using rs unfolding in_set_conv_nth Ball_def by blast
  ultimately show ?thesis using g by blast
qed

text \<open>What a commit that succeeds leaves of the journal.\<close>

lemma Commit_journal:
  assumes I: "InvP sha (f_pending f) f s" and ns: "\<not> p_NoSync (f_p f)"
    and c: "Commit f s now = (Inr (), f', s')" and pend: "f_pending f \<noteq> []"
  obtains jd recs junk where "os_files s' (journal_name f) = Some jd" "fn_sync jd = fn_data jd"
    "fn_data jd = header f @ recs_bytes (recs @ f_pending f) @ junk"
    "\<forall>r \<in> set (recs @ f_pending f). known f r" "InvP sha [] f' s'" "same_file f f'"
proof -
  let ?b = "f_pending f" and ?f = "f\<lparr>f_pending := [], f_pendingBytes := 0, f_lastCommit := now\<rparr>"
  have sf: "same_file f ?f" by (simp add: same_file_def)
  note fs = same_file_simps [OF sf]
  obtain pd where pd: "os_files s (part_name f) = Some pd" using I by (auto simp: InvP_def)
  note D = InvP_D [OF I pd]
  obtain s1 where sy: "Sync s (part_name ?f) = (Inr (), s1)" and cr: "commit_records ?f s1 ?b = (Inr (), f', s')"
    using c pend ns by (auto simp: Commit_def commit_def Let_def split: prod.splits sum.splits)
  have s1: "os_files s1 (journal_name f) = os_files s (journal_name f)"
    using Sync_files(2) [OF sy pd [folded fs(2)]] by (simp add: fs(2))
  obtain recs where recs: "journal_holds f s recs" "\<forall>r \<in> set recs. rec_good f pd r"
    using journal_holds_ex [OF D(4)] by blast
  have "journal_holds ?f s1 recs = journal_holds f s recs" unfolding journal_holds_def fs(1,2) s1 by simp
  then have "journal_holds ?f s1 recs" using recs(1) by simp
  moreover have "shape_ok ?f" "\<not> p_NoSync (f_p ?f)" using D(1) ns by (simp_all add: fs(9))
  ultimately obtain jd junk where jd: "os_files s' (journal_name f) = Some jd"
    "fn_data jd = header f @ recs_bytes (recs @ ?b) @ junk" "fn_sync jd = fn_data jd"
    using commit_records_writes [OF cr, of recs] unfolding fs(1,2) by blast
  have kn: "\<forall>r \<in> set (recs @ ?b). known f r" using recs(2) D(2) by (auto simp: rec_good_def)
  have If: "InvP sha (?b @ []) ?f s" using InvP_same_file [OF I sf] by simp
  have cm: "commit ?f s ?b = (Inr (), f', s')" using sy cr ns by (simp add: commit_def)
  have "InvP sha [] f' s'" "same_file f f'"
    using commit_InvP [OF If _ cm] ns same_file_trans [OF sf] by simp_all
  then show thesis using that jd kn by blast
qed

text \<open>Every record read from it is one the file knows, and reading it gives its chunk and hash.\<close>

lemma loaded_known:
  assumes I: "InvP sha pend f' s'" and sf: "same_file f f'" and jd: "os_files s' (journal_name f) = Some jd"
    and rs: "\<forall>r \<in> set rs. \<exists>k. valid_block (f_n f) (block k (fn_data jd)) \<and> r = rec_of (block k (fn_data jd))"
  shows "\<forall>r \<in> set rs. snd r = f_hashes f ! fst r \<and> fst r < f_n f"
proof
  fix r assume "r \<in> set rs"
  then obtain k where k: "valid_block (f_n f) (block k (fn_data jd))" "r = rec_of (block k (fn_data jd))"
    using rs by (meson bspec)
  note fs = same_file_simps [OF sf]
  have n: "f_n f' = f_n f" using sf by (simp add: same_file_def)
  obtain pd where pd: "os_files s' (part_name f') = Some pd" using I by (auto simp: InvP_def)
  have "rec_good f' pd r"
    using block_rec_good [OF I pd jd [folded fs(2)] k(1) [folded n]] k(2) by simp
  then show "snd r = f_hashes f ! fst r \<and> fst r < f_n f"
    by (simp add: fs(7) rec_good_def known_def)
qed

lemma loaded_has:
  assumes H: "\<forall>r \<in> set rs. snd r = f_hashes f ! fst r \<and> fst r < f_n f" and r: "r \<in> set rs"
    and n: "f_n f = unat (param_chunks (f_p f))"
    and g: "g = foldl apply_rec (new_file (f_name f) (f_p f) now) rs"
  shows "Has (g\<lparr>f_journalEnd := e\<rparr>) (fst r) \<and> f_hashes (g\<lparr>f_journalEnd := e\<rparr>) ! fst r = snd r"
proof -
  let ?n = "new_file (f_name f) (f_p f) now"
  have lt: "fst r < unat (param_chunks (f_p f))" "fst r \<in> fst ` set rs" using H r n by auto
  have "f_have g ! fst r" using apply_recs_have [of "fst r" ?n rs] lt by (simp add: g)
  moreover have "f_hashes g ! fst r = f_hashes f ! fst r"
    using apply_recs_hash [of rs "\<lambda>i. f_hashes f ! i" "fst r" ?n] H lt by (simp add: g)
  moreover have "f_n g = unat (param_chunks (f_p f))" by (simp add: g)
  ultimately show ?thesis using lt H r by (simp add: Has_def)
qed



end
