(* ===== verification/Folders.thy ===== *)
theory Folders
  imports Store Candidates
begin

text \<open>
  The root folder of a transfer of several files (\<^verbatim>\<open>pkg/store/rootdir.go\<close>): its name is found
  without writing, a marker in it holds the transfer's key, and the folder appears under its
  name with its marker at once. The calls on folders the store's files do not need are added
  to the disk here; a \<^verbatim>\<open>RemoveAll\<close> that fails has removed nothing.
\<close>

section \<open>Folders on the disk\<close>

definition below :: "string \<Rightarrow> string \<Rightarrow> bool" where
  "below d n \<longleftrightarrow> prefix (d @ ''/'') n"

definition Mkdir :: "os \<Rightarrow> string \<Rightarrow> (os_error + unit) \<times> os" where
  "Mkdir s d = (case pop s of
     (Some _, s') \<Rightarrow> (Inl IOError, s')
   | (None, s') \<Rightarrow>
       (case anc_error s' d of
          Some e \<Rightarrow> (Inl e, s')
        | None \<Rightarrow>
            if d \<in> os_dirs s' \<or> os_files s' d \<noteq> None then (Inl Exist, s')
            else (Inr (), s'\<lparr>os_dirs := insert d (os_dirs s')\<rparr>)))"

definition RemoveAll :: "os \<Rightarrow> string \<Rightarrow> (os_error + unit) \<times> os" where
  "RemoveAll s d = (case pop s of
     (Some _, s') \<Rightarrow> (Inl IOError, s')
   | (None, s') \<Rightarrow>
       (Inr (), s'\<lparr>os_files := (\<lambda>n. if n = d \<or> below d n then None else os_files s' n),
                   os_dirs := {n \<in> os_dirs s'. n \<noteq> d \<and> \<not> below d n}\<rparr>))"

definition WriteFile :: "os \<Rightarrow> string \<Rightarrow> bytes \<Rightarrow> (os_error + unit) \<times> os" where
  "WriteFile s n d = (case pop s of
     (flt, s') \<Rightarrow>
       (case anc_error s' n of
          Some e \<Rightarrow> (Inl e, s')
        | None \<Rightarrow>
            if n \<in> os_dirs s' then (Inl IsDir, s')
            else
              (if flt = None then Inr () else Inl IOError,
               s'\<lparr>os_files := (os_files s')(n \<mapsto>
                 \<lparr>fn_data = (case flt of None \<Rightarrow> d | Some k \<Rightarrow> take k d), fn_sync = []\<rparr>)\<rparr>)))"

text \<open>\<^verbatim>\<open>Rename\<close> of a folder, with all that is in it; the target must not be there, or be an
  empty folder.\<close>

definition RenameDir :: "os \<Rightarrow> string \<Rightarrow> string \<Rightarrow> (os_error + unit) \<times> os" where
  "RenameDir s a b = (case pop s of
     (Some _, s') \<Rightarrow> (Inl IOError, s')
   | (None, s') \<Rightarrow>
       if a \<notin> os_dirs s' then (Inl NotExist, s')
       else
         case anc_error s' b of
           Some e \<Rightarrow> (Inl e, s')
         | None \<Rightarrow>
             if os_files s' b \<noteq> None then (Inl NotDir, s')
             else if b \<in> os_dirs s' \<and> ((\<exists>n \<in> dom (os_files s'). below b n) \<or> (\<exists>n \<in> os_dirs s'. below b n))
               then (Inl Exist, s')
             else
               (Inr (), s'\<lparr>os_files := (\<lambda>n. if below b n then os_files s' (a @ drop (length b) n)
                                              else if below a n then None else os_files s' n),
                           os_dirs := insert b ({n \<in> os_dirs s'. n \<noteq> a \<and> \<not> below a n} \<union>
                                        {b @ drop (length a) n |n. n \<in> os_dirs s' \<and> below a n})\<rparr>))"

section \<open>The marker\<close>

definition MarkerName :: string where "MarkerName = ''.medxfer-transfer''"

definition markerMagic :: bytes where "markerMagic = bytes_of ''MXROOT'' @ [0, 1]"

definition RootKey_input :: "bytes \<Rightarrow> string \<Rightarrow> int \<Rightarrow> int \<Rightarrow> bytes" where
  "RootKey_input sender root items tot =
     bytes_of ''medxfer-v1-root'' @ sender @ put64 (of_nat (length root)) @ bytes_of root
       @ put64 (word_of_int items) @ put64 (word_of_int tot)"

definition RootKey :: "(bytes \<Rightarrow> bytes) \<Rightarrow> bytes \<Rightarrow> string \<Rightarrow> int \<Rightarrow> int \<Rightarrow> bytes" where
  "RootKey sha sender root items tot = sha (RootKey_input sender root items tot)"

datatype place_error =
    PathConflict string
  | EmptyRootName
  | NoFreeName string
  | PlaceOS os_error

datatype policy = PolicyAutoRename | PolicyOverwrite | PolicySkip

record root_place =
  rp_Name :: string
  rp_Resume :: bool
  rp_Skip :: bool

definition maxCandidates :: nat where "maxCandidates = 1000"

definition hasMarker :: "os \<Rightarrow> string \<Rightarrow> bytes \<Rightarrow> bool \<times> os" where
  "hasMarker s dir key =
     (case OpenFile s (dir @ ''/'' @ MarkerName) False of
        (Inl _, s1) \<Rightarrow> (False, s1)
      | (Inr _, s1) \<Rightarrow>
          (case ReadAt s1 (dir @ ''/'' @ MarkerName) 0 (length markerMagic + length key) of
             ((b, ok), s2) \<Rightarrow>
               (ok \<and> take 8 b = markerMagic \<and> drop 8 b = key,
                snd (CloseF s2 (dir @ ''/'' @ MarkerName)))))"

section \<open>Finding the folder\<close>

fun resolve_root :: "nat list \<Rightarrow> os \<Rightarrow> string \<Rightarrow> bytes \<Rightarrow> policy \<Rightarrow> (place_error + root_place) \<times> os" where
  "resolve_root [] s base key policy = (Inl (NoFreeName base), s)"
| "resolve_root (count # counts) s base key policy =
     (let c = FormatCandidateName [] base count [] in
      case Lstat s c of
        (Inl e, s1) \<Rightarrow>
          if e = NotExist then (Inr \<lparr>rp_Name = c, rp_Resume = False, rp_Skip = False\<rparr>, s1)
          else (Inl (PathConflict c), s1)
      | (Inr isdir, s1) \<Rightarrow>
          (case (if isdir then hasMarker s1 c key else (False, s1)) of
             (m, s2) \<Rightarrow>
               if m then (Inr \<lparr>rp_Name = c, rp_Resume = True, rp_Skip = False\<rparr>, s2)
               else if count = 0 \<and> policy = PolicySkip
                 then (Inr \<lparr>rp_Name = c, rp_Resume = False, rp_Skip = True\<rparr>, s2)
               else resolve_root counts s2 base key policy))"

definition ResolveRoot :: "os \<Rightarrow> string \<Rightarrow> bytes \<Rightarrow> policy \<Rightarrow> (place_error + root_place) \<times> os" where
  "ResolveRoot s base key policy =
     (if base = [] then (Inl EmptyRootName, s)
      else resolve_root [0..<maxCandidates] s base key policy)"

section \<open>Making and unmaking it\<close>

fun rename_dir_tries :: "nat \<Rightarrow> os \<Rightarrow> string \<Rightarrow> string \<Rightarrow> (os_error + unit) \<times> os" where
  "rename_dir_tries 0 s a b = (Inl IOError, s)"
| "rename_dir_tries (Suc k) s a b =
     (case RenameDir s a b of
        (Inr u, s1) \<Rightarrow> (Inr u, s1)
      | (Inl e, s1) \<Rightarrow> if k = 0 then (Inl e, s1) else rename_dir_tries k s1 a b)"

definition root_tmp :: "string \<Rightarrow> bytes \<Rightarrow> string" where
  "root_tmp dir key = path_Join (path_Dir dir) (''.medxfer-'' @ hex (take 8 key))"

definition MarkRoot :: "os \<Rightarrow> string \<Rightarrow> bytes \<Rightarrow> (place_error + unit) \<times> os" where
  "MarkRoot s dir key =
     (case hasMarker s dir key of
        (True, s0) \<Rightarrow> (Inr (), s0)
      | (False, s0) \<Rightarrow>
          (case (if path_Dir dir \<noteq> ''.'' then MkdirAll s0 (path_Dir dir) else (Inr (), s0)) of
             (Inl _, s1) \<Rightarrow> (Inl (PathConflict (path_Dir dir)), s1)
           | (Inr _, s1) \<Rightarrow>
               let tmp = root_tmp dir key in
               case RemoveAll s1 tmp of
                 (Inl e, s2) \<Rightarrow> (Inl (PlaceOS e), s2)
               | (Inr _, s2) \<Rightarrow>
                   (case Mkdir s2 tmp of
                      (Inl e, s3) \<Rightarrow> (Inl (PlaceOS e), s3)
                    | (Inr _, s3) \<Rightarrow>
                        (case WriteFile s3 (tmp @ ''/'' @ MarkerName) (markerMagic @ key) of
                           (Inl e, s4) \<Rightarrow> (Inl (PlaceOS e), snd (RemoveAll s4 tmp))
                         | (Inr _, s4) \<Rightarrow>
                             (case rename_dir_tries 4 s4 tmp dir of
                                (Inr _, s5) \<Rightarrow> (Inr (), s5)
                              | (Inl e, s5) \<Rightarrow> (Inl (PathConflict dir), snd (RemoveAll s5 tmp)))))))"

definition UnmarkRoot :: "os \<Rightarrow> string \<Rightarrow> bytes \<Rightarrow> (place_error + unit) \<times> os" where
  "UnmarkRoot s dir key =
     (case hasMarker s dir key of
        (False, s1) \<Rightarrow> (Inr (), s1)
      | (True, s1) \<Rightarrow>
          (case Remove s1 (dir @ ''/'' @ MarkerName) of (r, s2) \<Rightarrow> (map_sum PlaceOS id r, s2)))"

section \<open>Keys\<close>

lemma put64_word_inject:
  assumes "in_int64 a" "in_int64 b" "put64 (word_of_int a) = put64 (word_of_int b)"
  shows "a = b"
proof -
  have e: "(word_of_int a :: 64 word) = word_of_int b" using assms(3) by simp
  then have "uint (word_of_int a :: 64 word) = uint (word_of_int b :: 64 word)" by simp
  then have "a mod 2 ^ 64 = b mod 2 ^ 64" by (simp add: uint_word_of_int)
  then have "wrap64 a = wrap64 b" unfolding wrap64_def by (metis mod_add_cong)
  then show ?thesis using assms(1,2) by simp
qed

text \<open>A field of known length, the length of a name, the name, and two numbers.\<close>

lemma key_fields_inject:
  assumes e: "a @ put64 (of_nat (length p)) @ bytes_of p @ put64 x @ put64 y
            = b @ put64 (of_nat (length q)) @ bytes_of q @ put64 x' @ put64 y'"
    and "length a = length b" "length p < 2 ^ 64" "length q < 2 ^ 64"
  shows "a = b \<and> p = q \<and> x = x' \<and> y = y'"
proof -
  have ab: "a = b" and r: "put64 (of_nat (length p)) @ bytes_of p @ put64 x @ put64 y
            = put64 (of_nat (length q)) @ bytes_of q @ put64 x' @ put64 y'"
    using e assms(2) by (simp_all add: append_eq_append_conv)
  then have "(of_nat (length p) :: 64 word) = of_nat (length q)"
    and r2: "bytes_of p @ put64 x @ put64 y = bytes_of q @ put64 x' @ put64 y'"
    by (simp_all add: append_eq_append_conv)
  then have "unat (of_nat (length p) :: 64 word) = unat (of_nat (length q) :: 64 word)" by simp
  then have "length p = length q" using assms(3,4) by (simp add: unat_of_nat)
  with r2 have "bytes_of p = bytes_of q" "put64 x @ put64 y = put64 x' @ put64 y'"
    by (simp_all add: append_eq_append_conv)
  then show ?thesis using ab by (simp add: bytes_of_inject append_eq_append_conv)
qed

text \<open>The keys of a partial file and of a root folder bind what they are made of: two equal
  keys mean the same sender, name and numbers (size and time, or count and total), unless the two
  hashed inputs, which then differ, are a collision of SHA-256.\<close>

theorem resume_keys_bind:
  assumes "length sender = 32" "length sender' = 32" "length n < 2 ^ 64" "length n' < 2 ^ 64"
    and "in_int64 a" "in_int64 b" "in_int64 a'" "in_int64 b'"
  shows "(ResumeKey sha sender n a b = ResumeKey sha sender' n' a' b' \<longrightarrow>
      (sender, n, a, b) = (sender', n', a', b') \<or>
      (ResumeKey_input sender n a b \<noteq> ResumeKey_input sender' n' a' b' \<and>
       sha (ResumeKey_input sender n a b) = sha (ResumeKey_input sender' n' a' b'))) \<and>
    (RootKey sha sender n a b = RootKey sha sender' n' a' b' \<longrightarrow>
      (sender, n, a, b) = (sender', n', a', b') \<or>
      (RootKey_input sender n a b \<noteq> RootKey_input sender' n' a' b' \<and>
       sha (RootKey_input sender n a b) = sha (RootKey_input sender' n' a' b')))"
proof -
  have "(sender, n, a, b) = (sender', n', a', b')"
    if "ResumeKey_input sender n a b = ResumeKey_input sender' n' a' b' \<or>
        RootKey_input sender n a b = RootKey_input sender' n' a' b'"
  proof -
    have "sender @ put64 (of_nat (length n)) @ bytes_of n @ put64 (word_of_int a) @ put64 (word_of_int b)
        = sender' @ put64 (of_nat (length n')) @ bytes_of n' @ put64 (word_of_int a') @ put64 (word_of_int b')"
      using that by (auto simp: ResumeKey_input_def RootKey_input_def)
    from key_fields_inject [OF this] show ?thesis using assms put64_word_inject by simp
  qed
  then show ?thesis by (auto simp: ResumeKey_def RootKey_def)
qed

theorem resume_keys_bind_witness:
  "(let s = replicate 32 (0 :: byte); sha = (\<lambda>b. replicate 32 (0 :: byte)) in
     ResumeKey_input s ''a'' 1 2 \<noteq> ResumeKey_input s ''b'' 1 2 \<and>
     RootKey sha s ''a'' 1 2 = RootKey sha s ''b'' 1 2 \<and> RootKey_input s ''a'' 1 2 \<noteq> RootKey_input s ''b'' 1 2)"
proof -
  let ?s = "replicate 32 (0 :: byte)" and ?sha = "\<lambda>b :: bytes. replicate 32 (0 :: byte)"
  have i: "in_int64 1" "in_int64 2" by (simp_all add: in_int64_def)
  show ?thesis
    using resume_keys_bind [of ?s ?s "''a''" "''b''" 1 2 1 2 ?sha] i
    by (simp add: ResumeKey_def RootKey_def)
qed

section \<open>Finding the folder writes nothing\<close>

lemma marker_len: "length markerMagic = 8"
  by (simp add: markerMagic_def)

lemma hasMarker_spec:
  assumes "hasMarker s dir key = (m, s')"
  shows "os_files s' = os_files s \<and> os_dirs s' = os_dirs s"
    "m \<Longrightarrow> \<exists>nd. os_files s (dir @ ''/'' @ MarkerName) = Some nd \<and>
       take (8 + length key) (fn_data nd) = markerMagic @ key"
proof -
  let ?n = "dir @ ''/'' @ MarkerName"
  obtain ro s1 where o: "OpenFile s ?n False = (ro, s1)" by (metis prod.exhaust)
  note O = OpenFile_no_create [OF o]
  obtain b ok s2 where rd: "ReadAt s1 ?n 0 (length markerMagic + length key) = ((b, ok), s2)" by (metis prod.exhaust)
  note R = ReadAt_frame [OF rd]
  obtain rc s3 where c: "CloseF s2 ?n = (rc, s3)" by (metis prod.exhaust)
  note C = CloseF_frame [OF c]
  show "os_files s' = os_files s \<and> os_dirs s' = os_dirs s"
    using assms o rd c O R C by (cases ro) (auto simp: hasMarker_def)
  assume m
  then have ro: "ro = Inr ()" and ok: "ok" "take 8 b = markerMagic" "drop 8 b = key"
    using assms o rd c by (cases ro; auto simp: hasMarker_def)+
  obtain nd where nd: "os_files s ?n = Some nd" using O ro by auto
  have "b = take (8 + length key) (fn_data nd)"
    using rd ok(1) nd O by (auto simp: ReadAt_def Let_def marker_len dest: pop_frame split: prod.splits option.splits)
  then show "\<exists>nd. os_files s ?n = Some nd \<and> take (8 + length key) (fn_data nd) = markerMagic @ key"
    using nd ok(2,3) by (metis append_take_drop_id)
qed

lemma candidate_flat:
  assumes "CHR ''/'' \<notin> set base"
  shows "CHR ''/'' \<notin> set (FormatCandidateName [] base n [])" "ancestors (FormatCandidateName [] base n []) = []"
proof -
  show s: "CHR ''/'' \<notin> set (FormatCandidateName [] base n [])"
    using assms dec_digits [of "CHR ''/''" n] by (auto simp: FormatCandidateName_def)
  then show "ancestors (FormatCandidateName [] base n []) = []"
    by (auto simp: ancestors_def filter_empty_conv in_set_conv_nth)
qed

lemma Lstat_result:
  assumes "Lstat s n = (r, s')" "ancestors n = []"
  shows "r = Inl NotExist \<Longrightarrow> n \<notin> os_dirs s \<and> os_files s n = None"
    "r = Inr d \<Longrightarrow> (n \<in> os_dirs s) = d \<and> (n \<in> os_dirs s \<or> os_files s n \<noteq> None)"
  using assms by (auto simp: Lstat_def anc_error_def dest: pop_frame split: prod.splits option.splits if_splits)

definition root_ok :: "os \<Rightarrow> string \<Rightarrow> bytes \<Rightarrow> policy \<Rightarrow> root_place \<Rightarrow> bool" where
  "root_ok s base key policy p \<longleftrightarrow>
     (\<exists>n < maxCandidates. rp_Name p = FormatCandidateName [] base n []) \<and>
     (if rp_Resume p
      then rp_Name p \<in> os_dirs s \<and> (\<exists>nd. os_files s (rp_Name p @ ''/'' @ MarkerName) = Some nd \<and>
             take (8 + length key) (fn_data nd) = markerMagic @ key)
      else if rp_Skip p
      then policy = PolicySkip \<and> rp_Name p = base \<and> (base \<in> os_dirs s \<or> os_files s base \<noteq> None)
      else rp_Name p \<notin> os_dirs s \<and> os_files s (rp_Name p) = None)"

lemma root_ok_cong:
  "os_files s' = os_files s \<Longrightarrow> os_dirs s' = os_dirs s \<Longrightarrow> root_ok s' base key policy p = root_ok s base key policy p"
  by (simp add: root_ok_def)

lemma resolve_root_ok:
  assumes "resolve_root ns s base key policy = (r, s')" "CHR ''/'' \<notin> set base" "\<forall>n \<in> set ns. n < maxCandidates"
  shows "os_files s' = os_files s \<and> os_dirs s' = os_dirs s \<and> (\<forall>p. r = Inr p \<longrightarrow> root_ok s base key policy p)"
  using assms
proof (induction ns s base key policy rule: resolve_root.induct)
  case (2 n ns s base key policy)
  let ?c = "FormatCandidateName [] base n []"
  obtain l s1 where l: "Lstat s ?c = (l, s1)" by (metis prod.exhaust)
  note L = Lstat_frame [OF l] Lstat_result [OF l candidate_flat(2) [OF 2(3)]]
  have n: "n < maxCandidates" using 2 by simp
  show ?case
  proof (cases l)
    case (Inl e)
    have rs: "(r, s') = (if e = NotExist then (Inr \<lparr>rp_Name = ?c, rp_Resume = False, rp_Skip = False\<rparr>, s1)
        else (Inl (PathConflict ?c), s1))"
      using 2(2) l Inl by (simp add: Let_def)
    have "root_ok s base key policy \<lparr>rp_Name = ?c, rp_Resume = False, rp_Skip = False\<rparr>" if "e = NotExist"
      using L(2) Inl that n unfolding root_ok_def by auto
    then show ?thesis using rs L(1) by (simp split: if_splits)
  next
    case (Inr d)
    obtain m s2 where m: "(if d then hasMarker s1 ?c key else (False, s1)) = (m, s2)" by (metis prod.exhaust)
    have M: "os_files s2 = os_files s" "os_dirs s2 = os_dirs s"
      using m hasMarker_spec(1) [of s1 ?c key m s2] L(1) by (auto split: if_splits)
    have cd: "(?c \<in> os_dirs s) = d" "?c \<in> os_dirs s \<or> os_files s ?c \<noteq> None" using L(3) Inr by blast+
    show ?thesis
    proof (cases m)
      case True
      then have d: d and h: "hasMarker s1 ?c key = (True, s2)" using m by (auto split: if_splits)
      have "root_ok s base key policy \<lparr>rp_Name = ?c, rp_Resume = True, rp_Skip = False\<rparr>"
        using hasMarker_spec(2) [OF h] L(1) cd d n by (auto simp: root_ok_def)
      then show ?thesis using 2(2) l Inr m True M by (auto simp: Let_def)
    next
      case False
      show ?thesis
      proof (cases "n = 0 \<and> policy = PolicySkip")
        case True
        have "?c = base" using True by (simp add: FormatCandidateName_def)
        then have "root_ok s base key policy \<lparr>rp_Name = ?c, rp_Resume = False, rp_Skip = True\<rparr>"
          using True cd(2) n by (auto simp: root_ok_def)
        moreover have "resolve_root (n # ns) s base key policy = (Inr \<lparr>rp_Name = ?c, rp_Resume = False, rp_Skip = True\<rparr>, s2)"
          unfolding resolve_root.simps Let_def l using Inr m False True by simp
        then have "r = Inr \<lparr>rp_Name = ?c, rp_Resume = False, rp_Skip = True\<rparr>" "s' = s2" using 2(2) by simp_all
        ultimately show ?thesis using M by simp
      next
        case nskip: False
        have "resolve_root (n # ns) s base key policy = resolve_root ns s2 base key policy"
          unfolding resolve_root.simps Let_def l using Inr m False nskip by auto
        then have rec: "resolve_root ns s2 base key policy = (r, s')" using 2(2) by simp
        have "os_files s' = os_files s2 \<and> os_dirs s' = os_dirs s2 \<and> (\<forall>p. r = Inr p \<longrightarrow> root_ok s2 base key policy p)"
          by (rule 2(1) [OF refl l [symmetric] Inr m [symmetric] False nskip rec 2(3)]) (simp add: 2(4))
        then show ?thesis using root_ok_cong [OF M] M by simp
      qed
    qed
  qed
qed auto

text \<open>Finding the root folder of a transfer writes nothing and never merges with what the
  user has (STO-10, #75): the folder found is one of the numbered names; it is reused only if the
  marker in it holds this transfer's key; otherwise nothing of that name is there, except under
  the policy Skip, which reports the name as taken.\<close>

theorem root_found:
  assumes "ResolveRoot s base key policy = (r, s')" "CHR ''/'' \<notin> set base"
  shows "os_files s' = os_files s \<and> os_dirs s' = os_dirs s \<and>
    (\<forall>p. r = Inr p \<longrightarrow> root_ok s base key policy p)"
proof (cases "base = []")
  case True
  then have "r = Inl EmptyRootName" "s' = s" using assms(1) by (simp_all add: ResolveRoot_def)
  then show ?thesis by simp
next
  case False
  then show ?thesis
    using resolve_root_ok [of "[0..<maxCandidates]" s base key policy r s'] assms
    by (simp add: ResolveRoot_def)
qed

definition ex_dirs :: os where
  "ex_dirs = \<lparr>os_files = Map.empty, os_dirs = {''Photos''}, os_faults = []\<rparr>"

theorem root_found_witness:
  "ResolveRoot ex_dirs ''Photos'' (replicate 32 0) PolicyAutoRename =
     (Inr \<lparr>rp_Name = ''Photos (1)'', rp_Resume = False, rp_Skip = False\<rparr>, ex_dirs) \<and>
   root_ok ex_dirs ''Photos'' (replicate 32 0) PolicyAutoRename
     \<lparr>rp_Name = ''Photos (1)'', rp_Resume = False, rp_Skip = False\<rparr>"
proof -
  have "0 < maxCandidates" "1 < maxCandidates" by (simp_all add: maxCandidates_def)
  then have up: "[0..<maxCandidates] = 0 # 1 # [Suc 1..<maxCandidates]"
    using upt_conv_Cons [of 0 maxCandidates] upt_conv_Cons [of 1 maxCandidates] by simp
  have pop: "pop ex_dirs = (None, ex_dirs)" by (simp add: pop_def ex_dirs_def)
  have anc: "anc_error ex_dirs n = None" if "ancestors n = []" for n using that by (simp add: anc_error_def)
  have an: "ancestors ''Photos'' = []" "ancestors ''Photos (1)'' = []" "ancestors (''Photos/'' @ MarkerName) = [''Photos'']"
    by (simp_all add: ancestors_def upt_rec MarkerName_def)
  have c: "FormatCandidateName [] ''Photos'' 0 [] = ''Photos''" "FormatCandidateName [] ''Photos'' 1 [] = ''Photos (1)''"
  proof -
    have "dec 1 = ''1''" by code_simp
    then show "FormatCandidateName [] ''Photos'' 1 [] = ''Photos (1)''" by (simp add: FormatCandidateName_def)
  qed (simp add: FormatCandidateName_def)
  have l: "Lstat ex_dirs ''Photos'' = (Inr True, ex_dirs)" "Lstat ex_dirs ''Photos (1)'' = (Inl NotExist, ex_dirs)"
    using anc an by (simp_all add: Lstat_def pop) (simp_all add: ex_dirs_def)
  have ae: "anc_error ex_dirs (''Photos/'' @ MarkerName) = None"
    using an(3) by (simp add: anc_error_def) (simp add: ex_dirs_def)
  have "OpenFile ex_dirs (''Photos'' @ ''/'' @ MarkerName) False = (Inl NotExist, ex_dirs)"
    using ae by (simp add: OpenFile_def pop) (simp add: ex_dirs_def MarkerName_def)
  then have hm: "hasMarker ex_dirs ''Photos'' (replicate 32 0) = (False, ex_dirs)"
    by (simp add: hasMarker_def)
  have r: "ResolveRoot ex_dirs ''Photos'' (replicate 32 0) PolicyAutoRename =
     (Inr \<lparr>rp_Name = ''Photos (1)'', rp_Resume = False, rp_Skip = False\<rparr>, ex_dirs)"
    unfolding ResolveRoot_def up resolve_root.simps Let_def c using l hm by simp
  then show ?thesis using root_found [OF r] by simp
qed

section \<open>Making the folder\<close>

definition empty_os :: os where
  "empty_os = \<lparr>os_files = Map.empty, os_dirs = {}, os_faults = []\<rparr>"


lemma flat_ancestors: "CHR ''/'' \<notin> set d \<Longrightarrow> ancestors d = []"
  by (auto simp: ancestors_def filter_empty_conv in_set_conv_nth)

lemma hex_no_slash: "CHR ''/'' \<notin> set (hex b)"
proof
  assume "CHR ''/'' \<in> set (hex b)"
  then obtain x :: byte where x: "CHR ''/'' = hex_digit (unat x div 16) \<or> CHR ''/'' = hex_digit (unat x mod 16)"
    by (auto simp: hex_def)
  have "unat x div 16 < 16" "unat x mod 16 < 16" using unat_bounds(1) [of x] by (simp_all add: less_mult_imp_div_less)
  then obtain n where n: "n < 16" "CHR ''/'' = hex_digit n" using x by blast
  then have "(of_char (CHR ''/'') :: nat) = of_char (hex_digit n)" by simp
  then show False using n(1) by (auto simp: hex_digit_def split: if_splits)
qed

lemma root_tmp_flat:
  assumes "plain_part dir"
  shows "root_tmp dir key = ''.medxfer-'' @ hex (take 8 key)" "CHR ''/'' \<notin> set (root_tmp dir key)"
proof -
  have d: "path_Dir dir = ''.''" using assms by (intro path_Dir_name) (simp add: plain_part_def)
  let ?t = "''.medxfer-'' @ hex (take 8 key)"
  have s: "CHR ''/'' \<notin> set ?t" using hex_no_slash by simp
  have "split_on CHR ''/'' (''./'' @ ?t) = [''.'', ?t]"
    using split_on_app [of "CHR ''/''" "''.''" ?t] split_on_id [OF s] by simp
  then have "path_Clean (''./'' @ ?t) = ?t" by (simp add: path_Clean_def)
  then show "root_tmp dir key = ?t" by (simp add: root_tmp_def d path_Join_def)
  then show "CHR ''/'' \<notin> set (root_tmp dir key)" using s by simp
qed

lemma below_flat:
  assumes "CHR ''/'' \<notin> set a" "CHR ''/'' \<notin> set b" "below a n" "below b n"
  shows "a = b"
proof -
  obtain x where "n = a @ CHR ''/'' # x" using assms(3) by (auto simp: below_def prefix_def)
  moreover obtain y where "n = b @ CHR ''/'' # y" using assms(4) by (auto simp: below_def prefix_def)
  ultimately have "n = a @ CHR ''/'' # x" "n = b @ CHR ''/'' # y" by blast+
  then have "split_on CHR ''/'' n = a # split_on CHR ''/'' x" "split_on CHR ''/'' n = b # split_on CHR ''/'' y"
    using split_on_append assms(1,2) by metis+
  then show ?thesis by simp
qed

definition absent :: "os \<Rightarrow> string \<Rightarrow> bool" where
  "absent s d \<longleftrightarrow> d \<notin> os_dirs s \<and> os_files s d = None \<and> (\<forall>n. below d n \<longrightarrow> os_files s n = None \<and> n \<notin> os_dirs s)"

text \<open>Everything but what is under the two names is as it was.\<close>

definition only_under :: "string set \<Rightarrow> os \<Rightarrow> os \<Rightarrow> bool" where
  "only_under ds s s' \<longleftrightarrow> (\<forall>n. (\<forall>d \<in> ds. n \<noteq> d \<and> \<not> below d n) \<longrightarrow>
     os_files s' n = os_files s n \<and> (n \<in> os_dirs s') = (n \<in> os_dirs s))"

lemma only_under_trans: "only_under ds s s' \<Longrightarrow> only_under ds s' s'' \<Longrightarrow> only_under ds s s''"
  by (simp add: only_under_def)

lemma only_under_mono: "only_under ds s s' \<Longrightarrow> ds \<subseteq> es \<Longrightarrow> only_under es s s'"
  by (auto simp: only_under_def)

lemma only_under_absent: "only_under {t} s s' \<Longrightarrow> absent s d \<Longrightarrow> CHR ''/'' \<notin> set d \<Longrightarrow> CHR ''/'' \<notin> set t \<Longrightarrow> d \<noteq> t \<Longrightarrow> absent s' d"
proof -
  assume u: "only_under {t} s s'" and a: "absent s d" and f: "CHR ''/'' \<notin> set d" "CHR ''/'' \<notin> set t" "d \<noteq> t"
  have d: "\<not> below t d" using f(1) by (auto simp: below_def prefix_def)
  have "n \<noteq> t \<and> \<not> below t n" if "below d n" for n
  proof -
    have "CHR ''/'' \<in> set n" using that by (auto simp: below_def prefix_def)
    then show ?thesis using f below_flat [OF f(1,2) that] by auto
  qed
  then show "absent s' d" using u a d f(3) by (auto simp: only_under_def absent_def)
qed

lemma RemoveAll_spec:
  assumes "RemoveAll s d = (r, s')"
  shows "only_under {d} s s' \<and> (r = Inr () \<longrightarrow> absent s' d)"
  using assms by (auto simp: RemoveAll_def only_under_def absent_def dest: pop_frame split: prod.splits option.splits)

lemma Mkdir_spec:
  assumes "Mkdir s d = (r, s')"
  shows "only_under {d} s s' \<and> os_files s' = os_files s \<and>
    os_dirs s' = (if r = Inr () then insert d (os_dirs s) else os_dirs s)"
  using assms by (auto simp: Mkdir_def only_under_def dest: pop_frame split: prod.splits option.splits if_splits)

lemma WriteFile_spec:
  assumes "WriteFile s n d = (r, s')"
  shows "os_dirs s' = os_dirs s \<and> (\<forall>x. x \<noteq> n \<longrightarrow> os_files s' x = os_files s x) \<and>
    (r = Inr () \<longrightarrow> os_files s' n = Some \<lparr>fn_data = d, fn_sync = []\<rparr>)"
  using assms by (auto simp: WriteFile_def dest: pop_frame split: prod.splits option.splits if_splits)

lemma RenameDir_spec:
  assumes "RenameDir s a b = (r, s')" "CHR ''/'' \<notin> set a" "CHR ''/'' \<notin> set b" "a \<noteq> b"
  shows "only_under {a, b} s s' \<and>
    (r \<noteq> Inr () \<longrightarrow> os_files s' = os_files s \<and> os_dirs s' = os_dirs s) \<and>
    (r = Inr () \<longrightarrow> b \<in> os_dirs s' \<and> (\<forall>x. os_files s' (b @ ''/'' @ x) = os_files s (a @ ''/'' @ x)))"
proof -
  obtain flt s1 where p: "pop s = (flt, s1)" by (metis prod.exhaust)
  have f: "os_files s1 = os_files s" "os_dirs s1 = os_dirs s" using pop_frame [OF p] by simp_all
  have bb: "below b (b @ CHR ''/'' # x)" "drop (length b) (b @ CHR ''/'' # x) = CHR ''/'' # x" for x
    by (simp_all add: below_def)
  have bd: "below b (b @ drop (length a) n)" if "below a n" for n
    using that by (auto simp: below_def prefix_def)
  show ?thesis
    using assms(1) bb bd f unfolding RenameDir_def p
    by (auto simp: only_under_def split: option.splits if_splits)
qed

lemma rename_dir_tries_spec:
  assumes "rename_dir_tries k s a b = (r, s')" "CHR ''/'' \<notin> set a" "CHR ''/'' \<notin> set b" "a \<noteq> b"
  shows "only_under {a, b} s s' \<and>
    (r \<noteq> Inr () \<longrightarrow> os_files s' = os_files s \<and> os_dirs s' = os_dirs s) \<and>
    (r = Inr () \<longrightarrow> b \<in> os_dirs s' \<and> (\<forall>x. os_files s' (b @ ''/'' @ x) = os_files s (a @ ''/'' @ x)))"
  using assms(1)
proof (induction k arbitrary: s)
  case 0
  then show ?case by (auto simp: only_under_def)
next
  case (Suc k)
  obtain r1 s1 where m: "RenameDir s a b = (r1, s1)" by (metis prod.exhaust)
  note M = RenameDir_spec [OF m assms(2-4)]
  show ?case
  proof (cases r1)
    case (Inr u)
    then have "r = Inr ()" "s' = s1" using Suc.prems m by simp_all
    then show ?thesis using M Inr by simp
  next
    case (Inl e)
    then have M': "os_files s1 = os_files s" "os_dirs s1 = os_dirs s" using M by simp_all
    show ?thesis
    proof (cases "k = 0")
      case True
      then show ?thesis using Suc.prems m Inl M by auto
    next
      case False
      then have "rename_dir_tries k s1 a b = (r, s')" using Suc.prems m Inl by simp
      from Suc.IH [OF this] M' show ?thesis by (auto simp: only_under_def)
    qed
  qed
qed

text \<open>C26. The root folder appears under its name only with its marker, at once, whatever call
  fails: after \<^verbatim>\<open>MarkRoot\<close> of a folder that was not there, either it succeeded and the folder holds
  exactly the marker with the transfer's key, or it failed and nothing of that name is there; and
  nothing but that folder and the transfer's own temporary folder was touched.\<close>

theorem mark_root_atomic:
  assumes r: "MarkRoot s dir key = (r, s')" and dir: "plain_part dir" "absent s dir"
    and key: "dir \<noteq> root_tmp dir key"
  shows "only_under {dir, root_tmp dir key} s s' \<and>
    (if r = Inr ()
     then dir \<in> os_dirs s' \<and> (\<forall>x. os_files s' (dir @ ''/'' @ x) =
            (if x = MarkerName then Some \<lparr>fn_data = markerMagic @ key, fn_sync = []\<rparr> else None))
     else absent s' dir)"
proof -
  let ?t = "root_tmp dir key" and ?m = "root_tmp dir key @ ''/'' @ MarkerName"
  have fd: "CHR ''/'' \<notin> set dir" using dir(1) by (simp add: plain_part_def)
  note ft = root_tmp_flat(2) [OF dir(1), of key]
  have pd: "path_Dir dir = ''.''" by (rule path_Dir_name [OF fd])
  have keep: "absent s2 dir" if "only_under {?t} s s2" for s2
    by (rule only_under_absent [OF that dir(2) fd ft key])
  have two: "only_under {?t} s s2 \<Longrightarrow> only_under {dir, ?t} s s2" for s2
    by (erule only_under_mono) simp
  obtain m s0 where m: "hasMarker s dir key = (m, s0)" by (metis prod.exhaust)
  have s0: "os_files s0 = os_files s" "os_dirs s0 = os_dirs s" using hasMarker_spec(1) [OF m] by simp_all
  have "os_files s (dir @ ''/'' @ MarkerName) = None" using dir(2) by (simp add: absent_def below_def)
  then have "\<not> m" using hasMarker_spec(2) [OF m] by auto
  have u0: "only_under {?t} s s0" using s0 by (simp add: only_under_def)
  obtain ra s2 where ra: "RemoveAll s0 ?t = (ra, s2)" by (metis prod.exhaust)
  obtain rk s3 where rk: "Mkdir s2 ?t = (rk, s3)" by (metis prod.exhaust)
  obtain rw s4 where rw: "WriteFile s3 ?m (markerMagic @ key) = (rw, s4)" by (metis prod.exhaust)
  obtain rn s5 where rn: "rename_dir_tries 4 s4 ?t dir = (rn, s5)" by (metis prod.exhaust)
  have mr: "MarkRoot s dir key = (case ra of Inl e \<Rightarrow> (Inl (PlaceOS e), s2) | Inr _ \<Rightarrow>
      (case rk of Inl e \<Rightarrow> (Inl (PlaceOS e), s3) | Inr _ \<Rightarrow>
        (case rw of Inl e \<Rightarrow> (Inl (PlaceOS e), snd (RemoveAll s4 ?t)) | Inr _ \<Rightarrow>
          (case rn of Inr _ \<Rightarrow> (Inr (), s5) | Inl e \<Rightarrow> (Inl (PathConflict dir), snd (RemoveAll s5 ?t))))))"
    using m \<open>\<not> m\<close> ra rk rw rn pd by (simp add: MarkRoot_def Let_def split: sum.split)
  have u2: "only_under {?t} s s2" using only_under_trans [OF u0] RemoveAll_spec [OF ra] by blast
  have u3: "only_under {?t} s s3" using only_under_trans [OF u2] Mkdir_spec [OF rk] by blast
  have bm: "below ?t ?m" by (simp add: below_def)
  have nm: "n \<noteq> ?m" if "\<not> below ?t n" for n using bm that by metis
  have "only_under {?t} s3 s4"
    using WriteFile_spec [OF rw] nm unfolding only_under_def by blast
  then have u4: "only_under {?t} s s4" by (rule only_under_trans [OF u3])
  note R = rename_dir_tries_spec [OF rn ft fd key [symmetric]]
  have rm: "only_under {?t} x (snd (RemoveAll x ?t))" for x
    using RemoveAll_spec [of x ?t "fst (RemoveAll x ?t)" "snd (RemoveAll x ?t)"] by simp
  show ?thesis
  proof (cases "ra = Inr () \<and> rk = Inr () \<and> rw = Inr () \<and> rn = Inr ()")
    case True
    then have rs: "r = Inr ()" "s' = s5" using r mr by simp_all
    have "only_under {dir, ?t} s s5"
      using only_under_trans [OF two [OF u4], of s5] R by (simp add: insert_commute)
    moreover have "os_files s5 (dir @ ''/'' @ x) =
        (if x = MarkerName then Some \<lparr>fn_data = markerMagic @ key, fn_sync = []\<rparr> else None)" for x
    proof -
      have "os_files s5 (dir @ ''/'' @ x) = os_files s4 (?t @ ''/'' @ x)" using R True by simp
      moreover have "os_files s2 (?t @ ''/'' @ x) = None"
        using RemoveAll_spec [OF ra] True by (simp add: absent_def below_def)
      ultimately show ?thesis using Mkdir_spec [OF rk] WriteFile_spec [OF rw] True by auto
    qed
    ultimately show ?thesis using rs R True by simp
  next
    case False
    have u5: "only_under {?t} s s5" if "rn \<noteq> Inr ()"
      using u4 R that by (simp add: only_under_def)
    have "r \<noteq> Inr () \<and> (s' = s2 \<or> s' = s3 \<or> s' = snd (RemoveAll s4 ?t) \<or> (rn \<noteq> Inr () \<and> s' = snd (RemoveAll s5 ?t)))"
      using r mr False by (cases ra; cases rk; cases rw; cases rn) auto
    then have "r \<noteq> Inr ()" "only_under {?t} s s'"
      using u2 u3 only_under_trans [OF u4 rm] only_under_trans [OF u5 rm] by auto
    then show ?thesis using two keep by simp
  qed
qed

theorem mark_root_atomic_witness:
  "\<exists>r s'. MarkRoot empty_os ''Photos'' (replicate 32 0) = (r, s') \<and>
     only_under {''Photos'', root_tmp ''Photos'' (replicate 32 0)} empty_os s'"
proof -
  obtain r s' where m: "MarkRoot empty_os ''Photos'' (replicate 32 0) = (r, s')" by (metis prod.exhaust)
  have p: "plain_part ''Photos''" by (simp add: plain_part_def)
  have "absent empty_os ''Photos''" by (simp add: absent_def empty_os_def)
  moreover have "''Photos'' \<noteq> root_tmp ''Photos'' (replicate 32 0)" by (simp add: root_tmp_flat [OF p])
  ultimately have "only_under {''Photos'', root_tmp ''Photos'' (replicate 32 0)} empty_os s'"
    using mark_root_atomic [OF m p] by blast
  then show ?thesis using m by blast
qed

end
