(* ===== verification/Place.thy ===== *)
theory Place
  imports Folders StoreFinal
begin

text \<open>
  Where a file goes (\<^verbatim>\<open>pkg/store/place.go\<close>): its own partial file to resume, a free name, or a
  file already there that the policy skips or overwrites. Finding it writes nothing.
\<close>

section \<open>Looking at a name\<close>

record place =
  pl_Name :: string
  pl_Resume :: bool
  pl_Done :: bool
  pl_Overwrite :: bool

datatype partialState = partialNone | partialOurs | partialForeign

text \<open>\<^verbatim>\<open>root.Open\<close> and, links not being modelled, \<^verbatim>\<open>root.Stat\<close> have the outcomes of \<^verbatim>\<open>Lstat\<close>: the
  name is a folder, a file, or the error.\<close>

definition OpenRead :: "os \<Rightarrow> string \<Rightarrow> (os_error + bool) \<times> os" where
  "OpenRead = Lstat"

definition Stat :: "os \<Rightarrow> string \<Rightarrow> (os_error + bool) \<times> os" where
  "Stat = Lstat"

fun check_folders :: "os \<Rightarrow> string \<Rightarrow> string list \<Rightarrow> (place_error + unit) \<times> os" where
  "check_folders s pre [] = (Inr (), s)"
| "check_folders s pre (part # parts) =
     (let pre' = path_Join pre part in
      case Stat s pre' of
        (Inl e, s1) \<Rightarrow> if e = NotExist then (Inr (), s1) else (Inl (PathConflict pre'), s1)
      | (Inr isdir, s1) \<Rightarrow> if \<not> isdir then (Inl (PathConflict pre'), s1) else check_folders s1 pre' parts)"

definition checkFolders :: "os \<Rightarrow> string \<Rightarrow> (place_error + unit) \<times> os" where
  "checkFolders s dir =
     (if dir = [] \<or> dir = ''.'' then (Inr (), s) else check_folders s [] (split_on CHR ''/'' dir))"

definition peek :: "os \<Rightarrow> string \<Rightarrow> params \<Rightarrow> partialState \<times> os" where
  "peek s name p =
     (case OpenRead s (name @ JournalSuffix) of
        (Inr _, s1) \<Rightarrow>
          (case ReadAt s1 (name @ JournalSuffix) 0 headerLen of
             ((h, ok), s2) \<Rightarrow>
               (if \<not> ok then partialForeign
                else if h \<noteq> header (new_file [] p 0) then partialForeign
                else partialOurs,
                snd (CloseF s2 (name @ JournalSuffix))))
      | (Inl _, s1) \<Rightarrow>
          (case Lstat s1 (name @ PartSuffix) of
             (Inr _, s2) \<Rightarrow> (partialForeign, s2)
           | (Inl _, s2) \<Rightarrow> (partialNone, s2)))"

section \<open>Finding the place\<close>

fun resolve_names ::
  "nat list \<Rightarrow> os \<Rightarrow> (nat \<Rightarrow> string) \<Rightarrow> string \<Rightarrow> params \<Rightarrow> policy \<Rightarrow> (place_error + place) \<times> os" where
  "resolve_names [] s cand name p policy = (Inl (NoFreeName name), s)"
| "resolve_names (count # counts) s cand name p policy =
     (let c = cand count in
      case peek s c p of
        (state0, s1) \<Rightarrow>
          (let state = (if state0 = partialForeign \<and> p_Owned p then partialOurs else state0) in
           case state of
             partialOurs \<Rightarrow>
               (Inr \<lparr>pl_Name = c, pl_Resume = True, pl_Done = False, pl_Overwrite = (policy = PolicyOverwrite)\<rparr>, s1)
           | partialForeign \<Rightarrow> resolve_names counts s1 cand name p policy
           | partialNone \<Rightarrow>
               (case Lstat s1 c of
                  (Inl e, s2) \<Rightarrow>
                    if e = NotExist
                    then (Inr \<lparr>pl_Name = c, pl_Resume = False, pl_Done = False, pl_Overwrite = False\<rparr>, s2)
                    else (Inl (PathConflict c), s2)
                | (Inr isdir, s2) \<Rightarrow>
                    if isdir then resolve_names counts s2 cand name p policy
                    else
                      (case policy of
                         PolicySkip \<Rightarrow>
                           (Inr \<lparr>pl_Name = c, pl_Resume = False, pl_Done = True, pl_Overwrite = False\<rparr>, s2)
                       | PolicyOverwrite \<Rightarrow>
                           (Inr \<lparr>pl_Name = c, pl_Resume = False, pl_Done = False, pl_Overwrite = True\<rparr>, s2)
                       | PolicyAutoRename \<Rightarrow> resolve_names counts s2 cand name p policy))))"

definition Resolve ::
  "(string \<Rightarrow> string) \<Rightarrow> os \<Rightarrow> string \<Rightarrow> params \<Rightarrow> policy \<Rightarrow> (place_error + place) \<times> os" where
  "Resolve uni s name p policy =
     (case SplitNameAndExt uni name of
        (dir, base, ext) \<Rightarrow>
          (case checkFolders s dir of
             (Inl e, s1) \<Rightarrow> (Inl e, s1)
           | (Inr _, s1) \<Rightarrow>
               resolve_names [0..<maxCandidates] s1 (\<lambda>n. FormatCandidateName dir base n ext) name p policy))"

section \<open>What is found\<close>

lemma check_folders_frame:
  "check_folders s pre ps = (r, s') \<Longrightarrow> os_files s' = os_files s \<and> os_dirs s' = os_dirs s"
proof (induction s pre ps rule: check_folders.induct)
  case (2 s pre part parts)
  obtain l s1 where l: "Stat s (path_Join pre part) = (l, s1)" by (metis prod.exhaust)
  have "os_files s1 = os_files s \<and> os_dirs s1 = os_dirs s" using l Lstat_frame unfolding Stat_def by blast
  then show ?case using 2 l by (auto simp: Let_def split: sum.splits if_splits)
qed simp

lemma checkFolders_frame:
  "checkFolders s d = (r, s') \<Longrightarrow> os_files s' = os_files s \<and> os_dirs s' = os_dirs s"
  unfolding checkFolders_def using check_folders_frame by (metis Pair_inject)

text \<open>What a name has of partial files.\<close>

definition ours :: "os \<Rightarrow> params \<Rightarrow> string \<Rightarrow> bool" where
  "ours s p c \<longleftrightarrow> (\<exists>nd. os_files s (c @ JournalSuffix) = Some nd \<and>
     take headerLen (fn_data nd) = header (new_file [] p 0))"

definition has_partial :: "os \<Rightarrow> string \<Rightarrow> bool" where
  "has_partial s c \<longleftrightarrow> (\<exists>x \<in> {PartSuffix, JournalSuffix}. os_files s (c @ x) \<noteq> None \<or> c @ x \<in> os_dirs s)"

lemma Lstat_there:
  assumes "Lstat s n = (r, s')"
  shows "r = Inr d \<Longrightarrow> (n \<in> os_dirs s) = d \<and> (n \<in> os_dirs s \<or> os_files s n \<noteq> None)"
  using assms by (auto simp: Lstat_def dest: pop_frame split: prod.splits option.splits if_splits)

lemma peek_spec:
  assumes "peek s c p = (st, s')"
  shows "os_files s' = os_files s \<and> os_dirs s' = os_dirs s"
    "st = partialOurs \<Longrightarrow> ours s p c" "st = partialForeign \<Longrightarrow> has_partial s c"
proof -
  let ?j = "c @ JournalSuffix"
  obtain ro s1 where o: "Lstat s ?j = (ro, s1)" by (metis prod.exhaust)
  note O = Lstat_frame [OF o] Lstat_there [OF o]
  obtain h ok s2 where rd: "ReadAt s1 ?j 0 headerLen = ((h, ok), s2)" by (metis prod.exhaust)
  note R = ReadAt_frame [OF rd]
  obtain rc s3 where cl: "CloseF s2 ?j = (rc, s3)" by (metis prod.exhaust)
  note C = CloseF_frame [OF cl]
  obtain rp s4 where pt: "Lstat s1 (c @ PartSuffix) = (rp, s4)" by (metis prod.exhaust)
  note P = Lstat_frame [OF pt] Lstat_there [OF pt]
  have pk: "(st, s') = (case ro of
      Inr _ \<Rightarrow> (if \<not> ok then partialForeign else if h \<noteq> header (new_file [] p 0) then partialForeign else partialOurs, s3)
    | Inl _ \<Rightarrow> (case rp of Inr _ \<Rightarrow> (partialForeign, s4) | Inl _ \<Rightarrow> (partialNone, s4)))"
    using assms o rd cl pt by (cases ro; cases rp) (auto simp: peek_def OpenRead_def)
  show "os_files s' = os_files s \<and> os_dirs s' = os_dirs s"
    using pk O(1) R C P(1) by (cases ro; cases rp) auto
  show "has_partial s c" if st: "st = partialForeign"
  proof (cases ro)
    case (Inr d)
    then show ?thesis using O(2) unfolding has_partial_def by auto
  next
    case (Inl e)
    then obtain d where "rp = Inr d" using pk st by (cases rp) simp_all
    then show ?thesis using P(2) O(1) unfolding has_partial_def by auto
  qed
  show "ours s p c" if st: "st = partialOurs"
  proof -
    have h: "ok" "h = header (new_file [] p 0)"
      using pk st by (cases ro; cases rp; simp split: if_splits)+
    then obtain nd where nd: "os_files s1 ?j = Some nd" "h = take headerLen (fn_data nd)"
      using rd by (auto simp: ReadAt_def Let_def dest: pop_frame split: prod.splits option.splits)
    then show ?thesis using h(2) O(1) unfolding ours_def by auto
  qed
qed

text \<open>A disk whose files and folders are in folders that are there.\<close>

definition tree_ok :: "os \<Rightarrow> bool" where
  "tree_ok s \<longleftrightarrow> (\<forall>n. os_files s n \<noteq> None \<or> n \<in> os_dirs s \<longrightarrow> anc_error s n = None)"

lemma tree_ok_Lstat:
  assumes "Lstat s n = (Inl e, s')" "tree_ok s" "os_faults s = [] \<or> e \<noteq> IOError"
  shows "os_files s n = None \<and> n \<notin> os_dirs s"
proof -
  obtain f s1 where p: "pop s = (f, s1)" by (metis prod.exhaust)
  note F = pop_frame [OF p] anc_error_pop [OF p, of n]
  have "f = None" using assms(1,3) p pop_no_faults [of s] by (auto simp: Lstat_def split: option.splits)
  then show ?thesis
    using assms(1,2) p F by (auto simp: Lstat_def tree_ok_def split: option.splits if_splits)
qed

lemma Lstat_faults: "Lstat s n = (r, s') \<Longrightarrow> os_faults s = [] \<Longrightarrow> s' = s"
  by (auto simp: Lstat_def pop_no_faults split: option.splits if_splits)

lemma tree_ok_cong: "os_files s' = os_files s \<Longrightarrow> os_dirs s' = os_dirs s \<Longrightarrow> tree_ok s' = tree_ok s"
  by (simp add: tree_ok_def anc_error_def split: list.split)

text \<open>Without faults a name said to have no partial file has none.\<close>

lemma peek_none:
  assumes "peek s c p = (partialNone, s')" "os_faults s = []" "tree_ok s"
  shows "\<not> has_partial s c" "s' = s"
proof -
  obtain ro s1 where o: "Lstat s (c @ JournalSuffix) = (ro, s1)" by (metis prod.exhaust)
  have s1: "s1 = s" by (rule Lstat_faults [OF o assms(2)])
  obtain rp s2 where pt: "Lstat s (c @ PartSuffix) = (rp, s2)" by (metis prod.exhaust)
  have s2: "s2 = s" by (rule Lstat_faults [OF pt assms(2)])
  obtain e1 e2 where "ro = Inl e1" "rp = Inl e2" "s' = s"
    using assms(1) o pt s1 s2
    by (cases ro; cases rp) (auto simp: peek_def OpenRead_def split: prod.splits if_splits)
  then show "\<not> has_partial s c" "s' = s"
    using tree_ok_Lstat [of s] o pt assms(2,3) unfolding has_partial_def by auto
qed

lemma peek_faults: "peek s c p = (st, s') \<Longrightarrow> os_faults s = [] \<Longrightarrow> s' = s"
  by (auto simp: peek_def OpenRead_def ReadAt_def CloseF_def pop_no_faults Let_def
      dest: Lstat_faults split: option.splits if_splits prod.splits sum.splits)

definition occupied :: "os \<Rightarrow> string \<Rightarrow> bool" where
  "occupied s c \<longleftrightarrow> has_partial s c \<or> os_files s c \<noteq> None \<or> c \<in> os_dirs s"

definition user_file :: "os \<Rightarrow> string \<Rightarrow> bool" where
  "user_file s c \<longleftrightarrow> os_files s c \<noteq> None \<and> c \<notin> os_dirs s"

definition place_ok :: "os \<Rightarrow> params \<Rightarrow> policy \<Rightarrow> place \<Rightarrow> bool" where
  "place_ok s p policy pl \<longleftrightarrow>
     (pl_Overwrite pl \<longrightarrow> policy = PolicyOverwrite) \<and>
     (if pl_Resume pl then \<not> pl_Done pl \<and> (ours s p (pl_Name pl) \<or> (p_Owned p \<and> has_partial s (pl_Name pl)))
      else
        (os_faults s = [] \<longrightarrow> \<not> has_partial s (pl_Name pl)) \<and>
        (if pl_Done pl then policy = PolicySkip \<and> user_file s (pl_Name pl)
         else if pl_Overwrite pl then user_file s (pl_Name pl)
         else os_files s (pl_Name pl) = None \<and> pl_Name pl \<notin> os_dirs s))"

lemma place_ok_cong:
  assumes "os_files s' = os_files s" "os_dirs s' = os_dirs s" "os_faults s = [] \<longrightarrow> os_faults s' = []"
    and "place_ok s' p policy pl"
  shows "place_ok s p policy pl"
proof -
  have e: "ours s' p c = ours s p c" "has_partial s' c = has_partial s c" "user_file s' c = user_file s c" for c
    using assms(1,2) by (simp_all add: ours_def has_partial_def user_file_def)
  show ?thesis using assms unfolding place_ok_def e by (simp split: if_splits)
qed

lemma occupied_cong: "os_files s' = os_files s \<Longrightarrow> os_dirs s' = os_dirs s \<Longrightarrow> occupied s' c = occupied s c"
  by (simp add: occupied_def has_partial_def)

lemma check_folders_faults: "check_folders s pre ps = (r, s') \<Longrightarrow> os_faults s = [] \<Longrightarrow> s' = s"
proof (induction s pre ps rule: check_folders.induct)
  case (2 s pre part parts)
  obtain l s1 where l: "Stat s (path_Join pre part) = (l, s1)" by (metis prod.exhaust)
  have "s1 = s" using l 2(3) Lstat_faults unfolding Stat_def by blast
  then show ?case using 2 l by (auto simp: Let_def split: sum.splits if_splits)
qed simp

lemma checkFolders_faults: "checkFolders s d = (r, s') \<Longrightarrow> os_faults s = [] \<Longrightarrow> s' = s"
  unfolding checkFolders_def using check_folders_faults by (metis Pair_inject)

lemma resolve_names_ok:
  assumes "resolve_names ns s cand name p policy = (r, s')" "tree_ok s"
  shows "os_files s' = os_files s \<and> os_dirs s' = os_dirs s \<and>
    (\<forall>pl. r = Inr pl \<longrightarrow> place_ok s p policy pl \<and>
      (\<exists>k < length ns. pl_Name pl = cand (ns ! k) \<and> (\<forall>j < k. occupied s (cand (ns ! j)))))"
  using assms
proof (induction ns arbitrary: s)
  case (Cons n ns)
  let ?c = "cand n"
  obtain st0 s1 where pk: "peek s ?c p = (st0, s1)" by (metis prod.exhaust)
  obtain l s2 where l: "Lstat s1 ?c = (l, s2)" by (metis prod.exhaust)
  note P = peek_spec [OF pk] and L = Lstat_frame [OF l]
  have f2: "os_files s2 = os_files s" "os_dirs s2 = os_dirs s" using P(1) L by simp_all
  let ?st = "if st0 = partialForeign \<and> p_Owned p then partialOurs else st0"
  have later: "?case" if nx: "resolve_names ns x cand name p policy = (r, s')"
    "os_files x = os_files s" "os_dirs x = os_dirs s" "os_faults s = [] \<Longrightarrow> os_faults x = []" "occupied s ?c" for x
  proof -
    have "tree_ok x" using Cons.prems(2) tree_ok_cong nx(2,3) by blast
    note IH = Cons.IH [OF nx(1) this]
    show ?thesis
    proof (intro conjI allI impI)
      fix pl assume "r = Inr pl"
      with IH obtain k where k: "place_ok x p policy pl" "k < length ns" "pl_Name pl = cand (ns ! k)"
        "\<forall>j < k. occupied x (cand (ns ! j))" by blast
      show "place_ok s p policy pl" using place_ok_cong [OF nx(2,3) _ k(1)] nx(4) by blast
      have "\<forall>j < Suc k. occupied s (cand ((n # ns) ! j))"
        using k(4) nx(5) occupied_cong [OF nx(2,3)] by (simp add: All_less_Suc2)
      then show "\<exists>k < length (n # ns). pl_Name pl = cand ((n # ns) ! k) \<and> (\<forall>j < k. occupied s (cand ((n # ns) ! j)))"
        using k(2,3) by (intro exI [of _ "Suc k"]) simp
    qed (use IH nx(2,3) in simp_all)
  qed
  have here: "?case" if h: "r = Inr pl" "s' = s1 \<or> s' = s2" "pl_Name pl = ?c" "place_ok s p policy pl" for pl
    using h P(1) f2 by auto
  show ?case
  proof (cases ?st)
    case partialOurs
    let ?pl = "\<lparr>pl_Name = ?c, pl_Resume = True, pl_Done = False, pl_Overwrite = (policy = PolicyOverwrite)\<rparr>"
    have "place_ok s p policy ?pl"
      using partialOurs P(2,3) by (auto simp: place_ok_def split: if_splits)
    moreover have "r = Inr ?pl" "s' = s1" using Cons.prems(1) pk partialOurs by (simp_all add: Let_def)
    ultimately show ?thesis by (intro here [of ?pl]) simp_all
  next
    case partialForeign
    then have "st0 = partialForeign" by (simp split: if_splits)
    then have "occupied s ?c" using P(3) by (simp add: occupied_def)
    moreover have "resolve_names ns s1 cand name p policy = (r, s')" using Cons.prems(1) pk partialForeign by (simp add: Let_def)
    ultimately show ?thesis using later [of s1] P(1) peek_faults [OF pk] by auto
  next
    case partialNone
    then have st: "st0 = partialNone" by (simp split: if_splits)
    have np: "os_faults s = [] \<Longrightarrow> \<not> has_partial s ?c" using peek_none pk st Cons.prems(2) by blast
    have fl: "os_faults s = [] \<Longrightarrow> os_faults s2 = []" using peek_faults [OF pk] Lstat_faults [OF l] by auto
    have R: "(r, s') = (case l of Inl e \<Rightarrow> if e = NotExist
        then (Inr \<lparr>pl_Name = ?c, pl_Resume = False, pl_Done = False, pl_Overwrite = False\<rparr>, s2) else (Inl (PathConflict ?c), s2)
      | Inr d \<Rightarrow> if d \<or> policy = PolicyAutoRename then resolve_names ns s2 cand name p policy
        else (Inr \<lparr>pl_Name = ?c, pl_Resume = False, pl_Done = (policy = PolicySkip), pl_Overwrite = (policy = PolicyOverwrite)\<rparr>, s2))"
      using Cons.prems(1) pk l st by (cases l; cases policy) (simp_all add: Let_def cong: if_cong)
    show ?thesis
    proof (cases l)
      case (Inl e)
      have t1: "tree_ok s1" using tree_ok_cong [of s1 s] P(1) Cons.prems(2) by blast
      have "os_files s ?c = None \<and> ?c \<notin> os_dirs s" if "e = NotExist"
        using tree_ok_Lstat [OF l [unfolded Inl] t1] that P(1) by simp
      then have ok: "place_ok s p policy \<lparr>pl_Name = ?c, pl_Resume = False, pl_Done = False, pl_Overwrite = False\<rparr>"
        if "e = NotExist" using that np by (simp add: place_ok_def)
      show ?thesis
      proof (cases "e = NotExist")
        case True
        let ?pl = "\<lparr>pl_Name = ?c, pl_Resume = False, pl_Done = False, pl_Overwrite = False\<rparr>"
        have "r = Inr ?pl" "s' = s2" using R Inl True by simp_all
        then show ?thesis using ok [OF True] by (intro here [of ?pl]) simp_all
      next
        case False
        then show ?thesis using R Inl f2 by simp
      qed
    next
      case (Inr d)
      note T = Lstat_there [OF l Inr] 
      then have oc: "occupied s ?c" using P(1) by (auto simp: occupied_def)
      show ?thesis
      proof (cases "d \<or> policy = PolicyAutoRename")
        case True
        then show ?thesis using later [of s2] R Inr f2 fl oc by simp
      next
        case False
        let ?pl = "\<lparr>pl_Name = ?c, pl_Resume = False, pl_Done = (policy = PolicySkip), pl_Overwrite = (policy = PolicyOverwrite)\<rparr>"
        have "place_ok s p policy ?pl"
          using False T P(1) np by (cases policy) (auto simp: place_ok_def user_file_def)
        moreover have "r = Inr ?pl" "s' = s2" using R Inr False by simp_all
        ultimately show ?thesis by (intro here [of ?pl]) simp_all
      qed
    qed
  qed
qed auto


definition ex_place_params :: params where
  "ex_place_params = \<lparr>p_Key = replicate 32 0, p_Size = 5, p_ChunkSize = 65536, p_CommitBytes = 0,
     p_CommitInterval = 0, p_VerifyFull = False, p_NoSync = False, p_Overwrite = False, p_Owned = False\<rparr>"

definition ex_place_os :: os where
  "ex_place_os = \<lparr>os_files = [''a.txt'' \<mapsto> \<lparr>fn_data = [1], fn_sync = [1]\<rparr>], os_dirs = {}, os_faults = []\<rparr>"


end
