(* ===== verification/Batches.thy ===== *)
theory Batches
  imports StoreFinal
begin

text \<open>
  Several complete files made durable at once, then given their names
  (\<^verbatim>\<open>pkg/store/batch.go\<close>). \<^verbatim>\<open>syncfs\<close> is a call of the disk that syncs every file; if it is
  refused each file is synced alone. Adding a file seals it: the caller keeps only what
  \<^verbatim>\<open>Add\<close> returns.
\<close>

section \<open>Operations\<close>

definition SyncFS :: "os \<Rightarrow> (os_error + unit) \<times> os" where
  "SyncFS s = (case pop s of
     (Some _, s') \<Rightarrow> (Inl IOError, s')
   | (None, s') \<Rightarrow>
       (Inr (), s'\<lparr>os_files := (\<lambda>n. map_option (\<lambda>nd. nd\<lparr>fn_sync := fn_data nd\<rparr>) (os_files s' n))\<rparr>))"

record batch =
  b_files :: "sfile list"
  b_bytes :: int

definition NewBatch :: "bool \<Rightarrow> batch option" where
  "NewBatch canSyncFS = (if \<not> canSyncFS then None else Some \<lparr>b_files = [], b_bytes = 0\<rparr>)"

definition Batchable :: "sfile \<Rightarrow> bool" where
  "Batchable f \<longleftrightarrow> p_Owned (f_p f) \<and> \<not> f_journal f"

definition AddFile :: "batch \<Rightarrow> sfile \<Rightarrow> (store_error + unit) \<times> sfile \<times> batch" where
  "AddFile b f =
     (case Hashes f of
        Inl e \<Rightarrow> (Inl e, f, b)
      | Inr _ \<Rightarrow>
          (case markClosed f of
             (True, f') \<Rightarrow> (Inl ErrClosed, f', b)
           | (False, f') \<Rightarrow>
               (Inr (), f', b\<lparr>b_files := b_files b @ [f'], b_bytes := wrap64 (b_bytes b + p_Size (f_p f))\<rparr>)))"

definition BatchLen :: "batch \<Rightarrow> nat" where "BatchLen b = length (b_files b)"

definition BatchBytes :: "batch \<Rightarrow> int" where "BatchBytes b = b_bytes b"

text \<open>Each file synced alone, if it is synced at all.\<close>

fun sync_each :: "sfile list \<Rightarrow> os \<Rightarrow> (store_error + unit) list \<times> os" where
  "sync_each [] s = ([], s)"
| "sync_each (f # fs) s =
     (case (if \<not> p_NoSync (f_p f) then Sync s (part_name f) else (Inr (), s)) of
        (r, s1) \<Rightarrow> (case sync_each fs s1 of (rs, s2) \<Rightarrow> (map_sum ErrOS id r # rs, s2)))"

definition flush_sync :: "sfile list \<Rightarrow> os \<Rightarrow> (store_error + unit) list \<times> os" where
  "flush_sync fs s =
     (if list_ex (\<lambda>f. \<not> p_NoSync (f_p f)) fs
      then (case SyncFS s of
              (Inr _, s1) \<Rightarrow> (replicate (length fs) (Inr ()), s1)
            | (Inl _, s1) \<Rightarrow> sync_each fs s1)
      else (replicate (length fs) (Inr ()), s))"

definition flush_file :: "sfile \<Rightarrow> store_error + unit \<Rightarrow> os \<Rightarrow> (store_error + unit) \<times> os" where
  "flush_file f err s =
     (case CloseF s (part_name f) of
        (rc, s1) \<Rightarrow>
          (case first_err err (map_sum ErrOS id rc) of
             Inl e \<Rightarrow> (Inl e, closeJournal f s1)
           | Inr _ \<Rightarrow>
               (case publish f s1 of
                  (Inl e, f1, s2) \<Rightarrow> (Inl e, s2)
                | (Inr _, f1, s2) \<Rightarrow> dropJournal f1 s2)))"

fun flush_files :: "sfile list \<Rightarrow> (store_error + unit) list \<Rightarrow> os \<Rightarrow> (store_error + unit) list \<times> os" where
  "flush_files (f # fs) (e # es) s =
     (case flush_file f e s of
        (r, s1) \<Rightarrow> (case flush_files fs es s1 of (rs, s2) \<Rightarrow> (r # rs, s2)))"
| "flush_files _ _ s = ([], s)"

definition Flush :: "batch \<Rightarrow> os \<Rightarrow> (store_error + unit) list \<times> batch \<times> os" where
  "Flush b s =
     (case flush_sync (b_files b) s of
        (errs, s1) \<Rightarrow>
          (case flush_files (b_files b) errs s1 of
             (rs, s2) \<Rightarrow> (rs, b\<lparr>b_files := [], b_bytes := 0\<rparr>, s2)))"

section \<open>Syncing\<close>

definition names :: "sfile \<Rightarrow> string set" where
  "names f = insert (f_name f) (own f)"

text \<open>A file of the batch: complete, its bytes in its partial file with their hashes.\<close>

definition sealed :: "(bytes \<Rightarrow> bytes) \<Rightarrow> os \<Rightarrow> sfile \<Rightarrow> bool" where
  "sealed sha s f \<longleftrightarrow> \<not> p_NoSync (f_p f) \<and> (\<forall>i < f_n f. Has f i) \<and>
     (\<exists>nd. os_files s (part_name f) = Some nd \<and> data_ok sha f nd)"

definition synced :: "(bytes \<Rightarrow> bytes) \<Rightarrow> os \<Rightarrow> sfile \<Rightarrow> bool" where
  "synced sha s f \<longleftrightarrow> (\<forall>i < f_n f. Has f i) \<and>
     (\<exists>nd. os_files s (part_name f) = Some nd \<and> data_ok sha f nd \<and> fn_sync nd = fn_data nd)"

definition same_data :: "os \<Rightarrow> os \<Rightarrow> bool" where
  "same_data s s' \<longleftrightarrow> (\<forall>n. map_option fn_data (os_files s' n) = map_option fn_data (os_files s n))"

lemma same_data_refl: "same_data s s"
  by (simp add: same_data_def)

lemma same_data_trans: "same_data s s' \<Longrightarrow> same_data s' s'' \<Longrightarrow> same_data s s''"
  by (simp add: same_data_def)

lemma same_dataI: "os_files s' = os_files s \<Longrightarrow> same_data s s'"
  by (simp add: same_data_def)

lemma sealed_same_data:
  assumes "same_data s s'" "sealed sha s f"
  shows "sealed sha s' f"
proof -
  from assms(2) obtain nd where nd: "os_files s (part_name f) = Some nd" "data_ok sha f nd"
    by (auto simp: sealed_def)
  have "map_option fn_data (os_files s' (part_name f)) = Some (fn_data nd)"
    using assms(1) nd(1) by (simp add: same_data_def)
  then obtain nd' where "os_files s' (part_name f) = Some nd'" "fn_data nd' = fn_data nd" by auto
  then show ?thesis using assms(2) nd(2) by (auto simp: sealed_def data_ok_def)
qed

lemma Sync_result:
  assumes "Sync s n = (r, s')"
  shows "same_data s s'" "m \<noteq> n \<Longrightarrow> os_files s' m = os_files s m"
    "r = Inr () \<Longrightarrow> os_files s n = Some nd \<Longrightarrow> os_files s' n = Some (nd\<lparr>fn_sync := fn_data nd\<rparr>)"
  using assms
  by (auto simp: Sync_def same_data_def dest: pop_frame split: prod.splits option.splits)

lemma SyncFS_result:
  assumes "SyncFS s = (r, s')"
  shows "same_data s s'"
    "r = Inr () \<Longrightarrow> os_files s' n = map_option (\<lambda>nd. nd\<lparr>fn_sync := fn_data nd\<rparr>) (os_files s n)"
  using assms
  by (auto simp: SyncFS_def same_data_def option.map_comp comp_def dest: pop_frame split: prod.splits option.splits)

lemma synced_other: "synced sha s f \<Longrightarrow> os_files s' (part_name f) = os_files s (part_name f) \<Longrightarrow> synced sha s' f"
  by (simp add: synced_def)

lemma sync_each_result:
  assumes "sync_each fs s = (rs, s')" "\<forall>f \<in> set fs. sealed sha s f" "distinct (map part_name fs)"
  shows "same_data s s' \<and> length rs = length fs \<and> (\<forall>n. n \<notin> part_name ` set fs \<longrightarrow> os_files s' n = os_files s n) \<and>
    (\<forall>i < length fs. rs ! i = Inr () \<longrightarrow> synced sha s' (fs ! i))"
  using assms
proof (induction fs arbitrary: s rs s')
  case (Cons f fs)
  obtain r s1 where y: "Sync s (part_name f) = (r, s1)" by (metis prod.exhaust)
  obtain rs' s2 where e: "sync_each fs s1 = (rs', s2)" by (metis prod.exhaust)
  have f: "sealed sha s f" using Cons.prems by simp
  then have ns: "\<not> p_NoSync (f_p f)" by (simp add: sealed_def)
  have R: "rs = map_sum ErrOS id r # rs'" "s' = s2" using Cons.prems(1) y e ns by simp_all
  note Y = Sync_result [OF y]
  have "\<forall>g \<in> set fs. sealed sha s1 g" using Cons.prems(2) sealed_same_data [OF Y(1)] by simp
  then have IH: "same_data s1 s2" "length rs' = length fs"
    "\<And>n. n \<notin> part_name ` set fs \<Longrightarrow> os_files s2 n = os_files s1 n"
    "\<And>i. i < length fs \<Longrightarrow> rs' ! i = Inr () \<Longrightarrow> synced sha s2 (fs ! i)"
    using Cons.IH [OF e] Cons.prems(3) by auto
  have "synced sha s2 f" if "map_sum ErrOS id r = Inr ()"
  proof -
    from f obtain nd where nd: "os_files s (part_name f) = Some nd" "data_ok sha f nd" "\<forall>i < f_n f. Has f i"
      by (auto simp: sealed_def)
    have "r = Inr ()" using that by (cases r) simp_all
    then have "os_files s1 (part_name f) = Some (nd\<lparr>fn_sync := fn_data nd\<rparr>)" using Y(3) nd(1) by simp
    then have "synced sha s1 f" using nd by (auto simp: synced_def data_ok_def)
    moreover have "part_name f \<notin> part_name ` set fs" using Cons.prems(3) by simp
    ultimately show ?thesis using IH(3) synced_other by metis
  qed
  then have "synced sha s2 ((f # fs) ! i)" if "i < length (f # fs)" "rs ! i = Inr ()" for i
    using IH(4) that R(1) by (cases i) simp_all
  then show ?case
    using R IH(2,3) same_data_trans [OF Y(1) IH(1)] Y(2) by auto
qed (simp add: same_data_refl)

lemma flush_sync_result:
  assumes "flush_sync fs s = (rs, s')" "\<forall>f \<in> set fs. sealed sha s f" "distinct (map part_name fs)"
  shows "same_data s s'" "length rs = length fs" "\<And>i. i < length fs \<Longrightarrow> rs ! i = Inr () \<Longrightarrow> synced sha s' (fs ! i)"
proof -
  obtain r s1 where y: "SyncFS s = (r, s1)" by (metis prod.exhaust)
  note Y = SyncFS_result [OF y]
  have "same_data s s' \<and> length rs = length fs \<and> (\<forall>i < length fs. rs ! i = Inr () \<longrightarrow> synced sha s' (fs ! i))"
  proof (cases fs)
    case Nil
    then show ?thesis using assms(1) by (simp add: flush_sync_def same_data_refl)
  next
    case (Cons f fs')
    then have "list_ex (\<lambda>f. \<not> p_NoSync (f_p f)) fs" using assms(2) by (simp add: sealed_def)
    then have R: "(rs, s') = (case r of Inr _ \<Rightarrow> (replicate (length fs) (Inr ()), s1) | Inl _ \<Rightarrow> sync_each fs s1)"
      using assms(1) y by (cases r) (simp_all add: flush_sync_def)
    show ?thesis
    proof (cases r)
      case (Inl e)
      then have "sync_each fs s1 = (rs, s')" using R by simp
      moreover have "\<forall>f \<in> set fs. sealed sha s1 f" using assms(2) sealed_same_data [OF Y(1)] by simp
      ultimately show ?thesis using sync_each_result [OF _ _ assms(3)] same_data_trans [OF Y(1)] by blast
    next
      case (Inr u)
      then have "rs = replicate (length fs) (Inr ())" "s' = s1" using R by simp_all
      moreover have "synced sha s1 f" if "f \<in> set fs" for f
        using assms(2) that Y(2) [of "part_name f"] Inr by (auto simp: sealed_def synced_def data_ok_def)
      ultimately show ?thesis using Y(1) by simp
    qed
  qed
  then show "same_data s s'" "length rs = length fs" "\<And>i. i < length fs \<Longrightarrow> rs ! i = Inr () \<Longrightarrow> synced sha s' (fs ! i)"
    by blast+
qed

section \<open>Giving the names\<close>

lemma closeJournal_files: "os_files (closeJournal f s) = os_files s"
  using CloseF_frame [of s "journal_name f"] by (cases "CloseF s (journal_name f)") (simp add: closeJournal_def)

lemma publish_synced:
  assumes p: "publish f s = (Inr (), g, s1)" and d: "dropJournal g s1 = (r, s')" and y: "synced sha s f"
  shows "published sha f s'" "os_frame (names f) s s'"
proof -
  note P = publish_files(1) [OF p]
  have g: "g = f" using P by simp
  obtain nd where nd: "os_files s (part_name f) = Some nd" "os_files s1 = (os_files s)(part_name f := None, f_name f \<mapsto> nd)"
    using P by auto
  have D: "os_frame {journal_name f} s1 s'" using dropJournal_frame [OF d] g by simp
  have "os_files s' (f_name f) = Some nd" using D nd(2) name_not_part(3) [of f] by (simp add: os_frame_def)
  then show "published sha f s'"
    using y nd(1) unfolding published_def synced_def data_ok_def Has_def by auto
  show "os_frame (names f) s s'" using D nd(2) by (auto simp: os_frame_def names_def own_def)
qed

lemma flush_file_result:
  assumes r: "flush_file f e s = (r, s')" and y: "e = Inr () \<Longrightarrow> synced sha s f"
  shows "os_frame (names f) s s'" "os_files s' (f_name f) = os_files s (f_name f) \<or> published sha f s'"
    "r = Inr () \<Longrightarrow> published sha f s'"
proof -
  obtain rc s1 where c: "CloseF s (part_name f) = (rc, s1)" by (metis prod.exhaust)
  have f1: "os_files s1 = os_files s" using CloseF_frame [OF c] by simp
  obtain rp g s2 where p: "publish f s1 = (rp, g, s2)" by (metis prod.exhaust)
  note P = publish_files(1) [OF p]
  obtain rd s3 where d: "dropJournal g s2 = (rd, s3)" by (metis prod.exhaust)
  let ?e = "first_err e (map_sum ErrOS id rc)"
  have R: "flush_file f e s = (case ?e of Inl x \<Rightarrow> (Inl x, closeJournal f s1)
      | Inr _ \<Rightarrow> (case rp of Inl x \<Rightarrow> (Inl x, s2) | Inr _ \<Rightarrow> (rd, s3)))"
    using c p d by (cases ?e; cases rp) (simp_all add: flush_file_def)
  have fr: "os_frame (names f) s x" if "os_frame (own f) s1 x" for x
    using that f1 by (simp add: os_frame_def names_def)
  have nm: "f_name f \<notin> own f" by (simp add: own_def)
  have "os_frame (names f) s s' \<and> (os_files s' (f_name f) = os_files s (f_name f) \<or> published sha f s') \<and>
    (r = Inr () \<longrightarrow> published sha f s')"
  proof (cases ?e)
    case (Inl x)
    then have "r = Inl x" "os_files s' = os_files s" using R r closeJournal_files f1 by simp_all
    then show ?thesis by (simp add: os_frame_same)
  next
    case (Inr u)
    then have "e = Inr ()" by (simp add: first_err_def split: sum.splits)
    then have y1: "synced sha s1 f" using y synced_other f1 by metis
    show ?thesis
    proof (cases rp)
      case (Inl x)
      then have "r = Inl x" "s' = s2" using R r Inr \<open>?e = Inr u\<close> by simp_all
      moreover have o: "os_frame (own f) s1 s2" using P Inl by simp
      have "os_files s2 (f_name f) = os_files s (f_name f)" using o nm f1 unfolding os_frame_def by metis
      ultimately show ?thesis using fr [OF o] by simp
    next
      case (Inr v)
      then have s3: "s' = s3" using R r \<open>?e = Inr u\<close> by simp
      have pi: "publish f s1 = (Inr (), g, s2)" using p Inr by simp
      note Q = publish_synced [OF pi d y1]
      have "os_frame (names f) s s'" using Q(2) f1 s3 unfolding os_frame_def by metis
      then show ?thesis using Q(1) s3 by blast
    qed
  qed
  then show "os_frame (names f) s s'" "os_files s' (f_name f) = os_files s (f_name f) \<or> published sha f s'"
    "r = Inr () \<Longrightarrow> published sha f s'" by blast+
qed

lemma published_other: "published sha f s \<Longrightarrow> os_files s' (f_name f) = os_files s (f_name f) \<Longrightarrow> published sha f s'"
  by (simp add: published_def)

text \<open>Files whose names do not meet.\<close>

fun apart :: "sfile list \<Rightarrow> bool" where
  "apart [] = True"
| "apart (f # fs) = ((\<forall>g \<in> set fs. names f \<inter> names g = {}) \<and> apart fs)"

lemma apart_parts: "apart fs \<Longrightarrow> distinct (map part_name fs)"
proof (induction fs)
  case (Cons f fs)
  then have "part_name f \<noteq> part_name g" if "g \<in> set fs" for g
    using that by (auto simp: names_def own_def)
  then show ?case using Cons by auto
qed simp

lemma flush_files_result:
  assumes "flush_files fs es s = (rs, s')" "length es = length fs" "apart fs"
    "\<forall>i < length fs. es ! i = Inr () \<longrightarrow> synced sha s (fs ! i)"
  shows "length rs = length fs \<and> os_frame (\<Union>(names ` set fs)) s s' \<and>
    (\<forall>i < length fs. (os_files s' (f_name (fs ! i)) = os_files s (f_name (fs ! i)) \<or> published sha (fs ! i) s') \<and>
       (rs ! i = Inr () \<longrightarrow> published sha (fs ! i) s'))"
  using assms
proof (induction fs es s arbitrary: rs s' rule: flush_files.induct)
  case (1 f fs e es s)
  obtain r s1 where y: "flush_file f e s = (r, s1)" by (metis prod.exhaust)
  obtain rs' s2 where z: "flush_files fs es s1 = (rs', s2)" by (metis prod.exhaust)
  have R: "rs = r # rs'" "s' = s2" using 1(2) y z by simp_all
  have "e = Inr () \<Longrightarrow> synced sha s f" using 1(5) by (metis length_greater_0_conv list.distinct(1) nth_Cons_0)
  note F = flush_file_result [OF y this]
  have disj: "g \<in> set fs \<Longrightarrow> n \<in> names g \<Longrightarrow> n \<notin> names f" for g n using 1(4) by auto
  have "es ! i = Inr () \<Longrightarrow> synced sha s1 (fs ! i)" if i: "i < length fs" for i
  proof -
    assume "es ! i = Inr ()"
    then have "synced sha s (fs ! i)" using 1(5) i by (metis Suc_less_eq length_Cons nth_Cons_Suc)
    moreover have "part_name (fs ! i) \<notin> names f" using disj [OF nth_mem [OF i]] by (simp add: names_def own_def)
    ultimately show ?thesis using F(1) synced_other by (simp add: os_frame_def)
  qed
  then have IH: "length rs' = length fs" "os_frame (\<Union>(names ` set fs)) s1 s2"
    "\<And>i. i < length fs \<Longrightarrow> (os_files s2 (f_name (fs ! i)) = os_files s1 (f_name (fs ! i)) \<or> published sha (fs ! i) s2) \<and>
       (rs' ! i = Inr () \<longrightarrow> published sha (fs ! i) s2)"
    using 1(1) [OF y [symmetric] z] 1(3,4) by simp_all
  have nf: "os_files s2 (f_name f) = os_files s1 (f_name f)"
    using IH(2) disj by (auto simp: os_frame_def names_def)
  have ng: "os_files s1 (f_name g) = os_files s (f_name g)" if "g \<in> set fs" for g
    using F(1) disj [OF that, of "f_name g"] by (simp add: os_frame_def names_def)
  have "os_frame (\<Union>(names ` set (f # fs))) s s2" using F(1) IH(2) by (simp add: os_frame_def)
  moreover have "(os_files s2 (f_name ((f # fs) ! i)) = os_files s (f_name ((f # fs) ! i)) \<or> published sha ((f # fs) ! i) s2) \<and>
       (rs ! i = Inr () \<longrightarrow> published sha ((f # fs) ! i) s2)" if "i < length (f # fs)" for i
  proof (cases i)
    case 0
    then show ?thesis using R(1) F(2,3) nf published_other by auto
  next
    case (Suc j)
    then show ?thesis using R(1) IH(3) [of j] ng [of "fs ! j"] that by simp
  qed
  ultimately show ?case using R IH(1) by simp
qed auto

text \<open>C24. A batch keeps the promise of \<^verbatim>\<open>Finalize\<close> (STO-01) with one sync for all its files: after
  \<^verbatim>\<open>Flush\<close>, whatever calls of the disk fail, each file of the batch has its name, with every
  chunk, durable, or its name is as it was; no error means it has it; the contents of other files
  are untouched; the batch is empty.\<close>

theorem flush_publishes:
  assumes "Flush b s = (errs, b', s')" "\<forall>f \<in> set (b_files b). sealed sha s f" "apart (b_files b)"
  shows "length errs = length (b_files b) \<and> b_files b' = [] \<and> b_bytes b' = 0 \<and>
    (\<forall>i < length errs.
       (map_option fn_data (os_files s' (f_name (b_files b ! i))) = map_option fn_data (os_files s (f_name (b_files b ! i))) \<or>
        published sha (b_files b ! i) s') \<and>
       (errs ! i = Inr () \<longrightarrow> published sha (b_files b ! i) s')) \<and>
    (\<forall>n. (\<forall>f \<in> set (b_files b). n \<notin> names f) \<longrightarrow>
       map_option fn_data (os_files s' n) = map_option fn_data (os_files s n))"
proof -
  let ?fs = "b_files b"
  obtain es s1 where y: "flush_sync ?fs s = (es, s1)" by (metis prod.exhaust)
  obtain rs s2 where z: "flush_files ?fs es s1 = (rs, s2)" by (metis prod.exhaust)
  have R: "errs = rs" "b' = b\<lparr>b_files := [], b_bytes := 0\<rparr>" "s' = s2" using assms(1) y z by (simp_all add: Flush_def)
  note Y = flush_sync_result [OF y assms(2) apart_parts [OF assms(3)]]
  have Z: "length rs = length ?fs" "os_frame (\<Union>(names ` set ?fs)) s1 s2"
    "\<And>i. i < length ?fs \<Longrightarrow> (os_files s2 (f_name (?fs ! i)) = os_files s1 (f_name (?fs ! i)) \<or> published sha (?fs ! i) s2) \<and>
       (rs ! i = Inr () \<longrightarrow> published sha (?fs ! i) s2)"
    using flush_files_result [OF z Y(2) assms(3)] Y(3) by blast+
  have d: "map_option fn_data (os_files s1 n) = map_option fn_data (os_files s n)" for n
    using Y(1) by (simp add: same_data_def)
  have "map_option fn_data (os_files s2 n) = map_option fn_data (os_files s n)" if "\<forall>f \<in> set ?fs. n \<notin> names f" for n
    using Z(2) that d by (simp add: os_frame_def)
  moreover have "map_option fn_data (os_files s2 (f_name (?fs ! i))) = map_option fn_data (os_files s (f_name (?fs ! i))) \<or>
      published sha (?fs ! i) s2" if "i < length ?fs" for i
    using Z(3) [OF that] d by metis
  ultimately show ?thesis using R Z(1,3) by simp
qed

lemma ex_sealed: "sealed ex_sha ex_s1 ex_f1"
proof -
  have f: "f_n ex_f1 = 1" "f_have ex_f1 = [True]" "f_hashes ex_f1 = [ex_sha ex_data]" "part_name ex_f1 = ''a.part''"
    "\<not> p_NoSync (f_p ex_f1)" "chunkLen ex_f1 0 = 3" "chunk_off ex_f1 0 = 0"
    using ex_f0_simps ex_names by (simp_all add: ex_f1_def osName_def ex_f0_def ex_params_def default_params_def chunkLen_def)
  have "on_disk ex_sha ex_f1 ex_data 0 (ex_sha ex_data)"
    using f by (simp add: on_disk_def ex_data_def)
  then show ?thesis using f by (simp add: sealed_def Has_def data_ok_def ex_s1_def)
qed

lemma ex_flush: "Flush \<lparr>b_files = [ex_f1], b_bytes = 3\<rparr> ex_s1 = ([Inr ()], \<lparr>b_files = [], b_bytes = 0\<rparr>, ex_s5)"
proof -
  let ?nd = "\<lparr>fn_data = ex_data, fn_sync = ex_data\<rparr>"
  let ?s = "ex_os\<lparr>os_files := [''a.part'' \<mapsto> ?nd]\<rparr>"
  have ff: "\<not> p_NoSync (f_p ex_f1)" "p_Overwrite (f_p ex_f1) = False" "f_journal ex_f1 = False" "f_name ex_f1 = ''a''"
    by (simp_all add: ex_f1_def ex_f0_def new_file_def reset_chunks_def ex_params_def default_params_def)
  have n: "part_name ex_f1 = ''a.part''" using ff(4) by (simp add: osName_def PartSuffix_def)
  have pop: "pop ex_s1 = (None, ex_s1)" "pop ?s = (None, ?s)" by (simp_all add: pop_def ex_s1_def ex_os_def)
  have anc: "anc_error s ''a'' = None" for s by (simp add: anc_error_def ancestors_def upt_rec)
  have sy: "SyncFS ex_s1 = (Inr (), ?s)" by (simp add: SyncFS_def pop) (auto simp: ex_s1_def ex_os_def fun_eq_iff)
  have cl: "CloseF ?s ''a.part'' = (Inr (), ?s)" by (simp add: CloseF_def pop)
  have ls: "Lstat ?s ''a'' = (Inl NotExist, ?s)" by (simp add: Lstat_def pop anc) (simp add: ex_os_def)
  have "Rename ?s ''a.part'' ''a'' = (Inr (), ex_s5)"
    by (simp add: Rename_def pop anc) (auto simp: ex_s5_def ex_os_def fun_eq_iff)
  then have rn: "rename_tries renameTries ?s ''a.part'' ''a'' = (Inr (), ex_s5)"
    by (simp add: renameTries_def eval_nat_numeral)
  have pb: "publish ex_f1 ?s = (Inr (), ex_f1, ex_s5)" unfolding publish_def ff(4) n ls using rn by simp
  have "flush_file ex_f1 (Inr ()) ?s = (Inr (), ex_s5)"
    unfolding flush_file_def n cl using pb ff(3) by (simp add: first_err_def dropJournal_def)
  then show ?thesis using sy ff(1) by (simp add: Flush_def flush_sync_def)
qed

theorem flush_publishes_witness: "published ex_sha ex_f1 ex_s5"
proof -
  have "\<forall>f \<in> set (b_files \<lparr>b_files = [ex_f1], b_bytes = 3\<rparr>). sealed ex_sha ex_s1 f" using ex_sealed by simp
  from flush_publishes [OF ex_flush this] show ?thesis by simp
qed

end
