(* ===== verification/Ids.thy ===== *)
theory Ids
  imports GoStrings
begin

text \<open>
  The id of a transfer, 128 bits, and its text (\<^verbatim>\<open>pkg/transfer/id.go\<close>).
\<close>

type_synonym ID = bytes

definition idLen :: nat where "idLen = 16"

definition ID_String :: "ID \<Rightarrow> string" where "ID_String i = hex i"

definition IsZero :: "ID \<Rightarrow> bool" where "IsZero i \<longleftrightarrow> i = replicate idLen 0"

definition ParseID :: "string \<Rightarrow> ID option" where
  "ParseID s = (case unhex s of None \<Rightarrow> None | Some b \<Rightarrow> if length b \<noteq> idLen then None else Some b)"

text \<open>The text of a transfer's id and its reading are inverse: an id is read back from its text,
  and a text that is read is, letter case aside, the text of the id.\<close>

theorem id_roundtrip:
  "(length i = idLen \<longrightarrow> ParseID (ID_String i) = Some i) \<and>
   (ParseID s = Some i \<longrightarrow> length i = idLen \<and> ID_String i = map lower_char s)"
  using unhex_hex [of i] hex_unhex [of s i]
  by (auto simp: ParseID_def ID_String_def split: option.splits if_splits)

theorem id_roundtrip_witness: "ParseID (ID_String (replicate idLen 171)) = Some (replicate idLen 171)"
  using id_roundtrip [of "replicate idLen 171" "[]"] by simp

end
