(* ===== verification/Pin.thy ===== *)
theory Pin
  imports GoStrings
begin

text \<open>
  The responder's PIN (\<^verbatim>\<open>pkg/pairing/pin.go\<close>) and the PIN on demand
  (\<^verbatim>\<open>pkg/pairing/ondemand.go\<close>): the attempts made on a PIN, its destruction, the next PIN, the
  delays and the stop. Times and durations are nanoseconds; each method reads the clock once
  (\<open>now\<close>) and gets the result of its call of \<^verbatim>\<open>rand.Int\<close> (\<open>draw\<close>, \<open>None\<close> for an error).
  \<open>pin_redraw\<close> is the time of the timer that has still to fire. What a method has to show is
  part of its result; \<open>show_change\<close> shows it, later, in any order.
\<close>

section \<open>The PIN\<close>

definition TTL :: int where "TTL = 120000000000"
definition PINDigits :: nat where "PINDigits = 6"
definition PINAttempts :: int where "PINAttempts = 3"
definition PINDelay :: int where "PINDelay = 30000000000"
definition PINMaxDelay :: int where "PINMaxDelay = 600000000000"
definition PINMaxSeries :: int where "PINMaxSeries = 2"
definition minPINDigits :: nat where "minPINDigits = 6"
definition maxPINDigits :: nat where "maxPINDigits = 8"
definition pinDestroyedIn :: int where "pinDestroyedIn = 3"

datatype pin_error = ErrBadPIN | ErrTooManyPINs | ErrRand

record pin_config =
  pc_Digits :: nat
  pc_TTL :: int
  pc_Attempts :: int
  pc_Delay :: int
  pc_MaxDelay :: int
  pc_MaxSeries :: int

record pin =
  pin_cfg :: pin_config
  pin_code :: "string option"
  pin_expires :: int
  pin_reserved :: int
  pin_failed :: int
  pin_destroyed :: int
  pin_delay :: int
  pin_redraw :: "int option"
  pin_paired :: bool
  pin_closed :: bool
  pin_stopped :: bool
  pin_changes :: nat

text \<open>A change to show: its number, the PIN if one is valid, a time (zero once stopped).\<close>

type_synonym pin_show = "nat \<times> string option \<times> int"

definition nextShow :: "pin \<Rightarrow> pin" where
  "nextShow p = p\<lparr>pin_changes := Suc (pin_changes p)\<rparr>"

definition pad :: "nat \<Rightarrow> nat \<Rightarrow> string" where
  "pad n v = replicate (n - length (dec v)) (CHR ''0'') @ dec v"

definition drawPIN :: "nat \<Rightarrow> nat option \<Rightarrow> string option" where
  "drawPIN n draw = map_option (pad n) draw"

definition drawLocked :: "pin \<Rightarrow> int \<Rightarrow> nat option \<Rightarrow> bool \<times> pin" where
  "drawLocked p now draw =
     (case drawPIN (pc_Digits (pin_cfg p)) draw of
        None \<Rightarrow> (False, p)
      | Some code \<Rightarrow>
          (True, p\<lparr>pin_code := Some code, pin_expires := now + pc_TTL (pin_cfg p), pin_reserved := 0, pin_failed := 0\<rparr>))"

definition default_config :: "pin_config \<Rightarrow> pin_config" where
  "default_config c =
     \<lparr>pc_Digits = (if pc_Digits c = 0 then PINDigits else pc_Digits c),
      pc_TTL = (if pc_TTL c \<le> 0 then TTL else pc_TTL c),
      pc_Attempts = (if pc_Attempts c \<le> 0 then PINAttempts else pc_Attempts c),
      pc_Delay = (if pc_Delay c \<le> 0 then PINDelay else pc_Delay c),
      pc_MaxDelay = (if pc_MaxDelay c \<le> 0 then PINMaxDelay else pc_MaxDelay c),
      pc_MaxSeries = (if pc_MaxSeries c = 0 then PINMaxSeries else pc_MaxSeries c)\<rparr>"

definition NewPIN :: "pin_config \<Rightarrow> int \<Rightarrow> nat option \<Rightarrow> pin_error + pin \<times> pin_show" where
  "NewPIN c0 now draw =
     (let c = default_config c0 in
      if pc_Digits c < minPINDigits \<or> pc_Digits c > maxPINDigits then Inl ErrBadPIN
      else
        case drawLocked \<lparr>pin_cfg = c, pin_code = None, pin_expires = 0, pin_reserved = 0, pin_failed = 0,
               pin_destroyed = 0, pin_delay = pc_Delay c, pin_redraw = None, pin_paired = False,
               pin_closed = False, pin_stopped = False, pin_changes = 0\<rparr> now draw of
          (False, _) \<Rightarrow> Inl ErrRand
        | (True, p) \<Rightarrow> let p' = nextShow p in Inr (p', (pin_changes p', pin_code p', pin_expires p')))"

definition pin_deadline :: "pin \<Rightarrow> int" where "pin_deadline p = pin_expires p"

definition pin_begin :: "pin \<Rightarrow> int \<Rightarrow> string option \<times> pin" where
  "pin_begin p now =
     (if pin_closed p \<or> pin_paired p \<or> pin_code p = None \<or> \<not> now < pin_expires p \<or>
         pin_reserved p \<ge> pc_Attempts (pin_cfg p)
      then (None, p)
      else (pin_code p, p\<lparr>pin_reserved := pin_reserved p + 1\<rparr>))"

definition pin_end :: "pin \<Rightarrow> bool \<Rightarrow> int \<Rightarrow> nat option \<Rightarrow> pin \<times> pin_show option" where
  "pin_end p paired now draw =
     (let c = pin_cfg p in
      if paired
      then (p\<lparr>pin_paired := True, pin_code := None, pin_destroyed := 0, pin_delay := pc_Delay c\<rparr>, None)
      else
        let p1 = p\<lparr>pin_failed := pin_failed p + 1\<rparr> in
        if pin_closed p1 \<or> pin_failed p1 < pc_Attempts c then (p1, None)
        else
          let p2 = p1\<lparr>pin_code := None, pin_destroyed := pin_destroyed p1 + 1\<rparr> in
          if pin_destroyed p2 mod pinDestroyedIn \<noteq> 0
          then (case drawLocked p2 now draw of
                  (ok, p3) \<Rightarrow>
                    let p4 = nextShow p3 in
                    (p4, if ok then Some (pin_changes p4, pin_code p4, pin_expires p4) else None))
          else if pc_MaxSeries c > 0 \<and> pin_destroyed p2 div pinDestroyedIn \<ge> pc_MaxSeries c
          then let p3 = nextShow (p2\<lparr>pin_closed := True, pin_stopped := True\<rparr>)
               in (p3, Some (pin_changes p3, None, 0))
          else
            let wait = pin_delay p2;
                p3 = nextShow (p2\<lparr>pin_delay := min (wrap64 (2 * pin_delay p2)) (pc_MaxDelay c),
                                  pin_expires := now + (wait + pc_TTL c), pin_redraw := Some (now + wait)\<rparr>)
            in (p3, Some (pin_changes p3, None, now + wait)))"

definition redrawAfterDelay :: "pin \<Rightarrow> int \<Rightarrow> nat option \<Rightarrow> pin \<times> pin_show option" where
  "redrawAfterDelay p now draw =
     (if pin_closed p \<or> pin_paired p then (p, None)
      else case drawLocked p now draw of
             (ok, p1) \<Rightarrow>
               let p2 = nextShow p1 in
               (p2, if ok then Some (pin_changes p2, pin_code p2, pin_expires p2) else None))"

definition ClosePIN :: "pin \<Rightarrow> pin" where
  "ClosePIN p = p\<lparr>pin_closed := True, pin_code := None, pin_redraw := None\<rparr>"

text \<open>\<^verbatim>\<open>show\<close>: the screen and the number of the last change shown.\<close>

record screen =
  sc_shown :: nat
  sc_code :: "string option"
  sc_time :: int

definition show_change :: "screen \<Rightarrow> pin_show \<Rightarrow> screen" where
  "show_change sc ch =
     (case ch of (n, code, expires) \<Rightarrow>
        if n \<le> sc_shown sc then sc else \<lparr>sc_shown = n, sc_code = code, sc_time = expires\<rparr>)"

section \<open>Digits\<close>

definition is_digit :: "char \<Rightarrow> bool" where
  "is_digit c \<longleftrightarrow> 48 \<le> (of_char c :: nat) \<and> (of_char c :: nat) \<le> 57"

fun pin_digits :: "string \<Rightarrow> string option" where
  "pin_digits [] = Some []"
| "pin_digits (r # rs) =
     (if is_digit r then map_option ((#) r) (pin_digits rs)
      else if r = CHR '' '' \<or> r = CHR ''-'' then pin_digits rs
      else None)"

definition NormalizePIN :: "string \<Rightarrow> pin_error + string" where
  "NormalizePIN s =
     (case pin_digits s of
        None \<Rightarrow> Inl ErrBadPIN
      | Some ds \<Rightarrow> if length ds < minPINDigits \<or> length ds > maxPINDigits then Inl ErrBadPIN else Inr ds)"

function format_groups :: "nat \<Rightarrow> nat \<Rightarrow> string \<Rightarrow> string" where
  "format_groups g i code =
     (if i < length code \<and> 0 < g
      then (if i > 0 then '' '' else []) @ slice i (min (i + g) (length code) - i) code @ format_groups g (i + g) code
      else [])"
  by pat_completeness auto
termination by (relation "measure (\<lambda>(g, i, code). length code - i)") auto

declare format_groups.simps [simp del]

definition FormatPIN :: "string \<Rightarrow> string" where
  "FormatPIN code = format_groups (if length code mod 4 = 0 then 4 else 3) 0 code"

section \<open>The PIN on demand\<close>

definition reusable :: "pin \<Rightarrow> int \<Rightarrow> bool \<times> bool" where
  "reusable p now =
     (if pin_stopped p then (False, True)
      else if pin_closed p \<or> pin_paired p \<or> \<not> now < pin_expires p then (False, False)
      else (True, False))"

definition Live :: "pin \<Rightarrow> int \<Rightarrow> bool" where "Live p now = fst (reusable p now)"

record pin_on_demand =
  od_cfg :: pin_config
  od_pin :: "pin option"
  od_stopped :: bool

definition NewPINOnDemand :: "pin_config \<Rightarrow> pin_on_demand" where
  "NewPINOnDemand c = \<lparr>od_cfg = c, od_pin = None, od_stopped = False\<rparr>"

text \<open>\<^verbatim>\<open>Get\<close>: the PIN, the source, and the change a new PIN shows.\<close>

definition Get :: "pin_on_demand \<Rightarrow> int \<Rightarrow> nat option \<Rightarrow> (pin_error + pin \<times> pin_show option) \<times> pin_on_demand" where
  "Get d now draw =
     (let draw_new = (\<lambda>d. case NewPIN (od_cfg d) now draw of
            Inl e \<Rightarrow> (Inl e, d)
          | Inr (p, sh) \<Rightarrow> (Inr (p, Some sh), d\<lparr>od_pin := Some p\<rparr>))
      in if od_stopped d then (Inl ErrTooManyPINs, d)
         else
           case od_pin d of
             None \<Rightarrow> draw_new d
           | Some p \<Rightarrow>
               (case reusable p now of
                  (reuse, stopped) \<Rightarrow>
                    if stopped then (Inl ErrTooManyPINs, d\<lparr>od_stopped := True\<rparr>)
                    else if reuse then (Inr (p, None), d)
                    else draw_new (d\<lparr>od_pin := Some (ClosePIN p)\<rparr>)))"

definition Current :: "pin_on_demand \<Rightarrow> int \<Rightarrow> pin option" where
  "Current d now = (case od_pin d of None \<Rightarrow> None | Some p \<Rightarrow> if Live p now then Some p else None)"

definition Reset :: "pin_on_demand \<Rightarrow> pin_on_demand" where
  "Reset d = d\<lparr>od_pin := None, od_stopped := False\<rparr>"

definition CloseOnDemand :: "pin_on_demand \<Rightarrow> pin_on_demand" where
  "CloseOnDemand d = d\<lparr>od_pin := None\<rparr>"

section \<open>The guesses on a PIN\<close>

text \<open>Connections test PINs at the same time: \<open>g_open\<close> attempts have begun and not ended, \<open>g_begun\<close>
  counts all those that got a PIN to test.\<close>

record guessing =
  g_pin :: pin
  g_open :: int
  g_begun :: int

inductive pin_step :: "guessing \<Rightarrow> guessing \<Rightarrow> bool" where
  attempt: "pin_begin (g_pin g) now = (Some code, p)
    \<Longrightarrow> pin_step g (g\<lparr>g_pin := p, g_open := g_open g + 1, g_begun := g_begun g + 1\<rparr>)"
| refused: "pin_begin (g_pin g) now = (None, p) \<Longrightarrow> pin_step g (g\<lparr>g_pin := p\<rparr>)"
| wrong: "g_open g > 0 \<Longrightarrow> pin_end (g_pin g) False now draw = (p, sh)
    \<Longrightarrow> pin_step g (g\<lparr>g_pin := p, g_open := g_open g - 1\<rparr>)"
| right: "g_open g > 0 \<Longrightarrow> pin_end (g_pin g) True now draw = (p, sh)
    \<Longrightarrow> pin_step g (g\<lparr>g_pin := p, g_open := g_open g - 1\<rparr>)"
| redraw: "pin_redraw (g_pin g) = Some t \<Longrightarrow> t \<le> now
    \<Longrightarrow> redrawAfterDelay ((g_pin g)\<lparr>pin_redraw := None\<rparr>) now draw = (p, sh) \<Longrightarrow> pin_step g (g\<lparr>g_pin := p\<rparr>)"
| close: "pin_step g (g\<lparr>g_pin := ClosePIN (g_pin g)\<rparr>)"

inductive_cases pin_stepE: "pin_step g h"

definition max_guesses :: "pin_config \<Rightarrow> int" where
  "max_guesses c = pc_Attempts c * (3 * pc_MaxSeries c)"

definition attempts_inv :: "pin_config \<Rightarrow> guessing \<Rightarrow> bool" where
  "attempts_inv c g \<longleftrightarrow> (let p = g_pin g in
     pin_cfg p = c \<and> 0 \<le> g_open g \<and> 0 \<le> pin_failed p \<and> g_open g + pin_failed p \<le> pin_reserved p \<and>
     pin_reserved p \<le> pc_Attempts c \<and> (pin_stopped p \<longrightarrow> pin_closed p) \<and>
     (pin_redraw p \<noteq> None \<longrightarrow> pin_failed p \<ge> pc_Attempts c) \<and>
     (pin_paired p \<longrightarrow> g_open g + pin_failed p < pc_Attempts c))"

definition guesses_inv :: "pin_config \<Rightarrow> guessing \<Rightarrow> bool" where
  "guesses_inv c g \<longleftrightarrow> (let p = g_pin g in
     if pin_paired p then g_begun g \<le> max_guesses c
     else 0 \<le> pin_destroyed p \<and> pin_destroyed p \<le> 3 * pc_MaxSeries c \<and>
       (pin_destroyed p = 3 * pc_MaxSeries c \<longrightarrow> pin_stopped p \<and> pin_failed p \<ge> pc_Attempts c) \<and>
       (pin_stopped p \<longrightarrow> pin_failed p \<ge> pc_Attempts c) \<and>
       g_begun g \<le> pc_Attempts c * pin_destroyed p +
         (if pin_failed p < pc_Attempts c \<or> (pin_closed p \<and> \<not> pin_stopped p) then pin_reserved p else 0))"

definition pin_inv :: "pin_config \<Rightarrow> guessing \<Rightarrow> bool" where
  "pin_inv c g \<longleftrightarrow> 0 < pc_Attempts c \<and> 0 < pc_MaxSeries c \<and> attempts_inv c g \<and> guesses_inv c g"

lemma guesses_bound:
  assumes "pin_inv c g"
  shows "g_begun g \<le> max_guesses c"
proof (cases "pin_paired (g_pin g)")
  case True
  then show ?thesis using assms by (simp add: pin_inv_def guesses_inv_def Let_def)
next
  case False
  let ?p = "g_pin g" and ?A = "pc_Attempts c" and ?M = "pc_MaxSeries c"
  have a: "0 < ?A" "pin_reserved ?p \<le> ?A" and d: "pin_destroyed ?p \<le> 3 * ?M"
    and b: "g_begun g \<le> ?A * pin_destroyed ?p +
         (if pin_failed ?p < ?A \<or> (pin_closed ?p \<and> \<not> pin_stopped ?p) then pin_reserved ?p else 0)"
    and e: "pin_destroyed ?p = 3 * ?M \<longrightarrow> pin_stopped ?p \<and> pin_failed ?p \<ge> ?A"
    using assms False by (simp_all add: pin_inv_def guesses_inv_def attempts_inv_def Let_def)
  show ?thesis
  proof (cases "pin_destroyed ?p = 3 * ?M")
    case True
    then show ?thesis using b e by (simp add: max_guesses_def)
  next
    case False
    then have "?A * (pin_destroyed ?p + 1) \<le> ?A * (3 * ?M)" using d a(1) by (intro mult_left_mono) auto
    then have "?A * pin_destroyed ?p + ?A \<le> max_guesses c" by (simp add: max_guesses_def distrib_left)
    then show ?thesis using b a by (auto split: if_splits)
  qed
qed

lemma drawLocked_cases:
  assumes "drawLocked p now draw = (ok, p')"
  obtains (drawn) code where "ok" "p' = p\<lparr>pin_code := Some code, pin_expires := now + pc_TTL (pin_cfg p), pin_reserved := 0, pin_failed := 0\<rparr>"
  | (failed) "\<not> ok" "p' = p"
  using assms by (auto simp: drawLocked_def split: option.splits)

lemma wrong_keeps:
  assumes I: "pin_inv c g" and o: "g_open g > 0" and e: "pin_end (g_pin g) False now draw = (p, sh)"
  shows "pin_inv c (g\<lparr>g_pin := p, g_open := g_open g - 1\<rparr>)"
proof -
  let ?p = "g_pin g" and ?A = "pc_Attempts c" and ?M = "pc_MaxSeries c"
  let ?p1 = "?p\<lparr>pin_failed := pin_failed ?p + 1\<rparr>"
  have c: "pin_cfg ?p = c" and A: "0 < ?A" "0 < ?M" "0 \<le> pin_failed ?p" "g_open g + pin_failed ?p \<le> pin_reserved ?p" "pin_reserved ?p \<le> ?A"
    using I by (simp_all add: pin_inv_def attempts_inv_def Let_def)
  show ?thesis
  proof (cases "pin_closed ?p \<or> pin_failed ?p + 1 < ?A")
    case True
    then have "p = ?p1" using e c by (simp add: pin_end_def Let_def)
    then show ?thesis using I o True
      by (auto simp: pin_inv_def attempts_inv_def guesses_inv_def Let_def split: if_splits)
  next
    case False
    then have full: "pin_failed ?p + 1 = ?A" "pin_reserved ?p = ?A" "g_open g = 1" using o A by auto
    have np: "\<not> pin_paired ?p" using I full by (auto simp: pin_inv_def attempts_inv_def Let_def)
    have ns: "\<not> pin_stopped ?p" using I False by (auto simp: pin_inv_def attempts_inv_def Let_def)
    have d: "0 \<le> pin_destroyed ?p" "pin_destroyed ?p < 3 * ?M" "g_begun g \<le> ?A * pin_destroyed ?p + ?A"
      using I np ns full False by (auto simp: pin_inv_def guesses_inv_def Let_def)
    then have b: "g_begun g \<le> ?A * (pin_destroyed ?p + 1)" by (simp add: distrib_left)
    let ?p2 = "?p1\<lparr>pin_code := None, pin_destroyed := pin_destroyed ?p + 1\<rparr>"
    have rest: "pin_redraw ?p = None" using I full A by (auto simp: pin_inv_def attempts_inv_def Let_def)
    show ?thesis
    proof (cases "(pin_destroyed ?p + 1) mod 3 \<noteq> 0")
      case True
      obtain ok p3 where dr: "drawLocked ?p2 now draw = (ok, p3)" by (metis prod.exhaust)
      have p: "p = nextShow p3" using e c False True dr
        by (simp add: pin_end_def Let_def pinDestroyedIn_def)
      have ne: "pin_destroyed ?p + 1 \<noteq> 3 * ?M" using True by auto
      from dr show ?thesis
      proof (cases rule: drawLocked_cases)
        case (drawn code)
        then show ?thesis using p c A d b ne np ns False rest full
          by (simp add: pin_inv_def attempts_inv_def guesses_inv_def Let_def nextShow_def)
      next
        case failed
        then show ?thesis using p c A d b ne np ns False rest full
          by (simp add: pin_inv_def attempts_inv_def guesses_inv_def Let_def nextShow_def)
      qed
    next
      case m: False
      show ?thesis
      proof (cases "(pin_destroyed ?p + 1) div 3 \<ge> ?M")
        case True
        then have "p = nextShow (?p2\<lparr>pin_closed := True, pin_stopped := True\<rparr>)"
          using e c False m A by (simp add: pin_end_def Let_def pinDestroyedIn_def)
        then show ?thesis using c A d b np full rest
          by (simp add: pin_inv_def attempts_inv_def guesses_inv_def Let_def nextShow_def)
      next
        case nm: False
        then have "p = nextShow (?p2\<lparr>pin_delay := min (wrap64 (2 * pin_delay ?p)) (pc_MaxDelay c),
            pin_expires := now + (pin_delay ?p + pc_TTL c), pin_redraw := Some (now + pin_delay ?p)\<rparr>)"
          using e c False m A by (simp add: pin_end_def Let_def pinDestroyedIn_def)
        moreover have "pin_destroyed ?p + 1 \<noteq> 3 * ?M" using nm by auto
        ultimately show ?thesis using c A d b np ns False full
          by (simp add: pin_inv_def attempts_inv_def guesses_inv_def Let_def nextShow_def)
      qed
    qed
  qed
qed

lemma pin_step_keeps:
  assumes I: "pin_inv c g" and st: "pin_step g h"
  shows "pin_inv c h"
  using st
proof cases
  case (attempt now code p)
  have p: "p = (g_pin g)\<lparr>pin_reserved := pin_reserved (g_pin g) + 1\<rparr>"
    "\<not> pin_closed (g_pin g)" "\<not> pin_paired (g_pin g)" "pin_reserved (g_pin g) < pc_Attempts (pin_cfg (g_pin g))"
    using attempt(2) by (auto simp: pin_begin_def split: if_splits)
  then show ?thesis using I attempt(1)
    by (auto simp: pin_inv_def attempts_inv_def guesses_inv_def Let_def split: if_splits)
next
  case (refused now p)
  then have "p = g_pin g" by (auto simp: pin_begin_def split: if_splits)
  then show ?thesis using I refused by simp
next
  case (wrong now draw p sh)
  then show ?thesis using wrong_keeps [OF I] by blast
next
  case (right now draw p sh)
  then have "p = (g_pin g)\<lparr>pin_paired := True, pin_code := None, pin_destroyed := 0, pin_delay := pc_Delay (pin_cfg (g_pin g))\<rparr>"
    by (simp add: pin_end_def Let_def)
  then show ?thesis using I right(1,2) guesses_bound [OF I]
    by (auto simp: pin_inv_def attempts_inv_def guesses_inv_def Let_def)
next
  case (redraw t now draw p sh)
  let ?p = "(g_pin g)\<lparr>pin_redraw := None\<rparr>"
  have f: "pin_failed (g_pin g) \<ge> pc_Attempts c" "g_open g = 0"
    using I redraw(2) by (auto simp: pin_inv_def attempts_inv_def Let_def)
  show ?thesis
  proof (cases "pin_closed ?p \<or> pin_paired ?p")
    case True
    then have "p = ?p" using redraw(4) by (simp add: redrawAfterDelay_def)
    then show ?thesis using I redraw(1)
      by (auto simp: pin_inv_def attempts_inv_def guesses_inv_def Let_def split: if_splits)
  next
    case False
    obtain ok p1 where dr: "drawLocked ?p now draw = (ok, p1)" by (metis prod.exhaust)
    have p: "p = nextShow p1" using redraw(4) False dr by (simp add: redrawAfterDelay_def Let_def)
    from dr show ?thesis
    proof (cases rule: drawLocked_cases)
      case (drawn code)
      then show ?thesis using I redraw(1) p f False
        by (auto simp: pin_inv_def attempts_inv_def guesses_inv_def Let_def nextShow_def)
    next
      case failed
      then show ?thesis using I redraw(1) p f False
        by (auto simp: pin_inv_def attempts_inv_def guesses_inv_def Let_def nextShow_def split: if_splits)
    qed
  qed
next
  case close
  then show ?thesis using I
    by (auto simp: pin_inv_def attempts_inv_def guesses_inv_def Let_def ClosePIN_def split: if_splits)
qed

interpretation pin: step_invariant pin_step "pin_inv c" for c
  by unfold_locales (rule pin_step_keeps)

text \<open>C29. Whatever the order in which connections test a PIN, end, the timer fires, the PIN is
  closed, and whatever the random source does: the attempts that got a PIN to test, over all the
  PINs drawn one after the other, are at most \<^verbatim>\<open>Attempts\<close> times three times \<^verbatim>\<open>MaxSeries\<close>
  (18 by default), and never more than \<^verbatim>\<open>Attempts\<close> at once (PAIR-04, #105).\<close>

theorem pin_guesses_bounded:
  assumes "NewPIN c now draw = Inr (p, sh)" "pc_MaxSeries c \<ge> 0"
    and "pin_step\<^sup>*\<^sup>* \<lparr>g_pin = p, g_open = 0, g_begun = 0\<rparr> g"
  shows "g_begun g \<le> max_guesses (default_config c) \<and> g_open g \<le> pc_Attempts (default_config c)"
proof -
  let ?c = "default_config c"
  let ?p0 = "\<lparr>pin_cfg = ?c, pin_code = None, pin_expires = 0, pin_reserved = 0, pin_failed = 0,
               pin_destroyed = 0, pin_delay = pc_Delay ?c, pin_redraw = None, pin_paired = False,
               pin_closed = False, pin_stopped = False, pin_changes = 0\<rparr>"
  obtain ok p1 where d: "drawLocked ?p0 now draw = (ok, p1)" by (metis prod.exhaust)
  have ok: "ok" "p = nextShow p1" using assms(1) d by (auto simp: NewPIN_def Let_def split: if_splits bool.splits)
  have A: "0 < pc_Attempts ?c" "0 < pc_MaxSeries ?c"
    using assms(2) by (simp_all add: default_config_def PINAttempts_def PINMaxSeries_def)
  from d have "pin_inv ?c \<lparr>g_pin = p, g_open = 0, g_begun = 0\<rparr>"
    by (cases rule: drawLocked_cases) (use ok A in \<open>auto simp: pin_inv_def attempts_inv_def guesses_inv_def Let_def nextShow_def\<close>)
  then have I: "pin_inv ?c g" using pin.run_keeps [OF assms(3)] by blast
  then show ?thesis using guesses_bound [OF I] by (auto simp: pin_inv_def attempts_inv_def Let_def)
qed

definition ex_config :: pin_config where
  "ex_config = \<lparr>pc_Digits = 0, pc_TTL = 0, pc_Attempts = 0, pc_Delay = 0, pc_MaxDelay = 0, pc_MaxSeries = 0\<rparr>"

theorem pin_guesses_bounded_witness:
  "\<exists>p sh g. NewPIN ex_config 0 (Some 123456) = Inr (p, sh) \<and>
     pin_step\<^sup>*\<^sup>* \<lparr>g_pin = p, g_open = 0, g_begun = 0\<rparr> g \<and> g_begun g = 1 \<and> g_begun g \<le> 18"
proof -
  obtain p sh where p: "NewPIN ex_config 0 (Some 123456) = Inr (p, sh)"
    "pin_code p \<noteq> None" "pin_closed p = False" "pin_paired p = False" "pin_expires p = TTL" "pin_reserved p = 0"
    "pin_cfg p = default_config ex_config"
    by (simp add: NewPIN_def ex_config_def default_config_def drawLocked_def drawPIN_def nextShow_def Let_def
        PINDigits_def minPINDigits_def maxPINDigits_def)
  have a: "pc_Attempts (default_config ex_config) = 3" by (simp add: default_config_def ex_config_def PINAttempts_def)
  obtain code where "pin_code p = Some code" using p(2) by auto
  then have b: "pin_begin p 0 = (Some code, p\<lparr>pin_reserved := 1\<rparr>)"
    using p a by (simp add: pin_begin_def TTL_def)
  let ?g = "\<lparr>g_pin = p, g_open = 0, g_begun = 0\<rparr>"
  have "pin_step ?g (?g\<lparr>g_pin := p\<lparr>pin_reserved := 1\<rparr>, g_open := g_open ?g + 1, g_begun := g_begun ?g + 1\<rparr>)"
    by (rule pin_step.attempt) (use b in simp)
  then have r: "pin_step\<^sup>*\<^sup>* ?g (?g\<lparr>g_pin := p\<lparr>pin_reserved := 1\<rparr>, g_open := 1, g_begun := 1\<rparr>)" by simp
  have m: "max_guesses (default_config ex_config) = 18" by (simp add: max_guesses_def default_config_def ex_config_def PINAttempts_def PINMaxSeries_def)
  have "0 \<le> pc_MaxSeries ex_config" by (simp add: ex_config_def)
  from pin_guesses_bounded [OF p(1) this r] m
  have "g_begun (?g\<lparr>g_pin := p\<lparr>pin_reserved := 1\<rparr>, g_open := 1, g_begun := 1\<rparr>) \<le> 18" by simp
  then show ?thesis using p(1) r
    by (intro exI [of _ p] exI [of _ sh] exI [of _ "?g\<lparr>g_pin := p\<lparr>pin_reserved := 1\<rparr>, g_open := 1, g_begun := 1\<rparr>"]) simp
qed

section \<open>The screen\<close>

lemma show_foldl:
  "sc_shown (foldl show_change sc chs) = Max (insert (sc_shown sc) (fst ` set chs)) \<and>
   (foldl show_change sc chs = sc \<or>
    (\<exists>n code e. (n, code, e) \<in> set chs \<and> foldl show_change sc chs = \<lparr>sc_shown = n, sc_code = code, sc_time = e\<rparr>))"
proof (induction chs arbitrary: sc)
  case (Cons ch chs)
  obtain n code e where ch: "ch = (n, code, e)" by (metis prod.exhaust)
  let ?sc = "show_change sc ch"
  have s: "?sc = (if n \<le> sc_shown sc then sc else \<lparr>sc_shown = n, sc_code = code, sc_time = e\<rparr>)"
    by (simp add: show_change_def ch)
  then have "sc_shown ?sc = max (sc_shown sc) n" by simp
  then have "Max (insert (sc_shown ?sc) (fst ` set chs)) = Max (insert (sc_shown sc) (fst ` set (ch # chs)))"
    by (cases "set chs = {}") (simp_all add: ch max.assoc max.left_commute)
  then show ?case using Cons.IH [of ?sc] s ch by (auto split: if_splits)
qed simp

text \<open>The changes of a PIN are made under its lock but shown after it, so they may cross: whatever
  the order in which the calls of \<^verbatim>\<open>show\<close> come, the screen ends with the latest change, so a PIN
  destroyed meanwhile never stays on it.\<close>

theorem screen_latest:
  assumes "distinct (map fst chs)" "(n, code, e) \<in> set chs" "\<forall>ch \<in> set chs. fst ch \<le> n" "sc_shown sc < n"
  shows "foldl show_change sc chs = \<lparr>sc_shown = n, sc_code = code, sc_time = e\<rparr>"
proof -
  have "Max (insert (sc_shown sc) (fst ` set chs)) = n"
    using assms(2-4) by (intro Max_eqI) force+
  then have m: "sc_shown (foldl show_change sc chs) = n" using show_foldl [of sc chs] by simp
  then have "foldl show_change sc chs \<noteq> sc" using assms(4) by auto
  then obtain n' code' e' where x: "(n', code', e') \<in> set chs" "foldl show_change sc chs = \<lparr>sc_shown = n', sc_code = code', sc_time = e'\<rparr>"
    using show_foldl [of sc chs] by blast
  then have "n' = n" using m by simp
  then have "(n', code', e') = (n, code, e)" using x(1) assms(1,2) by (metis eq_key_imp_eq_value fst_conv distinct_map inj_onD)
  then show ?thesis using x(2) by simp
qed

theorem screen_latest_witness:
  "foldl show_change \<lparr>sc_shown = 0, sc_code = None, sc_time = 0\<rparr> [(2, None, 5), (1, Some ''123456'', 9)] =
     \<lparr>sc_shown = 2, sc_code = None, sc_time = 5\<rparr>"
  by (rule screen_latest) auto

section \<open>Writing and reading a PIN\<close>

lemma digit_is_digit: "n < 10 \<Longrightarrow> is_digit (digit n)"
  by (simp add: is_digit_def digit_def)

lemma dec_is_digit: "c \<in> set (dec n) \<Longrightarrow> is_digit c"
  using dec_digits by (simp add: is_digit_def)

lemma length_dec: "0 < k \<Longrightarrow> n < 10 ^ k \<Longrightarrow> length (dec n) \<le> k"
proof (induction n arbitrary: k rule: dec.induct)
  case (1 n)
  show ?case
  proof (cases "n < 10")
    case True
    then show ?thesis using 1(2) by (subst dec.simps) simp
  next
    case False
    then obtain k' where k: "k = Suc k'" "0 < k'" using 1(2,3) by (cases k; cases "k - 1") auto
    then have "n div 10 < 10 ^ k'" using 1(3) by (simp add: less_mult_imp_div_less mult.commute)
    then show ?thesis using 1(1) [OF False k(2)] False k(1) by (subst dec.simps) simp
  qed
qed

lemma undec_zeros: "undec (replicate k (CHR ''0'') @ s) = undec s"
  by (induction k) (simp_all add: undec_def undigit_def)

lemma undec_pad: "undec (pad n v) = v"
  by (simp add: pad_def undec_zeros)

lemma pin_digits_app: "pin_digits (a @ b) = (case (pin_digits a, pin_digits b) of (Some x, Some y) \<Rightarrow> Some (x @ y) | _ \<Rightarrow> None)"
  by (induction a) (auto split: option.splits)

lemma pin_digits_all: "\<forall>c \<in> set s. is_digit c \<Longrightarrow> pin_digits s = Some s"
  by (induction s) auto

lemma pin_digits_groups:
  assumes "0 < g" "\<forall>c \<in> set code. is_digit c"
  shows "pin_digits (format_groups g i code) = Some (drop i code)"
  using assms
proof (induction g i code rule: format_groups.induct)
  case (1 g i code)
  show ?case
  proof (cases "i < length code")
    case True
    let ?w = "slice i (min (i + g) (length code) - i) code"
    have w: "?w = take g (drop i code)" by (simp add: slice_def min_def)
    have "\<forall>c \<in> set ?w. is_digit c" using 1(3) by (auto simp: w dest: in_set_takeD in_set_dropD)
    then have "pin_digits ?w = Some ?w" by (rule pin_digits_all)
    moreover have "pin_digits (if i > 0 then '' '' else []) = Some []" by (simp add: is_digit_def)
    moreover have "pin_digits (format_groups g (i + g) code) = Some (drop (i + g) code)" using 1 True by simp
    moreover have "?w @ drop (i + g) code = drop i code"
      unfolding w using append_take_drop_id [of g "drop i code"] by (simp add: add.commute)
    ultimately show ?thesis using True 1(2)
      by (subst format_groups.simps) (simp add: pin_digits_app)
  next
    case False
    then show ?thesis by (subst format_groups.simps) simp
  qed
qed

text \<open>A drawn PIN: \<open>n\<close> digits exactly, a different one for each number drawn (so as uniform as the
  draw), and what the screen shows of it, typed as shown, is read back as the PIN.\<close>

theorem pin_text:
  assumes "minPINDigits \<le> n" "n \<le> maxPINDigits" "v < 10 ^ n"
  shows "\<exists>code. drawPIN n (Some v) = Some code \<and> length code = n \<and> (\<forall>c \<in> set code. is_digit c) \<and>
    NormalizePIN (FormatPIN code) = Inr code \<and> (\<forall>w. drawPIN n (Some w) = Some code \<longrightarrow> w = v)"
proof -
  let ?code = "pad n v"
  have "length (dec v) \<le> n" using length_dec [of n v] assms by (simp add: minPINDigits_def)
  then have len: "length ?code = n" by (simp add: pad_def)
  have dg: "\<forall>c \<in> set ?code. is_digit c" by (auto simp: pad_def dec_is_digit) (simp add: is_digit_def)
  have "pin_digits (FormatPIN ?code) = Some ?code"
    unfolding FormatPIN_def using pin_digits_groups [OF _ dg, of _ 0] by simp
  then have "NormalizePIN (FormatPIN ?code) = Inr ?code" using len assms by (simp add: NormalizePIN_def)
  then show ?thesis using len dg undec_pad by (intro exI [of _ ?code]) (auto simp: drawPIN_def, metis)
qed

theorem pin_text_witness: "\<exists>code. drawPIN 6 (Some 42) = Some code \<and> NormalizePIN (FormatPIN code) = Inr code"
  using pin_text [of 6 42] by (auto simp: minPINDigits_def maxPINDigits_def)

section \<open>Asking again\<close>

text \<open>Asking for a PIN again gives a guesser no new attempts (PAIR-04): while a PIN is live every
  demand gets that PIN, in the state it is in; once it has been stopped no PIN is given any more
  until the user starts over; and every PIN given otherwise is a new one, the old one closed.\<close>

theorem demand_keeps_pin:
  assumes "od_pin d = Some p" "\<not> od_stopped d" "Get d now draw = (r, d')"
  shows "(Live p now \<longrightarrow> r = Inr (p, None) \<and> d' = d) \<and>
    (pin_stopped p \<longrightarrow> r = Inl ErrTooManyPINs \<and> od_stopped d' \<and> Current d' now = None \<and>
       (\<forall>now2 draw2. Get d' now2 draw2 = (Inl ErrTooManyPINs, d'))) \<and>
    (\<not> Live p now \<longrightarrow> \<not> pin_stopped p \<longrightarrow>
       (case r of Inl _ \<Rightarrow> od_pin d' = Some (ClosePIN p) | Inr (q, sh) \<Rightarrow> od_pin d' = Some q \<and> sh \<noteq> None))"
proof -
  have "Get d now draw = (case reusable p now of
      (reuse, stopped) \<Rightarrow>
        if stopped then (Inl ErrTooManyPINs, d\<lparr>od_stopped := True\<rparr>)
        else if reuse then (Inr (p, None), d)
        else (case NewPIN (od_cfg d) now draw of
            Inl e \<Rightarrow> (Inl e, d\<lparr>od_pin := Some (ClosePIN p)\<rparr>)
          | Inr (q, sh) \<Rightarrow> (Inr (q, Some sh), d\<lparr>od_pin := Some q\<rparr>)))"
    using assms(1,2) by (cases "reusable p now"; cases "NewPIN (od_cfg d) now draw") (auto simp: Get_def Let_def)
  then show ?thesis using assms
    by (auto simp: Live_def reusable_def Get_def Current_def split: sum.splits prod.splits if_splits)
qed

definition ex_demand :: pin_on_demand where
  "ex_demand = \<lparr>od_cfg = ex_config, od_pin = Some \<lparr>pin_cfg = default_config ex_config, pin_code = Some ''123456'',
     pin_expires = 10, pin_reserved = 2, pin_failed = 1, pin_destroyed = 0, pin_delay = 0, pin_redraw = None,
     pin_paired = False, pin_closed = False, pin_stopped = False, pin_changes = 1\<rparr>, od_stopped = False\<rparr>"

theorem demand_keeps_pin_witness: "snd (Get ex_demand 5 (Some 7)) = ex_demand"
proof -
  obtain p where p: "od_pin ex_demand = Some p" "Live p 5" "\<not> od_stopped ex_demand"
    by (simp add: ex_demand_def Live_def reusable_def)
  obtain r d' where g: "Get ex_demand 5 (Some 7) = (r, d')" by (metis prod.exhaust)
  show ?thesis using demand_keeps_pin [OF p(1,3) g] p(2) g by simp
qed

end
