(* ===== verification/Encodings.thy ===== *)
theory Encodings
  imports GoStrings
begin

text \<open>
  Go's \<^verbatim>\<open>encoding/base32\<close> (standard alphabet, no padding) and \<^verbatim>\<open>encoding/base64\<close> (URL
  alphabet, no padding), as fingerprints, tags and secrets use them: groups of \<open>g\<close> bytes are
  numbers written in \<open>c\<close> digits of \<open>b\<close> bits. The last group has fewer bytes, and zero bits at its
  end; the decoder ignores those bits, as Go's does.
\<close>

section \<open>Groups\<close>

fun digits_of :: "nat \<Rightarrow> nat \<Rightarrow> nat \<Rightarrow> nat list" where
  "digits_of b 0 k = []"
| "digits_of b (Suc n) k = digits_of b n (k div 2 ^ b) @ [k mod 2 ^ b]"

definition num_of :: "nat \<Rightarrow> nat list \<Rightarrow> nat" where
  "num_of b ds = foldl (\<lambda>a d. a * 2 ^ b + d) 0 ds"

lemma length_digits_of [simp]: "length (digits_of b n k) = n"
  by (induction n arbitrary: k) simp_all

lemma num_of_snoc [simp]: "num_of b (ds @ [d]) = num_of b ds * 2 ^ b + d" "num_of b [] = 0"
  by (simp_all add: num_of_def)

lemma num_of_digits: "num_of b (digits_of b n k) = k mod (2 ^ b) ^ n"
proof (induction n arbitrary: k)
  case (Suc n)
  show ?case using Suc [of "k div 2 ^ b"] mod_mult2_eq [of k "2 ^ b" "(2 ^ b) ^ n"] by (simp add: mult.commute)
qed simp

lemma digits_of_less: "d \<in> set (digits_of b n k) \<Longrightarrow> d < 2 ^ b"
  by (induction n arbitrary: k) auto

text \<open>The digits of a group of \<open>k\<close> bytes: as many as hold its bits.\<close>

definition group_digits :: "nat \<Rightarrow> nat \<Rightarrow> nat" where
  "group_digits b k = (8 * k + b - 1) div b"

function enc_groups :: "nat \<Rightarrow> nat \<Rightarrow> bytes \<Rightarrow> nat list" where
  "enc_groups b g bs =
     (if bs = [] \<or> g = 0 then []
      else let q = take g bs; n = group_digits b (length q) in
        digits_of b n (be_nat q * 2 ^ (b * n - 8 * length q)) @ enc_groups b g (drop g bs))"
  by pat_completeness auto
termination by (relation "measure (\<lambda>(b, g, bs). length bs)") auto

declare enc_groups.simps [simp del]

text \<open>\<open>lens\<close> says how many bytes a group of digits gives.\<close>

function dec_groups :: "nat \<Rightarrow> nat \<Rightarrow> (nat \<Rightarrow> nat) \<Rightarrow> nat list \<Rightarrow> bytes" where
  "dec_groups b c lens ds =
     (if ds = [] \<or> c = 0 then []
      else let q = take c ds; m = lens (length q) in
        be m (num_of b q div 2 ^ (b * length q - 8 * m)) @ dec_groups b c lens (drop c ds))"
  by pat_completeness auto
termination by (relation "measure (\<lambda>(b, c, lens, ds). length ds)") auto

declare dec_groups.simps [simp del]

lemma enc_groups_set: "d \<in> set (enc_groups b g bs) \<Longrightarrow> d < 2 ^ b"
proof (induction b g bs rule: enc_groups.induct)
  case (1 b g bs)
  show ?case
  proof (cases "bs = [] \<or> g = 0")
    case True
    then show ?thesis using 1(2) by (simp add: enc_groups.simps [of b g bs])
  next
    case False
    have "enc_groups b g bs = digits_of b (group_digits b (length (take g bs)))
        (be_nat (take g bs) * 2 ^ (b * group_digits b (length (take g bs)) - 8 * length (take g bs))) @ enc_groups b g (drop g bs)"
      using False by (subst enc_groups.simps) (simp add: Let_def)
    then show ?thesis using 1 False digits_of_less by fastforce
  qed
qed

lemma dec_enc_groups:
  assumes "0 < g" "group_digits b g = c" "\<And>k. 0 < k \<Longrightarrow> k < g \<Longrightarrow> group_digits b k < c"
    "\<And>k. 0 < k \<Longrightarrow> k \<le> g \<Longrightarrow> lens (group_digits b k) = k \<and> 8 * k \<le> b * group_digits b k \<and> 0 < group_digits b k"
  shows "dec_groups b c lens (enc_groups b g bs) = bs"
  using assms
proof (induction b g bs rule: enc_groups.induct)
  case (1 b g bs)
  show ?case
  proof (cases "bs = []")
    case True
    then show ?thesis by (simp add: enc_groups.simps dec_groups.simps)
  next
    case False
    let ?q = "take g bs" let ?k = "length ?q" let ?n = "group_digits b ?k"
    let ?ds = "digits_of b ?n (be_nat ?q * 2 ^ (b * ?n - 8 * ?k))" and ?r = "enc_groups b g (drop g bs)"
    have k: "0 < ?k" "?k \<le> g" using False 1(2) by auto
    note L = 1(5) [OF k]
    have c: "c \<noteq> 0" using 1(3) 1(5) [of g] 1(2) by auto
    have e: "enc_groups b g bs = ?ds @ ?r" using False 1(2) by (subst enc_groups.simps) (simp add: Let_def)
    have t: "take c (?ds @ ?r) = ?ds" "drop c (?ds @ ?r) = ?r"
    proof -
      have "?n = c \<or> (?n < c \<and> ?r = [])"
      proof (cases "?k = g")
        case True
        then show ?thesis using 1(3) by simp
      next
        case False
        then have "drop g bs = []" by simp
        moreover have "?n < c" using 1(4) [of ?k] k False by simp
        ultimately show ?thesis by (simp add: enc_groups.simps)
      qed
      then show "take c (?ds @ ?r) = ?ds" "drop c (?ds @ ?r) = ?r" by auto
    qed
    have "be_nat ?q < 256 ^ ?k" using be_nat_bound by blast
    also have "(256 :: nat) ^ ?k = 2 ^ (8 * ?k)" by (simp add: power_mult)
    finally have "be_nat ?q * 2 ^ (b * ?n - 8 * ?k) < 2 ^ (8 * ?k) * 2 ^ (b * ?n - 8 * ?k)" by simp
    also have "\<dots> = (2 ^ b) ^ ?n" using L by (simp add: power_add [symmetric] power_mult [symmetric])
    finally have "num_of b ?ds = be_nat ?q * 2 ^ (b * ?n - 8 * ?k)" by (simp add: num_of_digits)
    then have "be (lens ?n) (num_of b ?ds div 2 ^ (b * ?n - 8 * lens ?n)) = ?q" using L by (simp add: be_be_nat)
    moreover have "?ds \<noteq> []" using L by (metis length_digits_of less_numeral_extra(3) list.size(3))
    moreover have "dec_groups b c lens ?r = drop g bs" using 1 False by auto
    ultimately show ?thesis using c t unfolding e by (subst dec_groups.simps) (simp add: Let_def)
  qed
qed

section \<open>Base 32\<close>

definition b32_char :: "nat \<Rightarrow> char" where
  "b32_char v = (if v < 26 then char_of (65 + v) else char_of (24 + v))"

definition b32_val :: "char \<Rightarrow> nat option" where
  "b32_val c = (let n = of_char c :: nat in
     if 65 \<le> n \<and> n \<le> 90 then Some (n - 65) else if 50 \<le> n \<and> n \<le> 55 then Some (n - 24) else None)"

definition b32_lens :: "nat \<Rightarrow> nat" where
  "b32_lens k = (if k = 1 \<or> k = 3 \<or> k = 6 then 0 else 5 * k div 8)"

definition b32_encode :: "bytes \<Rightarrow> string" where
  "b32_encode bs = map b32_char (enc_groups 5 5 bs)"

definition strip_newlines :: "string \<Rightarrow> string" where
  "strip_newlines s = filter (\<lambda>c. (of_char c :: nat) \<noteq> 10 \<and> (of_char c :: nat) \<noteq> 13) s"

definition vals_of :: "(char \<Rightarrow> nat option) \<Rightarrow> string \<Rightarrow> nat list option" where
  "vals_of val s = (if list_all (\<lambda>c. val c \<noteq> None) s then Some (map (the \<circ> val) s) else None)"

definition b32_decode :: "string \<Rightarrow> bytes option" where
  "b32_decode s = map_option (dec_groups 5 8 b32_lens) (vals_of b32_val (strip_newlines s))"

lemma b32_val_char: "v < 32 \<Longrightarrow> b32_val (b32_char v) = Some v"
  by (auto simp: b32_val_def b32_char_def Let_def)

lemma b32_char_code: "v < 32 \<Longrightarrow> 50 \<le> (of_char (b32_char v) :: nat) \<and> (of_char (b32_char v) :: nat) \<le> 90 \<and>
    ((of_char (b32_char v) :: nat) \<le> 55 \<or> 65 \<le> (of_char (b32_char v) :: nat))"
  by (auto simp: b32_char_def)

lemma b32_set: "c \<in> set (b32_encode bs) \<Longrightarrow> \<exists>v < 32. c = b32_char v"
  using enc_groups_set [of _ 5 5 bs] by (auto simp: b32_encode_def)

lemma vals_of_map: "(\<And>v. v \<in> set vs \<Longrightarrow> val (f v) = Some v) \<Longrightarrow> vals_of val (map f vs) = Some vs"
  by (auto simp: vals_of_def list_all_iff intro!: map_idI)

lemma group_digits_5: "group_digits 5 1 = 2" "group_digits 5 (Suc 0) = 2" "group_digits 5 2 = 4" "group_digits 5 3 = 5" "group_digits 5 4 = 7" "group_digits 5 5 = 8"
  by (simp_all add: group_digits_def)

lemma upto5: "0 < k \<Longrightarrow> k \<le> 5 \<Longrightarrow> k = 1 \<or> k = 2 \<or> k = 3 \<or> k = 4 \<or> k = (5 :: nat)"
  by arith

lemma b32_decode_encode: "b32_decode (b32_encode bs) = Some bs"
proof -
  have "strip_newlines (b32_encode bs) = b32_encode bs"
    unfolding strip_newlines_def using b32_set [of _ bs] b32_char_code by (fastforce intro: filter_True)
  moreover have "vals_of b32_val (b32_encode bs) = Some (enc_groups 5 5 bs)"
    unfolding b32_encode_def using enc_groups_set [of _ 5 5 bs] by (intro vals_of_map b32_val_char) simp
  moreover have "dec_groups 5 8 b32_lens (enc_groups 5 5 bs) = bs"
  proof (rule dec_enc_groups)
    show "b32_lens (group_digits 5 k) = k \<and> 8 * k \<le> 5 * group_digits 5 k \<and> 0 < group_digits 5 k"
      if "0 < k" "k \<le> 5" for k using upto5 [OF that] by (auto simp: group_digits_5 b32_lens_def)
    show "group_digits 5 k < 8" if "0 < k" "k < 5" for k using upto5 [of k] that by (auto simp: group_digits_5)
  qed (simp_all add: group_digits_5)
  ultimately show ?thesis by (simp add: b32_decode_def)
qed

section \<open>Base 64, URL alphabet\<close>

definition b64_char :: "nat \<Rightarrow> char" where
  "b64_char v = (if v < 26 then char_of (65 + v) else if v < 52 then char_of (71 + v)
     else if v < 62 then char_of (v - 4) else if v = 62 then CHR ''-'' else CHR ''_'')"

definition b64_val :: "char \<Rightarrow> nat option" where
  "b64_val c = (let n = of_char c :: nat in
     if 65 \<le> n \<and> n \<le> 90 then Some (n - 65) else if 97 \<le> n \<and> n \<le> 122 then Some (n - 71)
     else if 48 \<le> n \<and> n \<le> 57 then Some (n + 4) else if n = 45 then Some 62 else if n = 95 then Some 63 else None)"

definition b64_lens :: "nat \<Rightarrow> nat" where "b64_lens k = 6 * k div 8"

definition b64_encode :: "bytes \<Rightarrow> string" where
  "b64_encode bs = map b64_char (enc_groups 6 3 bs)"

text \<open>A last group of one digit is an error.\<close>

definition b64_decode :: "string \<Rightarrow> bytes option" where
  "b64_decode s =
     (case vals_of b64_val (strip_newlines s) of
        None \<Rightarrow> None
      | Some vs \<Rightarrow> if length vs mod 4 = 1 then None else Some (dec_groups 6 4 b64_lens vs))"

lemma b64_val_char: "v < 64 \<Longrightarrow> b64_val (b64_char v) = Some v"
  by (auto simp: b64_val_def b64_char_def Let_def)

lemma group_digits_6: "group_digits 6 1 = 2" "group_digits 6 (Suc 0) = 2" "group_digits 6 2 = 3" "group_digits 6 3 = 4"
  by (simp_all add: group_digits_def)

lemma upto3: "0 < k \<Longrightarrow> k \<le> 3 \<Longrightarrow> k = 1 \<or> k = 2 \<or> k = (3 :: nat)"
  by arith

lemma length_enc_6: "length (enc_groups 6 3 bs) mod 4 \<noteq> 1"
proof (induction "6 :: nat" "3 :: nat" bs rule: enc_groups.induct)
  case (1 bs)
  show ?case
  proof (cases "length bs < 3")
    case True
    then have d: "enc_groups 6 3 (drop 3 bs) = []" by (simp add: enc_groups.simps)
    have "length bs = 0 \<or> length bs = 1 \<or> length bs = 2" using True by arith
    moreover have "length (enc_groups 6 3 bs) = (if bs = [] then 0 else group_digits 6 (length bs))"
      using True d by (subst enc_groups.simps) (simp add: Let_def min_def)
    ultimately show ?thesis by (auto simp: group_digits_6 split: if_splits)
  next
    case False
    then have n: "bs \<noteq> []" by auto
    have "length (enc_groups 6 3 bs) = 4 + length (enc_groups 6 3 (drop 3 bs))"
      using False n by (subst enc_groups.simps) (simp add: Let_def min_def group_digits_6)
    then show ?thesis using 1 n by simp
  qed
qed

lemma b64_decode_encode: "b64_decode (b64_encode bs) = Some bs"
proof -
  have s: "(of_char (b64_char v) :: nat) \<noteq> 10 \<and> (of_char (b64_char v) :: nat) \<noteq> 13" if "v < 64" for v
    using that by (auto simp: b64_char_def)
  have e: "d < 64" if "d \<in> set (enc_groups 6 3 bs)" for d using enc_groups_set [OF that] by simp
  have "strip_newlines (b64_encode bs) = b64_encode bs"
    unfolding strip_newlines_def b64_encode_def using s e by (auto intro: filter_True)
  moreover have "vals_of b64_val (b64_encode bs) = Some (enc_groups 6 3 bs)"
    unfolding b64_encode_def by (intro vals_of_map b64_val_char e)
  moreover have "dec_groups 6 4 b64_lens (enc_groups 6 3 bs) = bs"
  proof (rule dec_enc_groups)
    show "b64_lens (group_digits 6 k) = k \<and> 8 * k \<le> 6 * group_digits 6 k \<and> 0 < group_digits 6 k"
      if "0 < k" "k \<le> 3" for k using upto3 [OF that] by (auto simp: group_digits_6 b64_lens_def)
    show "group_digits 6 k < 4" if "0 < k" "k < 3" for k using upto3 [of k] that by (auto simp: group_digits_6)
  qed (simp_all add: group_digits_6)
  ultimately show ?thesis using length_enc_6 [of bs] by (simp add: b64_decode_def)
qed

end
