(* ===== verification/Fingerprints.thy ===== *)
theory Fingerprints
  imports Encodings
begin

text \<open>
  The text of a key fingerprint (\<^verbatim>\<open>pkg/identity/fingerprint.go\<close>): base 32, read whatever the
  letter case and the separators. The certificate is its public key's bytes, and SHA-256 the
  parameter \<open>sha\<close>.
\<close>

type_synonym fingerprint = bytes

definition fpLen :: nat where "fpLen = 32"

definition FingerprintOf :: "(bytes \<Rightarrow> bytes) \<Rightarrow> bytes \<Rightarrow> fingerprint" where
  "FingerprintOf sha spki = sha spki"

definition FP_String :: "fingerprint \<Rightarrow> string" where "FP_String f = b32_encode f"

definition FP_Short :: "fingerprint \<Rightarrow> string" where
  "FP_Short f = (let s = take 16 (FP_String f) in
     slice 0 4 s @ ''-'' @ slice 4 4 s @ ''-'' @ slice 8 4 s @ ''-'' @ slice 12 4 s)"

definition FP_IsZero :: "fingerprint \<Rightarrow> bool" where "FP_IsZero f \<longleftrightarrow> f = replicate fpLen 0"

definition normalize :: "string \<Rightarrow> string" where
  "normalize s =
     map upper_char (filter (\<lambda>r. \<not> (r = CHR ''-'' \<or> r = CHR '' '' \<or> r = CHR '':'' \<or> (of_char r :: nat) = 9)) s)"

definition ParseFingerprint :: "string \<Rightarrow> fingerprint option" where
  "ParseFingerprint s =
     (case b32_decode (normalize s) of None \<Rightarrow> None | Some b \<Rightarrow> if length b \<noteq> fpLen then None else Some b)"

lemma normalize_encode: "normalize (b32_encode bs) = b32_encode bs"
proof -
  have c: "upper_char c = c \<and> c \<noteq> CHR ''-'' \<and> c \<noteq> CHR '' '' \<and> c \<noteq> CHR '':'' \<and> (of_char c :: nat) \<noteq> 9"
    if cs: "c \<in> set (b32_encode bs)" for c
  proof -
    obtain v where "v < 32" "c = b32_char v" using b32_set [OF cs] by blast
    then have "50 \<le> (of_char c :: nat)" "(of_char c :: nat) \<le> 90" "(of_char c :: nat) \<le> 55 \<or> 65 \<le> (of_char c :: nat)"
      using b32_char_code by blast+
    then show ?thesis by (auto simp: upper_char_def Let_def)
  qed
  then show ?thesis unfolding normalize_def by (subst filter_True) (auto intro: map_idI)
qed

lemma length_FP:
  assumes "length f = fpLen"
  shows "length (FP_String f) = 52"
proof -
  have "length (enc_groups 5 5 f) = 52"
  proof -
    have s: "length (enc_groups 5 5 x) = 8 + length (enc_groups 5 5 (drop 5 x))" if "length x \<ge> 5" for x
    proof -
      have "x \<noteq> []" "min (length x) 5 = 5" using that by auto
      then show ?thesis by (subst enc_groups.simps) (simp add: Let_def group_digits_5)
    qed
    have l: "length (enc_groups 5 5 x) = 4" if "length x = 2" for x
    proof -
      have "x \<noteq> []" "drop 5 x = []" using that by auto
      then show ?thesis using that by (subst enc_groups.simps) (simp add: Let_def group_digits_5 enc_groups.simps [of 5 5 "[]"])
    qed
    show ?thesis using assms by (simp add: fpLen_def s l)
  qed
  then show ?thesis by (simp add: FP_String_def b32_encode_def)
qed



end
