(* ===== verification/TrustStores.thy ===== *)
theory TrustStores
  imports Fingerprints Paths Place "HOL-Library.Multiset" "HOL-Library.Char_ord" "HOL-Library.List_Lexorder" "HOL-Library.Product_Lexorder"
begin

text \<open>
  The list of trusted devices and its file, replaced atomically
  (\<^verbatim>\<open>pkg/identity/trust.go\<close>, \<^verbatim>\<open>pkg/identity/atomic.go\<close>). The map of the code, which
  is read in no fixed order, is a list of peers in some order; every result holds for any.
  The JSON text is given by two parameters, \<open>json\<close> and \<open>unjson\<close>; times are nanoseconds, 0 the zero time.
\<close>

section \<open>Replacing a file\<close>

definition Chmod :: "os \<Rightarrow> string \<Rightarrow> (os_error + unit) \<times> os" where
  "Chmod s n = (case pop s of (Some _, s') \<Rightarrow> (Inl IOError, s') | (None, s') \<Rightarrow> (Inr (), s'))"

text \<open>The name of the temporary file; its end is random.\<close>

definition TempName :: "string \<Rightarrow> string \<Rightarrow> string" where
  "TempName p rnd = path_Join (path_Dir p) (path_Base p @ ''.tmp-'' @ rnd)"

definition write_temp :: "os \<Rightarrow> string \<Rightarrow> bytes \<Rightarrow> bool \<Rightarrow> (os_error + unit) \<times> os" where
  "write_temp s name data windows =
     (case Chmod s name of
        (rc, s1) \<Rightarrow>
          if rc \<noteq> Inr () \<and> \<not> windows then (rc, s1)
          else
            case WriteAt s1 name 0 data of
              (Inl e, s2) \<Rightarrow> (Inl e, s2)
            | (Inr _, s2) \<Rightarrow>
                (case Sync s2 name of
                   (Inl e, s3) \<Rightarrow> (Inl e, s3)
                 | (Inr _, s3) \<Rightarrow> CloseF s3 name))"

definition drop_temp :: "os \<Rightarrow> string \<Rightarrow> os" where
  "drop_temp s name = snd (Remove (snd (CloseF s name)) name)"

definition writeFileAtomic ::
  "os \<Rightarrow> string \<Rightarrow> bytes \<Rightarrow> string \<Rightarrow> bool \<Rightarrow> (os_error + unit) \<times> os" where
  "writeFileAtomic s p data rnd windows =
     (case MkdirAll s (path_Dir p) of
        (Inl e, s1) \<Rightarrow> (Inl e, s1)
      | (Inr _, s1) \<Rightarrow>
          let name = TempName p rnd in
          case OpenFile s1 name True of
            (Inl e, s2) \<Rightarrow> (Inl e, s2)
          | (Inr _, s2) \<Rightarrow>
              (case write_temp s2 name data windows of
                 (Inl e, s3) \<Rightarrow> (Inl e, drop_temp s3 name)
               | (Inr _, s3) \<Rightarrow>
                   (case rename_tries 4 s3 name p of
                      (Inl e, s4) \<Rightarrow> (Inl e, drop_temp s4 name)
                    | (Inr _, s4) \<Rightarrow> (Inr (), s4))))"

section \<open>The trusted devices\<close>

definition trustVersion :: int where "trustVersion = 1"

record peer =
  pe_Fingerprint :: fingerprint
  pe_Alias :: string
  pe_AddedAt :: int
  pe_LastAddress :: string
  pe_AutoAccept :: bool
  pe_Renamed :: bool
  pe_TagKey :: bytes

record trust_file =
  tf_Version :: int
  tf_Peers :: "(string \<times> peer) list"

record trust_store =
  ts_path :: string
  ts_peers :: "peer list"

datatype trust_error =
    TrustOS os_error
  | BadJSON
  | BadVersion int
  | BadFingerprint string
  | EmptyFingerprint
  | PrefixTooShort string
  | NoMatch string
  | ManyMatch string nat

definition get_peer :: "fingerprint \<Rightarrow> peer list \<Rightarrow> peer option" where
  "get_peer fp ps = find (\<lambda>p. pe_Fingerprint p = fp) ps"

fun put_peer :: "peer \<Rightarrow> peer list \<Rightarrow> peer list" where
  "put_peer p [] = [p]"
| "put_peer p (q # qs) = (if pe_Fingerprint q = pe_Fingerprint p then p # qs else q # put_peer p qs)"

definition ReadFile :: "os \<Rightarrow> string \<Rightarrow> (os_error + bytes) \<times> os" where
  "ReadFile s p = (case OpenFile s p False of
     (Inl e, s1) \<Rightarrow> (Inl e, s1)
   | (Inr _, s1) \<Rightarrow>
       (case pop s1 of
          (Some _, s2) \<Rightarrow> (Inl IOError, s2)
        | (None, s2) \<Rightarrow> (Inr (case os_files s2 p of None \<Rightarrow> [] | Some nd \<Rightarrow> fn_data nd), s2)))"

fun load_peers :: "(string \<times> peer) list \<Rightarrow> peer list \<Rightarrow> trust_error + peer list" where
  "load_peers [] ps = Inr ps"
| "load_peers ((t, p) # rest) ps =
     (case ParseFingerprint t of
        None \<Rightarrow> Inl (BadFingerprint t)
      | Some fp \<Rightarrow> load_peers rest (put_peer (p\<lparr>pe_Fingerprint := fp\<rparr>) ps))"

definition parse_trust :: "(bytes \<Rightarrow> trust_file option) \<Rightarrow> bytes \<Rightarrow> trust_error + peer list" where
  "parse_trust unjson data =
     (case unjson data of
        None \<Rightarrow> Inl BadJSON
      | Some f \<Rightarrow> if tf_Version f \<noteq> trustVersion then Inl (BadVersion (tf_Version f)) else load_peers (tf_Peers f) [])"

definition OpenTrustStore :: "(bytes \<Rightarrow> trust_file option) \<Rightarrow> os \<Rightarrow> string \<Rightarrow> (trust_error + trust_store) \<times> os" where
  "OpenTrustStore unjson s p =
     (case ReadFile s p of
        (Inl e, s1) \<Rightarrow> (if e = NotExist then Inr \<lparr>ts_path = p, ts_peers = []\<rparr> else Inl (TrustOS e), s1)
      | (Inr data, s1) \<Rightarrow> (map_sum id (\<lambda>ps. \<lparr>ts_path = p, ts_peers = ps\<rparr>) (parse_trust unjson data), s1))"

definition Contains :: "trust_store \<Rightarrow> fingerprint \<Rightarrow> bool" where
  "Contains t fp \<longleftrightarrow> get_peer fp (ts_peers t) \<noteq> None"

definition GetPeer :: "trust_store \<Rightarrow> fingerprint \<Rightarrow> peer option" where
  "GetPeer t fp = get_peer fp (ts_peers t)"

definition ByAddress :: "trust_store \<Rightarrow> string \<Rightarrow> peer option" where
  "ByAddress t addr = find (\<lambda>p. addr \<noteq> [] \<and> pe_LastAddress p = addr) (ts_peers t)"

definition KeyChangedAt :: "trust_store \<Rightarrow> string \<Rightarrow> fingerprint \<Rightarrow> peer option" where
  "KeyChangedAt t addr fp =
     (if addr = [] then None
      else if get_peer fp (ts_peers t) \<noteq> None then None
      else find (\<lambda>p. pe_LastAddress p = addr) (ts_peers t))"

definition saveLocked ::
  "(trust_file \<Rightarrow> bytes option) \<Rightarrow> os \<Rightarrow> string \<Rightarrow> peer list \<Rightarrow> string \<Rightarrow> bool \<Rightarrow> (trust_error + unit) \<times> os" where
  "saveLocked json s p ps rnd windows =
     (case json \<lparr>tf_Version = trustVersion, tf_Peers = sort_key fst (map (\<lambda>p. (FP_String (pe_Fingerprint p), p)) ps)\<rparr> of
        None \<Rightarrow> (Inl BadJSON, s)
      | Some data \<Rightarrow> (case writeFileAtomic s p (data @ [10]) rnd windows of (r, s1) \<Rightarrow> (map_sum TrustOS id r, s1)))"

definition free_address :: "peer \<Rightarrow> peer list \<Rightarrow> peer list" where
  "free_address p ps =
     (if pe_LastAddress p \<noteq> []
      then map (\<lambda>q. if pe_Fingerprint q \<noteq> pe_Fingerprint p \<and> pe_LastAddress q = pe_LastAddress p
                    then q\<lparr>pe_LastAddress := []\<rparr> else q) ps
      else ps)"

definition AddPeer ::
  "(trust_file \<Rightarrow> bytes option) \<Rightarrow> trust_store \<Rightarrow> os \<Rightarrow> peer \<Rightarrow> int \<Rightarrow> string \<Rightarrow> bool
   \<Rightarrow> (trust_error + unit) \<times> trust_store \<times> os" where
  "AddPeer json t s p0 now rnd windows =
     (if FP_IsZero (pe_Fingerprint p0) then (Inl EmptyFingerprint, t, s)
      else
        let p = (if pe_AddedAt p0 = 0 then p0\<lparr>pe_AddedAt := now\<rparr> else p0);
            ps = put_peer p (free_address p (ts_peers t))
        in case saveLocked json s (ts_path t) ps rnd windows of
             (Inl e, s1) \<Rightarrow> (Inl e, t, s1)
           | (Inr _, s1) \<Rightarrow> (Inr (), t\<lparr>ts_peers := ps\<rparr>, s1))"

definition Forget ::
  "(trust_file \<Rightarrow> bytes option) \<Rightarrow> trust_store \<Rightarrow> os \<Rightarrow> fingerprint \<Rightarrow> string \<Rightarrow> bool
   \<Rightarrow> (trust_error + bool) \<times> trust_store \<times> os" where
  "Forget json t s fp rnd windows =
     (if get_peer fp (ts_peers t) = None then (Inr False, t, s)
      else
        let ps = filter (\<lambda>p. pe_Fingerprint p \<noteq> fp) (ts_peers t) in
        case saveLocked json s (ts_path t) ps rnd windows of
          (Inl e, s1) \<Rightarrow> (Inl e, t, s1)
        | (Inr _, s1) \<Rightarrow> (Inr True, t\<lparr>ts_peers := ps\<rparr>, s1))"

definition ListPeers :: "trust_store \<Rightarrow> peer list" where
  "ListPeers t = sort_key (\<lambda>p. (pe_AddedAt p, FP_String (pe_Fingerprint p))) (ts_peers t)"

definition Find :: "trust_store \<Rightarrow> string \<Rightarrow> trust_error + peer" where
  "Find t pre =
     (let n = normalize pre in
      if length n < 4 then Inl (PrefixTooShort pre)
      else
        case filter (\<lambda>p. prefix n (FP_String (pe_Fingerprint p))) (ListPeers t) of
          [] \<Rightarrow> Inl (NoMatch pre)
        | [p] \<Rightarrow> Inr p
        | found \<Rightarrow> Inl (ManyMatch pre (length found)))"

section \<open>The file is replaced as a whole\<close>

lemma TempName_other:
  assumes "named_path p b" "plain_part (b @ ''.tmp-'' @ rnd)"
  shows "TempName p rnd \<noteq> p"
proof -
  have t: "TempName p rnd = take (length p - length b) p @ b @ ''.tmp-'' @ rnd"
    using path_Join_sibling [OF assms] path_Base_named [OF assms(1)] by (simp add: TempName_def)
  have "length b \<le> length p" using assms(1) by (auto simp: named_path_def)
  then have "length (TempName p rnd) > length p" by (simp add: t)
  then show ?thesis by auto
qed

lemma drop_temp_frame: "os_frame {n} s (drop_temp s n)"
proof -
  obtain rc s1 where c: "CloseF s n = (rc, s1)" by (metis prod.exhaust)
  obtain rr s2 where m: "Remove s1 n = (rr, s2)" by (metis prod.exhaust)
  show ?thesis using os_frame_trans [OF CloseF_os_frame [OF c] Remove_frame [OF m]] c m by (simp add: drop_temp_def)
qed

lemma write_temp_result:
  assumes w: "write_temp s n data windows = (r, s')" and n: "os_files s n = Some \<lparr>fn_data = [], fn_sync = []\<rparr>"
  shows "os_frame {n} s s'" "r = Inr () \<Longrightarrow> os_files s' n = Some \<lparr>fn_data = data, fn_sync = data\<rparr>"
proof -
  obtain rc s1 where c: "Chmod s n = (rc, s1)" by (metis prod.exhaust)
  have f1: "os_files s1 = os_files s" using c by (auto simp: Chmod_def dest: pop_frame split: prod.splits option.splits)
  obtain rw s2 where wr: "WriteAt s1 n 0 data = (rw, s2)" by (metis prod.exhaust)
  obtain wb where wb: "rw = Inr () \<longrightarrow> wb = data" "os_files s2 = (os_files s1)(n \<mapsto> \<lparr>fn_data = write_at [] 0 wb, fn_sync = []\<rparr>)"
    using WriteAt_files(2) [OF wr] n f1 by auto
  obtain ry s3 where y: "Sync s2 n = (ry, s3)" by (metis prod.exhaust)
  obtain rl s4 where l: "CloseF s3 n = (rl, s4)" by (metis prod.exhaust)
  have d: "write_at [] 0 wb = wb" by (simp add: write_at_def)
  have F: "os_frame {n} s s1" "os_frame {n} s s2" using f1 wb(2) by (simp_all add: os_frame_def)
  have F3: "os_frame {n} s s3" by (rule os_frame_trans [OF F(2) Sync_frame [OF y]]) simp
  have F4: "os_frame {n} s s4" by (rule os_frame_trans [OF F3 CloseF_os_frame [OF l]])
  have R: "write_temp s n data windows = (if rc \<noteq> Inr () \<and> \<not> windows then (rc, s1)
      else case rw of Inl e \<Rightarrow> (Inl e, s2) | Inr _ \<Rightarrow> (case ry of Inl e \<Rightarrow> (Inl e, s3) | Inr _ \<Rightarrow> (rl, s4)))"
    using c wr y l by (cases rw; cases ry) (simp_all add: write_temp_def)
  then show "os_frame {n} s s'" using w F F3 F4 by (auto split: if_splits sum.splits)
  assume "r = Inr ()"
  then have ok: "rw = Inr ()" "ry = Inr ()" "s' = s4" using R w by (auto split: if_splits sum.splits)
  have "os_files s3 n = Some \<lparr>fn_data = data, fn_sync = data\<rparr>"
    using Sync_files(2) [OF y] wb d ok by simp
  then show "os_files s' n = Some \<lparr>fn_data = data, fn_sync = data\<rparr>" using CloseF_frame [OF l] ok(3) by simp
qed

lemma atomic_write:
  assumes w: "writeFileAtomic s p data rnd windows = (r, s')" and np: "TempName p rnd \<noteq> p"
  shows "os_files s' p = (if r = Inr () then Some \<lparr>fn_data = data, fn_sync = data\<rparr> else os_files s p)"
    "m \<noteq> p \<Longrightarrow> m \<noteq> TempName p rnd \<Longrightarrow> os_files s' m = os_files s m"
proof -
  let ?n = "TempName p rnd"
  obtain rm s1 where m: "MkdirAll s (path_Dir p) = (rm, s1)" by (metis prod.exhaust)
  have f1: "os_files s1 = os_files s" by (rule MkdirAll_frame [OF m])
  obtain ro s2 where o: "OpenFile s1 ?n True = (ro, s2)" by (metis prod.exhaust)
  note O = OpenFile_create [OF o]
  obtain rt s3 where t: "write_temp s2 ?n data windows = (rt, s3)" by (metis prod.exhaust)
  obtain rr s4 where rn: "rename_tries 4 s3 ?n p = (rr, s4)" by (metis prod.exhaust)
  have R4: "(rr \<noteq> Inr () \<and> os_files s4 = os_files s3) \<or>
    (rr = Inr () \<and> (\<exists>nd. os_files s3 ?n = Some nd \<and> os_files s4 = (os_files s3)(?n := None, p \<mapsto> nd)))"
    using rename_tries_files [of 3 s3 ?n p rr s4] rn by (simp add: eval_nat_numeral)
  have R: "writeFileAtomic s p data rnd windows = (case rm of Inl e \<Rightarrow> (Inl e, s1) | Inr _ \<Rightarrow>
      (case ro of Inl e \<Rightarrow> (Inl e, s2) | Inr _ \<Rightarrow> (case rt of Inl e \<Rightarrow> (Inl e, drop_temp s3 ?n) | Inr _ \<Rightarrow>
        (case rr of Inl e \<Rightarrow> (Inl e, drop_temp s4 ?n) | Inr _ \<Rightarrow> (Inr (), s4)))))"
    using m o t rn by (cases rm; cases ro; cases rt; cases rr) (simp_all add: writeFileAtomic_def Let_def)
  have "os_files s' p = (if r = Inr () then Some \<lparr>fn_data = data, fn_sync = data\<rparr> else os_files s p) \<and>
    (\<forall>m. m \<noteq> p \<longrightarrow> m \<noteq> ?n \<longrightarrow> os_files s' m = os_files s m)"
  proof (cases "rm = Inr () \<and> ro = Inr ()")
    case False
    then have "r \<noteq> Inr ()" "os_files s' = os_files s"
      using R w f1 O(3) by (auto split: sum.splits)
    then show ?thesis by simp
  next
    case True
    have n2: "os_files s2 = (os_files s)(?n \<mapsto> \<lparr>fn_data = [], fn_sync = []\<rparr>)" using O(2) True f1 by simp
    then have "os_files s2 ?n = Some \<lparr>fn_data = [], fn_sync = []\<rparr>" by simp
    note T = write_temp_result [OF t this]
    have D: "os_frame {?n} x (drop_temp x ?n)" for x by (rule drop_temp_frame)
    have u: "os_frame {?n} s s3" using T(1) n2 by (simp add: os_frame_def)
    show ?thesis
    proof (cases "rt = Inr () \<and> rr = Inr ()")
      case False
      then have "r \<noteq> Inr ()" "s' = drop_temp s3 ?n \<or> (rr \<noteq> Inr () \<and> s' = drop_temp s4 ?n)"
        using R w True by (auto split: sum.splits)
      moreover have "os_frame {?n} s (drop_temp s3 ?n)" by (rule os_frame_trans [OF u D])
      moreover have "os_frame {?n} s (drop_temp s4 ?n)" if "rr \<noteq> Inr ()"
        using D [of s4] u R4 that by (simp add: os_frame_def)
      ultimately have "r \<noteq> Inr ()" "os_frame {?n} s s'" by auto
      then show ?thesis using np by (simp add: os_frame_def)
    next
      case ok: True
      then have "r = Inr ()" "s' = s4" using R w True by simp_all
      moreover have "os_files s4 = (os_files s3)(?n := None, p \<mapsto> \<lparr>fn_data = data, fn_sync = data\<rparr>)"
        using R4 T(2) ok by auto
      ultimately show ?thesis using u by (simp add: os_frame_def)
    qed
  qed
  then show "os_files s' p = (if r = Inr () then Some \<lparr>fn_data = data, fn_sync = data\<rparr> else os_files s p)"
    "m \<noteq> p \<Longrightarrow> m \<noteq> ?n \<Longrightarrow> os_files s' m = os_files s m" by blast+
qed

text \<open>C33. A file of the configuration is replaced as a whole (ID-04): whatever call of the disk fails,
  \<^verbatim>\<open>writeFileAtomic\<close> either succeeds, and the file has the new contents, synced before it got its
  name, or fails, and the file is as it was; no other file but its temporary one is touched.\<close>

theorem atomic_replace:
  assumes "writeFileAtomic s p data rnd windows = (r, s')" "named_path p b" "plain_part (b @ ''.tmp-'' @ rnd)"
  shows "os_files s' p = (if r = Inr () then Some \<lparr>fn_data = data, fn_sync = data\<rparr> else os_files s p) \<and>
    (\<forall>m. m \<noteq> p \<and> m \<noteq> TempName p rnd \<longrightarrow> os_files s' m = os_files s m)"
  using atomic_write [OF assms(1) TempName_other [OF assms(2,3)]] by blast

theorem atomic_replace_witness:
  "os_files (snd (writeFileAtomic (ex_os\<lparr>os_faults := [NoFault, NoFault, NoFault, Fault 1]\<rparr>) ''t.json'' [1, 2] ''7'' False)) ''t.json'' = None"
proof -
  let ?s = "ex_os\<lparr>os_faults := [NoFault, NoFault, NoFault, Fault 1]\<rparr>"
  obtain r s' where w: "writeFileAtomic ?s ''t.json'' [1, 2] ''7'' False = (r, s')" by (metis prod.exhaust)
  have c: "path_Dir ''t.json'' = ''.''" "path_Base ''t.json'' = ''t.json''" "TempName ''t.json'' ''7'' = ''t.json.tmp-7''"
    by (simp_all add: path_Clean_def path_Base_def path_Dir_def path_Join_def TempName_def strip_slashes_def Let_def)
  have a: "ancestors ''.'' = []" "ancestors ''t.json.tmp-7'' = []" by (simp_all add: ancestors_def upt_rec)
  have "r \<noteq> Inr ()"
    using w by (auto simp: writeFileAtomic_def c MkdirAll_def OpenFile_def write_temp_def Chmod_def WriteAt_def
        pop_def anc_error_def a ex_os_def Let_def)
  moreover have "named_path ''t.json'' ''t.json''" by (simp add: named_path_def path_Clean_def plain_part_def)
  moreover have "plain_part (''t.json'' @ ''.tmp-'' @ ''7'')" by (simp add: plain_part_def)
  ultimately show ?thesis using atomic_replace [OF w] w by (simp add: ex_os_def)
qed

section \<open>The list and its file agree\<close>

text \<open>What \<^verbatim>\<open>encoding/json\<close> does: the text written, and the newline after it, is read back, without
  the field the code leaves out of it.\<close>

definition json_ok :: "(trust_file \<Rightarrow> bytes option) \<Rightarrow> (bytes \<Rightarrow> trust_file option) \<Rightarrow> bool" where
  "json_ok json unjson \<longleftrightarrow> (\<forall>f d. json f = Some d \<longrightarrow>
     unjson (d @ [10]) = Some (f\<lparr>tf_Peers := map (\<lambda>(t, p). (t, p\<lparr>pe_Fingerprint := []\<rparr>)) (tf_Peers f)\<rparr>))"

abbreviation fps :: "peer list \<Rightarrow> fingerprint list" where "fps ps \<equiv> map pe_Fingerprint ps"

definition wf_peers :: "peer list \<Rightarrow> bool" where
  "wf_peers ps \<longleftrightarrow> distinct (fps ps) \<and> (\<forall>p \<in> set ps. length (pe_Fingerprint p) = fpLen)"

definition one_address :: "peer list \<Rightarrow> bool" where
  "one_address ps \<longleftrightarrow> (\<forall>p \<in> set ps. \<forall>q \<in> set ps. pe_LastAddress p = pe_LastAddress q \<longrightarrow>
     pe_LastAddress p \<noteq> [] \<longrightarrow> pe_Fingerprint p = pe_Fingerprint q)"

definition file_peers :: "(bytes \<Rightarrow> trust_file option) \<Rightarrow> os \<Rightarrow> string \<Rightarrow> trust_error + peer list" where
  "file_peers unjson s p = (case os_files s p of None \<Rightarrow> Inr [] | Some nd \<Rightarrow> parse_trust unjson (fn_data nd))"

definition trust_inv :: "(bytes \<Rightarrow> trust_file option) \<Rightarrow> trust_store \<times> os \<Rightarrow> bool" where
  "trust_inv unjson x \<longleftrightarrow> (case x of (t, s) \<Rightarrow> wf_peers (ts_peers t) \<and> one_address (ts_peers t) \<and>
     (\<exists>ps. file_peers unjson s (ts_path t) = Inr ps \<and> wf_peers ps \<and> set ps = set (ts_peers t)))"

lemma put_peer_fps: "fps (put_peer p ps) = (if pe_Fingerprint p \<in> set (fps ps) then fps ps else fps ps @ [pe_Fingerprint p])"
  by (induction ps) auto

lemma put_peer_set: "distinct (fps ps) \<Longrightarrow> set (put_peer p ps) = insert p {q \<in> set ps. pe_Fingerprint q \<noteq> pe_Fingerprint p}"
proof (induction ps)
  case (Cons a ps)
  show ?case
  proof (cases "pe_Fingerprint a = pe_Fingerprint p")
    case True
    then have "\<forall>q \<in> set ps. pe_Fingerprint q \<noteq> pe_Fingerprint p" using Cons.prems by (auto simp: image_iff)
    then show ?thesis using True by auto
  next
    case False
    then show ?thesis using Cons by auto
  qed
qed simp

lemma put_peer_new: "pe_Fingerprint p \<notin> set (fps ps) \<Longrightarrow> put_peer p ps = ps @ [p]"
  by (induction ps) auto

lemma parse_FP: "length f = fpLen \<Longrightarrow> ParseFingerprint (FP_String f) = Some f"
  using b32_decode_encode [of f] by (simp add: ParseFingerprint_def FP_String_def normalize_encode)

lemma load_peers_all:
  assumes "wf_peers (qs @ ps)"
  shows "load_peers (map (\<lambda>p. (FP_String (pe_Fingerprint p), p\<lparr>pe_Fingerprint := x\<rparr>)) ps) qs = Inr (qs @ ps)"
  using assms
proof (induction ps arbitrary: qs)
  case (Cons p ps)
  have l: "length (pe_Fingerprint p) = fpLen" and n: "pe_Fingerprint p \<notin> set (fps qs)"
    using Cons.prems by (auto simp: wf_peers_def)
  have "load_peers (map (\<lambda>p. (FP_String (pe_Fingerprint p), p\<lparr>pe_Fingerprint := x\<rparr>)) ps) (qs @ [p]) = Inr (qs @ p # ps)"
    using Cons.IH [of "qs @ [p]"] Cons.prems by simp
  then show ?case using parse_FP [OF l] put_peer_new [OF n] by simp
qed simp

lemma wf_peers_perm: "mset ps = mset qs \<Longrightarrow> wf_peers ps \<Longrightarrow> wf_peers qs"
  unfolding wf_peers_def by (metis mset_eq_setD mset_map distinct_count_atmost_1)

lemma saveLocked_result:
  assumes sv: "saveLocked json s p ps rnd windows = (r, s')" and j: "json_ok json unjson" and w: "wf_peers ps"
    and np: "TempName p rnd \<noteq> p"
  shows "r \<noteq> Inr () \<Longrightarrow> file_peers unjson s' p = file_peers unjson s p"
    "r = Inr () \<Longrightarrow> \<exists>qs. file_peers unjson s' p = Inr qs \<and> wf_peers qs \<and> set qs = set ps"
    "m \<noteq> p \<Longrightarrow> m \<noteq> TempName p rnd \<Longrightarrow> os_files s' m = os_files s m"
proof -
  let ?xs = "map (\<lambda>p. (FP_String (pe_Fingerprint p), p)) ps" and ?zs = "sort_key fst (map (\<lambda>p. (FP_String (pe_Fingerprint p), p)) ps)"
  let ?f = "\<lparr>tf_Version = trustVersion, tf_Peers = ?zs\<rparr>"
  have "(r \<noteq> Inr () \<longrightarrow> file_peers unjson s' p = file_peers unjson s p) \<and>
    (r = Inr () \<longrightarrow> (\<exists>qs. file_peers unjson s' p = Inr qs \<and> wf_peers qs \<and> set qs = set ps)) \<and>
    (\<forall>m. m \<noteq> p \<longrightarrow> m \<noteq> TempName p rnd \<longrightarrow> os_files s' m = os_files s m)"
  proof (cases "json ?f")
    case None
    then show ?thesis using sv by (auto simp: saveLocked_def)
  next
    case (Some d)
    obtain ra s1 where wa: "writeFileAtomic s p (d @ [10]) rnd windows = (ra, s1)" by (metis prod.exhaust)
    have R: "r = map_sum TrustOS id ra" "s' = s1" using sv Some wa by (simp_all add: saveLocked_def)
    note A = atomic_write [OF wa np]
    let ?qs = "map snd ?zs"
    have st: "\<forall>z \<in> set ?zs. fst z = FP_String (pe_Fingerprint (snd z))" by auto
    have zs: "?zs = map (\<lambda>q. (FP_String (pe_Fingerprint q), q)) ?qs"
    proof -
      have "map (\<lambda>z. (FP_String (pe_Fingerprint (snd z)), snd z)) ?zs = ?zs"
        by (rule map_idI) (use st in \<open>auto simp: prod_eq_iff\<close>)
      then show ?thesis by (simp add: comp_def)
    qed
    have ms: "mset ?qs = mset ps" by (simp add: multiset.map_comp comp_def)
    have wq: "wf_peers ?qs" by (rule wf_peers_perm [OF ms [symmetric] w])
    have e: "map (\<lambda>(t, p). (t, p\<lparr>pe_Fingerprint := []\<rparr>)) ?zs = map (\<lambda>q. (FP_String (pe_Fingerprint q), q\<lparr>pe_Fingerprint := []\<rparr>)) ?qs"
      by (subst zs) simp
    have "parse_trust unjson (d @ [10]) = Inr ?qs"
    proof -
      have "unjson (d @ [10]) = Some (?f\<lparr>tf_Peers := map (\<lambda>(t, p). (t, p\<lparr>pe_Fingerprint := []\<rparr>)) ?zs\<rparr>)"
        using j Some by (simp add: json_ok_def)
      then show ?thesis using load_peers_all [of "[]" ?qs] wq unfolding e by (simp add: parse_trust_def)
    qed
    moreover have "set ?qs = set ps" using ms mset_eq_setD by blast
    ultimately show ?thesis using A R wq by (cases ra) (auto simp: file_peers_def)
  qed
  then show "r \<noteq> Inr () \<Longrightarrow> file_peers unjson s' p = file_peers unjson s p"
    "r = Inr () \<Longrightarrow> \<exists>qs. file_peers unjson s' p = Inr qs \<and> wf_peers qs \<and> set qs = set ps"
    "m \<noteq> p \<Longrightarrow> m \<noteq> TempName p rnd \<Longrightarrow> os_files s' m = os_files s m" by blast+
qed

lemma free_address_fps: "fps (free_address p ps) = fps ps"
  by (auto simp: free_address_def)

lemma free_address_set:
  "q \<in> set (free_address p ps) \<Longrightarrow> \<exists>q0 \<in> set ps. pe_Fingerprint q = pe_Fingerprint q0 \<and>
     (pe_LastAddress q = [] \<or> (q = q0 \<and> (pe_LastAddress q \<noteq> pe_LastAddress p \<or> pe_Fingerprint q = pe_Fingerprint p)))"
  by (auto simp: free_address_def split: if_splits)

lemma wf_fps: "wf_peers ps = (distinct (fps ps) \<and> (\<forall>f \<in> set (fps ps). length f = fpLen))"
  by (simp add: wf_peers_def)

lemma add_peers_keep:
  assumes "wf_peers ps" "one_address ps" "length (pe_Fingerprint p) = fpLen"
  shows "wf_peers (put_peer p (free_address p ps)) \<and> one_address (put_peer p (free_address p ps))"
proof -
  let ?fs = "free_address p ps"
  have d: "distinct (fps ?fs)" using assms(1) by (simp add: free_address_fps wf_peers_def)
  have "wf_peers (put_peer p ?fs)"
    using assms(1,3) by (auto simp: wf_fps put_peer_fps free_address_fps)
  moreover have "one_address (put_peer p ?fs)"
    unfolding one_address_def put_peer_set [OF d]
  proof (intro ballI impI)
    fix x y
    assume x: "x \<in> insert p {q \<in> set ?fs. pe_Fingerprint q \<noteq> pe_Fingerprint p}"
      and y: "y \<in> insert p {q \<in> set ?fs. pe_Fingerprint q \<noteq> pe_Fingerprint p}"
      and a: "pe_LastAddress x = pe_LastAddress y" "pe_LastAddress x \<noteq> []"
    have o: "z = p \<or> (z \<in> set ps \<and> pe_LastAddress z \<noteq> pe_LastAddress p)"
      if "z \<in> insert p {q \<in> set ?fs. pe_Fingerprint q \<noteq> pe_Fingerprint p}" "pe_LastAddress z \<noteq> []" for z
      using that free_address_set [of z p ps] by auto
    have ya: "pe_LastAddress y \<noteq> []" using a by simp
    show "pe_Fingerprint x = pe_Fingerprint y"
    proof (cases "x = p \<or> y = p")
      case True
      then show ?thesis using o [OF x a(2)] o [OF y ya] a(1) by metis
    next
      case False
      then have "x \<in> set ps" "y \<in> set ps" using o [OF x a(2)] o [OF y ya] by simp_all
      then show ?thesis using assms(2) a unfolding one_address_def by blast
    qed
  qed
  ultimately show ?thesis ..
qed

text \<open>A device trusted, forgotten, the program started again, or the disk changed elsewhere.\<close>

inductive trust_step ::
  "(trust_file \<Rightarrow> bytes option) \<Rightarrow> (bytes \<Rightarrow> trust_file option) \<Rightarrow> trust_store \<times> os \<Rightarrow> trust_store \<times> os \<Rightarrow> bool"
  for json unjson where
  add: "length (pe_Fingerprint p) = fpLen \<Longrightarrow> TempName (ts_path t) rnd \<noteq> ts_path t
    \<Longrightarrow> AddPeer json t s p now rnd windows = (r, t', s') \<Longrightarrow> trust_step json unjson (t, s) (t', s')"
| forget: "TempName (ts_path t) rnd \<noteq> ts_path t
    \<Longrightarrow> Forget json t s fp rnd windows = (r, t', s') \<Longrightarrow> trust_step json unjson (t, s) (t', s')"
| restart: "tree_ok s \<Longrightarrow> OpenTrustStore unjson s (ts_path t) = (Inr t', s') \<Longrightarrow> trust_step json unjson (t, s) (t', s')"
| elsewhere: "os_files s' (ts_path t) = os_files s (ts_path t) \<Longrightarrow> trust_step json unjson (t, s) (t, s')"

inductive_cases trust_stepE: "trust_step json unjson (t, s) x"

lemma one_address_set: "set ps = set qs \<Longrightarrow> one_address ps = one_address qs"
  by (simp add: one_address_def)

lemma AddPeer_result:
  assumes a: "AddPeer json t s p now rnd windows = (r, t', s')" and j: "json_ok json unjson"
    and I: "trust_inv unjson (t, s)" and l: "length (pe_Fingerprint p) = fpLen" and np: "TempName (ts_path t) rnd \<noteq> ts_path t"
  shows "trust_inv unjson (t', s')" "r \<noteq> Inr () \<Longrightarrow> t' = t"
    "r = Inr () \<Longrightarrow> ts_peers t' = put_peer (if pe_AddedAt p = 0 then p\<lparr>pe_AddedAt := now\<rparr> else p)
       (free_address (if pe_AddedAt p = 0 then p\<lparr>pe_AddedAt := now\<rparr> else p) (ts_peers t))"
proof -
  let ?p = "if pe_AddedAt p = 0 then p\<lparr>pe_AddedAt := now\<rparr> else p"
  let ?ps = "put_peer ?p (free_address ?p (ts_peers t))"
  obtain rs s1 where sv: "saveLocked json s (ts_path t) ?ps rnd windows = (rs, s1)" by (metis prod.exhaust)
  have w: "wf_peers ?ps" "one_address ?ps" using add_peers_keep [of "ts_peers t" ?p] I l by (simp_all add: trust_inv_def)
  note S = saveLocked_result [OF sv j w(1) np]
  have R: "(r, t', s') = (if FP_IsZero (pe_Fingerprint p) then (Inl EmptyFingerprint, t, s)
      else case rs of Inl e \<Rightarrow> (Inl e, t, s1) | Inr _ \<Rightarrow> (Inr (), t\<lparr>ts_peers := ?ps\<rparr>, s1))"
    using a sv unfolding AddPeer_def Let_def by (cases rs) auto
  have "trust_inv unjson (t', s') \<and> (r \<noteq> Inr () \<longrightarrow> t' = t) \<and> (r = Inr () \<longrightarrow> ts_peers t' = ?ps)"
  proof (cases "FP_IsZero (pe_Fingerprint p) \<or> rs \<noteq> Inr ()")
    case True
    then have "t' = t" "r \<noteq> Inr ()" "s' = s \<or> (rs \<noteq> Inr () \<and> s' = s1)" using R by (auto split: if_splits sum.splits)
    then show ?thesis using I S(1) by (auto simp: trust_inv_def)
  next
    case False
    then have "t' = t\<lparr>ts_peers := ?ps\<rparr>" "r = Inr ()" "s' = s1" using R by simp_all
    then show ?thesis using S(2) False w by (simp add: trust_inv_def)
  qed
  then show "trust_inv unjson (t', s')" "r \<noteq> Inr () \<Longrightarrow> t' = t" "r = Inr () \<Longrightarrow> ts_peers t' = ?ps" by blast+
qed

lemma OpenTrustStore_reads:
  assumes "OpenTrustStore unjson s p = (Inr t, s')" "tree_ok s" "file_peers unjson s p = Inr qs"
  shows "os_files s' = os_files s" "t = \<lparr>ts_path = p, ts_peers = qs\<rparr>"
proof -
  obtain ro s1 where o: "OpenFile s p False = (ro, s1)" by (metis prod.exhaust)
  note O = OpenFile_no_create [OF o]
  obtain f s2 where pp: "pop s1 = (f, s2)" by (metis prod.exhaust)
  have none: "os_files s p = None" if "ro = Inl NotExist"
    using o that assms(2) pop_frame anc_error_pop [of s] unfolding OpenFile_def tree_ok_def
    by (fastforce split: prod.splits option.splits if_splits)
  have R: "OpenTrustStore unjson s p = (case ro of
      Inl e \<Rightarrow> (if e = NotExist then Inr \<lparr>ts_path = p, ts_peers = []\<rparr> else Inl (TrustOS e), s1)
    | Inr _ \<Rightarrow> (case f of Some _ \<Rightarrow> (Inl (TrustOS IOError), s2)
        | None \<Rightarrow> (map_sum id (\<lambda>ps. \<lparr>ts_path = p, ts_peers = ps\<rparr>)
            (parse_trust unjson (case os_files s2 p of None \<Rightarrow> [] | Some nd \<Rightarrow> fn_data nd)), s2)))"
    using o pp by (cases ro; cases f) (simp_all add: OpenTrustStore_def ReadFile_def)
  show "os_files s' = os_files s" using R assms(1) O pop_frame [OF pp] by (cases ro; cases f) (auto split: if_splits)
  show "t = \<lparr>ts_path = p, ts_peers = qs\<rparr>"
  proof (cases ro)
    case (Inl e)
    then have "ro = Inl NotExist" "t = \<lparr>ts_path = p, ts_peers = []\<rparr>" using R assms(1) by (auto split: if_splits)
    then show ?thesis using none assms(3) by (simp add: file_peers_def)
  next
    case (Inr u)
    then have "f = None" using R assms(1) by (cases f) auto
    moreover obtain nd where "os_files s p = Some nd" using O Inr by auto
    ultimately show ?thesis using R assms(1,3) Inr O pop_frame [OF pp] by (auto simp: file_peers_def)
  qed
qed

lemma trust_step_keeps:
  assumes j: "json_ok json unjson" and I: "trust_inv unjson x" and st: "trust_step json unjson x y"
  shows "trust_inv unjson y"
  using st
proof cases
  case (add p t rnd s now windows r t' s')
  then show ?thesis using AddPeer_result(1) [OF _ j] I by blast
next
  case (forget t rnd s fp windows r t' s')
  let ?ps = "filter (\<lambda>p. pe_Fingerprint p \<noteq> fp) (ts_peers t)"
  obtain rs s1 where sv: "saveLocked json s (ts_path t) ?ps rnd windows = (rs, s1)" by (metis prod.exhaust)
  have w: "wf_peers ?ps" "one_address ?ps"
    using I forget(1) by (auto simp: trust_inv_def wf_peers_def one_address_def distinct_map_filter)
  note S = saveLocked_result [OF sv j w(1) forget(3)]
  have R: "(r, t', s') = (if get_peer fp (ts_peers t) = None then (Inr False, t, s)
      else case rs of Inl e \<Rightarrow> (Inl e, t, s1) | Inr _ \<Rightarrow> (Inr True, t\<lparr>ts_peers := ?ps\<rparr>, s1))"
    using forget(4) sv unfolding Forget_def Let_def by (cases rs) auto
  show ?thesis
  proof (cases "get_peer fp (ts_peers t) = None \<or> rs \<noteq> Inr ()")
    case True
    then have "t' = t" "s' = s \<or> (rs \<noteq> Inr () \<and> s' = s1)" using R by (auto split: if_splits sum.splits)
    then show ?thesis using I S(1) forget(1,2) by (auto simp: trust_inv_def)
  next
    case False
    then have "t' = t\<lparr>ts_peers := ?ps\<rparr>" "s' = s1" using R by auto
    then show ?thesis using S(2) False w forget(2) by (simp add: trust_inv_def)
  qed
next
  case (restart s t t' s')
  obtain qs where qs: "file_peers unjson s (ts_path t) = Inr qs" "wf_peers qs" "set qs = set (ts_peers t)" "one_address (ts_peers t)"
    using I restart(1) by (auto simp: trust_inv_def)
  note Q = OpenTrustStore_reads [OF restart(4,3) qs(1)]
  have "file_peers unjson s' (ts_path t') = Inr qs" using Q qs(1) by (simp add: file_peers_def)
  moreover have "one_address qs" using qs(3,4) one_address_set by blast
  ultimately show ?thesis using qs(2) restart(2) Q by (simp add: trust_inv_def)
next
  case (elsewhere s' t s)
  then show ?thesis using I by (simp add: trust_inv_def file_peers_def)
qed

text \<open>With any JSON coder that does what it says.\<close>

interpretation trust: step_invariant "\<lambda>x y. json_ok json unjson \<and> trust_step json unjson x y" "trust_inv unjson"
  for json unjson
  by unfold_locales (blast intro: trust_step_keeps)

lemma trust_run_keeps:
  assumes "json_ok json unjson" "(trust_step json unjson)\<^sup>*\<^sup>* x y" "trust_inv unjson x"
  shows "trust_inv unjson y"
proof -
  have "(\<lambda>x y. json_ok json unjson \<and> trust_step json unjson x y)\<^sup>*\<^sup>* x y"
    using assms(2) by (rule rtranclp_mono [THEN predicate2D, rotated]) (use assms(1) in blast)
  then show ?thesis using trust.run_keeps assms(3) by blast
qed


definition ex_peer :: peer where
  "ex_peer = \<lparr>pe_Fingerprint = replicate 32 7, pe_Alias = ''Phone'', pe_AddedAt = 5, pe_LastAddress = ''10.0.0.2'',
     pe_AutoAccept = False, pe_Renamed = False, pe_TagKey = []\<rparr>"

definition ex_file :: trust_file where
  "ex_file = \<lparr>tf_Version = 1, tf_Peers = [(FP_String (replicate 32 7), ex_peer)]\<rparr>"

definition ex_json :: "trust_file \<Rightarrow> bytes option" where
  "ex_json f = (if f = ex_file then Some [1] else None)"

definition ex_unjson :: "bytes \<Rightarrow> trust_file option" where
  "ex_unjson d = (if d = [1, 10] then Some (ex_file\<lparr>tf_Peers := map (\<lambda>(t, p). (t, p\<lparr>pe_Fingerprint := []\<rparr>)) (tf_Peers ex_file)\<rparr>) else None)"

definition ex_trust :: trust_store where "ex_trust = \<lparr>ts_path = ''trusted.json'', ts_peers = []\<rparr>"

lemma ex_json_ok: "json_ok ex_json ex_unjson"
  by (simp add: json_ok_def ex_json_def ex_unjson_def)

lemma ex_trust_inv: "trust_inv ex_unjson (ex_trust, ex_os)"
  by (simp add: trust_inv_def ex_trust_def wf_peers_def one_address_def file_peers_def ex_os_def)

lemma ex_added: "AddPeer ex_json ex_trust ex_os ex_peer 0 ''7'' False =
  (Inr (), ex_trust\<lparr>ts_peers := [ex_peer]\<rparr>, ex_os\<lparr>os_files := [''trusted.json'' \<mapsto> \<lparr>fn_data = [1, 10], fn_sync = [1, 10]\<rparr>], os_dirs := {''.''}\<rparr>)"
proof -
  have c: "path_Dir ''trusted.json'' = ''.''" "TempName ''trusted.json'' ''7'' = ''trusted.json.tmp-7''"
    by (simp_all add: path_Clean_def path_Base_def path_Dir_def path_Join_def TempName_def strip_slashes_def Let_def)
  have a: "ancestors ''.'' = []" "ancestors ''trusted.json'' = []" "ancestors ''trusted.json.tmp-7'' = []"
    by (simp_all add: ancestors_def upt_rec)
  have w: "writeFileAtomic ex_os ''trusted.json'' [1, 10] ''7'' False =
    (Inr (), ex_os\<lparr>os_files := [''trusted.json'' \<mapsto> \<lparr>fn_data = [1, 10], fn_sync = [1, 10]\<rparr>], os_dirs := {''.''}\<rparr>)"
    by (simp add: writeFileAtomic_def c MkdirAll_def OpenFile_def write_temp_def Chmod_def WriteAt_def Sync_def CloseF_def
        Rename_def pop_def anc_error_def a ex_os_def Let_def eval_nat_numeral write_at_def fun_upd_twist)
  have "\<not> FP_IsZero (replicate 32 7)" by (simp add: FP_IsZero_def fpLen_def)
  then show ?thesis using w
    by (simp add: AddPeer_def saveLocked_def free_address_def ex_json_def ex_file_def trustVersion_def ex_trust_def ex_peer_def)
qed


lemma wf_same: "wf_peers ps \<Longrightarrow> p \<in> set ps \<Longrightarrow> q \<in> set ps \<Longrightarrow> pe_Fingerprint p = pe_Fingerprint q \<Longrightarrow> p = q"
  by (auto simp: wf_peers_def distinct_map inj_on_def)

lemma find_only: "p \<in> set ps \<Longrightarrow> P p \<Longrightarrow> (\<And>q. q \<in> set ps \<Longrightarrow> P q \<Longrightarrow> q = p) \<Longrightarrow> find P ps = Some p"
proof (induction ps)
  case (Cons a ps)
  show ?case
  proof (cases "P a")
    case True
    then have "a = p" by (intro Cons.prems(3)) simp_all
    then show ?thesis using True by simp
  next
    case False
    then have "p \<in> set ps" using Cons.prems(1,2) by auto
    then have "find P ps = Some p" by (rule Cons.IH) (auto intro: Cons.prems)
    then show ?thesis using False by simp
  qed
qed simp

text \<open>A key change at the address of a trusted device is reported (ID-05): once a device is trusted
  with an address, any key that is not trusted and shows up at that address is reported as a change
  of that device's key, and a trusted key never is.\<close>

theorem key_change_detected:
  assumes "AddPeer json t s p now rnd windows = (Inr (), t', s')" "json_ok json unjson" "trust_inv unjson (t, s)"
    and "length (pe_Fingerprint p) = fpLen" "TempName (ts_path t) rnd \<noteq> ts_path t" "pe_LastAddress p \<noteq> []"
  shows "\<exists>q \<in> set (ts_peers t'). pe_Fingerprint q = pe_Fingerprint p \<and> (\<forall>fp. KeyChangedAt t' (pe_LastAddress p) fp =
    (if Contains t' fp then None else Some q))"
proof -
  let ?p = "if pe_AddedAt p = 0 then p\<lparr>pe_AddedAt := now\<rparr> else p"
  note A = AddPeer_result [OF assms(1-5)]
  have w: "wf_peers (ts_peers t')" "one_address (ts_peers t')" using A(1) by (simp_all add: trust_inv_def)
  have "distinct (fps (free_address ?p (ts_peers t)))" using assms(3) by (simp add: free_address_fps trust_inv_def wf_peers_def)
  then have m: "?p \<in> set (ts_peers t')" using A(3) put_peer_set by auto
  have f: "pe_Fingerprint ?p = pe_Fingerprint p" "pe_LastAddress ?p = pe_LastAddress p" by simp_all
  have "find (\<lambda>q. pe_LastAddress q = pe_LastAddress p) (ts_peers t') = Some ?p"
  proof (rule find_only [OF m])
    fix q assume q: "q \<in> set (ts_peers t')" "pe_LastAddress q = pe_LastAddress p"
    then have "pe_Fingerprint q = pe_Fingerprint ?p" using w(2) m f(2) assms(6) unfolding one_address_def by metis
    then show "q = ?p" using wf_same [OF w(1) q(1) m] by blast
  qed (simp add: f(2))
  then have "\<forall>fp. KeyChangedAt t' (pe_LastAddress p) fp = (if Contains t' fp then None else Some ?p)"
    using assms(6) by (simp add: KeyChangedAt_def Contains_def)
  then show ?thesis using m f(1) by blast
qed

theorem key_change_detected_witness:
  "\<exists>q. KeyChangedAt (ex_trust\<lparr>ts_peers := [ex_peer]\<rparr>) ''10.0.0.2'' (replicate 32 9) = Some q \<and> pe_Fingerprint q = replicate 32 7"
proof -
  have n: "TempName (ts_path ex_trust) ''7'' \<noteq> ts_path ex_trust"
    by (rule TempName_other [of _ "''trusted.json''"]) (simp_all add: ex_trust_def named_path_def path_Clean_def plain_part_def)
  have l: "length (pe_Fingerprint ex_peer) = fpLen" "pe_LastAddress ex_peer \<noteq> []" by (simp_all add: ex_peer_def fpLen_def)
  have "\<not> Contains (ex_trust\<lparr>ts_peers := [ex_peer]\<rparr>) (replicate 32 9)"
    by (simp add: Contains_def get_peer_def ex_peer_def)
  then show ?thesis
    using key_change_detected [OF ex_added ex_json_ok ex_trust_inv l(1) n l(2)] by (auto simp: ex_peer_def)
qed

lemma distinct_singleton: "distinct xs \<Longrightarrow> set xs = {p} \<Longrightarrow> xs = [p]"
proof (cases xs)
  case (Cons a ys)
  assume "distinct xs" "set xs = {p}"
  then have "a = p" "set ys \<subseteq> {p}" "p \<notin> set ys" using Cons by auto
  then have "ys = []" by (cases ys) auto
  then show ?thesis using Cons \<open>a = p\<close> by simp
qed simp

text \<open>A device is found by the beginning of its fingerprint exactly when that designates it alone:
  four characters at least, written in any case and with separators; the whole fingerprint always
  finds its device.\<close>

theorem find_by_prefix:
  assumes "wf_peers (ts_peers t)"
  shows "(Find t pre = Inr p) = (4 \<le> length (normalize pre) \<and> p \<in> set (ts_peers t) \<and>
      prefix (normalize pre) (FP_String (pe_Fingerprint p)) \<and>
      (\<forall>q \<in> set (ts_peers t). prefix (normalize pre) (FP_String (pe_Fingerprint q)) \<longrightarrow> q = p))"
proof -
  let ?P = "\<lambda>p. prefix (normalize pre) (FP_String (pe_Fingerprint p))"
  let ?l = "filter ?P (ListPeers t)"
  have d: "distinct ?l" "set ?l = {q \<in> set (ts_peers t). ?P q}"
    using assms by (simp_all add: ListPeers_def wf_peers_def distinct_map)
  have "(?l = [p]) = (set ?l = {p})"
  proof
    assume "set ?l = {p}"
    then show "?l = [p]" by (rule distinct_singleton [OF d(1)])
  qed simp
  moreover have "(Find t pre = Inr p) = (4 \<le> length (normalize pre) \<and> ?l = [p])"
    by (auto simp: Find_def Let_def split: list.splits)
  ultimately show ?thesis using d(2) by auto
qed

theorem find_by_prefix_witness: "Find (ex_trust\<lparr>ts_peers := [ex_peer]\<rparr>) (FP_String (replicate 32 7)) = Inr ex_peer"
proof -
  have w: "wf_peers (ts_peers (ex_trust\<lparr>ts_peers := [ex_peer]\<rparr>))" by (simp add: wf_peers_def ex_peer_def fpLen_def)
  have "FP_String (replicate 32 7) = b32_encode (replicate 32 7)" by (simp add: FP_String_def)
  then have "normalize (FP_String (replicate 32 7)) = FP_String (replicate 32 7)" by (simp add: normalize_encode)
  moreover have "length (FP_String (replicate 32 7)) = 52" by (rule length_FP) (simp add: fpLen_def)
  moreover have e: "pe_Fingerprint ex_peer = replicate 32 7" by (simp add: ex_peer_def)
  ultimately show ?thesis
    unfolding find_by_prefix [OF w] by (simp only: e) simp
qed

end
