(* ===== verification/TrustTalks.thy ===== *)
theory TrustTalks
  imports TrustStores Session
begin

text \<open>
  The negotiation of mutual trust within a session (\<^verbatim>\<open>pkg/pairing/mutual.go\<close>): one side offers,
  the other's user answers, the offerer commits, and each side writes the other's key. Times are
  nanoseconds, 0 the zero time; each method reads the clock once. The random key drawn, or \<open>None\<close>
  for an error, is an argument.
\<close>

section \<open>Mutual trust\<close>

definition Mutual :: "trust_store option \<Rightarrow> fingerprint \<Rightarrow> bool \<Rightarrow> bool" where
  "Mutual st pe declared \<longleftrightarrow> declared \<and> (case st of None \<Rightarrow> False | Some t \<Rightarrow> Contains t pe)"

definition Declares :: "trust_store option \<Rightarrow> fingerprint \<Rightarrow> bool" where
  "Declares st pe \<longleftrightarrow> (case st of None \<Rightarrow> False | Some t \<Rightarrow> Contains t pe)"

section \<open>The negotiation\<close>

definition TypeTrustOffer :: string where "TypeTrustOffer = ''trust_offer''"
definition TypeTrustAccept :: string where "TypeTrustAccept = ''trust_accept''"
definition TypeTrustDecline :: string where "TypeTrustDecline = ''trust_decline''"
definition TypeTrustCommit :: string where "TypeTrustCommit = ''trust_commit''"
definition TrustAnswerTime :: int where "TrustAnswerTime = 60000000000"
definition tagKeySize :: nat where "tagKeySize = 32"

lemmas trust_types = TypeTrustOffer_def TypeTrustAccept_def TypeTrustDecline_def TypeTrustCommit_def

definition IsTrustMessage :: "string \<Rightarrow> bool" where
  "IsTrustMessage typ \<longleftrightarrow> typ = TypeTrustOffer \<or> typ = TypeTrustAccept \<or> typ = TypeTrustDecline \<or> typ = TypeTrustCommit"

datatype trust_event = TrustNothing | TrustAsked | TrustEstablished | TrustDeclined

datatype talk_error = ErrNoOffer | ErrRandom | ErrNoList | ErrStore trust_error

text \<open>A message of the negotiation: its type and the key it carries.\<close>

record trust_msg =
  tm_Type :: string
  tm_TagKey :: bytes

record trust_talk =
  tt_self :: fingerprint
  tt_peer :: peer
  tt_offeredAt :: int
  tt_askedAt :: int
  tt_acceptedAt :: int
  tt_established :: bool
  tt_tagKey :: bytes
  tt_tagOwner :: fingerprint

definition NewTrustTalk :: "fingerprint \<Rightarrow> peer \<Rightarrow> trust_talk" where
  "NewTrustTalk self pe = \<lparr>tt_self = self, tt_peer = pe, tt_offeredAt = 0, tt_askedAt = 0, tt_acceptedAt = 0,
     tt_established = False, tt_tagKey = [], tt_tagOwner = replicate fpLen 0\<rparr>"

text \<open>\<^verbatim>\<open>bytes.Compare\<close>.\<close>

fun bytes_less :: "bytes \<Rightarrow> bytes \<Rightarrow> bool" where
  "bytes_less [] [] = False"
| "bytes_less [] (y # ys) = True"
| "bytes_less (x # xs) [] = False"
| "bytes_less (x # xs) (y # ys) = (x < y \<or> (x = y \<and> bytes_less xs ys))"

definition keepTagKey :: "trust_talk \<Rightarrow> bytes \<Rightarrow> fingerprint \<Rightarrow> trust_talk" where
  "keepTagKey t key owner =
     (if length key \<noteq> tagKeySize then t
      else if tt_tagKey t = [] \<or> bytes_less owner (tt_tagOwner t)
      then t\<lparr>tt_tagKey := key, tt_tagOwner := owner\<rparr> else t)"

definition live :: "int \<Rightarrow> int \<Rightarrow> bool" where
  "live now at \<longleftrightarrow> at \<noteq> 0 \<and> now - at < TrustAnswerTime"

definition trust_offer :: "trust_talk \<Rightarrow> int \<Rightarrow> trust_msg \<times> trust_talk" where
  "trust_offer t now = (\<lparr>tm_Type = TypeTrustOffer, tm_TagKey = []\<rparr>, t\<lparr>tt_offeredAt := now\<rparr>)"

definition trust_answer :: "trust_talk \<Rightarrow> int \<Rightarrow> bool \<Rightarrow> (talk_error + trust_msg) \<times> trust_talk" where
  "trust_answer t now yes =
     (if \<not> live now (tt_askedAt t) then (Inl ErrNoOffer, t\<lparr>tt_askedAt := 0\<rparr>)
      else if \<not> yes then (Inr \<lparr>tm_Type = TypeTrustDecline, tm_TagKey = []\<rparr>, t\<lparr>tt_askedAt := 0\<rparr>)
      else (Inr \<lparr>tm_Type = TypeTrustAccept, tm_TagKey = []\<rparr>, t\<lparr>tt_askedAt := 0, tt_acceptedAt := now\<rparr>))"

text \<open>The entry written: what the user set on an entry already there is kept. \<open>add\<close> is the list's
  \<^verbatim>\<open>Add\<close> with the disk it writes to.\<close>

definition new_entry :: "trust_talk \<Rightarrow> trust_store \<Rightarrow> peer" where
  "new_entry t st =
     (let p = (tt_peer t)\<lparr>pe_TagKey := tt_tagKey t\<rparr> in
      case GetPeer st (pe_Fingerprint p) of
        None \<Rightarrow> p
      | Some old \<Rightarrow>
          p\<lparr>pe_AutoAccept := pe_AutoAccept old, pe_AddedAt := pe_AddedAt old, pe_Renamed := pe_Renamed old,
            pe_Alias := (if pe_Alias p = [] \<or> pe_Renamed old then pe_Alias old else pe_Alias p)\<rparr>)"

type_synonym 'd adder = "trust_store \<Rightarrow> 'd \<Rightarrow> peer \<Rightarrow> (trust_error + unit) \<times> trust_store \<times> 'd"

definition writeLocked ::
  "'d adder \<Rightarrow> trust_talk \<Rightarrow> trust_store option \<times> 'd \<Rightarrow> (talk_error + unit) \<times> (trust_store option \<times> 'd)" where
  "writeLocked add t x =
     (case x of
        (None, d) \<Rightarrow> (Inl ErrNoList, (None, d))
      | (Some st, d) \<Rightarrow> (case add st d (new_entry t st) of (r, st', d') \<Rightarrow> (map_sum ErrStore id r, (Some st', d'))))"

definition establishedLocked :: "trust_talk \<Rightarrow> trust_event \<times> trust_talk" where
  "establishedLocked t = (if tt_established t then (TrustNothing, t) else (TrustEstablished, t\<lparr>tt_established := True\<rparr>))"

definition Handle ::
  "'d adder \<Rightarrow> trust_talk \<Rightarrow> trust_store option \<times> 'd \<Rightarrow> int \<Rightarrow> bytes option \<Rightarrow> trust_msg
   \<Rightarrow> (talk_error + trust_msg option \<times> trust_event) \<times> trust_talk \<times> (trust_store option \<times> 'd)" where
  "Handle add t x now draw m =
     (if tm_Type m = TypeTrustOffer then
        (if live now (tt_offeredAt t)
         then (Inr (Some \<lparr>tm_Type = TypeTrustAccept, tm_TagKey = []\<rparr>, TrustNothing), t\<lparr>tt_acceptedAt := now\<rparr>, x)
         else (Inr (None, TrustAsked), t\<lparr>tt_askedAt := now\<rparr>, x))
      else if tm_Type m = TypeTrustAccept then
        (if \<not> live now (tt_offeredAt t) then (Inr (None, TrustNothing), t, x)
         else
           let t1 = t\<lparr>tt_offeredAt := 0\<rparr> in
           case draw of
             None \<Rightarrow> (Inl ErrRandom, t1, x)
           | Some key \<Rightarrow>
               (let t2 = keepTagKey t1 key (tt_self t1) in
                case writeLocked add t2 x of
                  (Inl e, x') \<Rightarrow> (Inl e, t2, x')
                | (Inr _, x') \<Rightarrow>
                    (case establishedLocked t2 of
                       (ev, t3) \<Rightarrow> (Inr (Some \<lparr>tm_Type = TypeTrustCommit, tm_TagKey = key\<rparr>, ev), t3, x'))))
      else if tm_Type m = TypeTrustDecline then
        (if \<not> live now (tt_offeredAt t) then (Inr (None, TrustNothing), t, x)
         else (Inr (None, TrustDeclined), t\<lparr>tt_offeredAt := 0\<rparr>, x))
      else if tm_Type m = TypeTrustCommit then
        (if \<not> live now (tt_acceptedAt t) then (Inr (None, TrustNothing), t, x)
         else
           let t2 = keepTagKey (t\<lparr>tt_acceptedAt := 0\<rparr>) (tm_TagKey m) (pe_Fingerprint (tt_peer t)) in
           case writeLocked add t2 x of
             (Inl e, x') \<Rightarrow> (Inl e, t2, x')
           | (Inr _, x') \<Rightarrow>
               (case establishedLocked t2 of (ev, t3) \<Rightarrow> (Inr (None, ev), t3, x')))
      else (Inr (None, TrustNothing), t, x))"

definition AwaitsCommit :: "trust_talk \<Rightarrow> int \<Rightarrow> bool" where
  "AwaitsCommit t now = live now (tt_acceptedAt t)"

section \<open>Never without our own yes\<close>

text \<open>One side of a session, against a peer that may send anything at any time: \<open>k_yes\<close> are the times
  our user said yes (offered, or answered an offer), \<open>k_writes\<close> those the list was changed.\<close>

record 'd talking =
  k_talk :: trust_talk
  k_list :: "trust_store option \<times> 'd"
  k_yes :: "int list"
  k_writes :: "int list"

inductive talk_step :: "'d adder \<Rightarrow> 'd talking \<Rightarrow> 'd talking \<Rightarrow> bool" for add where
  offer: "trust_offer (k_talk k) now = (m, t)
    \<Longrightarrow> talk_step add k (k\<lparr>k_talk := t, k_yes := now # k_yes k\<rparr>)"
| answer: "trust_answer (k_talk k) now yes = (r, t)
    \<Longrightarrow> talk_step add k (k\<lparr>k_talk := t, k_yes := (if yes then now # k_yes k else k_yes k)\<rparr>)"
| receive: "Handle add (k_talk k) (k_list k) now draw m = (r, t, x)
    \<Longrightarrow> talk_step add k (k\<lparr>k_talk := t, k_list := x, k_writes := (if x = k_list k then k_writes k else now # k_writes k)\<rparr>)"

inductive_cases talk_stepE: "talk_step add k l"

definition talk_inv :: "trust_store option \<times> 'd \<Rightarrow> 'd talking \<Rightarrow> bool" where
  "talk_inv x0 k \<longleftrightarrow>
     (tt_offeredAt (k_talk k) \<noteq> 0 \<longrightarrow> tt_offeredAt (k_talk k) \<in> set (k_yes k)) \<and>
     (tt_acceptedAt (k_talk k) \<noteq> 0 \<longrightarrow> (\<exists>c \<in> set (k_yes k). tt_acceptedAt (k_talk k) - c < TrustAnswerTime)) \<and>
     (\<forall>w \<in> set (k_writes k). \<exists>c \<in> set (k_yes k). w - c < 2 * TrustAnswerTime) \<and>
     (k_writes k = [] \<longrightarrow> k_list k = x0)"

lemma keepTagKey_times [simp]:
  "tt_offeredAt (keepTagKey t k w) = tt_offeredAt t" "tt_acceptedAt (keepTagKey t k w) = tt_acceptedAt t"
  "tt_peer (keepTagKey t k w) = tt_peer t" "tt_self (keepTagKey t k w) = tt_self t"
  "tt_established (keepTagKey t k w) = tt_established t"
  by (simp_all add: keepTagKey_def)

lemma established_times [simp]:
  "tt_offeredAt (snd (establishedLocked t)) = tt_offeredAt t" "tt_acceptedAt (snd (establishedLocked t)) = tt_acceptedAt t"
  "tt_tagKey (snd (establishedLocked t)) = tt_tagKey t" "tt_tagOwner (snd (establishedLocked t)) = tt_tagOwner t"
  by (simp_all add: establishedLocked_def)

text \<open>What a message may change: the times only move to 0 or, for an answer of ours to a double offer,
  to now; the list changes only while an offer or an acceptance of ours is live.\<close>

lemma Handle_times:
  assumes "Handle add t x now draw m = (r, t', x')"
  shows "tt_offeredAt t' = tt_offeredAt t \<or> tt_offeredAt t' = 0"
    "tt_acceptedAt t' = tt_acceptedAt t \<or> tt_acceptedAt t' = 0 \<or> (tt_acceptedAt t' = now \<and> live now (tt_offeredAt t))"
    "x' \<noteq> x \<Longrightarrow> live now (tt_offeredAt t) \<or> live now (tt_acceptedAt t)"
proof -
  have k: "(ev, t3) = establishedLocked t2 \<Longrightarrow> tt_offeredAt t3 = tt_offeredAt t2 \<and> tt_acceptedAt t3 = tt_acceptedAt t2" for ev t2 t3
    using established_times by (metis snd_conv)
  show "tt_offeredAt t' = tt_offeredAt t \<or> tt_offeredAt t' = 0"
    "tt_acceptedAt t' = tt_acceptedAt t \<or> tt_acceptedAt t' = 0 \<or> (tt_acceptedAt t' = now \<and> live now (tt_offeredAt t))"
    "x' \<noteq> x \<Longrightarrow> live now (tt_offeredAt t) \<or> live now (tt_acceptedAt t)"
    using assms
    by (auto simp: Handle_def Let_def trust_types dest!: k [OF sym] split: if_splits option.splits prod.splits sum.splits)
qed

lemma talk_step_keeps:
  assumes I: "talk_inv x0 k" and st: "talk_step add k l"
  shows "talk_inv x0 l"
  using st
proof cases
  case (offer now m t)
  then have "t = (k_talk k)\<lparr>tt_offeredAt := now\<rparr>" by (simp add: trust_offer_def)
  then show ?thesis using I offer(1) by (auto simp: talk_inv_def)
next
  case (answer now yes r t)
  then have "tt_offeredAt t = tt_offeredAt (k_talk k)"
    "tt_acceptedAt t = tt_acceptedAt (k_talk k) \<or> (tt_acceptedAt t = now \<and> yes)"
    by (auto simp: trust_answer_def split: if_splits)
  then show ?thesis using I answer(1) by (auto simp: talk_inv_def TrustAnswerTime_def)
next
  case (receive now draw m r t x)
  note H = Handle_times [OF receive(2)]
  let ?T = TrustAnswerTime
  have off: "\<exists>c \<in> set (k_yes k). now - c < ?T" if "live now (tt_offeredAt (k_talk k))"
    using that I by (auto simp: talk_inv_def live_def)
  have acc: "\<exists>c \<in> set (k_yes k). now - c < 2 * ?T" if l: "live now (tt_acceptedAt (k_talk k))"
  proof -
    obtain c where "c \<in> set (k_yes k)" "tt_acceptedAt (k_talk k) - c < ?T" "now - tt_acceptedAt (k_talk k) < ?T"
      using l I by (auto simp: talk_inv_def live_def)
    then show ?thesis by (intro bexI [of _ c]) auto
  qed
  have "0 < ?T" by (simp add: TrustAnswerTime_def)
  then have "\<exists>c \<in> set (k_yes k). now - c < 2 * ?T" if "x \<noteq> k_list k"
    using H(3) [OF that] off acc by force
  moreover have "tt_acceptedAt t \<noteq> 0 \<longrightarrow> (\<exists>c \<in> set (k_yes k). tt_acceptedAt t - c < ?T)"
    using H(2) off I by (auto simp: talk_inv_def)
  ultimately show ?thesis using I receive(1) H(1) by (auto simp: talk_inv_def)
qed

interpretation talk: step_invariant "talk_step add" "talk_inv x0" for add x0
  by unfold_locales (rule talk_step_keeps)

text \<open>C31. The other device's key is never written without our own user's yes (PAIR-10): whatever
  messages a peer sends, and whenever, each change of the trusted list happens less than two
  minutes after our user offered trust or accepted an offer, and with no such yes the list is
  never touched.\<close>

theorem trust_needs_consent:
  assumes "(talk_step add)\<^sup>*\<^sup>* \<lparr>k_talk = NewTrustTalk self pe, k_list = x0, k_yes = [], k_writes = []\<rparr> k"
  shows "(\<forall>w \<in> set (k_writes k). \<exists>c \<in> set (k_yes k). w - c < 2 * TrustAnswerTime) \<and>
    (k_yes k = [] \<longrightarrow> k_list k = x0)"
proof -
  have "talk_inv x0 \<lparr>k_talk = NewTrustTalk self pe, k_list = x0, k_yes = [], k_writes = []\<rparr>"
    by (simp add: talk_inv_def NewTrustTalk_def)
  then have I: "talk_inv x0 k" using talk.run_keeps [OF assms] by blast
  then have "k_yes k = [] \<longrightarrow> k_writes k = []" by (cases "k_writes k") (auto simp: talk_inv_def)
  then show ?thesis using I by (auto simp: talk_inv_def)
qed

definition ex_add :: "unit adder" where
  "ex_add st d p = (Inr (), st\<lparr>ts_peers := put_peer p (ts_peers st)\<rparr>, d)"

definition ex_talking :: "unit talking" where
  "ex_talking = \<lparr>k_talk = NewTrustTalk (replicate 32 1) ex_peer, k_list = (Some ex_trust, ()), k_yes = [], k_writes = []\<rparr>"

theorem trust_needs_consent_witness:
  "k_list (ex_talking\<lparr>k_talk := snd (trust_answer (k_talk ex_talking) 5 False)\<rparr>) = (Some ex_trust, ())"
proof -
  have "talk_step ex_add ex_talking (ex_talking\<lparr>k_talk := snd (trust_answer (k_talk ex_talking) 5 False),
      k_yes := (if False then 5 # k_yes ex_talking else k_yes ex_talking)\<rparr>)"
    by (rule talk_step.answer [of _ _ _ "fst (trust_answer (k_talk ex_talking) 5 False)"]) simp
  then have "(talk_step ex_add)\<^sup>*\<^sup>* \<lparr>k_talk = NewTrustTalk (replicate 32 1) ex_peer, k_list = (Some ex_trust, ()), k_yes = [], k_writes = []\<rparr>
      (ex_talking\<lparr>k_talk := snd (trust_answer (k_talk ex_talking) 5 False)\<rparr>)"
    by (simp add: ex_talking_def r_into_rtranclp)
  from trust_needs_consent [OF this] show ?thesis by (simp add: ex_talking_def)
qed

section \<open>Both offer\<close>

lemma bytes_less_antisym: "length a = length b \<Longrightarrow> a \<noteq> b \<Longrightarrow> bytes_less a b \<noteq> bytes_less b a"
proof (induction a b rule: bytes_less.induct)
  case (4 x xs y ys)
  then show ?case by (cases "x < y"; cases "y < x") auto
qed simp_all

text \<open>The key kept of two, the one of the smaller fingerprint, whatever the order.\<close>

definition smaller_key :: "bytes \<Rightarrow> fingerprint \<Rightarrow> bytes \<Rightarrow> fingerprint \<Rightarrow> bytes" where
  "smaller_key ka a kb b = (if bytes_less a b then ka else kb)"

lemma keep_two:
  assumes "tt_tagKey t = []" "length ka = tagKeySize" "length kb = tagKeySize" "length a = length b" "a \<noteq> b"
  shows "tt_tagKey (keepTagKey (keepTagKey t ka a) kb b) = smaller_key ka a kb b"
proof -
  have "ka \<noteq> []" using assms(2) by (auto simp: tagKeySize_def)
  then show ?thesis using assms bytes_less_antisym [OF assms(4,5)]
    by (auto simp: keepTagKey_def smaller_key_def)
qed

text \<open>One side of a double offer: our offer is live, the peer's offer, yes and commit come in this
  order, the first two at times our offer is live, the last while our yes is.\<close>

lemma double_offer_side:
  assumes "tt_tagKey t = []" "live n1 (tt_offeredAt t)" "live n2 (tt_offeredAt t)" "live n3 n1"
    and "length ka = tagKeySize" "length kb = tagKeySize" "length (tt_self t) = length (pe_Fingerprint (tt_peer t))"
    and "tt_self t \<noteq> pe_Fingerprint (tt_peer t)"
    and h1: "Handle add t x n1 d1 \<lparr>tm_Type = TypeTrustOffer, tm_TagKey = []\<rparr> = (r1, t1, x1)"
    and h2: "Handle add t1 x1 n2 (Some ka) \<lparr>tm_Type = TypeTrustAccept, tm_TagKey = []\<rparr> = (Inr (Some m2, ev2), t2, x2)"
    and h3: "Handle add t2 x2 n3 d3 \<lparr>tm_Type = TypeTrustCommit, tm_TagKey = kb\<rparr> = (r3, t3, x3)"
  shows "r1 = Inr (Some \<lparr>tm_Type = TypeTrustAccept, tm_TagKey = []\<rparr>, TrustNothing)"
    "m2 = \<lparr>tm_Type = TypeTrustCommit, tm_TagKey = ka\<rparr>"
    "tt_tagKey t3 = smaller_key ka (tt_self t) kb (pe_Fingerprint (tt_peer t))"
proof -
  have t1: "t1 = t\<lparr>tt_acceptedAt := n1\<rparr>" "x1 = x" "r1 = Inr (Some \<lparr>tm_Type = TypeTrustAccept, tm_TagKey = []\<rparr>, TrustNothing)"
    using h1 assms(2) by (simp_all add: Handle_def)
  let ?t2 = "keepTagKey (t1\<lparr>tt_offeredAt := 0\<rparr>) ka (tt_self t1)"
  have "m2 = \<lparr>tm_Type = TypeTrustCommit, tm_TagKey = ka\<rparr>" "t2 = snd (establishedLocked ?t2)"
    using h2 assms(3) t1(1) by (auto simp: Handle_def Let_def trust_types split: prod.splits sum.splits)
  then have t2: "m2 = \<lparr>tm_Type = TypeTrustCommit, tm_TagKey = ka\<rparr>" "tt_acceptedAt t2 = n1" "tt_tagKey t2 = tt_tagKey ?t2"
    "tt_tagOwner t2 = tt_tagOwner ?t2" "tt_peer t2 = tt_peer t"
    using t1 by (simp_all add: establishedLocked_def)
  let ?t3 = "keepTagKey (t2\<lparr>tt_acceptedAt := 0\<rparr>) kb (pe_Fingerprint (tt_peer t2))"
  have "live n3 (tt_acceptedAt t2)" using t2(2) assms(4) by simp
  then have "tt_tagKey t3 = tt_tagKey ?t3"
    using h3 by (auto simp: Handle_def Let_def trust_types establishedLocked_def split: prod.splits sum.splits if_splits)
  also have "\<dots> = tt_tagKey (keepTagKey ?t2 kb (pe_Fingerprint (tt_peer t)))"
    using t2 by (simp add: keepTagKey_def)
  also have "\<dots> = smaller_key ka (tt_self t) kb (pe_Fingerprint (tt_peer t))"
    using keep_two [of "t1\<lparr>tt_offeredAt := 0\<rparr>" ka kb "tt_self t" "pe_Fingerprint (tt_peer t)"] assms t1 by simp
  finally show "tt_tagKey t3 = smaller_key ka (tt_self t) kb (pe_Fingerprint (tt_peer t))" .
  show "r1 = Inr (Some \<lparr>tm_Type = TypeTrustAccept, tm_TagKey = []\<rparr>, TrustNothing)" "m2 = \<lparr>tm_Type = TypeTrustCommit, tm_TagKey = ka\<rparr>"
    using t1 t2 by simp_all
qed

text \<open>C32. When both sides offer, both end with one recognition key (DISC-11): each draws a key and
  commits it, and after the two commits each side keeps the key of the device with the smaller
  fingerprint, the same on both.\<close>

theorem double_offer_one_key:
  assumes "tt_tagKey ta = []" "tt_tagKey tb = []" "length ka = tagKeySize" "length kb = tagKeySize"
    and "tt_self tb = pe_Fingerprint (tt_peer ta)" "tt_self ta = pe_Fingerprint (tt_peer tb)"
    and "length (tt_self ta) = length (tt_self tb)" "tt_self ta \<noteq> tt_self tb"
    and "live n1 (tt_offeredAt ta)" "live n2 (tt_offeredAt ta)" "live n3 n1"
    and "live p1 (tt_offeredAt tb)" "live p2 (tt_offeredAt tb)" "live p3 p1"
    and a1: "Handle add ta x n1 d1 \<lparr>tm_Type = TypeTrustOffer, tm_TagKey = []\<rparr> = (Inr (Some ma1, ea1), ta1, x1)"
    and b1: "Handle add tb y p1 e1 \<lparr>tm_Type = TypeTrustOffer, tm_TagKey = []\<rparr> = (Inr (Some mb1, eb1), tb1, y1)"
    and a2: "Handle add ta1 x1 n2 (Some ka) mb1 = (Inr (Some ma2, ea2), ta2, x2)"
    and b2: "Handle add tb1 y1 p2 (Some kb) ma1 = (Inr (Some mb2, eb2), tb2, y2)"
    and a3: "Handle add ta2 x2 n3 d3 mb2 = (ra, ta3, x3)" and b3: "Handle add tb2 y2 p3 e3 ma2 = (rb, tb3, y3)"
  shows "tt_tagKey ta3 = tt_tagKey tb3 \<and> tt_tagKey ta3 = smaller_key ka (tt_self ta) kb (tt_self tb)"
proof -
  have m: "ma1 = \<lparr>tm_Type = TypeTrustAccept, tm_TagKey = []\<rparr>" "mb1 = \<lparr>tm_Type = TypeTrustAccept, tm_TagKey = []\<rparr>"
    using a1 b1 assms(9,12) by (simp_all add: Handle_def)
  have c: "ma2 = \<lparr>tm_Type = TypeTrustCommit, tm_TagKey = ka\<rparr>" "mb2 = \<lparr>tm_Type = TypeTrustCommit, tm_TagKey = kb\<rparr>"
    using a2 b2 unfolding m
    by (auto simp: Handle_def Let_def trust_types split: prod.splits sum.splits if_splits)
  have A: "tt_tagKey ta3 = smaller_key ka (tt_self ta) kb (pe_Fingerprint (tt_peer ta))"
    by (rule double_offer_side(3) [OF assms(1,9-11,3,4) _ _ a1 a2 [unfolded m] a3 [unfolded c]]) (use assms(5-8) in simp_all)
  have B: "tt_tagKey tb3 = smaller_key kb (tt_self tb) ka (pe_Fingerprint (tt_peer tb))"
    by (rule double_offer_side(3) [OF assms(2,12-14,4,3) _ _ b1 b2 [unfolded m] b3 [unfolded c]]) (use assms(5-8) in simp_all)
  show ?thesis using A B assms(5-8) bytes_less_antisym [OF assms(7,8)] by (auto simp: smaller_key_def)
qed

definition ex_ta :: trust_talk where
  "ex_ta = (NewTrustTalk (replicate 32 1) ex_peer)\<lparr>tt_offeredAt := 1\<rparr>"
definition ex_tb :: trust_talk where
  "ex_tb = (NewTrustTalk (replicate 32 7) (ex_peer\<lparr>pe_Fingerprint := replicate 32 1\<rparr>))\<lparr>tt_offeredAt := 1\<rparr>"

lemma bytes_less_replicate: "0 < n \<Longrightarrow> a < b \<Longrightarrow> bytes_less (replicate n a) (replicate n b)"
  by (cases n) auto

lemma accept_answered:
  assumes "live n (tt_offeredAt t)"
  shows "\<exists>m ev t' x'. Handle ex_add t (Some st, ()) n (Some k) \<lparr>tm_Type = TypeTrustAccept, tm_TagKey = []\<rparr> = (Inr (Some m, ev), t', x')"
  using assms by (simp add: Handle_def trust_types Let_def writeLocked_def ex_add_def split: prod.splits)

theorem double_offer_one_key_witness:
  "\<exists>(ta3 :: trust_talk) (tb3 :: trust_talk). tt_tagKey ta3 = replicate 32 5 \<and> tt_tagKey tb3 = replicate 32 5"
proof -
  let ?ka = "replicate 32 5 :: bytes" and ?kb = "replicate 32 6 :: bytes" and ?x = "(Some ex_trust, ())"
  have ab: "tt_tagKey ex_ta = []" "tt_tagKey ex_tb = []" "tt_self ex_ta = replicate 32 1" "tt_self ex_tb = replicate 32 7"
    "pe_Fingerprint (tt_peer ex_ta) = replicate 32 7" "pe_Fingerprint (tt_peer ex_tb) = replicate 32 1"
    "tt_offeredAt ex_ta = 1" "tt_offeredAt ex_tb = 1"
    by (simp_all add: ex_ta_def ex_tb_def NewTrustTalk_def ex_peer_def)
  have l: "live 2 1" "live 3 1" "live 4 2" by (simp_all add: live_def TrustAnswerTime_def)
  have l1: "live 2 (tt_offeredAt ex_ta)" "live 3 (tt_offeredAt ex_ta)" "live 2 (tt_offeredAt ex_tb)" "live 3 (tt_offeredAt ex_tb)"
    using l ab by simp_all
  let ?o = "\<lparr>tm_Type = TypeTrustOffer, tm_TagKey = []\<rparr>"
  obtain ma1 ea1 ta1 x1 where a1: "Handle ex_add ex_ta ?x 2 None ?o = (Inr (Some ma1, ea1), ta1, x1)"
    "ma1 = \<lparr>tm_Type = TypeTrustAccept, tm_TagKey = []\<rparr>" "ta1 = ex_ta\<lparr>tt_acceptedAt := 2\<rparr>" "x1 = ?x"
    using l1 by (simp add: Handle_def)
  obtain mb1 eb1 tb1 y1 where b1: "Handle ex_add ex_tb ?x 2 None ?o = (Inr (Some mb1, eb1), tb1, y1)"
    "mb1 = \<lparr>tm_Type = TypeTrustAccept, tm_TagKey = []\<rparr>" "tb1 = ex_tb\<lparr>tt_acceptedAt := 2\<rparr>" "y1 = ?x"
    using l1 by (simp add: Handle_def)
  obtain ma2 ea2 ta2 x2 where a2: "Handle ex_add ta1 x1 3 (Some ?ka) mb1 = (Inr (Some ma2, ea2), ta2, x2)"
    unfolding a1(4) b1(2) using accept_answered [of 3 ta1 ex_trust ?ka] l1 a1(3) by auto
  obtain mb2 eb2 tb2 y2 where b2: "Handle ex_add tb1 y1 3 (Some ?kb) ma1 = (Inr (Some mb2, eb2), tb2, y2)"
    unfolding b1(4) a1(2) using accept_answered [of 3 tb1 ex_trust ?kb] l1 b1(3) by auto
  obtain ra ta3 x3 where a3: "Handle ex_add ta2 x2 4 None mb2 = (ra, ta3, x3)" by (metis prod.exhaust)
  obtain rb tb3 y3 where b3: "Handle ex_add tb2 y2 4 None ma2 = (rb, tb3, y3)" by (metis prod.exhaust)
  have sk: "length ?ka = tagKeySize" "length ?kb = tagKeySize" by (simp_all add: tagKeySize_def)
  have ne: "tt_self ex_tb = pe_Fingerprint (tt_peer ex_ta)" "tt_self ex_ta = pe_Fingerprint (tt_peer ex_tb)"
    "length (tt_self ex_ta) = length (tt_self ex_tb)" "tt_self ex_ta \<noteq> tt_self ex_tb"
    using ab by simp_all
  have "bytes_less (replicate 32 1) (replicate 32 7)" by (rule bytes_less_replicate) simp_all
  then have "smaller_key ?ka (tt_self ex_ta) ?kb (tt_self ex_tb) = ?ka" using ab by (simp add: smaller_key_def)
  then show ?thesis
    using double_offer_one_key [OF ab(1,2) sk ne l1(1,2) l(3) l1(3,4) l(3) a1(1) b1(1) a2 b2 a3 b3]
    by (intro exI [of _ ta3] exI [of _ tb3]) (elim conjE, simp)
qed

end
