(* ===== verification/Gate.thy ===== *)
theory Gate
  imports GoStrings
begin

text \<open>
  The gate of incoming connections (\<^verbatim>\<open>pkg/securechan/gate.go\<close>): how many connections may wait
  unauthenticated, and how many one address may open in a minute. A time is in nanoseconds, any
  number: nothing here needs the clock to go forward. A Go map gives the zero value of a key that
  is not there, so the tables of stamps and of running handshakes are functions; a method given a
  \<^verbatim>\<open>sync.Once\<close> has a flag.
\<close>

section \<open>Data\<close>

definition minute :: int where "minute = 60000000000"

definition DefaultMaxUnauth :: int where "DefaultMaxUnauth = 16"
definition DefaultPerIPOneMinute :: int where "DefaultPerIPOneMinute = 5"
definition DefaultKnownPerIPOneMinute :: int where "DefaultKnownPerIPOneMinute = 60"
definition DefaultKnownFor :: int where "DefaultKnownFor = 10 * minute"

datatype gate_error = ErrTooManyUnauth | ErrRateLimited

record gate =
  g_MaxUnauth :: int
  g_PerIPOneMinute :: int
  g_KnownPerIPOneMinute :: int
  g_KnownFor :: int
  g_active :: int
  g_recent :: "string \<Rightarrow> int list"
  g_handshakes :: "string \<Rightarrow> int"
  g_known :: "string \<rightharpoonup> int"
  g_swept :: int

definition NewGate :: gate where
  "NewGate = \<lparr>g_MaxUnauth = DefaultMaxUnauth, g_PerIPOneMinute = DefaultPerIPOneMinute,
     g_KnownPerIPOneMinute = DefaultKnownPerIPOneMinute, g_KnownFor = DefaultKnownFor, g_active = 0,
     g_recent = (\<lambda>_. []), g_handshakes = (\<lambda>_. 0), g_known = Map.empty, g_swept = 0\<rparr>"

record admission =
  a_ip :: string
  a_released :: bool
  a_charged :: bool
  a_running :: bool

section \<open>Operations\<close>

definition young :: "int \<Rightarrow> int list \<Rightarrow> int list" where
  "young t ats = filter (\<lambda>at. t - at < minute) ats"

definition recentLocked :: "string \<Rightarrow> int \<Rightarrow> gate \<Rightarrow> int list \<times> gate" where
  "recentLocked ip t g = (let kept = young t (g_recent g ip) in (kept, g\<lparr>g_recent := (g_recent g)(ip := kept)\<rparr>))"

definition sweepLocked :: "int \<Rightarrow> gate \<Rightarrow> gate" where
  "sweepLocked t g =
     (if t - g_swept g < minute then g
      else g\<lparr>g_swept := t, g_recent := (\<lambda>ip. young t (g_recent g ip)),
             g_known := (\<lambda>ip. case g_known g ip of None \<Rightarrow> None
                          | Some at \<Rightarrow> if t - at \<ge> g_KnownFor g then None else Some at)\<rparr>)"

definition endHandshakeLocked :: "admission \<Rightarrow> gate \<Rightarrow> admission \<times> gate" where
  "endHandshakeLocked a g =
     (if \<not> a_running a then (a, g)
      else let n = g_handshakes g (a_ip a) - 1 in
           (a\<lparr>a_running := False\<rparr>, g\<lparr>g_handshakes := (g_handshakes g)(a_ip a := if n \<le> 0 then 0 else n)\<rparr>))"

definition quotaLocked :: "string \<Rightarrow> int \<Rightarrow> gate \<Rightarrow> int \<times> gate" where
  "quotaLocked ip t g =
     (case g_known g ip of
        None \<Rightarrow> (g_PerIPOneMinute g, g)
      | Some at \<Rightarrow>
          if g_KnownPerIPOneMinute g > g_PerIPOneMinute g \<and> t - at < g_KnownFor g then (g_KnownPerIPOneMinute g, g)
          else if t - at \<ge> g_KnownFor g then (g_PerIPOneMinute g, g\<lparr>g_known := (g_known g)(ip := None)\<rparr>)
          else (g_PerIPOneMinute g, g))"

text \<open>\<^verbatim>\<open>net.SplitHostPort\<close>: the host of an address with a port, bracketed when it holds colons.\<close>

definition SplitHost :: "string \<Rightarrow> string option" where
  "SplitHost s =
     (case LastIndexByte s CHR '':'' of
        None \<Rightarrow> None
      | Some i \<Rightarrow>
          if s ! 0 = CHR ''[''
          then (case IndexByte s CHR '']'' of
                  None \<Rightarrow> None
                | Some j \<Rightarrow>
                    if j + 1 \<noteq> i \<or> IndexByte (drop 1 s) CHR ''['' \<noteq> None \<or> IndexByte (drop (j + 1) s) CHR '']'' \<noteq> None
                    then None else Some (drop 1 (take j s)))
          else if IndexByte (take i s) CHR '':'' \<noteq> None \<or> IndexByte s CHR ''['' \<noteq> None \<or> IndexByte s CHR '']'' \<noteq> None
          then None else Some (take i s))"

definition addr_ip :: "string \<Rightarrow> string" where
  "addr_ip addr = (case SplitHost addr of Some host \<Rightarrow> host | None \<Rightarrow> addr)"

definition Admit :: "string \<Rightarrow> int \<Rightarrow> gate \<Rightarrow> (gate_error + admission) \<times> gate" where
  "Admit addr t g =
     (let ip = addr_ip addr in
      case quotaLocked ip t (sweepLocked t g) of
        (q, g1) \<Rightarrow>
          let (kept, g2) = (if q > 0 then recentLocked ip t g1 else ([], g1)) in
          if q > 0 \<and> int (length kept) + g_handshakes g2 ip \<ge> q then (Inl ErrRateLimited, g2)
          else if g_MaxUnauth g2 > 0 \<and> g_active g2 \<ge> g_MaxUnauth g2 then (Inl ErrTooManyUnauth, g2)
          else (Inr \<lparr>a_ip = ip, a_released = False, a_charged = False, a_running = True\<rparr>,
                g2\<lparr>g_active := g_active g2 + 1, g_handshakes := (g_handshakes g2)(ip := g_handshakes g2 ip + 1)\<rparr>))"

definition Charge :: "int \<Rightarrow> admission \<Rightarrow> gate \<Rightarrow> admission \<times> gate" where
  "Charge t a g =
     (if a_charged a then (a, g)
      else case endHandshakeLocked (a\<lparr>a_charged := True\<rparr>) g of
        (a1, g1) \<Rightarrow>
          (case recentLocked (a_ip a1) t g1 of
             (kept, g2) \<Rightarrow> (a1, g2\<lparr>g_recent := (g_recent g2)(a_ip a1 := kept @ [t])\<rparr>)))"

definition Authenticated :: "int \<Rightarrow> admission \<Rightarrow> gate \<Rightarrow> gate" where
  "Authenticated t a g = g\<lparr>g_known := (g_known g)(a_ip a \<mapsto> t)\<rparr>"

definition Release :: "admission \<Rightarrow> gate \<Rightarrow> admission \<times> gate" where
  "Release a g =
     (if a_released a then (a, g)
      else endHandshakeLocked (a\<lparr>a_released := True\<rparr>) (g\<lparr>g_active := g_active g - 1\<rparr>))"

section \<open>The gate and the connections it let in\<close>

text \<open>\<open>A\<close> are the addresses whose peers can authenticate a key. A connection is charged before it is
  released, as \<^verbatim>\<open>handshake\<close> does; it may be released, authenticated or charged again at any time.\<close>

type_synonym gate_sys = "gate \<times> admission list"

inductive gate_step :: "string set \<Rightarrow> gate_sys \<Rightarrow> gate_sys \<Rightarrow> bool" for A where
  admit: "Admit addr t g = (Inr a, g') \<Longrightarrow> gate_step A (g, as) (g', as @ [a])"
| refuse: "Admit addr t g = (Inl err, g') \<Longrightarrow> gate_step A (g, as) (g', as)"
| charge: "k < length as \<Longrightarrow> \<not> a_released (as ! k) \<or> a_charged (as ! k) \<Longrightarrow> Charge t (as ! k) g = (a, g') \<Longrightarrow>
    gate_step A (g, as) (g', as[k := a])"
| authenticated: "k < length as \<Longrightarrow> a_ip (as ! k) \<in> A \<Longrightarrow> gate_step A (g, as) (Authenticated t (as ! k) g, as)"
| release: "k < length as \<Longrightarrow> Release (as ! k) g = (a, g') \<Longrightarrow> gate_step A (g, as) (g', as[k := a])"

inductive_cases gate_stepE: "gate_step A x y"

section \<open>The invariant\<close>

definition limit :: "gate \<Rightarrow> string set \<Rightarrow> string \<Rightarrow> int" where
  "limit g A ip = (if ip \<in> A then max (g_PerIPOneMinute g) (g_KnownPerIPOneMinute g) else g_PerIPOneMinute g)"

definition gate_inv :: "gate \<Rightarrow> string set \<Rightarrow> gate_sys \<Rightarrow> bool" where
  "gate_inv g0 A x = (case x of (g, as) \<Rightarrow>
     g_MaxUnauth g = g_MaxUnauth g0 \<and> g_PerIPOneMinute g = g_PerIPOneMinute g0 \<and>
     g_KnownPerIPOneMinute g = g_KnownPerIPOneMinute g0 \<and> g_KnownFor g = g_KnownFor g0 \<and>
     g_active g = int (length (filter (\<lambda>a. \<not> a_released a) as)) \<and>
     (\<forall>ip. g_handshakes g ip = int (length (filter (\<lambda>a. a_running a \<and> a_ip a = ip) as))) \<and>
     (\<forall>a \<in> set as. a_running a \<longrightarrow> \<not> a_released a \<and> \<not> a_charged a) \<and>
     (\<forall>a \<in> set as. \<not> a_running a \<longrightarrow> a_released a \<or> a_charged a) \<and>
     dom (g_known g) \<subseteq> A \<and>
     (g_MaxUnauth g0 > 0 \<longrightarrow> g_active g \<le> g_MaxUnauth g0) \<and>
     (\<forall>ip. 0 < g_PerIPOneMinute g0 \<longrightarrow> int (length (g_recent g ip)) + g_handshakes g ip \<le> limit g0 A ip))"


lemma count_update:
  assumes "k < length xs"
  shows "int (length (filter P (xs[k := y]))) = int (length (filter P xs)) - of_bool (P (xs ! k)) + of_bool (P y)"
  using assms
proof (induction xs arbitrary: k)
  case (Cons x xs)
  then show ?case by (cases k) auto
qed simp

lemma length_young: "length (young t ats) \<le> length ats"
  by (simp add: young_def)

lemma sweepLocked_frame:
  "g_active (sweepLocked t g) = g_active g" "g_handshakes (sweepLocked t g) = g_handshakes g"
  "g_MaxUnauth (sweepLocked t g) = g_MaxUnauth g" "g_PerIPOneMinute (sweepLocked t g) = g_PerIPOneMinute g"
  "g_KnownPerIPOneMinute (sweepLocked t g) = g_KnownPerIPOneMinute g" "g_KnownFor (sweepLocked t g) = g_KnownFor g"
  "dom (g_known (sweepLocked t g)) \<subseteq> dom (g_known g)"
  "length (g_recent (sweepLocked t g) ip) \<le> length (g_recent g ip)"
  using length_young by (auto simp: sweepLocked_def split: option.splits if_splits)

lemma quotaLocked_frame:
  assumes "quotaLocked ip t g = (q, g')"
  shows "g_active g' = g_active g" "g_handshakes g' = g_handshakes g" "g_recent g' = g_recent g"
    "g_MaxUnauth g' = g_MaxUnauth g" "g_PerIPOneMinute g' = g_PerIPOneMinute g"
    "g_KnownPerIPOneMinute g' = g_KnownPerIPOneMinute g" "g_KnownFor g' = g_KnownFor g" "dom (g_known g') \<subseteq> dom (g_known g)"
    "q = g_PerIPOneMinute g \<or> (ip \<in> dom (g_known g) \<and> q = g_KnownPerIPOneMinute g \<and> g_PerIPOneMinute g < q)"
  using assms by (auto simp: quotaLocked_def split: option.splits if_splits)

text \<open>What \<open>Admit\<close> keeps of the gate as it is after the sweep and the quota.\<close>

definition admits :: "string \<Rightarrow> int \<Rightarrow> gate \<Rightarrow> gate \<Rightarrow> gate_error + admission \<Rightarrow> bool" where
  "admits ip q g1 g' r \<longleftrightarrow>
     (\<forall>x. length (g_recent g' x) \<le> length (g_recent g1 x)) \<and> g_MaxUnauth g' = g_MaxUnauth g1 \<and>
     g_PerIPOneMinute g' = g_PerIPOneMinute g1 \<and> g_KnownPerIPOneMinute g' = g_KnownPerIPOneMinute g1 \<and>
     g_KnownFor g' = g_KnownFor g1 \<and> g_known g' = g_known g1 \<and>
     (case r of
        Inl err \<Rightarrow> g_active g' = g_active g1 \<and> g_handshakes g' = g_handshakes g1
      | Inr a \<Rightarrow>
          a = \<lparr>a_ip = ip, a_released = False, a_charged = False, a_running = True\<rparr> \<and>
          (0 < q \<longrightarrow> int (length (g_recent g' ip)) + g_handshakes g1 ip < q) \<and>
          (0 < g_MaxUnauth g1 \<longrightarrow> g_active g1 < g_MaxUnauth g1) \<and> g_active g' = g_active g1 + 1 \<and>
          g_handshakes g' = (g_handshakes g1)(ip := g_handshakes g1 ip + 1))"

lemma Admit_cases:
  assumes "Admit addr t g = (r, g')"
  shows "\<exists>q g1. quotaLocked (addr_ip addr) t (sweepLocked t g) = (q, g1) \<and> admits (addr_ip addr) q g1 g' r"
proof -
  let ?ip = "addr_ip addr"
  obtain q g1 where q: "quotaLocked ?ip t (sweepLocked t g) = (q, g1)" by (metis prod.exhaust)
  obtain kept g2 where k: "(if q > 0 then recentLocked ?ip t g1 else ([], g1)) = (kept, g2)" by (metis prod.exhaust)
  have g2: "length (g_recent g2 ip) \<le> length (g_recent g1 ip)" "0 < q \<longrightarrow> g_recent g2 ?ip = kept" for ip
    using k length_young by (auto simp: recentLocked_def Let_def split: if_splits)
  have g2': "g_MaxUnauth g2 = g_MaxUnauth g1" "g_PerIPOneMinute g2 = g_PerIPOneMinute g1" "g_KnownFor g2 = g_KnownFor g1"
    "g_KnownPerIPOneMinute g2 = g_KnownPerIPOneMinute g1" "g_known g2 = g_known g1" "g_active g2 = g_active g1" "g_handshakes g2 = g_handshakes g1"
    using k by (auto simp: recentLocked_def Let_def split: if_splits)
  have E: "(r, g') = (if q > 0 \<and> int (length kept) + g_handshakes g2 ?ip \<ge> q then (Inl ErrRateLimited, g2)
      else if g_MaxUnauth g2 > 0 \<and> g_active g2 \<ge> g_MaxUnauth g2 then (Inl ErrTooManyUnauth, g2)
      else (Inr \<lparr>a_ip = ?ip, a_released = False, a_charged = False, a_running = True\<rparr>,
            g2\<lparr>g_active := g_active g2 + 1, g_handshakes := (g_handshakes g2)(?ip := g_handshakes g2 ?ip + 1)\<rparr>))"
    using assms unfolding Admit_def Let_def q prod.case k by simp
  have "admits ?ip q g1 g' r" using E g2 g2' by (auto simp: admits_def split: if_splits)
  then show ?thesis using q by blast
qed

lemma endHandshake_counts:
  assumes "a_running a \<Longrightarrow> 0 < g_handshakes g (a_ip a)"
  shows "endHandshakeLocked a g = (a\<lparr>a_running := False\<rparr>,
    g\<lparr>g_handshakes := (g_handshakes g)(a_ip a := g_handshakes g (a_ip a) - of_bool (a_running a))\<rparr>)"
proof (cases "a_running a")
  case False
  then have "(g_handshakes g)(a_ip a := g_handshakes g (a_ip a) - of_bool (a_running a)) = g_handshakes g" by simp
  moreover have "a\<lparr>a_running := False\<rparr> = a" using False by (cases a) simp
  ultimately show ?thesis using False by (simp add: endHandshakeLocked_def)
next
  case True
  then have "(if g_handshakes g (a_ip a) - 1 \<le> 0 then 0 else g_handshakes g (a_ip a) - 1) = g_handshakes g (a_ip a) - 1"
    using assms by simp
  then show ?thesis using True by (simp only: endHandshakeLocked_def Let_def not_True_eq_False if_False of_bool_eq(2))
qed

text \<open>An admission of the list that changes: the counts of places and of running handshakes follow.\<close>

lemma running_counted:
  assumes "gate_inv g0 A (g, as)" "k < length as" "a_running (as ! k)"
  shows "0 < g_handshakes g (a_ip (as ! k))"
proof -
  have "as ! k \<in> set (filter (\<lambda>a. a_running a \<and> a_ip a = a_ip (as ! k)) as)" using assms(2,3) by simp
  then have "filter (\<lambda>a. a_running a \<and> a_ip a = a_ip (as ! k)) as \<noteq> []" by force
  then show ?thesis using assms(1) by (simp add: gate_inv_def)
qed

lemma admission_inv:
  assumes I: "gate_inv g0 A (g, as)" and k: "k < length as" "a_ip a = a_ip (as ! k)"
    and flags: "\<not> a_running a" "a_released a \<or> a_charged a"
    and same: "g_MaxUnauth g' = g_MaxUnauth g" "g_PerIPOneMinute g' = g_PerIPOneMinute g" "g_KnownFor g' = g_KnownFor g"
      "g_KnownPerIPOneMinute g' = g_KnownPerIPOneMinute g" "g_known g' = g_known g"
    and act: "g_active g' = g_active g - of_bool (\<not> a_released (as ! k)) + of_bool (\<not> a_released a)"
      "a_released (as ! k) \<longrightarrow> a_released a"
    and hs: "g_handshakes g' = (g_handshakes g)(a_ip (as ! k) := g_handshakes g (a_ip (as ! k)) - of_bool (a_running (as ! k)))"
    and rec: "\<And>ip. int (length (g_recent g' ip)) \<le> int (length (g_recent g ip)) + of_bool (ip = a_ip (as ! k) \<and> a_running (as ! k))"
  shows "gate_inv g0 A (g', as[k := a])"
proof -
  note J = I [unfolded gate_inv_def prod.case]
  have h: "g_handshakes g' ip = int (length (filter (\<lambda>a. a_running a \<and> a_ip a = ip) (as[k := a])))" for ip
    using J flags(1) by (auto simp: count_update [OF k(1)] hs)
  have c: "g_active g' = int (length (filter (\<lambda>a. \<not> a_released a) (as[k := a])))"
    using J by (simp add: count_update [OF k(1)] act(1))
  have "int (length (g_recent g' ip)) + g_handshakes g' ip \<le> limit g0 A ip" if "0 < g_PerIPOneMinute g0" for ip
  proof -
    have "int (length (g_recent g ip)) + g_handshakes g ip \<le> limit g0 A ip" using J that by blast
    then show ?thesis using rec [of ip] by (auto simp: hs split: if_splits)
  qed
  moreover have "\<forall>b \<in> set (as[k := a]). (a_running b \<longrightarrow> \<not> a_released b \<and> \<not> a_charged b) \<and>
      (\<not> a_running b \<longrightarrow> a_released b \<or> a_charged b)"
    using J flags set_update_subset_insert [of as k a] by auto
  moreover have "g_active g' \<le> g_active g" using act by auto
  ultimately show ?thesis unfolding gate_inv_def prod.case using J same h c by auto
qed

lemma gate_step_keeps:
  assumes "gate_inv g0 A x" "gate_step A x y"
  shows "gate_inv g0 A y"
  using assms(2,1)
proof (induction rule: gate_step.induct)
  case (admit addr t g a g' as)
  let ?ip = "addr_ip addr"
  from Admit_cases [OF admit.hyps] obtain q g1 where q: "quotaLocked ?ip t (sweepLocked t g) = (q, g1)"
    and m: "admits ?ip q g1 g' (Inr a)" by blast
  have f: "\<And>ip. length (g_recent g' ip) \<le> length (g_recent g1 ip)" "g_MaxUnauth g' = g_MaxUnauth g1"
      "g_PerIPOneMinute g' = g_PerIPOneMinute g1" "g_KnownPerIPOneMinute g' = g_KnownPerIPOneMinute g1" "g_KnownFor g' = g_KnownFor g1"
      "g_known g' = g_known g1"
    and n: "a = \<lparr>a_ip = ?ip, a_released = False, a_charged = False, a_running = True\<rparr>"
      "0 < q \<longrightarrow> int (length (g_recent g' ?ip)) + g_handshakes g1 ?ip < q"
      "0 < g_MaxUnauth g1 \<longrightarrow> g_active g1 < g_MaxUnauth g1" "g_active g' = g_active g1 + 1"
      "g_handshakes g' = (g_handshakes g1)(?ip := g_handshakes g1 ?ip + 1)"
    using m by (simp_all add: admits_def)
  note Q = quotaLocked_frame [OF q] and S = sweepLocked_frame [of t g]
  note I = admit.prems [unfolded gate_inv_def prod.case]
  have r: "length (g_recent g' ip) \<le> length (g_recent g ip)" for ip
    using f(1) [of ip] Q(3) S(8) [of ip] by simp
  have "dom (g_known g) \<subseteq> A" using I by simp
  then have d: "dom (g_known g') \<subseteq> A" unfolding f(6) using Q(8) S(7) by blast
  have "int (length (g_recent g' ip)) + g_handshakes g' ip \<le> limit g0 A ip" if p: "0 < g_PerIPOneMinute g0" for ip
  proof (cases "ip = ?ip")
    case True
    have "dom (g_known (sweepLocked t g)) \<subseteq> A" using S(7) I by blast
    then have k: "?ip \<in> dom (g_known (sweepLocked t g)) \<longrightarrow> ?ip \<in> A" by blast
    have e: "g_PerIPOneMinute (sweepLocked t g) = g_PerIPOneMinute g0"
      "g_KnownPerIPOneMinute (sweepLocked t g) = g_KnownPerIPOneMinute g0" using S(4,5) I by simp_all
    have "0 < q \<and> q \<le> limit g0 A ?ip" using Q(9) k p unfolding e limit_def by auto
    then have "0 < q" "q \<le> limit g0 A ?ip" by simp_all
    then show ?thesis using n(2,5) True by simp
  next
    case False
    have "int (length (g_recent g ip)) + g_handshakes g ip \<le> limit g0 A ip" using I p by blast
    then show ?thesis using n(5) False r [of ip] Q(2) S(2) by simp
  qed
  then show ?case unfolding gate_inv_def prod.case using I n d f(2-5) Q(1,2,4-7) S(1-6) by auto
next
  case (refuse addr t g err g' as)
  from Admit_cases [OF refuse.hyps] obtain q g1 where q: "quotaLocked (addr_ip addr) t (sweepLocked t g) = (q, g1)"
    and m: "admits (addr_ip addr) q g1 g' (Inl err)" by blast
  have f: "\<And>ip. length (g_recent g' ip) \<le> length (g_recent g1 ip)" "g_MaxUnauth g' = g_MaxUnauth g1"
      "g_PerIPOneMinute g' = g_PerIPOneMinute g1" "g_KnownPerIPOneMinute g' = g_KnownPerIPOneMinute g1" "g_KnownFor g' = g_KnownFor g1"
      "g_known g' = g_known g1" "g_active g' = g_active g1" "g_handshakes g' = g_handshakes g1"
    using m by (simp_all add: admits_def)
  note Q = quotaLocked_frame [OF q] and S = sweepLocked_frame [of t g]
  note I = refuse.prems [unfolded gate_inv_def prod.case]
  have r: "length (g_recent g' ip) \<le> length (g_recent g ip)" for ip
    using f(1) [of ip] Q(3) S(8) [of ip] by simp
  have "dom (g_known g) \<subseteq> A" using I by simp
  then have "dom (g_known g') \<subseteq> A" unfolding f(6) using Q(8) S(7) by blast
  moreover have "int (length (g_recent g' ip)) + g_handshakes g' ip \<le> limit g0 A ip" if "0 < g_PerIPOneMinute g0" for ip
  proof -
    have "int (length (g_recent g ip)) + g_handshakes g ip \<le> limit g0 A ip" using I that by blast
    then show ?thesis using r [of ip] f(8) Q(2) S(2) by simp
  qed
  ultimately show ?case unfolding gate_inv_def prod.case using I f(2-5,7,8) Q(1,2,4-7) S(1-6) by auto
next
  case (charge k as t g a g')
  let ?a = "as ! k"
  show ?case
  proof (cases "a_charged ?a")
    case True
    then have "a = ?a" "g' = g" using charge.hyps(3) by (simp_all add: Charge_def)
    then show ?thesis using charge.prems by simp
  next
    case False
    then have nr: "\<not> a_released ?a" using charge.hyps(2) by simp
    have run: "a_running ?a" using charge.prems nr False nth_mem [OF charge.hyps(1)] by (auto simp: gate_inv_def)
    then have pos: "0 < g_handshakes g (a_ip ?a)" by (rule running_counted [OF charge.prems charge.hyps(1)])
    have eq: "?a\<lparr>a_charged := True, a_running := False\<rparr> = a"
      "g\<lparr>g_handshakes := (g_handshakes g)(a_ip ?a := g_handshakes g (a_ip ?a) - 1),
         g_recent := (g_recent g)(a_ip ?a := young t (g_recent g (a_ip ?a)) @ [t])\<rparr> = g'"
      using charge.hyps(3) False run pos endHandshake_counts [of "?a\<lparr>a_charged := True\<rparr>" g]
      by (simp_all add: Charge_def recentLocked_def Let_def)
    show ?thesis
      by (rule admission_inv [OF charge.prems charge.hyps(1)])
        (use eq nr run length_young [of t "g_recent g (a_ip ?a)"] in auto)
  qed
next
  case (authenticated k as g t)
  then show ?case by (auto simp: gate_inv_def Authenticated_def)
next
  case (release k as g a g')
  let ?a = "as ! k"
  show ?case
  proof (cases "a_released ?a")
    case True
    then have "a = ?a" "g' = g" using release.hyps(2) by (simp_all add: Release_def)
    then show ?thesis using release.prems by simp
  next
    case False
    have pos: "a_running ?a \<Longrightarrow> 0 < g_handshakes g (a_ip ?a)" by (rule running_counted [OF release.prems release.hyps(1)])
    have eq: "?a\<lparr>a_released := True, a_running := False\<rparr> = a"
      "g\<lparr>g_active := g_active g - 1,
         g_handshakes := (g_handshakes g)(a_ip ?a := g_handshakes g (a_ip ?a) - of_bool (a_running ?a))\<rparr> = g'"
      using release.hyps(2) False pos endHandshake_counts [of "?a\<lparr>a_released := True\<rparr>" "g\<lparr>g_active := g_active g - 1\<rparr>"]
      by (simp_all add: Release_def)
    show ?thesis
      by (rule admission_inv [OF release.prems release.hyps(1)]) (use eq False in auto)
  qed
qed


interpretation gate: step_invariant "gate_step A" "gate_inv g0 A" for A g0
  by unfold_locales (rule gate_step_keeps)

lemma gate_start: "g_active g0 = 0 \<Longrightarrow> g_recent g0 = (\<lambda>_. []) \<Longrightarrow> g_handshakes g0 = (\<lambda>_. 0) \<Longrightarrow>
    g_known g0 = Map.empty \<Longrightarrow> 0 \<le> g_PerIPOneMinute g0 \<Longrightarrow> gate_inv g0 A (g0, [])"
  by (auto simp: gate_inv_def limit_def max_def)

section \<open>The properties\<close>


text \<open>A peer that authenticates during its handshake costs its address nothing: admitted, then
  recorded as known and released, it leaves no place taken, no handshake running and no stamp, and its
  address has the larger quota from then on.\<close>

theorem known_peer_costs_nothing:
  assumes "Admit addr t g = (Inr a, g1)" "Release a (Authenticated t' a g1) = (a', g2)" "0 \<le> g_handshakes g (addr_ip addr)"
  shows "g_active g2 = g_active g \<and> g_handshakes g2 = g_handshakes g \<and>
    length (g_recent g2 ip) \<le> length (g_recent g ip) \<and> g_known g2 (addr_ip addr) = Some t'"
proof -
  let ?ip = "addr_ip addr"
  from Admit_cases [OF assms(1)] obtain q g0 where q: "quotaLocked ?ip t (sweepLocked t g) = (q, g0)"
    and m: "admits ?ip q g0 g1 (Inr a)" by blast
  note Q = quotaLocked_frame [OF q] and S = sweepLocked_frame [of t g]
  have f: "length (g_recent g1 ip) \<le> length (g_recent g ip)"
    using m Q(3) S(8) [of ip] by (auto simp: admits_def intro: order_trans)
  have n: "a = \<lparr>a_ip = ?ip, a_released = False, a_charged = False, a_running = True\<rparr>" "g_active g1 = g_active g + 1"
    "g_handshakes g1 = (g_handshakes g)(?ip := g_handshakes g ?ip + 1)"
    using m Q(1,2) S(1,2) by (simp_all add: admits_def)
  have "g2 = (Authenticated t' a g1)\<lparr>g_active := g_active g1 - 1, g_handshakes := (g_handshakes g1)(?ip := g_handshakes g1 ?ip - 1)\<rparr>"
    using assms(2,3) endHandshake_counts [of "a\<lparr>a_released := True\<rparr>" "(Authenticated t' a g1)\<lparr>g_active := g_active g1 - 1\<rparr>"]
    by (simp add: Release_def n(1,3) Authenticated_def)
  then show ?thesis using n f by (simp add: Authenticated_def fun_upd_idem)
qed

section \<open>An example\<close>

lemma ex_ip: "addr_ip ''10.0.0.7:4000'' = ''10.0.0.7''"
  by (simp add: addr_ip_def SplitHost_def)

lemma ex_admit: "\<exists>g'. Admit ''10.0.0.7:4000'' 0 NewGate =
    (Inr \<lparr>a_ip = ''10.0.0.7'', a_released = False, a_charged = False, a_running = True\<rparr>, g')"
  by (simp add: Admit_def ex_ip sweepLocked_def NewGate_def minute_def quotaLocked_def recentLocked_def young_def
      DefaultPerIPOneMinute_def DefaultMaxUnauth_def Let_def)


theorem known_peer_costs_nothing_witness:
  "\<exists>a g1 a' g2. Admit ''10.0.0.7:4000'' 0 NewGate = (Inr a, g1) \<and> Release a (Authenticated 1 a g1) = (a', g2) \<and>
     g_active g2 = 0 \<and> g_known g2 ''10.0.0.7'' = Some 1"
proof -
  obtain a g1 where a: "Admit ''10.0.0.7:4000'' 0 NewGate = (Inr a, g1)" using ex_admit by blast
  obtain a' g2 where r: "Release a (Authenticated 1 a g1) = (a', g2)" by (metis prod.exhaust)
  show ?thesis using known_peer_costs_nothing [OF a r] a r by (simp add: NewGate_def ex_ip)
qed

end
