(* ===== verification/SecureChan.thy ===== *)
theory SecureChan
  imports Gate TrustStores
begin

text \<open>
  The secure channel (\<^verbatim>\<open>pkg/securechan/securechan.go\<close>): who is accepted by its key, and the limits
  of a connection that is not authenticated yet: the bytes it may read, how long it lives, its place
  in the gate. TLS is a parameter: whether the handshake on the network worked, the protocol it agreed
  on and the certificate of the peer. A time is in nanoseconds, the zero time is \<^const>\<open>None\<close>.
\<close>

section \<open>Data\<close>

definition second :: int where "second = 1000000000"

definition ALPN :: string where "ALPN = ''medxfer/1''"
definition UnauthReadLimit :: nat where "UnauthReadLimit = 4096"
definition UnauthTimeout :: int where "UnauthTimeout = 30 * second"
definition UnauthPersonWait :: int where "UnauthPersonWait = 120 * second"
definition DefaultHandshakeTimeout :: int where "DefaultHandshakeTimeout = 5 * second"

datatype chan_error =
    ErrFingerprintMismatch
  | ErrUnknownPeer
  | ErrNoALPN
  | ErrNoPeerCertificate
  | ErrUnauthLimit
  | NoIdentity
  | GateRefused gate_error
  | HandshakeFailed

datatype chan_state = Unauth | Auth

definition chan_state_String :: "chan_state \<Rightarrow> string" where
  "chan_state_String s = (if s = Auth then ''AUTH'' else ''UNAUTH'')"

record chan_config =
  cf_Identity :: bool
  cf_Trust :: "trust_store option"
  cf_Known :: "(fingerprint \<Rightarrow> bool) option"
  cf_Expected :: fingerprint
  cf_AllowUnknown :: bool
  cf_HandshakeTimeout :: int

definition chan_timeout :: "chan_config \<Rightarrow> int" where
  "chan_timeout cfg = (if cf_HandshakeTimeout cfg > 0 then cf_HandshakeTimeout cfg else DefaultHandshakeTimeout)"

text \<open>\<open>cn_readDl\<close> and \<open>cn_writeDl\<close> are the deadlines set on the TLS connection, \<open>cn_adm\<close> the place in
  the gate that \<^verbatim>\<open>release\<close> and \<^verbatim>\<open>known\<close> close over, if the connection went through one.\<close>

record conn =
  cn_peer :: fingerprint
  cn_state :: chan_state
  cn_unauthRead :: nat
  cn_pending :: bytes
  cn_unauthUntil :: "int option"
  cn_readAt :: "int option"
  cn_writeAt :: "int option"
  cn_readDl :: "int option"
  cn_writeDl :: "int option"
  cn_adm :: "admission option"
  cn_closed :: bool

section \<open>Deadlines\<close>

definition boundLocked :: "conn \<Rightarrow> int option \<Rightarrow> int option" where
  "boundLocked c t =
     (if cn_state c \<noteq> Unauth then t
      else case cn_unauthUntil c of
             None \<Rightarrow> t
           | Some u \<Rightarrow> (case t of None \<Rightarrow> Some u | Some v \<Rightarrow> if v > u then Some u else t))"

definition SetDeadline :: "int option \<Rightarrow> conn \<Rightarrow> conn" where
  "SetDeadline t c = c\<lparr>cn_readAt := t, cn_writeAt := t, cn_readDl := boundLocked c t, cn_writeDl := boundLocked c t\<rparr>"

definition SetReadDeadline :: "int option \<Rightarrow> conn \<Rightarrow> conn" where
  "SetReadDeadline t c = c\<lparr>cn_readAt := t, cn_readDl := boundLocked c t\<rparr>"

definition SetWriteDeadline :: "int option \<Rightarrow> conn \<Rightarrow> conn" where
  "SetWriteDeadline t c = c\<lparr>cn_writeAt := t, cn_writeDl := boundLocked c t\<rparr>"

definition WriteDeadline :: "conn \<Rightarrow> int option" where "WriteDeadline c = cn_writeAt c"

definition AwaitPerson :: "int \<Rightarrow> int \<Rightarrow> conn \<Rightarrow> conn" where
  "AwaitPerson now d c =
     (if cn_state c \<noteq> Unauth then c
      else
        let until = now + (min d UnauthPersonWait + UnauthTimeout);
            c1 = (case cn_unauthUntil c of
                    Some u \<Rightarrow> if until > u then c\<lparr>cn_unauthUntil := Some until\<rparr> else c
                  | None \<Rightarrow> c\<lparr>cn_unauthUntil := Some until\<rparr>)
        in c1\<lparr>cn_readDl := boundLocked c1 (cn_readAt c1), cn_writeDl := boundLocked c1 (cn_writeAt c1)\<rparr>)"

section \<open>Reading, authentication, end\<close>

definition Unread :: "bytes \<Rightarrow> conn \<Rightarrow> conn" where
  "Unread p c = c\<lparr>cn_pending := p @ cn_pending c\<rparr>"

definition releaseGate :: "conn \<Rightarrow> gate \<Rightarrow> conn \<times> gate" where
  "releaseGate c g =
     (case cn_adm c of
        None \<Rightarrow> (c, g)
      | Some a \<Rightarrow> (case Release a g of (a', g') \<Rightarrow> (c\<lparr>cn_adm := Some a'\<rparr>, g')))"

definition CloseConn :: "conn \<Rightarrow> gate \<Rightarrow> conn \<times> gate" where
  "CloseConn c g = (case releaseGate c g of (c', g') \<Rightarrow> (c'\<lparr>cn_closed := True\<rparr>, g'))"

definition Authenticate :: "int \<Rightarrow> conn \<Rightarrow> gate \<Rightarrow> conn \<times> gate" where
  "Authenticate now c g =
     (let c1 = c\<lparr>cn_state := Auth\<rparr>;
          c2 = (if cn_state c = Unauth
                then c1\<lparr>cn_readAt := None, cn_writeAt := None, cn_readDl := None, cn_writeDl := None\<rparr> else c1);
          g1 = (case cn_adm c of Some a \<Rightarrow> if cn_state c = Unauth then Authenticated now a g else g | None \<Rightarrow> g)
      in releaseGate c2 g1)"

text \<open>\<^verbatim>\<open>Read\<close> of at most \<open>n\<close> bytes, \<open>net\<close> being what the TLS connection has to give. The bytes it took
  from the network come with the answer.\<close>

definition ReadConn :: "nat \<Rightarrow> bytes \<Rightarrow> conn \<Rightarrow> gate \<Rightarrow> (chan_error + bytes) \<times> bytes \<times> conn \<times> gate" where
  "ReadConn n net c g =
     (if cn_pending c \<noteq> []
      then (Inr (take n (cn_pending c)), [], c\<lparr>cn_pending := drop n (cn_pending c)\<rparr>, g)
      else if cn_state c = Unauth \<and> UnauthReadLimit \<le> cn_unauthRead c
      then (case CloseConn c g of (c', g') \<Rightarrow> (Inl ErrUnauthLimit, [], c', g'))
      else
        let m = (if cn_state c = Unauth then min n (UnauthReadLimit - cn_unauthRead c) else n);
            got = take m net
        in (Inr got, got, if cn_state c = Unauth then c\<lparr>cn_unauthRead := cn_unauthRead c + length got\<rparr> else c, g))"

section \<open>The handshake\<close>

text \<open>\<^verbatim>\<open>VerifyConnection\<close>: the real check, on both sides.\<close>

definition VerifyConnection ::
  "(bytes \<Rightarrow> bytes) \<Rightarrow> chan_config \<Rightarrow> string \<Rightarrow> bytes option \<Rightarrow> chan_error + (fingerprint \<times> chan_state)" where
  "VerifyConnection sha cfg alpn cert =
     (if alpn \<noteq> ALPN then Inl ErrNoALPN
      else case cert of
             None \<Rightarrow> Inl ErrNoPeerCertificate
           | Some spki \<Rightarrow>
               let fp = FingerprintOf sha spki in
               if \<not> FP_IsZero (cf_Expected cfg)
               then if fp \<noteq> cf_Expected cfg then Inl ErrFingerprintMismatch else Inr (fp, Auth)
               else if (case cf_Trust cfg of Some ts \<Rightarrow> Contains ts fp | None \<Rightarrow> False) then Inr (fp, Auth)
               else if (case cf_Known cfg of Some accepts \<Rightarrow> accepts fp | None \<Rightarrow> False) then Inr (fp, Auth)
               else if cf_AllowUnknown cfg then Inr (fp, Unauth)
               else Inl ErrUnknownPeer)"

text \<open>What TLS brings: whether it got through, the protocol agreed on, the peer's key.\<close>

record tls_outcome =
  tl_ok :: bool
  tl_alpn :: string
  tl_cert :: "bytes option"

definition new_conn :: "fingerprint \<Rightarrow> chan_state \<Rightarrow> admission option \<Rightarrow> conn" where
  "new_conn fp st adm =
     \<lparr>cn_peer = fp, cn_state = st, cn_unauthRead = 0, cn_pending = [], cn_unauthUntil = None, cn_readAt = None,
      cn_writeAt = None, cn_readDl = None, cn_writeDl = None, cn_adm = adm, cn_closed = False\<rparr>"

definition unauth_conn :: "fingerprint \<Rightarrow> int \<Rightarrow> admission option \<Rightarrow> conn" where
  "unauth_conn fp until adm =
     (new_conn fp Unauth adm)\<lparr>cn_unauthUntil := Some until, cn_readDl := Some until, cn_writeDl := Some until\<rparr>"

text \<open>The handshake once the connection is admitted; \<open>t\<close> is the time it ends.\<close>

definition after_admission ::
  "(bytes \<Rightarrow> bytes) \<Rightarrow> chan_config \<Rightarrow> tls_outcome \<Rightarrow> int \<Rightarrow> admission option \<Rightarrow> gate \<Rightarrow> (chan_error + conn) \<times> gate" where
  "after_admission sha cfg tls t adm g =
     (case (if \<not> tl_ok tls then Inl HandshakeFailed else VerifyConnection sha cfg (tl_alpn tls) (tl_cert tls)) of
        Inl e \<Rightarrow>
          (Inl e, case adm of None \<Rightarrow> g | Some a \<Rightarrow> (case Charge t a g of (a1, g1) \<Rightarrow> snd (Release a1 g1)))
      | Inr (fp, Unauth) \<Rightarrow>
          (case (case adm of None \<Rightarrow> (None, g) | Some a \<Rightarrow> (case Charge t a g of (a1, g1) \<Rightarrow> (Some a1, g1))) of
             (adm1, g1) \<Rightarrow>
               (Inr (unauth_conn fp (t + UnauthTimeout) adm1), g1))
      | Inr (fp, Auth) \<Rightarrow>
          (case releaseGate (new_conn fp Auth adm) (case adm of None \<Rightarrow> g | Some a \<Rightarrow> Authenticated t a g) of
             (c, g1) \<Rightarrow> (Inr c, g1)))"

definition handshake ::
  "(bytes \<Rightarrow> bytes) \<Rightarrow> chan_config \<Rightarrow> bool \<Rightarrow> bool \<Rightarrow> string \<Rightarrow> tls_outcome \<Rightarrow> int \<Rightarrow> int \<Rightarrow> gate \<Rightarrow>
   (chan_error + conn) \<times> gate" where
  "handshake sha cfg server gated addr tls t0 t g =
     (if \<not> cf_Identity cfg then (Inl NoIdentity, g)
      else if server \<and> gated
      then (case Admit addr t0 g of
              (Inl e, g1) \<Rightarrow> (Inl (GateRefused e), g1)
            | (Inr a, g1) \<Rightarrow> after_admission sha cfg tls t (Some a) g1)
      else after_admission sha cfg tls t None g)"

section \<open>The life of a connection\<close>

text \<open>What its users do with a connection, time going forward: \<open>cs_total\<close> is what it has taken from the
  network while not authenticated.\<close>

record chan_sys =
  cs_conn :: conn
  cs_gate :: gate
  cs_now :: int
  cs_total :: nat

inductive chan_step :: "chan_sys \<Rightarrow> chan_sys \<Rightarrow> bool" where
  tick: "cs_now x \<le> t \<Longrightarrow> chan_step x (x\<lparr>cs_now := t\<rparr>)"
| deadline: "chan_step x (x\<lparr>cs_conn := SetDeadline t (cs_conn x)\<rparr>)"
| read_deadline: "chan_step x (x\<lparr>cs_conn := SetReadDeadline t (cs_conn x)\<rparr>)"
| write_deadline: "chan_step x (x\<lparr>cs_conn := SetWriteDeadline t (cs_conn x)\<rparr>)"
| await: "chan_step x (x\<lparr>cs_conn := AwaitPerson (cs_now x) d (cs_conn x)\<rparr>)"
| unread: "chan_step x (x\<lparr>cs_conn := Unread p (cs_conn x)\<rparr>)"
| read: "ReadConn n net (cs_conn x) (cs_gate x) = (r, got, c, g) \<Longrightarrow>
    chan_step x (x\<lparr>cs_conn := c, cs_gate := g,
      cs_total := cs_total x + (if cn_state (cs_conn x) = Unauth then length got else 0)\<rparr>)"
| close: "CloseConn (cs_conn x) (cs_gate x) = (c, g) \<Longrightarrow> chan_step x (x\<lparr>cs_conn := c, cs_gate := g\<rparr>)"
| authenticate: "Authenticate (cs_now x) (cs_conn x) (cs_gate x) = (c, g) \<Longrightarrow>
    chan_step x (x\<lparr>cs_conn := c, cs_gate := g\<rparr>)"
| gate: "chan_step x (x\<lparr>cs_gate := g\<rparr>)"

definition chan_inv :: "chan_sys \<Rightarrow> bool" where
  "chan_inv x \<longleftrightarrow>
     cs_total x \<le> UnauthReadLimit \<and>
     (cn_state (cs_conn x) = Unauth \<longrightarrow>
        cs_total x = cn_unauthRead (cs_conn x) \<and>
        (\<exists>u r w. cn_unauthUntil (cs_conn x) = Some u \<and> u \<le> cs_now x + (UnauthPersonWait + UnauthTimeout) \<and>
           cn_readDl (cs_conn x) = Some r \<and> r \<le> u \<and> cn_writeDl (cs_conn x) = Some w \<and> w \<le> u))"

lemma boundLocked_bound:
  "cn_state c = Unauth \<Longrightarrow> cn_unauthUntil c = Some u \<Longrightarrow> \<exists>v. boundLocked c t = Some v \<and> v \<le> u"
  by (auto simp: boundLocked_def split: option.splits)

lemma releaseGate_frame:
  "releaseGate c g = (c', g') \<Longrightarrow> \<exists>a. c' = c\<lparr>cn_adm := a\<rparr>"
  by (cases c) (auto simp: releaseGate_def split: option.splits prod.splits)

lemma ReadConn_cases:
  assumes "ReadConn n net c g = (r, got, c', g')"
  shows "(c' = c\<lparr>cn_pending := drop n (cn_pending c)\<rparr> \<and> got = []) \<or> ((\<exists>g1. CloseConn c g = (c', g1)) \<and> got = []) \<or>
    (cn_state c = Unauth \<and> c' = c\<lparr>cn_unauthRead := cn_unauthRead c + length got\<rparr> \<and>
       length got \<le> UnauthReadLimit - cn_unauthRead c \<and> cn_unauthRead c < UnauthReadLimit) \<or>
    (cn_state c \<noteq> Unauth \<and> c' = c)"
proof (cases "cn_pending c \<noteq> []")
  case True
  then show ?thesis using assms by (simp add: ReadConn_def)
next
  case False
  show ?thesis
  proof (cases "cn_state c = Unauth")
    case True
    obtain c1 g1 where "CloseConn c g = (c1, g1)" by (metis prod.exhaust)
    then show ?thesis using assms False True
      by (cases "UnauthReadLimit \<le> cn_unauthRead c") (auto simp: ReadConn_def Let_def)
  next
    case auth: False
    then show ?thesis using assms False by (simp add: ReadConn_def Let_def)
  qed
qed

lemma chan_step_keeps:
  assumes "chan_inv x" "chan_step x y"
  shows "chan_inv y"
  using assms(2,1)
proof (induction rule: chan_step.induct)
  case (tick x t)
  then show ?case by (auto simp: chan_inv_def)
next
  case (deadline x t)
  then show ?case using boundLocked_bound [of "cs_conn x" _ t] by (auto simp: chan_inv_def SetDeadline_def)
next
  case (read_deadline x t)
  then show ?case using boundLocked_bound [of "cs_conn x" _ t] by (auto simp: chan_inv_def SetReadDeadline_def)
next
  case (write_deadline x t)
  then show ?case using boundLocked_bound [of "cs_conn x" _ t] by (auto simp: chan_inv_def SetWriteDeadline_def)
next
  case (await x d)
  let ?c = "AwaitPerson (cs_now x) d (cs_conn x)"
  show ?case
  proof (cases "cn_state (cs_conn x) = Unauth")
    case False
    then have "?c = cs_conn x" by (simp add: AwaitPerson_def)
    then show ?thesis using await by simp
  next
    case True
    then obtain u where u: "cn_unauthUntil (cs_conn x) = Some u" "u \<le> cs_now x + (UnauthPersonWait + UnauthTimeout)"
      using await by (auto simp: chan_inv_def)
    define v where "v = max u (cs_now x + (min d UnauthPersonWait + UnauthTimeout))"
    define c1 where "c1 = (cs_conn x)\<lparr>cn_unauthUntil := Some v\<rparr>"
    have "(case cn_unauthUntil (cs_conn x) of
        Some u \<Rightarrow> if cs_now x + (min d UnauthPersonWait + UnauthTimeout) > u
          then (cs_conn x)\<lparr>cn_unauthUntil := Some (cs_now x + (min d UnauthPersonWait + UnauthTimeout))\<rparr> else cs_conn x
      | None \<Rightarrow> (cs_conn x)\<lparr>cn_unauthUntil := Some (cs_now x + (min d UnauthPersonWait + UnauthTimeout))\<rparr>) = c1"
      unfolding c1_def v_def u(1) option.case using u(1) by (cases "cs_conn x") (simp add: max_def)
    then have c: "?c = c1\<lparr>cn_readDl := boundLocked c1 (cn_readAt c1), cn_writeDl := boundLocked c1 (cn_writeAt c1)\<rparr>"
      using True by (simp add: AwaitPerson_def Let_def)
    have v: "v \<le> cs_now x + (UnauthPersonWait + UnauthTimeout)" using u(2) by (simp add: v_def)
    have b: "\<exists>w. boundLocked c1 t = Some w \<and> w \<le> v" for t
      using boundLocked_bound [of c1 v t] True by (simp add: c1_def)
    obtain r w where rw: "boundLocked c1 (cn_readAt c1) = Some r" "r \<le> v" "boundLocked c1 (cn_writeAt c1) = Some w" "w \<le> v"
      using b by blast
    have "cn_state ?c = Unauth" "cn_unauthUntil ?c = Some v" "cn_readDl ?c = Some r" "cn_writeDl ?c = Some w"
      "cn_unauthRead ?c = cn_unauthRead (cs_conn x)"
      unfolding c rw(1,3) using True by (simp_all add: c1_def)
    then show ?thesis using await True v rw(2,4) by (simp add: chan_inv_def)
  qed
next
  case (unread x p)
  then show ?case by (auto simp: chan_inv_def Unread_def)
next
  case (read n net x r got c g)
  let ?c = "cs_conn x"
  consider (pending) "c = ?c\<lparr>cn_pending := drop n (cn_pending ?c)\<rparr>" "got = []"
    | (limit) g' where "CloseConn ?c (cs_gate x) = (c, g')" "got = []"
    | (unauth) "cn_state ?c = Unauth" "c = ?c\<lparr>cn_unauthRead := cn_unauthRead ?c + length got\<rparr>"
        "length got \<le> UnauthReadLimit - cn_unauthRead ?c" "cn_unauthRead ?c < UnauthReadLimit"
    | (auth) "cn_state ?c \<noteq> Unauth" "c = ?c"
    using ReadConn_cases [OF read.hyps] by blast
  then show ?case
  proof cases
    case limit
    then obtain a where "c = ?c\<lparr>cn_adm := a, cn_closed := True\<rparr>"
      using releaseGate_frame by (force simp: CloseConn_def split: prod.splits)
    then show ?thesis using read.prems limit by (auto simp: chan_inv_def)
  qed (use read.prems in \<open>auto simp: chan_inv_def\<close>)
next
  case (close x c g)
  then obtain a where "c = (cs_conn x)\<lparr>cn_adm := a, cn_closed := True\<rparr>"
    using releaseGate_frame by (force simp: CloseConn_def split: prod.splits)
  then show ?case using close.prems by (auto simp: chan_inv_def)
next
  case (authenticate x c g)
  then have "cn_state c = Auth" using releaseGate_frame by (force simp: Authenticate_def Let_def split: if_splits)
  then show ?case using authenticate.prems by (auto simp: chan_inv_def)
next
  case (gate x g)
  then show ?case by (auto simp: chan_inv_def)
qed


interpretation chan: step_invariant chan_step chan_inv
  by unfold_locales (rule chan_step_keeps)

section \<open>The properties\<close>

definition trusted_key :: "chan_config \<Rightarrow> fingerprint \<Rightarrow> bool" where
  "trusted_key cfg fp \<longleftrightarrow> (\<exists>ts. cf_Trust cfg = Some ts \<and> Contains ts fp) \<or> (\<exists>f. cf_Known cfg = Some f \<and> f fp)"

lemma VerifyConnection_exact:
  "VerifyConnection sha cfg alpn cert = Inr (fp, st) \<longleftrightarrow>
     alpn = ALPN \<and> (\<exists>spki. cert = Some spki \<and> fp = FingerprintOf sha spki) \<and>
     (if \<not> FP_IsZero (cf_Expected cfg) then fp = cf_Expected cfg \<and> st = Auth
      else if trusted_key cfg fp then st = Auth else cf_AllowUnknown cfg \<and> st = Unauth)"
  unfolding VerifyConnection_def trusted_key_def Let_def by (auto split: option.splits)

lemma unauth_conn_simps [simp]:
  "cn_unauthUntil (unauth_conn fp u a) = Some u" "cn_readDl (unauth_conn fp u a) = Some u" "cn_writeDl (unauth_conn fp u a) = Some u"
  "cn_unauthRead (unauth_conn fp u a) = 0" "cn_peer (unauth_conn fp u a) = fp" "cn_state (unauth_conn fp u a) = Unauth"
  "cn_adm (unauth_conn fp u a) = a"
  by (simp_all add: unauth_conn_def new_conn_def)

lemma after_admission_conn:
  assumes "after_admission sha cfg tls t adm g = (Inr c, g')"
  shows "tl_ok tls \<and> VerifyConnection sha cfg (tl_alpn tls) (tl_cert tls) = Inr (cn_peer c, cn_state c)"
proof -
  have "cn_peer c = fp \<and> cn_state c = st" if "releaseGate (new_conn fp st a) g1 = (c, g2)" for fp st a g1 g2
    using releaseGate_frame [OF that] by (auto simp: new_conn_def)
  then show ?thesis using assms
    by (auto simp: after_admission_def new_conn_def split: if_splits sum.splits prod.splits chan_state.splits)
qed

text \<open>C8. A channel exists only with a peer that has shown its key, and it is authenticated exactly when
  that key is the expected one, or, none being expected, a trusted one or the peer of a transfer. A key
  that is none of these gives a channel only where pairing allows it, and it is not authenticated then;
  with an expected key nothing else is accepted.\<close>

theorem channel_accepts:
  assumes "handshake sha cfg server gated addr tls t0 t g = (Inr c, g')"
  shows "tl_ok tls \<and> tl_alpn tls = ALPN \<and> (\<exists>spki. tl_cert tls = Some spki \<and> cn_peer c = FingerprintOf sha spki) \<and>
    (cn_state c = Auth \<longleftrightarrow>
       (if FP_IsZero (cf_Expected cfg) then trusted_key cfg (cn_peer c) else cn_peer c = cf_Expected cfg)) \<and>
    (cn_state c = Unauth \<longrightarrow> FP_IsZero (cf_Expected cfg) \<and> cf_AllowUnknown cfg)"
proof -
  obtain adm g1 where "after_admission sha cfg tls t adm g1 = (Inr c, g')"
    using assms by (auto simp: handshake_def split: if_splits sum.splits prod.splits)
  from after_admission_conn [OF this] show ?thesis unfolding VerifyConnection_exact by (auto split: if_splits)
qed



text \<open>The places of the gate along a connection.\<close>

lemma Admit_place:
  assumes "Admit addr t g = (r, g1)"
  shows "(case r of Inl e \<Rightarrow> g_active g1 = g_active g
     | Inr a \<Rightarrow> g_active g1 = g_active g + 1 \<and> \<not> a_released a \<and> \<not> a_charged a)"
proof -
  from Admit_cases [OF assms] obtain q g0 where q: "quotaLocked (addr_ip addr) t (sweepLocked t g) = (q, g0)"
    and m: "admits (addr_ip addr) q g0 g1 r" by blast
  show ?thesis using m quotaLocked_frame(1) [OF q] sweepLocked_frame(1) [of t g]
    by (auto simp: admits_def split: sum.splits)
qed

lemma endHandshake_place:
  "endHandshakeLocked a g = (a', g') \<Longrightarrow> g_active g' = g_active g \<and> a_released a' = a_released a"
  by (auto simp: endHandshakeLocked_def Let_def split: if_splits)

lemma Charge_place: "Charge t a g = (a', g') \<Longrightarrow> g_active g' = g_active g \<and> a_released a' = a_released a"
  using endHandshake_place by (fastforce simp: Charge_def recentLocked_def Let_def split: if_splits prod.splits)

lemma Release_place:
  "Release a g = (a', g') \<Longrightarrow> g_active g' = g_active g - of_bool (\<not> a_released a) \<and> a_released a'"
  using endHandshake_place by (fastforce simp: Release_def split: if_splits)

lemma releaseGate_place:
  assumes "releaseGate c g = (c', g')" "cn_adm c = Some a"
  shows "g_active g' = g_active g - of_bool (\<not> a_released a)" "\<exists>a'. cn_adm c' = Some a' \<and> a_released a'"
    "releaseGate c' g' = (c', g')"
proof -
  obtain a' where r: "Release a g = (a', g')" "c' = c\<lparr>cn_adm := Some a'\<rparr>"
    using assms by (auto simp: releaseGate_def split: prod.splits)
  note R = Release_place [OF r(1)]
  show "g_active g' = g_active g - of_bool (\<not> a_released a)" "\<exists>a'. cn_adm c' = Some a' \<and> a_released a'"
    using R r(2) by simp_all
  show "releaseGate c' g' = (c', g')" using R r(2) by (simp add: releaseGate_def Release_def)
qed


section \<open>An example\<close>

text \<open>A stranger's connection, from the address of the gate's example, where pairing is allowed.\<close>

definition ex_cfg :: chan_config where
  "ex_cfg = \<lparr>cf_Identity = True, cf_Trust = None, cf_Known = None, cf_Expected = replicate 32 0, cf_AllowUnknown = True,
     cf_HandshakeTimeout = 0\<rparr>"

definition ex_tls :: tls_outcome where "ex_tls = \<lparr>tl_ok = True, tl_alpn = ALPN, tl_cert = Some [1, 2]\<rparr>"

definition ex_key :: "bytes \<Rightarrow> bytes" where "ex_key b = replicate 32 9"

lemma ex_stranger: "VerifyConnection ex_key ex_cfg (tl_alpn ex_tls) (tl_cert ex_tls) = Inr (FingerprintOf ex_key [1, 2], Unauth)"
  unfolding VerifyConnection_exact by (simp add: ex_cfg_def ex_tls_def FP_IsZero_def fpLen_def trusted_key_def)

lemma ex_handshake: "\<exists>c g1. handshake ex_key ex_cfg True True ''10.0.0.7:4000'' ex_tls 0 1 NewGate = (Inr c, g1) \<and> cn_state c = Unauth"
proof -
  obtain a g where a: "Admit ''10.0.0.7:4000'' 0 NewGate = (Inr a, g)" using ex_admit by blast
  obtain a1 g1 where c: "Charge 1 a g = (a1, g1)" by (metis prod.exhaust)
  show ?thesis using ex_stranger by (simp add: handshake_def a after_admission_def c) (simp add: ex_cfg_def ex_tls_def)
qed

theorem channel_accepts_witness:
  "\<exists>c g1. handshake ex_key ex_cfg True True ''10.0.0.7:4000'' ex_tls 0 1 NewGate = (Inr c, g1) \<and>
     cn_peer c = FingerprintOf ex_key [1, 2] \<and> cn_state c \<noteq> Auth"
proof -
  obtain c g1 where c: "handshake ex_key ex_cfg True True ''10.0.0.7:4000'' ex_tls 0 1 NewGate = (Inr c, g1)"
    using ex_handshake by blast
  from channel_accepts [OF c] show ?thesis using c
    by (auto simp: ex_tls_def ex_cfg_def trusted_key_def FP_IsZero_def fpLen_def)
qed



end
