(* ===== verification/RecvPlan.thy ===== *)
theory RecvPlan
  imports Place Offer Batches
begin

text \<open>
  What a receiver decides before it asks for anything (\<^verbatim>\<open>pkg/transfer/receiver.go\<close>): the number of
  connections, the root folder of the transfer, where each item goes and its storage parameters.
  \<^verbatim>\<open>env\<close> holds the functions of the platform the code relies on: SHA-256, Unicode's case mappings
  outside ASCII, the system's name, whether it can sync a whole file system, and the size it
  gives for a folder.
\<close>

section \<open>Settings\<close>

record env =
  e_sha :: "bytes \<Rightarrow> bytes"
  e_uni :: "string \<Rightarrow> string"
  e_upp :: "string \<Rightarrow> string"
  e_goos :: string
  e_syncfs :: bool
  e_dirsize :: int

datatype sink = SinkDisk | SinkNull

definition DefaultWorkers :: int where "DefaultWorkers = 4"
definition MaxWorkers :: int where "MaxWorkers = 8"
definition maxInFlight :: nat where "maxInFlight = 2"
definition maxChunkAttempts :: nat where "maxChunkAttempts = 3"
definition maxReconnects :: nat where "maxReconnects = 16"
definition SmallFileWorkers :: int where "SmallFileWorkers = MaxWorkers"
definition batchFiles :: nat where "batchFiles = 256"
definition batchBytes :: int where "batchBytes = DefaultCommitBytes"

definition smallFiles :: "offer \<Rightarrow> bool" where
  "smallFiles off \<longleftrightarrow> length (o_Items off) \<ge> 16 \<and> o_TotalBytes off \<le> int (length (o_Items off)) * 2 ^ 20"

definition chooseWorkers :: "int \<Rightarrow> offer \<Rightarrow> int" where
  "chooseWorkers n off =
     (if n < 1 \<and> smallFiles off then SmallFileWorkers
      else if n < 1 then DefaultWorkers
      else if n > MaxWorkers then MaxWorkers
      else n)"

lemma chooseWorkers_bounds: "1 \<le> chooseWorkers n off \<and> chooseWorkers n off \<le> MaxWorkers"
  by (simp add: chooseWorkers_def MaxWorkers_def SmallFileWorkers_def DefaultWorkers_def)

record receiver =
  r_OutDir :: string
  r_Workers :: int
  r_Policy :: policy
  r_SenderKey :: bytes
  r_VerifyFull :: bool
  r_ReconnectWindow :: int
  r_Sink :: sink
  r_NoSync :: bool

section \<open>The root folder\<close>

definition rootName :: "env \<Rightarrow> string \<Rightarrow> string" where
  "rootName e proposed =
     (case SafeRelPath (e_upp e) (e_goos e) proposed of
        Inr safe \<Rightarrow> if CHR ''/'' \<notin> set safe then safe else ''medXfer''
      | Inl _ \<Rightarrow> ''medXfer'')"

text \<open>The folder all the items are in, empty if there is none: the loop of \<^verbatim>\<open>planRoot\<close>.\<close>

fun common_top :: "bool \<Rightarrow> string \<Rightarrow> offer_item list \<Rightarrow> string" where
  "common_top fst_one t [] = t"
| "common_top fst_one t (it # its) =
     (let p = to_slash (it_Path it) in
      case IndexByte p CHR ''/'' of
        None \<Rightarrow> []
      | Some j \<Rightarrow> if j = 0 \<or> (\<not> fst_one \<and> take j p \<noteq> t) then [] else common_top False (take j p) its)"

record root_plan =
  rt_inRoot :: bool
  rt_Base :: string
  rt_strip :: string
  rt_Key :: bytes

definition planRoot :: "env \<Rightarrow> receiver \<Rightarrow> offer \<Rightarrow> root_plan" where
  "planRoot e r off =
     (let its = o_Items off in
      if length its = 1 \<and> CHR ''/'' \<notin> set (it_Path (hd its)) \<and> backslash \<notin> set (it_Path (hd its))
      then \<lparr>rt_inRoot = False, rt_Base = [], rt_strip = [], rt_Key = replicate 32 0\<rparr>
      else
        let t = common_top True [] its;
            (base, strip) = (if t \<noteq> [] \<and> rootName e t = t then (t, t @ ''/'') else (rootName e (o_Root off), []))
        in \<lparr>rt_inRoot = True, rt_Base = base, rt_strip = strip,
            rt_Key = RootKey (e_sha e) (r_SenderKey r) base (int (length its)) (o_TotalBytes off)\<rparr>)"

definition findRoot :: "env \<Rightarrow> receiver \<Rightarrow> offer \<Rightarrow> os \<Rightarrow> (place_error + root_place) \<times> os" where
  "findRoot e r off s =
     (let pl = planRoot e r off in
      if \<not> rt_inRoot pl then (Inr \<lparr>rp_Name = [], rp_Resume = False, rp_Skip = False\<rparr>, s)
      else ResolveRoot s (rt_Base pl) (rt_Key pl) (r_Policy r))"

definition item_policy :: "receiver \<Rightarrow> root_plan \<Rightarrow> policy" where
  "item_policy r pl = (if rt_inRoot pl then PolicySkip else r_Policy r)"

definition TrimPrefix :: "string \<Rightarrow> string \<Rightarrow> string" where
  "TrimPrefix s p = (if prefix p s then drop (length p) s else s)"

definition itemName :: "root_plan \<Rightarrow> string \<Rightarrow> string \<Rightarrow> string" where
  "itemName pl rootDir safe =
     (if \<not> rt_inRoot pl then safe else rootDir @ ''/'' @ TrimPrefix safe (rt_strip pl))"

definition item_params :: "env \<Rightarrow> receiver \<Rightarrow> root_plan \<Rightarrow> 32 word \<Rightarrow> offer_item \<Rightarrow> bool \<Rightarrow> params" where
  "item_params e r pl chunks it overwrite =
     \<lparr>p_Key = ResumeKey (e_sha e) (r_SenderKey r) (it_Path it) (it_Size it) (it_MTime it),
      p_Size = it_Size it, p_ChunkSize = chunks, p_CommitBytes = 0, p_CommitInterval = 0,
      p_VerifyFull = r_VerifyFull r, p_NoSync = r_NoSync r, p_Overwrite = overwrite, p_Owned = rt_inRoot pl\<rparr>"

section \<open>Room on the disk\<close>

text \<open>\<^verbatim>\<open>pkg/transfer/space.go\<close>. \<open>outdir\<close> says what \<^verbatim>\<open>os.Stat\<close> and \<^verbatim>\<open>os.OpenRoot\<close> found of the
  destination: the disk below it, or \<open>None\<close>; \<open>free\<close> is the answer of \<^verbatim>\<open>engine.FreeSpace\<close>.\<close>

definition spaceMargin :: int where "spaceMargin = 67108864"

record space =
  sp_Free :: int
  sp_Need :: int

definition Enough :: "space \<Rightarrow> bool" where
  "Enough sp \<longleftrightarrow> sp_Free sp < 0 \<or> sp_Free sp \<ge> sp_Need sp"

definition file_size :: "env \<Rightarrow> os \<Rightarrow> string \<Rightarrow> int option \<times> os" where
  "file_size e s n =
     (case Stat s n of
        (Inl _, s1) \<Rightarrow> (None, s1)
      | (Inr isdir, s1) \<Rightarrow> (if isdir then Some (e_dirsize e) else map_option (\<lambda>nd. int (length (fn_data nd))) (os_files s1 n), s1))"

definition leftOf :: "env \<Rightarrow> receiver \<Rightarrow> offer \<Rightarrow> string \<Rightarrow> os \<Rightarrow> offer_item \<Rightarrow> int \<times> os" where
  "leftOf e r off rootDir s it =
     (let pl = planRoot e r off in
      case SafeRelPath (e_upp e) (e_goos e) (it_Path it) of
        Inl _ \<Rightarrow> (it_Size it, s)
      | Inr safe \<Rightarrow>
          (case Resolve (e_uni e) s (itemName pl rootDir safe) (item_params e r pl (o_ChunkSize off) it False) (item_policy r pl) of
             (Inl _, s1) \<Rightarrow> (it_Size it, s1)
           | (Inr p, s1) \<Rightarrow>
               if pl_Done p then (0, s1)
               else if pl_Resume p
               then (case file_size e s1 (pl_Name p @ PartSuffix) of
                       (Some n, s2) \<Rightarrow> (it_Size it - min n (it_Size it), s2)
                     | (None, s2) \<Rightarrow> (it_Size it, s2))
               else (it_Size it, s1)))"

fun left_items :: "env \<Rightarrow> receiver \<Rightarrow> offer \<Rightarrow> string \<Rightarrow> os \<Rightarrow> offer_item list \<Rightarrow> int \<times> os" where
  "left_items e r off rootDir s [] = (0, s)"
| "left_items e r off rootDir s (it # its) =
     (case leftOf e r off rootDir s it of
        (n, s1) \<Rightarrow> (case left_items e r off rootDir s1 its of (m, s2) \<Rightarrow> (wrap64 (n + m), s2)))"

definition left_bytes :: "env \<Rightarrow> receiver \<Rightarrow> offer \<Rightarrow> os option \<Rightarrow> int" where
  "left_bytes e r off outdir =
     (case outdir of
        None \<Rightarrow> o_TotalBytes off
      | Some s \<Rightarrow>
          (case findRoot e r off s of
             (Inl _, s1) \<Rightarrow> o_TotalBytes off
           | (Inr place, s1) \<Rightarrow>
               if rp_Skip place then 0
               else if rt_inRoot (planRoot e r off) \<and> \<not> rp_Resume place then o_TotalBytes off
               else fst (left_items e r off (rp_Name place) s1 (o_Items off))))"

definition CheckSpace :: "env \<Rightarrow> receiver \<Rightarrow> offer \<Rightarrow> os option \<Rightarrow> int option \<Rightarrow> offer_error + space" where
  "CheckSpace e r off outdir free =
     bind_res (Validate (e_uni e) off) (\<lambda>_.
       if r_Sink r = SinkNull then Inr \<lparr>sp_Free = -1, sp_Need = 0\<rparr>
       else
         let left = left_bytes e r off outdir;
             need = (if left > 0 then wrap64 (left + max (o_TotalBytes off sdiv 100) spaceMargin) else 0)
         in Inr \<lparr>sp_Free = (case free of Some n \<Rightarrow> n | None \<Rightarrow> -1), sp_Need = need\<rparr>)"

section \<open>Where the items go\<close>

lemma rootName_plain: "plain_part (rootName e x) \<and> backslash \<notin> set (rootName e x)"
proof (cases "SafeRelPath (e_upp e) (e_goos e) x")
  case (Inl err)
  then show ?thesis by (simp add: rootName_def plain_part_def backslash_def)
next
  case (Inr p)
  then have "clean_rel p" unfolding SafeRelPath_def by (rule safe_clean_rel)
  then show ?thesis using Inr
    by (auto simp: rootName_def clean_rel_def split_on_id plain_part_def backslash_def)
qed

lemma rt_Base_plain:
  assumes "rt_inRoot (planRoot e r off)"
  shows "plain_part (rt_Base (planRoot e r off))" "backslash \<notin> set (rt_Base (planRoot e r off))"
proof -
  let ?t = "common_top True [] (o_Items off)"
  have "rt_Base (planRoot e r off) = rootName e ?t \<or> rt_Base (planRoot e r off) = rootName e (o_Root off)"
    using assms by (auto simp: planRoot_def Let_def split: if_splits)
  then show "plain_part (rt_Base (planRoot e r off))" "backslash \<notin> set (rt_Base (planRoot e r off))"
    using rootName_plain by metis+
qed

lemma findRoot_clean:
  assumes "findRoot e r off s = (Inr place, s')" "rt_inRoot (planRoot e r off)"
  shows "plain_part (rp_Name place) \<and> backslash \<notin> set (rp_Name place)"
proof -
  note b = rt_Base_plain [OF assms(2)]
  have "resolve_root [0..<maxCandidates] s (rt_Base (planRoot e r off)) (rt_Key (planRoot e r off)) (r_Policy r) = (Inr place, s')"
    using assms b by (auto simp: findRoot_def ResolveRoot_def Let_def split: if_splits)
  then have "root_ok s (rt_Base (planRoot e r off)) (rt_Key (planRoot e r off)) (r_Policy r) place"
    using resolve_root_ok b(1) by (fastforce simp: plain_part_def)
  then obtain n where "rp_Name place = FormatCandidateName [] (rt_Base (planRoot e r off)) n []" by (auto simp: root_ok_def)
  then have "rp_Name place = candidate_name (rt_Base (planRoot e r off)) n []"
    by (simp add: FormatCandidateName_def candidate_name_def)
  then show ?thesis using candidate_name_plain [of "rt_Base (planRoot e r off)" "[]" n] b by simp
qed

lemma common_top_prefix:
  assumes "common_top fst_one t its = t'" "t' \<noteq> []" "it \<in> set its" "fst_one \<or> t \<noteq> []"
  shows "prefix (t' @ ''/'') (to_slash (it_Path it)) \<and> (\<not> fst_one \<longrightarrow> t' = t)"
  using assms
proof (induction fst_one t its arbitrary: it rule: common_top.induct)
  case (2 fst_one t it0 its)
  let ?p = "to_slash (it_Path it0)"
  obtain j where j: "IndexByte ?p CHR ''/'' = Some j" "j \<noteq> 0" "fst_one \<or> take j ?p = t"
    "common_top False (take j ?p) its = t'"
    using 2(2,3) by (auto simp: Let_def split: option.splits if_splits)
  note J = IndexByte_Some [OF j(1)]
  have tj: "take j ?p \<noteq> []" using j(2) J by auto
  have same: "t' = take j ?p"
  proof (cases its)
    case Nil then show ?thesis using j(4) by simp
  next
    case (Cons x xs)
    then show ?thesis using 2(1) [OF refl j(1) _ j(4) 2(3), of x] j tj by simp
  qed
  have "?p = take j ?p @ CHR ''/'' # drop (Suc j) ?p" using J id_take_nth_drop [of j ?p] by simp
  then have me: "prefix (t' @ ''/'') ?p" unfolding same prefix_def by (metis append_Cons append_Nil append_assoc)
  show ?case
  proof (cases "it = it0")
    case True
    then show ?thesis using me same j(3) by auto
  next
    case False
    then have "prefix (t' @ ''/'') (to_slash (it_Path it))"
      using 2(1) [OF refl j(1) _ j(4) 2(3)] 2(4) j tj by auto
    then show ?thesis using same j(3) by auto
  qed
qed simp

lemma strip_prefix:
  assumes "rt_inRoot (planRoot e r off)" "it \<in> set (o_Items off)" "SafeRelPath upp goos (it_Path it) = Inr p"
  shows "prefix (rt_strip (planRoot e r off)) p" "rt_strip (planRoot e r off) \<noteq> p"
proof -
  let ?t = "common_top True [] (o_Items off)"
  have p: "p = to_slash (it_Path it)" "clean_rel p"
    using assms(3) safe_clean_rel by (auto simp: SafeRelPath_def safeRelPath_Inr)
  have st: "rt_strip (planRoot e r off) = [] \<or> (?t \<noteq> [] \<and> rt_strip (planRoot e r off) = ?t @ ''/'')"
    using assms(1) by (auto simp: planRoot_def Let_def split: if_splits)
  have "p \<noteq> ?t @ ''/''"
  proof
    assume "p = ?t @ ''/''"
    then have "split_on CHR ''/'' p = split_on CHR ''/'' ?t @ [[]]" using split_on_app [of "CHR ''/''" ?t "[]"] by simp
    then show False using p(2) by (auto simp: clean_rel_def plain_part_def)
  qed
  then have "prefix (rt_strip (planRoot e r off)) p \<and> rt_strip (planRoot e r off) \<noteq> p"
    using st common_top_prefix [OF refl _ assms(2), of True "[]"] clean_rel_not_Nil [OF p(2)] unfolding p(1) by auto
  then show "prefix (rt_strip (planRoot e r off)) p" "rt_strip (planRoot e r off) \<noteq> p"
    by simp_all
qed

text \<open>What \<^verbatim>\<open>strings.ToLower\<close> does, as documented: it maps a string rune by rune, so it maps the two
  sides of a slash apart.\<close>

definition lower_by_rune :: "(string \<Rightarrow> string) \<Rightarrow> bool" where
  "lower_by_rune uni \<longleftrightarrow> (\<forall>a b. ToLower uni (a @ CHR ''/'' # b) = ToLower uni a @ CHR ''/'' # ToLower uni b) \<and>
     (\<forall>a. (ToLower uni a = []) = (a = []))"

lemma valid_paths:
  assumes "Validate uni off = Inr ()" "i < length (o_Items off)" "j < length (o_Items off)" "i \<noteq> j" "lower_by_rune uni"
    and "SafeRelPath upp goos (it_Path (o_Items off ! i)) = Inr p" "SafeRelPath upp goos (it_Path (o_Items off ! j)) = Inr q"
  shows "p \<noteq> q" "\<not> folder_of p q"
proof -
  let ?k = "\<lambda>n. path_key uni (it_Path (o_Items off ! n))"
  have v: "distinct (keys uni (o_Items off))" "\<not> folder_of (?k i) (?k j)"
    using assms(1-3) by (simp_all add: Validate_Inr valid_offer_def Let_def)
  have k: "?k i = ToLower uni p" "?k j = ToLower uni q"
    using assms(6,7) by (simp_all add: SafeRelPath_def safeRelPath_Inr path_key_def)
  have "?k i \<noteq> ?k j" using v(1) assms(2-4) by (auto simp: distinct_conv_nth)
  then show "p \<noteq> q" using k by auto
  show "\<not> folder_of p q"
  proof
    assume "folder_of p q"
    then obtain c where "p \<noteq> []" "q = p @ CHR ''/'' # c" by (auto simp: folder_of_def)
    then have "folder_of (?k i) (?k j)" using assms(5) k unfolding lower_by_rune_def folder_of_def by metis
    then show False using v(2) by simp
  qed
qed

lemma trim_clean:
  assumes "clean_rel p" "prefix st p" "st \<noteq> p" "st = [] \<or> last st = CHR ''/''"
  shows "clean_rel (drop (length st) p)"
proof (cases "st = []")
  case False
  then obtain a where a: "st = a @ ''/''" using assms(4) by (cases st rule: rev_cases) auto
  obtain c where c: "p = a @ CHR ''/'' # c" using assms(2) a by (auto simp: prefix_def)
  have "set (split_on CHR ''/'' c) \<subseteq> set (split_on CHR ''/'' p)" unfolding c split_on_app by simp
  then show ?thesis using assms(1) a c by (auto simp: clean_rel_def)
qed (use assms(1) in simp)

lemma clean_join:
  assumes "plain_part d" "backslash \<notin> set d" "clean_rel c"
  shows "clean_rel (d @ CHR ''/'' # c)"
  using assms by (auto simp: clean_rel_def split_on_app split_on_id plain_part_def backslash_def)

lemma itemName_parts:
  assumes "rt_inRoot (planRoot e r off)" "it \<in> set (o_Items off)" "SafeRelPath upp goos (it_Path it) = Inr p"
  shows "\<exists>c. p = rt_strip (planRoot e r off) @ c \<and> clean_rel c \<and> itemName (planRoot e r off) d p = d @ CHR ''/'' # c"
proof -
  let ?st = "rt_strip (planRoot e r off)"
  have p: "clean_rel p" using assms(3) safe_clean_rel by (simp add: SafeRelPath_def)
  have l: "?st = [] \<or> last ?st = CHR ''/''" by (auto simp: planRoot_def Let_def)
  have "clean_rel (drop (length ?st) p)" by (rule trim_clean [OF p strip_prefix [OF assms] l])
  then show ?thesis using strip_prefix(1) [OF assms] assms(1)
    by (intro exI [of _ "drop (length ?st) p"]) (auto simp: itemName_def TrimPrefix_def prefix_def)
qed

text \<open>C35. In an offer that is accepted, every item goes to a name of its own: a clean relative path of
  the destination, inside the root folder of the transfer when there is one, and never the name of
  another item nor a folder above it, so no item can overwrite another or escape (STO-10, STO-13).\<close>

theorem items_placed:
  assumes "Validate (e_uni e) off = Inr ()" "lower_by_rune (e_uni e)" "findRoot e r off s = (Inr place, s')"
    and "i < length (o_Items off)" "SafeRelPath (e_upp e) (e_goos e) (it_Path (o_Items off ! i)) = Inr p"
    and "j < length (o_Items off)" "SafeRelPath (e_upp e) (e_goos e) (it_Path (o_Items off ! j)) = Inr q"
  shows "let pl = planRoot e r off; n = itemName pl (rp_Name place) p; m = itemName pl (rp_Name place) q in
    clean_rel n \<and> (rt_inRoot pl \<longrightarrow> prefix (rp_Name place @ ''/'') n) \<and> (i \<noteq> j \<longrightarrow> n \<noteq> m \<and> \<not> folder_of n m)"
proof (cases "rt_inRoot (planRoot e r off)")
  case True
  let ?d = "rp_Name place"
  obtain c where c: "p = rt_strip (planRoot e r off) @ c" "clean_rel c" "itemName (planRoot e r off) ?d p = ?d @ CHR ''/'' # c"
    using itemName_parts [OF True _ assms(5)] assms(4) nth_mem by blast
  obtain c' where c': "q = rt_strip (planRoot e r off) @ c'" "clean_rel c'" "itemName (planRoot e r off) ?d q = ?d @ CHR ''/'' # c'"
    using itemName_parts [OF True _ assms(7)] assms(6) nth_mem by blast
  have n: "clean_rel (?d @ CHR ''/'' # c)" using clean_join findRoot_clean [OF assms(3) True] c(2) by blast
  have "c \<noteq> []" using clean_rel_not_Nil [OF c(2)] .
  then have "c \<noteq> c' \<and> \<not> folder_of (?d @ CHR ''/'' # c) (?d @ CHR ''/'' # c')" if "i \<noteq> j"
    using valid_paths [OF assms(1,4,6) that assms(2,5,7)] c(1) c'(1) by (auto simp: folder_of_def)
  then show ?thesis using n c(3) c'(3) True by (simp add: Let_def prefix_def)
next
  case False
  then have "length (o_Items off) = 1" by (auto simp: planRoot_def Let_def split: if_splits)
  then have "i = j" using assms(4,6) by simp
  moreover have "clean_rel p" using assms(5) safe_clean_rel by (simp add: SafeRelPath_def)
  ultimately show ?thesis using False by (simp add: itemName_def Let_def)
qed

definition ex_env :: env where
  "ex_env = \<lparr>e_sha = (\<lambda>b. replicate 32 0), e_uni = map lower_char, e_upp = map upper_char, e_goos = ''linux'',
     e_syncfs = True, e_dirsize = 4096\<rparr>"

definition ex_recv :: receiver where
  "ex_recv = \<lparr>r_OutDir = ''/home/u/Downloads'', r_Workers = 0, r_Policy = PolicyAutoRename, r_SenderKey = replicate 32 7,
     r_VerifyFull = False, r_ReconnectWindow = 0, r_Sink = SinkDisk, r_NoSync = False\<rparr>"

definition two_files :: "string \<Rightarrow> string \<Rightarrow> offer" where
  "two_files p q = \<lparr>o_TransferID = ''t'', o_Root = ''Photos'',
     o_Items = [\<lparr>it_Item = 0, it_Path = p, it_Size = 3, it_MTime = 0\<rparr>, \<lparr>it_Item = 1, it_Path = q, it_Size = 3, it_MTime = 0\<rparr>],
     o_TotalBytes = 6, o_ChunkSize = 0x40000, o_Kind = [], o_Count = 0\<rparr>"

lemma ex_lower: "lower_by_rune (map lower_char)"
  by (simp add: lower_by_rune_def ToLower_def lower_char_def)

theorem items_placed_witness:
  "itemName (planRoot ex_env ex_recv (two_files ''d/a'' ''d/b'')) ''d'' ''d/a'' = ''d/a'' \<and>
   \<not> folder_of ''d/a'' (''d/b'' :: string)"
proof -
  let ?o = "two_files ''d/a'' ''d/b''"
  have v: "Validate (e_uni ex_env) ?o = Inr ()"
    by (simp add: Validate_def two_files_def ex_env_def offer_limits path_key_def ToLower_def to_slash_def
        ascii_def lower_char_def backslash_def Chunks_def wrap64_def signed_divide_int_def Let_def)
  have s: "SafeRelPath (e_upp ex_env) (e_goos ex_env) (it_Path (o_Items ?o ! 0)) = Inr ''d/a''"
    "SafeRelPath (e_upp ex_env) (e_goos ex_env) (it_Path (o_Items ?o ! 1)) = Inr ''d/b''"
    by (simp_all add: SafeRelPath_def safeRelPath_def ex_env_def two_files_def to_slash_def backslash_def
        maxPathLen_def maxComponentLen_def hasControlChar_def Let_def)
  obtain k where p: "planRoot ex_env ex_recv ?o = \<lparr>rt_inRoot = True, rt_Base = ''d'', rt_strip = ''d/'', rt_Key = k\<rparr>"
    by (simp add: planRoot_def two_files_def to_slash_def backslash_def rootName_def SafeRelPath_def safeRelPath_def ex_env_def
        maxPathLen_def maxComponentLen_def hasControlChar_def Let_def)
  have c: "[0..<maxCandidates] = 0 # [Suc 0..<maxCandidates]" by (rule upt_conv_Cons) (simp add: maxCandidates_def)
  have e: "Lstat empty_os ''d'' = (Inl NotExist, empty_os)"
    by (simp add: Lstat_def anc_error_def ancestors_def empty_os_def pop_def)
  have f: "findRoot ex_env ex_recv ?o empty_os = (Inr \<lparr>rp_Name = ''d'', rp_Resume = False, rp_Skip = False\<rparr>, empty_os)"
    unfolding findRoot_def p ResolveRoot_def c by (simp add: FormatCandidateName_def e)
  have l: "0 < length (o_Items ?o)" "1 < length (o_Items ?o)" by (simp_all add: two_files_def)
  have u: "lower_by_rune (e_uni ex_env)" using ex_lower by (simp add: ex_env_def)
  show ?thesis using items_placed [OF v u f l(1) s(1) l(2) s(2)]
    by (simp add: p itemName_def TrimPrefix_def Let_def)
qed

end
