(* ===== verification/Events.thy ===== *)
theory Events
  imports Prelude
begin

text \<open>
  What a transfer tells its interface (\<^verbatim>\<open>pkg/transfer/events.go\<close>), the figure of a progress bar
  (\<^verbatim>\<open>onBar\<close> of \<^verbatim>\<open>pkg/transfer/receiver.go\<close>) and the counted writes of \<^verbatim>\<open>pkg/transfer/speed.go\<close>.
  Counts are numbers of bytes, far below the range of \<^verbatim>\<open>int64\<close>.
\<close>

section \<open>States of an item\<close>

datatype item_state = ItemPending | ItemStarted | ItemDone | ItemSkipped | ItemFailed

text \<open>The states are numbered in this order (\<^verbatim>\<open>iota\<close>), and compared by their numbers.\<close>

fun state_num :: "item_state \<Rightarrow> nat" where
  "state_num ItemPending = 0"
| "state_num ItemStarted = 1"
| "state_num ItemDone = 2"
| "state_num ItemSkipped = 3"
| "state_num ItemFailed = 4"

lemma state_num_inject [simp]: "state_num a = state_num b \<longleftrightarrow> a = b"
  by (cases a; cases b) simp_all

instantiation item_state :: linorder
begin
definition less_eq_item_state :: "item_state \<Rightarrow> item_state \<Rightarrow> bool" where
  "less_eq_item_state a b \<longleftrightarrow> state_num a \<le> state_num b"
definition less_item_state :: "item_state \<Rightarrow> item_state \<Rightarrow> bool" where
  "less_item_state a b \<longleftrightarrow> state_num a < state_num b"
instance
  by intro_classes (auto simp: less_eq_item_state_def less_item_state_def)
end

lemma ended_states: "ItemDone \<le> st \<longleftrightarrow> st = ItemDone \<or> st = ItemSkipped \<or> st = ItemFailed"
  by (cases st) (simp_all add: less_eq_item_state_def)

fun state_String :: "item_state \<Rightarrow> string" where
  "state_String ItemPending = ''pending''"
| "state_String ItemStarted = ''started''"
| "state_String ItemDone = ''done''"
| "state_String ItemSkipped = ''skipped''"
| "state_String ItemFailed = ''failed''"

section \<open>Items in progress\<close>

record active_item =
  ac_Item :: nat
  ac_Bytes :: int
  ac_Size :: int

definition MaxActive :: nat where "MaxActive = 32"

definition activeOf :: "nat set \<Rightarrow> (nat \<Rightarrow> int \<times> int) \<Rightarrow> active_item list" where
  "activeOf items num =
     map (\<lambda>i. case num i of (got, sz) \<Rightarrow> \<lparr>ac_Item = i, ac_Bytes = min (max got 0) sz, ac_Size = sz\<rparr>)
       (take MaxActive (sorted_list_of_set items))"

section \<open>The bar\<close>

text \<open>\<open>shown\<close> and \<open>seen\<close> are the last figure of the bar and the bytes counted then; the result
  is the new figure, and the two.\<close>

definition onBar :: "int \<times> int \<Rightarrow> int \<Rightarrow> int \<Rightarrow> int \<Rightarrow> int \<times> int \<times> int" where
  "onBar prev counted onTheWay tot =
     (case prev of (shown, seen) \<Rightarrow>
        if tot \<le> 0 \<or> counted \<ge> tot then (counted, counted, counted)
        else
          let v = min (counted + max onTheWay 0) (tot - 1);
              shown' = (if counted < seen then v else max shown v)
          in (shown', shown', counted))"

text \<open>A bar drawn again and again: each time with the bytes counted and on their way then.\<close>

fun bar_run :: "int \<Rightarrow> int \<times> int \<Rightarrow> (int \<times> int) list \<Rightarrow> int list" where
  "bar_run tot prev [] = []"
| "bar_run tot prev ((counted, onTheWay) # obs) =
     (case onBar prev counted onTheWay tot of (fig, prev') \<Rightarrow> fig # bar_run tot prev' obs)"

lemma onBar_figure:
  assumes "onBar (shown, seen) c w tot = (fig, shown', seen')" "0 < tot" "tot \<le> shown \<longrightarrow> tot \<le> seen"
  shows "shown' = fig" "seen' = c" "tot \<le> fig \<longrightarrow> tot \<le> c" "c \<le> tot \<Longrightarrow> c \<le> fig \<and> fig \<le> tot \<or> tot \<le> shown"
    "c < tot \<Longrightarrow> fig < tot" "seen \<le> c \<Longrightarrow> shown \<le> tot \<Longrightarrow> shown \<le> fig"
  using assms by (auto simp: onBar_def Let_def split: if_splits)

lemma length_bar_run [simp]: "length (bar_run tot prev obs) = length obs"
  by (induction obs arbitrary: prev) (auto split: prod.splits)

lemma bar_run_bounds:
  assumes "0 < tot" "tot \<le> fst prev \<longrightarrow> tot \<le> snd prev" "fst prev \<le> tot" "\<forall>x \<in> set obs. 0 \<le> fst x \<and> fst x \<le> tot"
  shows "\<forall>k < length obs. fst (obs ! k) \<le> bar_run tot prev obs ! k \<and> bar_run tot prev obs ! k \<le> tot \<and>
      (bar_run tot prev obs ! k = tot) = (fst (obs ! k) = tot)"
  using assms
proof (induction obs arbitrary: prev)
  case (Cons a obs)
  obtain c w where a: "a = (c, w)" by (cases a)
  obtain fig sh se where b: "onBar prev c w tot = (fig, sh, se)" by (metis prod.exhaust)
  have c: "0 \<le> c" "c \<le> tot" using Cons.prems(4) a by auto
  have f: "sh = fig" "se = c" "c \<le> fig" "fig \<le> tot" "(fig = tot) = (c = tot)"
    using b c Cons.prems(1-3) by (auto simp: onBar_def Let_def split: if_splits prod.splits)
  have IH: "\<forall>k < length obs. fst (obs ! k) \<le> bar_run tot (sh, se) obs ! k \<and> bar_run tot (sh, se) obs ! k \<le> tot \<and>
      (bar_run tot (sh, se) obs ! k = tot) = (fst (obs ! k) = tot)"
    using Cons.prems f by (intro Cons.IH) auto
  show ?case using IH f a b by (auto simp: nth_Cons split: nat.splits)
qed simp

lemma bar_run_steps:
  assumes "0 < tot" "Suc k < length obs" "\<forall>x \<in> set obs. 0 \<le> fst x \<and> fst x \<le> tot" "fst (obs ! k) \<le> fst (obs ! Suc k)"
    and "tot \<le> fst prev \<longrightarrow> tot \<le> snd prev" "fst prev \<le> tot"
  shows "bar_run tot prev obs ! k \<le> bar_run tot prev obs ! Suc k"
  using assms
proof (induction obs arbitrary: prev k)
  case (Cons a obs)
  obtain c w where a: "a = (c, w)" by (cases a)
  obtain fig sh se where b: "onBar prev c w tot = (fig, sh, se)" by (metis prod.exhaust)
  have c: "0 \<le> c" "c \<le> tot" using Cons.prems(3) a by auto
  have f: "sh = fig" "se = c" "c \<le> fig" "fig \<le> tot" "(fig = tot) = (c = tot)"
    using b c Cons.prems(1,5,6) by (auto simp: onBar_def Let_def split: if_splits prod.splits)
  show ?case
  proof (cases k)
    case 0
    then obtain c' w' obs' where o: "obs = (c', w') # obs'" using Cons.prems(2) by (cases obs) auto
    then show ?thesis using 0 Cons.prems f a b by (auto simp: onBar_def Let_def split: if_splits prod.splits)
  next
    case (Suc k')
    then have "bar_run tot (sh, se) obs ! k' \<le> bar_run tot (sh, se) obs ! Suc k'"
      using Cons.prems f by (intro Cons.IH) auto
    then show ?thesis using Suc a b by simp
  qed
qed simp

text \<open>The bar of a transfer: it is never below what is counted nor above the total, it shows the
  total exactly when everything is counted, and it never goes back unless the bytes counted do
  (an item starting over), whatever is on the way at each moment.\<close>

theorem bar_never_back:
  assumes "0 < tot" "\<forall>x \<in> set obs. 0 \<le> fst x \<and> fst x \<le> tot"
  shows "(\<forall>k < length obs. fst (obs ! k) \<le> bar_run tot (0, 0) obs ! k \<and> bar_run tot (0, 0) obs ! k \<le> tot \<and>
        (bar_run tot (0, 0) obs ! k = tot) = (fst (obs ! k) = tot)) \<and>
    (\<forall>k. Suc k < length obs \<longrightarrow> fst (obs ! k) \<le> fst (obs ! Suc k) \<longrightarrow>
        bar_run tot (0, 0) obs ! k \<le> bar_run tot (0, 0) obs ! Suc k)"
  using bar_run_bounds [of tot "(0, 0)" obs] bar_run_steps [of tot _ obs "(0, 0)"] assms by simp

theorem bar_never_back_witness: "bar_run 10 (0, 0) [(0, 4), (0, 3), (4, 0), (4, 20), (10, 0)] ! 1 = 4"
  using bar_never_back [of 10 "[(0, 4), (0, 3), (4, 0), (4, 20), (10, 0)]"] by (simp add: onBar_def Let_def)

section \<open>Counted writes\<close>

definition writeSlice :: nat where "writeSlice = 131072"

text \<open>\<^verbatim>\<open>writeCounted\<close>: the bytes go out a slice at a time. The answer of the connection to each
  write, the number of bytes it took and whether it failed, is an argument; with no answer left
  the write blocks, which the deadline turns into a failure.\<close>

function write_slices :: "bytes \<Rightarrow> nat \<Rightarrow> (nat \<times> bool) list \<Rightarrow> int \<Rightarrow> bytes list \<Rightarrow> nat \<times> bool \<times> int \<times> bytes list" where
  "write_slices b got answers n out =
     (if got < length b then
        (let sl = take writeSlice (drop got b) in
         case answers of
           [] \<Rightarrow> (got, False, n, out)
         | (k, ok) # rest \<Rightarrow>
             (let k' = (if ok then length sl else min k (length sl)) in
              if \<not> ok then (got + k', False, n + int k', out @ [take k' sl])
              else write_slices b (got + k') rest (n + int k') (out @ [take k' sl])))
      else (got, True, n, out))"
  by pat_completeness auto
termination by (relation "measure (\<lambda>(b, got, answers, n, out). length answers)") auto

declare write_slices.simps [simp del]

definition writeCounted :: "bytes \<Rightarrow> (nat \<times> bool) list \<Rightarrow> int \<Rightarrow> nat \<times> bool \<times> int \<times> bytes list" where
  "writeCounted b answers n = write_slices b 0 answers n []"

lemma write_slices_counts:
  assumes "write_slices b got answers n out = (k, ok, n', out')" "concat out = take got b" "got \<le> length b"
  shows "concat out' = take k b \<and> n' = n + int k - int got \<and> k \<le> length b \<and> (ok \<longrightarrow> k = length b)"
  using assms
proof (induction b got answers n out rule: write_slices.induct)
  case (1 b got answers n out)
  let ?sl = "take writeSlice (drop got b)"
  show ?case
  proof (cases "got < length b \<and> answers \<noteq> []")
    case True
    then obtain j o' rest where a: "answers = (j, o') # rest" by (cases answers) auto
    define k' where "k' = (if o' then length ?sl else min j (length ?sl))"
    have le: "got + k' \<le> length b" "take k' ?sl = take k' (drop got b)" using True by (auto simp: k'_def min_def)
    have c: "concat (out @ [take k' ?sl]) = take (got + k') b"
      using "1.prems"(2) le(2) by (simp add: take_add)
    have eq: "write_slices b got answers n out =
        (if \<not> o' then (got + k', False, n + int k', out @ [take k' ?sl])
         else write_slices b (got + k') rest (n + int k') (out @ [take k' ?sl]))"
      using True a by (subst write_slices.simps) (simp add: Let_def k'_def)
    show ?thesis
    proof (cases o')
      case False
      then show ?thesis using "1.prems"(1) eq c le by auto
    next
      case o: True
      have "concat out' = take k b \<and> n' = n + int k' + int k - int (got + k') \<and> k \<le> length b \<and> (ok \<longrightarrow> k = length b)"
        using "1.IH" [OF _ refl a refl refl, folded k'_def] True "1.prems"(1) eq c le o k'_def by simp
      then show ?thesis by simp
    qed
  next
    case False
    then show ?thesis using 1 by (subst (asm) write_slices.simps) (auto split: if_splits)
  qed
qed

end
