(* ===== verification/Receiver.thy ===== *)
theory Receiver
  imports RecvPlan Events
begin

text \<open>
  The state of a reception and its operations (\<^verbatim>\<open>pkg/transfer/receiver.go\<close>): the scheduler, the
  opening and writing of the items' files, their digests, their ends, the batch and the full disk.
  Every operation takes the run and returns it changed; an operation on the disk takes the time
  \<open>now\<close>, and those whose failure is examined by \<^verbatim>\<open>engine.IsDiskFull\<close> the answer \<open>full\<close>. The figures
  of the bars and the stage times are left out; the sleep and wake-up of the condition variable
  are the scheduling of the calls.
\<close>

section \<open>Data\<close>

datatype run_error =
    RPath path_error
  | RPlace place_error
  | RStore store_error
  | RNeverMatched nat
  | RDigestTwice
  | RChunkErr "16 word"
  | RFolderThere string

record item =
  im_it :: offer_item
  im_total :: nat
  im_next :: nat
  im_retries :: "nat list"
  im_attempts :: "nat \<Rightarrow> nat"
  im_state :: item_state
  im_err :: "run_error option"
  im_opened :: bool
  im_started :: bool
  im_closed :: bool
  im_safe :: string
  im_place :: place
  im_f :: "sfile option"
  im_saved :: string
  im_processed :: nat
  im_hashes :: "bytes list"
  im_fresh :: "bool list"
  im_local :: bytes
  im_counted :: int
  im_digest :: bool
  im_restarted :: bool
  im_gen :: nat

text \<open>A task: an item, the index of a chunk or \<^verbatim>\<open>DigestIndex\<close>, and the item's generation when it
  was scheduled.\<close>

record task =
  t_item :: nat
  t_index :: nat
  t_gen :: nat

definition digest_index :: nat where "digest_index = 4294967295"

record item_event =
  ev_Item :: nat
  ev_Path :: string
  ev_Size :: int
  ev_State :: item_state
  ev_Saved :: string
  ev_Err :: "run_error option"

record run =
  ru_r :: receiver
  ru_offer :: offer
  ru_items :: "item list"
  ru_low :: nat
  ru_ended :: nat
  ru_active :: "nat set"
  ru_bytes :: int
  ru_paused :: bool
  ru_pausedItems :: "nat set"
  ru_plan :: root_plan
  ru_rootDir :: string
  ru_mark :: "(place_error + unit) option"
  ru_batch :: "batch option"
  ru_batched :: "nat list"
  ru_os :: os
  ru_events :: "item_event list"
  ru_fullEvents :: nat

abbreviation itm :: "run \<Rightarrow> nat \<Rightarrow> item" where "itm ru i \<equiv> ru_items ru ! i"

abbreviation set_itm :: "nat \<Rightarrow> item \<Rightarrow> run \<Rightarrow> run" where
  "set_itm i st ru \<equiv> ru\<lparr>ru_items := (ru_items ru)[i := st]\<rparr>"

definition no_place :: place where
  "no_place = \<lparr>pl_Name = [], pl_Resume = False, pl_Done = False, pl_Overwrite = False\<rparr>"

definition new_item :: "32 word \<Rightarrow> offer_item \<Rightarrow> item" where
  "new_item chunkSize it =
     (let n = unat (Chunks (it_Size it) chunkSize) in
      \<lparr>im_it = it, im_total = n, im_next = 0, im_retries = [], im_attempts = (\<lambda>_. 0),
       im_state = ItemPending, im_err = None, im_opened = False, im_started = False, im_closed = False,
       im_safe = [], im_place = no_place, im_f = None, im_saved = [], im_processed = 0,
       im_hashes = replicate n (replicate 32 0), im_fresh = replicate n False, im_local = replicate 32 0,
       im_counted = 0, im_digest = False, im_restarted = False, im_gen = 0\<rparr>)"

definition newRun :: "receiver \<Rightarrow> offer \<Rightarrow> os \<Rightarrow> run" where
  "newRun r off s =
     \<lparr>ru_r = r, ru_offer = off, ru_items = map (new_item (o_ChunkSize off)) (o_Items off), ru_low = 0,
      ru_ended = 0, ru_active = {}, ru_bytes = 0, ru_paused = False, ru_pausedItems = {},
      ru_plan = \<lparr>rt_inRoot = False, rt_Base = [], rt_strip = [], rt_Key = replicate 32 0\<rparr>, ru_rootDir = [], ru_mark = None, ru_batch = None, ru_batched = [],
      ru_os = s, ru_events = [], ru_fullEvents = 0\<rparr>"

section \<open>The user's requests\<close>

definition Pause :: "run \<Rightarrow> run" where "Pause ru = ru\<lparr>ru_paused := True\<rparr>"
definition Resume :: "run \<Rightarrow> run" where "Resume ru = ru\<lparr>ru_paused := False\<rparr>"
definition PauseItem :: "nat \<Rightarrow> run \<Rightarrow> run" where
  "PauseItem i ru = ru\<lparr>ru_pausedItems := insert i (ru_pausedItems ru)\<rparr>"
definition ResumeItem :: "nat \<Rightarrow> run \<Rightarrow> run" where
  "ResumeItem i ru = ru\<lparr>ru_pausedItems := ru_pausedItems ru - {i}\<rparr>"

section \<open>How an item ends\<close>

text \<open>\<open>mark_ended\<close> is \<^verbatim>\<open>markEnded\<close> up to its flush of the batch. A flush ends its items with
  \<^verbatim>\<open>markEnded\<close>, whose own flush finds the batch just emptied: it is left out there.\<close>

definition emitItem :: "item_event \<Rightarrow> run \<Rightarrow> run" where
  "emitItem ev ru = ru\<lparr>ru_events := ru_events ru @ [ev]\<rparr>"

definition mark_ended :: "run \<Rightarrow> nat \<Rightarrow> item_state \<Rightarrow> run_error option \<Rightarrow> run" where
  "mark_ended ru i state err =
     (let st = itm ru i in
      if ItemDone \<le> im_state st then ru
      else
        emitItem \<lparr>ev_Item = i, ev_Path = it_Path (im_it st), ev_Size = it_Size (im_it st), ev_State = state,
                  ev_Saved = (if state = ItemDone then im_saved st else []), ev_Err = err\<rparr>
          ((set_itm i (st\<lparr>im_state := state, im_err := err\<rparr>) ru)
             \<lparr>ru_ended := ru_ended ru + 1, ru_active := ru_active ru - {i}\<rparr>))"

fun end_flushed :: "run \<Rightarrow> nat list \<Rightarrow> (store_error + unit) list \<Rightarrow> run" where
  "end_flushed ru (i # items) (r # rs) =
     end_flushed (case r of Inl err \<Rightarrow> mark_ended ru i ItemFailed (Some (RStore err))
                          | Inr _ \<Rightarrow> mark_ended ru i ItemDone None) items rs"
| "end_flushed ru _ _ = ru"

definition onlyBatchedLeft :: "run \<Rightarrow> bool" where
  "onlyBatchedLeft ru \<longleftrightarrow> length (ru_items ru) - ru_ended ru \<le> length (ru_batched ru)"

definition flushBatch :: "env \<Rightarrow> bool \<Rightarrow> run \<Rightarrow> run" where
  "flushBatch e force ru =
     (case ru_batch ru of
        None \<Rightarrow> ru
      | Some b \<Rightarrow>
          if BatchLen b = 0 then ru
          else if \<not> force \<and> BatchLen b < batchFiles \<and> BatchBytes b < batchBytes \<and> \<not> onlyBatchedLeft ru then ru
          else (case Flush b (ru_os ru) of
                  (errs, b', s') \<Rightarrow>
                    end_flushed (ru\<lparr>ru_batch := NewBatch (e_syncfs e), ru_batched := [], ru_os := s'\<rparr>)
                      (ru_batched ru) errs))"

definition markEnded :: "env \<Rightarrow> run \<Rightarrow> nat \<Rightarrow> item_state \<Rightarrow> run_error option \<Rightarrow> run" where
  "markEnded e ru i state err =
     (if ItemDone \<le> im_state (itm ru i) then ru else flushBatch e False (mark_ended ru i state err))"

definition close_item :: "run \<Rightarrow> nat \<Rightarrow> int \<Rightarrow> run" where
  "close_item ru i now =
     (let st = itm ru i in
      case im_f st of
        Some f \<Rightarrow>
          if \<not> im_closed st
          then (case Close f (ru_os ru) now of
                  (_, f', s') \<Rightarrow> (set_itm i (st\<lparr>im_f := Some f', im_closed := True\<rparr>) ru)\<lparr>ru_os := s'\<rparr>)
          else ru
      | None \<Rightarrow> set_itm i (st\<lparr>im_closed := True\<rparr>) ru)"

definition endItem :: "env \<Rightarrow> int \<Rightarrow> run \<Rightarrow> nat \<Rightarrow> item_state \<Rightarrow> run_error option \<Rightarrow> run" where
  "endItem e now ru i state err =
     (if i \<ge> length (ru_items ru) then ru
      else markEnded e (if state \<noteq> ItemDone then close_item ru i now else ru) i state err)"

definition SkipItem :: "env \<Rightarrow> int \<Rightarrow> int \<Rightarrow> run \<Rightarrow> run" where
  "SkipItem e now i ru = (if i < 0 then ru else endItem e now ru (nat i) ItemSkipped None)"

definition allEnded :: "run \<Rightarrow> bool" where
  "allEnded ru \<longleftrightarrow> ru_ended ru = length (ru_items ru)"

definition partial :: "run \<Rightarrow> bool" where
  "partial ru \<longleftrightarrow> list_ex (\<lambda>st. im_state st \<noteq> ItemDone) (ru_items ru)"

section \<open>The scheduler\<close>

text \<open>The place of the smallest index to retry: the first of them.\<close>

definition min_at :: "nat list \<Rightarrow> nat" where
  "min_at xs = foldl (\<lambda>m k. if xs ! k < xs ! m then k else m) 0 [0..<length xs]"

definition sched_count :: "item \<Rightarrow> nat" where
  "sched_count st = (if im_total st = 0 then 1 else im_total st)"

fun next_loop :: "run \<Rightarrow> nat list \<Rightarrow> task option \<times> run" where
  "next_loop ru [] = (None, ru)"
| "next_loop ru (i # is) =
     (let st = itm ru i in
      if ItemDone \<le> im_state st
      then next_loop (if i = ru_low ru then ru\<lparr>ru_low := ru_low ru + 1\<rparr> else ru) is
      else if i \<in> ru_pausedItems ru then next_loop ru is
      else if im_digest st
      then (Some \<lparr>t_item = i, t_index = digest_index, t_gen = im_gen st\<rparr>, set_itm i (st\<lparr>im_digest := False\<rparr>) ru)
      else if im_retries st \<noteq> []
      then (let m = min_at (im_retries st) in
            (Some \<lparr>t_item = i, t_index = im_retries st ! m, t_gen = im_gen st\<rparr>,
             set_itm i (st\<lparr>im_retries := take m (im_retries st) @ drop (Suc m) (im_retries st)\<rparr>) ru))
      else if im_next st < sched_count st
      then (Some \<lparr>t_item = i, t_index = im_next st, t_gen = im_gen st\<rparr>, set_itm i (st\<lparr>im_next := im_next st + 1\<rparr>) ru)
      else next_loop ru is)"

datatype sched_status = GotTask task | NothingNow | AllEnded

text \<open>One turn of the loop of \<^verbatim>\<open>next\<close>: with nothing to hand out, a blocking call waits and turns
  again.\<close>

definition sched_next :: "bool \<Rightarrow> run \<Rightarrow> sched_status \<times> run" where
  "sched_next cancelled ru =
     (if ru_ended ru = length (ru_items ru) \<or> cancelled then (AllEnded, ru)
      else if ru_paused ru then (NothingNow, ru)
      else (case next_loop ru [ru_low ru..<length (ru_items ru)] of
              (Some t, ru') \<Rightarrow> (GotTask t, ru')
            | (None, ru') \<Rightarrow> (NothingNow, ru')))"

definition retry :: "env \<Rightarrow> int \<Rightarrow> run \<Rightarrow> task \<Rightarrow> bool \<Rightarrow> run" where
  "retry e now ru t badHash =
     (let i = t_item t; st = itm ru i in
      if ItemDone \<le> im_state st \<or> t_gen t \<noteq> im_gen st then ru
      else
        let n = im_attempts st (t_index t) + 1;
            st1 = (if badHash then st\<lparr>im_attempts := (im_attempts st)(t_index t := n)\<rparr> else st)
        in if badHash \<and> n \<ge> maxChunkAttempts
           then endItem e now (set_itm i st1 ru) i ItemFailed (Some (RNeverMatched (t_index t)))
           else set_itm i (st1\<lparr>im_retries := im_retries st1 @ [t_index t]\<rparr>) ru)"

section \<open>The full disk\<close>

definition diskFull :: "int \<Rightarrow> run \<Rightarrow> nat \<Rightarrow> nat \<Rightarrow> run" where
  "diskFull now ru i gen =
     (let st = itm ru i in
      if \<not> ItemDone \<le> im_state st \<and> \<not> im_closed st \<and> gen = im_gen st
      then
        let s' = (case im_f st of None \<Rightarrow> ru_os ru | Some f \<Rightarrow> snd (snd (Suspend f (ru_os ru) now)))
        in (set_itm i (st\<lparr>im_gen := im_gen st + 1, im_next := 0, im_retries := [], im_digest := False, im_f := None,
              im_opened := False, im_processed := 0, im_fresh := map (\<lambda>_. False) (im_fresh st)\<rparr>) ru)
             \<lparr>ru_paused := True, ru_os := s',
              ru_fullEvents := (if ru_paused ru then ru_fullEvents ru else ru_fullEvents ru + 1)\<rparr>
      else ru)"

definition writeFailed :: "env \<Rightarrow> int \<Rightarrow> bool \<Rightarrow> run \<Rightarrow> task \<Rightarrow> run_error \<Rightarrow> run" where
  "writeFailed e now full ru t err =
     (if full then diskFull now ru (t_item t) (t_gen t) else endItem e now ru (t_item t) ItemFailed (Some err))"

section \<open>Finishing an item\<close>

definition addToBatch :: "run \<Rightarrow> nat \<Rightarrow> sfile \<Rightarrow> bool \<times> run" where
  "addToBatch ru i f =
     (case ru_batch ru of
        None \<Rightarrow> (False, ru)
      | Some b \<Rightarrow>
          (case AddFile b f of
             (Inl _, f', b') \<Rightarrow> (False, set_itm i ((itm ru i)\<lparr>im_f := Some f'\<rparr>) ru)
           | (Inr _, f', b') \<Rightarrow>
               (True, (set_itm i ((itm ru i)\<lparr>im_f := Some f'\<rparr>) ru)
                  \<lparr>ru_batch := Some b', ru_batched := ru_batched ru @ [i]\<rparr>)))"

definition finalize_item :: "env \<Rightarrow> int \<Rightarrow> bool \<Rightarrow> run \<Rightarrow> nat \<Rightarrow> run" where
  "finalize_item e now full ru i =
     (case (case im_f (itm ru i) of
              None \<Rightarrow> (Inr (), None, ru_os ru)
            | Some f \<Rightarrow> (case Finalize f (ru_os ru) now of (r, f', s') \<Rightarrow> (r, Some f', s'))) of
        (r, f', s') \<Rightarrow>
          (let ru1 = (set_itm i ((itm ru i)\<lparr>im_f := f'\<rparr>) ru)\<lparr>ru_os := s'\<rparr> in
           if r \<noteq> Inr () \<and> full then diskFull now ru1 i (im_gen (itm ru1 i))
           else
             let ru2 = set_itm i ((itm ru1 i)\<lparr>im_closed := True\<rparr>) ru1 in
             case r of
               Inl err \<Rightarrow> endItem e now ru2 i ItemFailed (Some (RStore err))
             | Inr _ \<Rightarrow> endItem e now ru2 i ItemDone None))"

definition finish :: "env \<Rightarrow> int \<Rightarrow> bool \<Rightarrow> run \<Rightarrow> nat \<Rightarrow> run" where
  "finish e now full ru i =
     (let st = itm ru i in
      if im_closed st then ru
      else
        case (case im_f st of
                Some f \<Rightarrow> if Batchable f then addToBatch ru i f else (False, ru)
              | None \<Rightarrow> (False, ru)) of
          (True, ru1) \<Rightarrow> flushBatch e False (set_itm i ((itm ru1 i)\<lparr>im_closed := True\<rparr>) ru1)
        | (False, ru1) \<Rightarrow> finalize_item e now full ru1 i)"

text \<open>\<^verbatim>\<open>complete\<close>: every chunk of the item is handled.\<close>

definition ask_digest :: "run \<Rightarrow> nat \<Rightarrow> bytes \<Rightarrow> run" where
  "ask_digest ru i local =
     (let st = (itm ru i)\<lparr>im_local := local\<rparr> in
      set_itm i (if \<not> ItemDone \<le> im_state st then st\<lparr>im_digest := True\<rparr> else st) ru)"

definition complete_item :: "env \<Rightarrow> int \<Rightarrow> bool \<Rightarrow> run \<Rightarrow> nat \<Rightarrow> run" where
  "complete_item e now full ru i =
     (let st = itm ru i in
      if im_total st = 0 \<or> (im_total st = 1 \<and> im_fresh st ! 0) then finish e now full ru i
      else if im_closed st then ru
      else
        case im_f st of
          None \<Rightarrow>
            if r_Sink (ru_r ru) = SinkNull then ask_digest ru i (FileDigest (e_sha e) (im_hashes st)) else ru
        | Some f \<Rightarrow>
            (case Hashes f of
               Inl err \<Rightarrow> endItem e now ru i ItemFailed (Some (RStore err))
             | Inr hs \<Rightarrow> ask_digest ru i (FileDigest (e_sha e) hs)))"

definition startOver :: "env \<Rightarrow> int \<Rightarrow> run \<Rightarrow> nat \<Rightarrow> run" where
  "startOver e now ru i =
     (let st = itm ru i; ru0 = set_itm i (st\<lparr>im_restarted := True\<rparr>) ru in
      if ItemDone \<le> im_state st then ru0
      else if im_restarted st then endItem e now ru0 i ItemFailed (Some RDigestTwice)
      else if im_closed st then ru0
      else
        let s' = (case im_f st of None \<Rightarrow> ru_os ru | Some f \<Rightarrow> snd (snd (Discard f (ru_os ru))))
        in (set_itm i (st\<lparr>im_restarted := True, im_f := None, im_processed := 0,
              im_fresh := map (\<lambda>_. False) (im_fresh st), im_counted := 0,
              im_next := 0, im_retries := [], im_attempts := (\<lambda>_. 0)\<rparr>) ru)
             \<lparr>ru_os := s', ru_bytes := ru_bytes ru - im_counted st\<rparr>)"

definition verified :: "env \<Rightarrow> int \<Rightarrow> bool \<Rightarrow> run \<Rightarrow> nat \<Rightarrow> bytes \<Rightarrow> run" where
  "verified e now full ru i digest =
     (if digest = im_local (itm ru i) then finish e now full ru i else startOver e now ru i)"

section \<open>Opening and writing\<close>

definition markRoot :: "run \<Rightarrow> (place_error + unit) \<times> run" where
  "markRoot ru =
     (if \<not> rt_inRoot (ru_plan ru) then (Inr (), ru)
      else case ru_mark ru of
             Some r \<Rightarrow> (r, ru)
           | None \<Rightarrow>
               (case MarkRoot (ru_os ru) (ru_rootDir ru) (rt_Key (ru_plan ru)) of
                  (r, s') \<Rightarrow> (r, ru\<lparr>ru_mark := Some r, ru_os := s'\<rparr>)))"

definition run_params :: "env \<Rightarrow> run \<Rightarrow> item \<Rightarrow> bool \<Rightarrow> params" where
  "run_params e ru st overwrite =
     item_params e (ru_r ru) (ru_plan ru) (o_ChunkSize (ru_offer ru)) (im_it st) overwrite"

text \<open>\<^verbatim>\<open>open\<close> in two parts: finding the place, then (\<open>open_place\<close>) what depends on it.\<close>

definition start_item :: "run \<Rightarrow> nat \<Rightarrow> run" where
  "start_item ru i =
     (let st = itm ru i in
      emitItem \<lparr>ev_Item = i, ev_Path = it_Path (im_it st), ev_Size = it_Size (im_it st), ev_State = ItemStarted,
                ev_Saved = [], ev_Err = None\<rparr> ru)"

definition open_place :: "env \<Rightarrow> int \<Rightarrow> run \<Rightarrow> nat \<Rightarrow> place \<Rightarrow> (run_error + unit) \<times> run" where
  "open_place e now ru i pl =
     (let st = itm ru i in
      if pl_Done pl
      then (Inr (), endItem e now
              ((set_itm i (st\<lparr>im_closed := True\<rparr>) ru)\<lparr>ru_bytes := ru_bytes ru + it_Size (im_it st)\<rparr>) i ItemDone None)
      else if pl_Resume pl
      then (case Open (e_sha e) now (ru_os ru) (pl_Name pl) (run_params e ru st (pl_Overwrite pl)) of
              (Inl err, s') \<Rightarrow> (Inl (RStore err), ru\<lparr>ru_os := s'\<rparr>)
            | (Inr f, s') \<Rightarrow>
                (Inr (), (set_itm i (st\<lparr>im_f := Some f, im_counted := f_resumed f\<rparr>) ru)
                   \<lparr>ru_os := s', ru_bytes := ru_bytes ru + (f_resumed f - im_counted st)\<rparr>))
      else (Inr (), (set_itm i (st\<lparr>im_counted := 0\<rparr>) ru)\<lparr>ru_bytes := ru_bytes ru - im_counted st\<rparr>))"

definition note_place :: "run \<Rightarrow> nat \<Rightarrow> string \<Rightarrow> place \<Rightarrow> run" where
  "note_place ru i safe pl =
     (let st = itm ru i;
          ru1 = set_itm i (st\<lparr>im_opened := True, im_safe := safe, im_place := pl,
                  im_saved := path_Join (r_OutDir (ru_r ru)) (pl_Name pl), im_started := True\<rparr>) ru
      in if \<not> im_started st then start_item (ru1\<lparr>ru_active := insert i (ru_active ru1)\<rparr>) i else ru1)"

definition open_item :: "env \<Rightarrow> int \<Rightarrow> run \<Rightarrow> nat \<Rightarrow> (run_error + unit) \<times> run" where
  "open_item e now ru i =
     (let st = itm ru i in
      if r_Sink (ru_r ru) = SinkNull
      then (Inr (), start_item (set_itm i (st\<lparr>im_opened := True\<rparr>) ru) i)
      else
        case SafeRelPath (e_upp e) (e_goos e) (it_Path (im_it st)) of
          Inl err \<Rightarrow> (Inl (RPath err), ru)
        | Inr safe \<Rightarrow>
            (case Resolve (e_uni e) (ru_os ru) (itemName (ru_plan ru) (ru_rootDir ru) safe)
                    (run_params e ru st False) (item_policy (ru_r ru) (ru_plan ru)) of
               (Inl err, s') \<Rightarrow> (Inl (RPlace err), ru\<lparr>ru_os := s'\<rparr>)
             | (Inr pl, s') \<Rightarrow>
                 open_place e now (note_place (ru\<lparr>ru_os := s'\<rparr>) i safe pl) i pl))"

definition create :: "env \<Rightarrow> int \<Rightarrow> run \<Rightarrow> nat \<Rightarrow> (run_error + unit) \<times> run" where
  "create e now ru i =
     (case markRoot ru of
        (Inl err, ru1) \<Rightarrow> (Inl (RPlace err), ru1)
      | (Inr _, ru1) \<Rightarrow>
          (let st = itm ru1 i in
           case Open (e_sha e) now (ru_os ru1) (pl_Name (im_place st)) (run_params e ru1 st (pl_Overwrite (im_place st))) of
             (Inl err, s') \<Rightarrow> (Inl (RStore err), ru1\<lparr>ru_os := s'\<rparr>)
           | (Inr f, s') \<Rightarrow> (Inr (), (set_itm i (st\<lparr>im_f := Some f\<rparr>) ru1)\<lparr>ru_os := s'\<rparr>)))"

definition countChunk :: "run \<Rightarrow> nat \<Rightarrow> bool \<times> run" where
  "countChunk ru i =
     (let st = itm ru i; n = im_processed st + 1 in (n = sched_count st, set_itm i (st\<lparr>im_processed := n\<rparr>) ru))"

text \<open>The chunk counted, and the item completed by the last.\<close>

definition count_complete :: "env \<Rightarrow> int \<Rightarrow> bool \<Rightarrow> run \<Rightarrow> nat \<Rightarrow> run" where
  "count_complete e now full ru i =
     (case countChunk ru i of (final, ru1) \<Rightarrow> if final then complete_item e now full ru1 i else ru1)"

text \<open>\<^verbatim>\<open>prepare\<close>: the part with the item's lock held says whether the task is done with, and whether
  its chunk, on disk already, is to be counted.\<close>

datatype prepared = Request | DoneWith | CountIt

definition prepare_locked :: "env \<Rightarrow> int \<Rightarrow> run \<Rightarrow> task \<Rightarrow> prepared \<times> run" where
  "prepare_locked e now ru t =
     (let i = t_item t; st = itm ru i in
      if im_closed st \<or> t_gen t \<noteq> im_gen st then (DoneWith, ru)
      else
        case (if \<not> im_opened st then open_item e now ru i else (Inr (), ru)) of
          (Inl err, ru1) \<Rightarrow> (DoneWith, endItem e now ru1 i ItemFailed (Some err))
        | (Inr _, ru1) \<Rightarrow>
            if im_closed (itm ru1 i) then (DoneWith, ru1)
            else
              (case im_f (itm ru1 i) of
                 Some f \<Rightarrow> (if im_total (itm ru1 i) > 0 \<and> Has f (t_index t) then CountIt else Request, ru1)
               | None \<Rightarrow> (Request, ru1)))"

definition prepare :: "env \<Rightarrow> int \<Rightarrow> bool \<Rightarrow> run \<Rightarrow> task \<Rightarrow> bool \<times> run" where
  "prepare e now full ru t =
     (case prepare_locked e now ru t of
        (Request, ru1) \<Rightarrow> (False, ru1)
      | (DoneWith, ru1) \<Rightarrow> (True, ru1)
      | (CountIt, ru1) \<Rightarrow> (True, count_complete e now full ru1 (t_item t)))"

text \<open>\<^verbatim>\<open>write\<close> with the item's lock held: whether the chunk is to be counted then.\<close>

definition keep_hash :: "item \<Rightarrow> nat \<Rightarrow> bytes \<Rightarrow> item" where
  "keep_hash st k hsum = st\<lparr>im_hashes := (im_hashes st)[k := hsum], im_fresh := (im_fresh st)[k := True]\<rparr>"

definition count_bytes :: "run \<Rightarrow> nat \<Rightarrow> bytes \<Rightarrow> run" where
  "count_bytes ru i data =
     (set_itm i ((itm ru i)\<lparr>im_counted := im_counted (itm ru i) + int (length data)\<rparr>) ru)
       \<lparr>ru_bytes := ru_bytes ru + int (length data)\<rparr>"

definition write_null :: "run \<Rightarrow> task \<Rightarrow> bytes \<Rightarrow> bytes \<Rightarrow> bool \<times> run" where
  "write_null ru t data hsum =
     (let i = t_item t; st = itm ru i;
          first = (\<not> im_closed st \<and> (im_total st = 0 \<or> \<not> im_fresh st ! t_index t))
      in (first,
          if first \<and> im_total st > 0
          then count_bytes (set_itm i (keep_hash st (t_index t) hsum) ru) i data else ru))"

definition write_file :: "env \<Rightarrow> int \<Rightarrow> bool \<Rightarrow> run \<Rightarrow> task \<Rightarrow> bytes \<Rightarrow> bytes \<Rightarrow> sfile \<Rightarrow> bool \<times> run" where
  "write_file e now full ru t data hsum f =
     (let i = t_item t; k = t_index t; st = itm ru i;
          note_hash = (\<lambda>ru'. if k < im_total st then set_itm i (keep_hash (itm ru' i) k hsum) ru' else ru')
      in if im_total st > 0 \<and> \<not> Has f k
         then
           (case WriteChunk f (ru_os ru) k data hsum of
              (Inl err, f1, s1) \<Rightarrow>
                (False, writeFailed e now full ((set_itm i (st\<lparr>im_f := Some f1\<rparr>) ru)\<lparr>ru_os := s1\<rparr>) t (RStore err))
            | (Inr _, f1, s1) \<Rightarrow>
                (case CommitIfDue f1 s1 now of
                   (Inl err, f2, s2) \<Rightarrow>
                     (False, writeFailed e now full ((set_itm i (st\<lparr>im_f := Some f2\<rparr>) ru)\<lparr>ru_os := s2\<rparr>) t (RStore err))
                 | (Inr _, f2, s2) \<Rightarrow>
                     (True, note_hash (count_bytes ((set_itm i (st\<lparr>im_f := Some f2\<rparr>) ru)\<lparr>ru_os := s2\<rparr>) i data))))
         else (True, note_hash ru))"

definition write_locked :: "env \<Rightarrow> int \<Rightarrow> bool \<Rightarrow> run \<Rightarrow> task \<Rightarrow> bytes \<Rightarrow> bytes \<Rightarrow> bool \<times> run" where
  "write_locked e now full ru t data hsum =
     (let i = t_item t; st = itm ru i in
      if r_Sink (ru_r ru) = SinkNull then write_null ru t data hsum
      else if t_gen t \<noteq> im_gen st then (False, ru)
      else
        case (if im_f st = None \<and> \<not> im_closed st then create e now ru i else (Inr (), ru)) of
          (Inl err, ru1) \<Rightarrow> (False, writeFailed e now full ru1 t err)
        | (Inr _, ru1) \<Rightarrow>
            if im_closed (itm ru1 i) then (False, ru1)
            else (case im_f (itm ru1 i) of
                    None \<Rightarrow> (False, ru1)
                  | Some f \<Rightarrow> write_file e now full ru1 t data hsum f))"

definition write_chunk :: "env \<Rightarrow> int \<Rightarrow> bool \<Rightarrow> run \<Rightarrow> task \<Rightarrow> bytes \<Rightarrow> bytes \<Rightarrow> run" where
  "write_chunk e now full ru t data hsum =
     (case write_locked e now full ru t data hsum of
        (counted, ru1) \<Rightarrow> if counted then count_complete e now full ru1 (t_item t) else ru1)"

section \<open>A data connection\<close>

text \<open>A worker: the requests in flight on its connection, in order; the task taken from the scheduler
  and not prepared yet; the answers handed to its writer; the items whose chunk it has still to
  count, and those it has still to complete.\<close>

record worker =
  w_inflight :: "task list"
  w_prep :: "task option"
  w_queue :: "(task \<times> bytes \<times> bytes) list"
  w_counts :: "nat list"
  w_completes :: "nat list"

definition drop_tasks :: "env \<Rightarrow> int \<Rightarrow> run \<Rightarrow> task list \<Rightarrow> run" where
  "drop_tasks e now ru ts = foldl (\<lambda>ru' t. retry e now ru' t False) ru ts"

text \<open>The answer to the first request in flight: \<open>None\<close> when the connection is dropped, the request
  put back; else the chunk to hand to the writer, if it is one.\<close>

definition take_answer ::
  "env \<Rightarrow> int \<Rightarrow> bool \<Rightarrow> run \<Rightarrow> task \<Rightarrow> byte \<Rightarrow> bytes \<Rightarrow> (run \<times> (task \<times> bytes \<times> bytes) option) option" where
  "take_answer e now full ru t typ p =
     (let i = t_item t in
      if typ = TypeChunkError
      then Some (endItem e now ru i ItemFailed
             (Some (RChunkErr (case ParseChunkError p of Inr (_, _, code) \<Rightarrow> code | Inl _ \<Rightarrow> 0))), None)
      else if t_index t = digest_index
      then (case ParseDigest p of
              Inl _ \<Rightarrow> None
            | Inr (it, digest) \<Rightarrow>
                if typ \<noteq> TypeDigest \<or> unat it \<noteq> i then None
                else Some (if t_gen t = im_gen (itm ru i) then verified e now full ru i digest else ru, None))
      else (case ParseChunkData p of
              Inl _ \<Rightarrow> None
            | Inr (it, index, hsum, data) \<Rightarrow>
                if typ \<noteq> TypeChunkData \<or> unat it \<noteq> i \<or> unat index \<noteq> t_index t then None
                else Some (ru, Some (t, data, hsum))))"

text \<open>The writer: a chunk whose hash is not the one it came with is asked again.\<close>

definition writer_takes :: "env \<Rightarrow> int \<Rightarrow> bool \<Rightarrow> run \<Rightarrow> task \<times> bytes \<times> bytes \<Rightarrow> bool \<times> run" where
  "writer_takes e now full ru x =
     (case x of (t, data, hsum) \<Rightarrow>
        if e_sha e data \<noteq> hsum then (False, retry e now ru t True) else write_locked e now full ru t data hsum)"

text \<open>\<^verbatim>\<open>sendDone\<close>: what goes out once every item has ended.\<close>

definition sendDone :: "bool \<Rightarrow> run \<Rightarrow> bytes option" where
  "sendDone cancelled ru =
     (if cancelled \<or> \<not> allEnded ru then None
      else Some (AppendDone [] (if partial ru then DonePartial else DoneComplete)))"

section \<open>A whole reception\<close>

text \<open>\<^verbatim>\<open>Run\<close> before its workers start, on the disk of the destination, and after they have ended.\<close>

fun skip_all :: "env \<Rightarrow> int \<Rightarrow> run \<Rightarrow> nat list \<Rightarrow> run_error option \<Rightarrow> run" where
  "skip_all e now ru [] err = ru"
| "skip_all e now ru (i # is) err = skip_all e now (endItem e now ru i ItemSkipped err) is err"

definition start_run :: "env \<Rightarrow> int \<Rightarrow> receiver \<Rightarrow> offer \<Rightarrow> int list \<Rightarrow> os \<Rightarrow> (offer_error + place_error + run)" where
  "start_run e now r off skips s =
     (case Validate (e_uni e) off of
        Inl err \<Rightarrow> Inl err
      | Inr _ \<Rightarrow>
          let ru = newRun r off s; skips' = map nat (filter (\<lambda>i. 0 \<le> i) skips) in
          if r_Sink r = SinkNull then Inr (Inr (skip_all e now ru skips' None))
          else
            case findRoot e r off s of
              (Inl err, s') \<Rightarrow> Inr (Inl err)
            | (Inr place, s') \<Rightarrow>
                let ru1 = ru\<lparr>ru_plan := planRoot e r off, ru_os := s', ru_rootDir := rp_Name place\<rparr>;
                    ru2 = (if rp_Skip place
                           then skip_all e now ru1 [0..<length (ru_items ru1)] (Some (RFolderThere (rp_Name place))) else ru1);
                    ru3 = (if rt_inRoot (ru_plan ru2) then ru2\<lparr>ru_batch := NewBatch (e_syncfs e)\<rparr> else ru2)
                in Inr (Inr (skip_all e now ru3 skips' None)))"

fun close_files :: "run \<Rightarrow> int \<Rightarrow> nat list \<Rightarrow> run" where
  "close_files ru now [] = ru"
| "close_files ru now (i # is) =
     close_files (if im_f (itm ru i) \<noteq> None then close_item ru i now else ru) now is"

definition closeAll :: "run \<Rightarrow> int \<Rightarrow> run" where
  "closeAll ru now = close_files ru now [0..<length (ru_items ru)]"

record item_result =
  re_Item :: nat
  re_State :: item_state
  re_Saved :: string
  re_Err :: "run_error option"

definition results :: "run \<Rightarrow> item_result list" where
  "results ru = map (\<lambda>(i, st). \<lparr>re_Item = i, re_State = im_state st,
      re_Saved = (if im_state st = ItemDone then im_saved st else []), re_Err = im_err st\<rparr>) (enumerate 0 (ru_items ru))"

definition end_run :: "env \<Rightarrow> int \<Rightarrow> run \<Rightarrow> item_result list \<times> run" where
  "end_run e now ru =
     (let ru1 = closeAll (flushBatch e True ru) now;
          ru2 = (if rt_inRoot (ru_plan ru1) \<and> allEnded ru1 \<and> \<not> partial ru1
                 then ru1\<lparr>ru_os := snd (UnmarkRoot (ru_os ru1) (ru_rootDir ru1) (rt_Key (ru_plan ru1)))\<rparr> else ru1)
      in (results ru2, ru2))"

end
