(* ===== verification/ReceiverInv.thy ===== *)
theory ReceiverInv
  imports Receiver "HOL-Library.Multiset"
begin

text \<open>
  What every operation of a reception keeps: the count of the items that ended, the batch, and
  what an operation on one item may do to the others, namely end those the batch held.
\<close>

section \<open>The invariant of the run\<close>

abbreviation ended :: "item \<Rightarrow> bool" where "ended st \<equiv> ItemDone \<le> im_state st"

abbreviation n_items :: "run \<Rightarrow> nat" where "n_items ru \<equiv> length (ru_items ru)"

definition ended_count :: "item list \<Rightarrow> nat" where
  "ended_count sts = length (filter ended sts)"

definition batch_shape :: "run \<Rightarrow> bool" where
  "batch_shape ru \<longleftrightarrow> (case ru_batch ru of None \<Rightarrow> ru_batched ru = []
     | Some b \<Rightarrow> length (b_files b) = length (ru_batched ru)) \<and> (\<forall>i \<in> set (ru_batched ru). i < n_items ru)"

text \<open>\<open>X\<close> are the items an operation is about to end: they may be closed and not ended.\<close>

definition run_ok :: "nat set \<Rightarrow> run \<Rightarrow> bool" where
  "run_ok X ru \<longleftrightarrow> ru_ended ru = ended_count (ru_items ru) \<and> batch_shape ru \<and>
     (\<forall>i < ru_low ru. ended (itm ru i)) \<and> ru_low ru \<le> n_items ru \<and>
     (\<forall>i < n_items ru. i \<notin> X \<longrightarrow> im_closed (itm ru i) \<longrightarrow> ended (itm ru i) \<or> i \<in> set (ru_batched ru))"

text \<open>The batch holds files only while something else is left to receive.\<close>

definition quiet :: "run \<Rightarrow> bool" where
  "quiet ru \<longleftrightarrow> ru_batched ru \<noteq> [] \<longrightarrow> \<not> onlyBatchedLeft ru"

text \<open>What an operation on the items \<open>X\<close> does to the others: nothing, or it ends them.\<close>

definition others :: "nat set \<Rightarrow> run \<Rightarrow> run \<Rightarrow> bool" where
  "others X ru ru' \<longleftrightarrow> n_items ru' = n_items ru \<and> ru_r ru' = ru_r ru \<and> ru_paused ru' = ru_paused ru \<and>
     ru_pausedItems ru' = ru_pausedItems ru \<and>
     (\<forall>j. j \<notin> X \<longrightarrow> itm ru' j = itm ru j \<or> ended (itm ru' j)) \<and>
     (\<forall>j < n_items ru. ended (itm ru j) \<longrightarrow> ended (itm ru' j))"

lemma others_refl [simp]: "others X ru ru"
  by (simp add: others_def)

lemma others_trans: "others X ru ru' \<Longrightarrow> others X ru' ru'' \<Longrightarrow> others X ru ru''"
  unfolding others_def by metis

lemma others_mono: "others X ru ru' \<Longrightarrow> X \<subseteq> Y \<Longrightarrow> others Y ru ru'"
  unfolding others_def by (metis subsetD)

lemma run_ok_mono: "run_ok X ru \<Longrightarrow> X \<subseteq> Y \<Longrightarrow> run_ok Y ru"
  unfolding run_ok_def by blast

lemma ended_count_update:
  assumes "i < length sts"
  shows "ended_count (sts[i := st]) + (if ended (sts ! i) then 1 else 0) = ended_count sts + (if ended st then 1 else 0)"
  using assms
proof (induction sts arbitrary: i)
  case (Cons a sts)
  then show ?case by (cases i) (auto simp: ended_count_def)
qed simp

lemma ended_count_le: "ended_count sts \<le> length sts"
  by (simp add: ended_count_def)

text \<open>A change of one item that keeps its end, its place in the batch and the rest of the run.\<close>

definition same_run :: "run \<Rightarrow> run \<Rightarrow> bool" where
  "same_run ru ru' \<longleftrightarrow> ru_ended ru' = ru_ended ru \<and> ru_low ru' = ru_low ru \<and> ru_r ru' = ru_r ru \<and>
     ru_paused ru' = ru_paused ru \<and> ru_pausedItems ru' = ru_pausedItems ru \<and>
     map_option (length \<circ> b_files) (ru_batch ru') = map_option (length \<circ> b_files) (ru_batch ru) \<and>
     ru_batched ru' = ru_batched ru"

lemma update_ok:
  assumes "run_ok X ru" "same_run ru ru'" "ru_items ru' = (ru_items ru)[i := st]"
    and "ended st = ended (itm ru i)" "im_closed st \<longrightarrow> im_closed (itm ru i) \<or> i \<in> X"
  shows "run_ok X ru'" "others {i} ru ru'" "quiet ru \<Longrightarrow> quiet ru'"
proof -
  note s = assms(2) [unfolded same_run_def]
  have c: "ended_count (ru_items ru') = ended_count (ru_items ru)"
    using ended_count_update [of i "ru_items ru" st] assms(3,4) by (cases "i < n_items ru") (auto simp: list_update_beyond split: if_splits)
  have i: "itm ru' j = (if j = i \<and> j < n_items ru then st else itm ru j)" for j
    by (cases "i < n_items ru") (auto simp: assms(3) nth_list_update list_update_beyond)
  have b: "batch_shape ru'" using assms(1,3) s by (auto simp: run_ok_def batch_shape_def split: option.splits)
  show "run_ok X ru'" using assms(1,3,4,5) s c b i by (auto simp: run_ok_def)
  show "others {i} ru ru'" using assms(3,4) s i by (auto simp: others_def)
  show "quiet ru \<Longrightarrow> quiet ru'" using assms(3) s by (simp add: quiet_def onlyBatchedLeft_def)
qed

lemma same_run_refl [simp]: "same_run ru (ru\<lparr>ru_items := x\<rparr>)" "same_run ru (ru\<lparr>ru_items := x, ru_os := y\<rparr>)"
  "same_run ru (ru\<lparr>ru_os := y, ru_items := x\<rparr>)"
  by (simp_all add: same_run_def)

section \<open>Ends and flushes\<close>

lemma mark_ended_ok:
  assumes "run_ok X ru" "i < n_items ru" "ItemDone \<le> state"
  shows "run_ok (X - {i}) (mark_ended ru i state err)" "others {i} ru (mark_ended ru i state err)"
    "ended (itm (mark_ended ru i state err) i)"
    "ru_batched (mark_ended ru i state err) = ru_batched ru" "ru_batch (mark_ended ru i state err) = ru_batch ru"
proof -
  let ?ru = "mark_ended ru i state err"
  have it: "itm ?ru j = (if j = i \<and> \<not> ended (itm ru i) then (itm ru i)\<lparr>im_state := state, im_err := err\<rparr> else itm ru j)"
    "n_items ?ru = n_items ru" for j
    using assms(2) by (auto simp: mark_ended_def emitItem_def Let_def nth_list_update)
  show b: "ru_batched ?ru = ru_batched ru" "ru_batch ?ru = ru_batch ru"
    by (simp_all add: mark_ended_def emitItem_def Let_def)
  have l: "ru_low ?ru = ru_low ru" "ru_r ?ru = ru_r ru" "ru_paused ?ru = ru_paused ru" "ru_pausedItems ?ru = ru_pausedItems ru"
    by (simp_all add: mark_ended_def emitItem_def Let_def)
  have "ru_ended ?ru = ended_count (ru_items ?ru)"
    using ended_count_update [OF assms(2), of "(itm ru i)\<lparr>im_state := state, im_err := err\<rparr>"] assms(1,3)
    by (cases "ended (itm ru i)") (simp_all add: mark_ended_def emitItem_def Let_def run_ok_def)
  moreover have "batch_shape ?ru" using assms(1) by (simp add: run_ok_def batch_shape_def b it(2) split: option.splits)
  ultimately show "run_ok (X - {i}) ?ru" using assms(1,3) by (auto simp: run_ok_def b it l(1))
  show "others {i} ru ?ru" using it l assms(3) by (auto simp: others_def)
  show "ended (itm ?ru i)" using it assms(3) by auto
qed

lemma end_flushed_ok:
  assumes "run_ok X ru" "length rs = length is" "\<forall>i \<in> set is. i < n_items ru"
  shows "run_ok (X - set is) (end_flushed ru is rs) \<and> others {} ru (end_flushed ru is rs) \<and>
    (\<forall>i \<in> set is. ended (itm (end_flushed ru is rs) i)) \<and> ru_batched (end_flushed ru is rs) = ru_batched ru \<and>
    ru_batch (end_flushed ru is rs) = ru_batch ru"
  using assms
proof (induction ru "is" rs arbitrary: X rule: end_flushed.induct)
  case (1 ru i "is" r rs)
  let ?ru = "case r of Inl err \<Rightarrow> mark_ended ru i ItemFailed (Some (RStore err)) | Inr _ \<Rightarrow> mark_ended ru i ItemDone None"
  obtain st er where ru: "?ru = mark_ended ru i st er" "ItemDone \<le> st" by (cases r) (auto simp: ended_states)
  have i: "i < n_items ru" using "1.prems"(3) by simp
  note M = mark_ended_ok [OF "1.prems"(1) i ru(2), of er, folded ru(1)]
  have n: "n_items ?ru = n_items ru" using M(2) by (simp add: others_def)
  have IH: "run_ok (X - {i} - set is) (end_flushed ?ru is rs) \<and> others {} ?ru (end_flushed ?ru is rs) \<and>
    (\<forall>i \<in> set is. ended (itm (end_flushed ?ru is rs) i)) \<and> ru_batched (end_flushed ?ru is rs) = ru_batched ?ru \<and>
    ru_batch (end_flushed ?ru is rs) = ru_batch ?ru"
    using M(1) "1.prems"(2,3) n by (intro "1.IH") auto
  have e: "ended (itm (end_flushed ?ru is rs) i)" using IH M(3) i n by (simp add: others_def)
  have "others {} ru ?ru" using M(2,3) unfolding others_def by auto
  then have "others {} ru (end_flushed ?ru is rs)" using IH others_trans by blast
  moreover have "X - set (i # is) = X - {i} - set is" by auto
  ultimately show ?case using IH e M(4,5) by (simp del: set_simps(2)) auto
qed simp_all

lemma length_flush_files: "length es = length fs \<Longrightarrow> flush_files fs es s = (rs, s') \<Longrightarrow> length rs = length fs"
  by (induction fs es s arbitrary: rs s' rule: flush_files.induct) (auto split: prod.splits)

lemma length_flush_sync: "flush_sync fs s = (es, s') \<Longrightarrow> length es = length fs"
proof -
  have "sync_each fs s = (es, s') \<Longrightarrow> length es = length fs" for fs s es s'
    by (induction fs arbitrary: s es) (auto split: prod.splits)
  then show "flush_sync fs s = (es, s') \<Longrightarrow> length es = length fs"
    by (auto simp: flush_sync_def split: if_splits prod.splits sum.splits)
qed

lemma length_Flush: "Flush b s = (rs, b', s') \<Longrightarrow> length rs = length (b_files b)"
proof -
  assume F: "Flush b s = (rs, b', s')"
  obtain es s1 where a: "flush_sync (b_files b) s = (es, s1)" by (metis prod.exhaust)
  obtain rs2 s2 where c: "flush_files (b_files b) es s1 = (rs2, s2)" by (metis prod.exhaust)
  show "length rs = length (b_files b)"
    using F a c length_flush_files [OF length_flush_sync [OF a] c] by (simp add: Flush_def)
qed

text \<open>A flush ends every item of the batch, or does nothing.\<close>

lemma flushBatch_ok:
  assumes "run_ok X ru"
  shows "run_ok X (flushBatch e force ru) \<and> others {} ru (flushBatch e force ru) \<and> (quiet (flushBatch e force ru)) \<and>
    (flushBatch e force ru = ru \<or> (ru_batched (flushBatch e force ru) = [] \<and> (\<forall>i \<in> set (ru_batched ru). ended (itm (flushBatch e force ru) i))))"
proof (cases "ru_batch ru")
  case None
  then show ?thesis using assms by (auto simp: flushBatch_def run_ok_def batch_shape_def quiet_def)
next
  case (Some b)
  show ?thesis
  proof (cases "BatchLen b = 0 \<or> (\<not> force \<and> BatchLen b < batchFiles \<and> BatchBytes b < batchBytes \<and> \<not> onlyBatchedLeft ru)")
    case True
    then have "flushBatch e force ru = ru" using Some by (auto simp: flushBatch_def)
    moreover have "quiet ru" using True assms Some
      by (auto simp: quiet_def run_ok_def batch_shape_def BatchLen_def)
    ultimately show ?thesis using assms by simp
  next
    case False
    obtain errs b' s' where f: "Flush b (ru_os ru) = (errs, b', s')" by (metis prod.exhaust)
    let ?ru = "ru\<lparr>ru_batch := NewBatch (e_syncfs e), ru_batched := [], ru_os := s'\<rparr>"
    have eq: "flushBatch e force ru = end_flushed ?ru (ru_batched ru) errs"
      using Some False f by (auto simp: flushBatch_def)
    have sh: "length errs = length (ru_batched ru)" "\<forall>i \<in> set (ru_batched ru). i < n_items ru"
      using assms Some length_Flush [OF f] by (auto simp: run_ok_def batch_shape_def)
    have "run_ok (X \<union> set (ru_batched ru)) ?ru"
      using assms by (auto simp: run_ok_def batch_shape_def NewBatch_def)
    from end_flushed_ok [OF this sh(1)] sh(2)
    have R: "run_ok (X \<union> set (ru_batched ru) - set (ru_batched ru)) (flushBatch e force ru)" "others {} ?ru (flushBatch e force ru)"
      "\<forall>i \<in> set (ru_batched ru). ended (itm (flushBatch e force ru) i)" "ru_batched (flushBatch e force ru) = []"
      unfolding eq by simp_all
    have "run_ok X (flushBatch e force ru)" by (rule run_ok_mono [OF R(1)]) auto
    moreover have "others {} ru (flushBatch e force ru)" using R(2) by (simp add: others_def)
    ultimately show ?thesis using R(3,4) by (simp add: quiet_def)
  qed
qed

section \<open>The operations\<close>

definition okq :: "run \<Rightarrow> bool" where "okq ru \<longleftrightarrow> run_ok {} ru \<and> quiet ru"

text \<open>What an operation on item \<open>i\<close> keeps.\<close>

definition step_ok :: "nat \<Rightarrow> run \<Rightarrow> run \<Rightarrow> bool" where
  "step_ok i ru ru' \<longleftrightarrow> okq ru' \<and> others {i} ru ru'"

definition gone :: "item \<Rightarrow> bool" where "gone st \<longleftrightarrow> ended st \<or> im_closed st"

lemma step_ok_refl: "okq ru \<Longrightarrow> step_ok i ru ru"
  by (simp add: step_ok_def)

lemma step_ok_trans: "step_ok i ru ru' \<Longrightarrow> step_ok i ru' ru'' \<Longrightarrow> step_ok i ru ru''"
  unfolding step_ok_def using others_trans by blast

lemma update_step:
  assumes "okq ru" "same_run ru ru'" "ru_items ru' = (ru_items ru)[i := st]"
    and "im_state st = im_state (itm ru i)" "im_closed st = im_closed (itm ru i)"
  shows "step_ok i ru ru'"
  using update_ok [OF _ assms(2,3), of "{}"] assms(1,4,5) by (auto simp: step_ok_def okq_def)

lemma set_step:
  "okq ru \<Longrightarrow> im_state st = im_state (itm ru i) \<Longrightarrow> im_closed st = im_closed (itm ru i) \<Longrightarrow> step_ok i ru (set_itm i st ru)"
  by (rule update_step [where st = st]) simp_all

lemma markEnded_ok:
  assumes "run_ok {i} ru" "quiet ru" "i < n_items ru" "ItemDone \<le> state"
  shows "step_ok i ru (markEnded e ru i state err) \<and> ended (itm (markEnded e ru i state err) i)"
proof (cases "ended (itm ru i)")
  case True
  then have "run_ok {} ru" using assms(1) by (auto simp: run_ok_def)
  then show ?thesis using True assms(2) by (simp add: markEnded_def step_ok_def okq_def)
next
  case False
  let ?m = "mark_ended ru i state err"
  note M = mark_ended_ok [OF assms(1,3,4), of err]
  have "run_ok {} ?m" using M(1) by simp
  note F = flushBatch_ok [OF this, of e False]
  have n: "n_items ?m = n_items ru" using M(2) by (simp add: others_def)
  have "ended (itm (flushBatch e False ?m) i)" using F M(3) assms(3) n by (simp add: others_def)
  moreover have "others {i} ru (flushBatch e False ?m)"
    using others_trans [OF M(2) others_mono [of "{}"]] F by blast
  ultimately show ?thesis using F False by (simp add: markEnded_def step_ok_def okq_def)
qed

lemma close_item_ok:
  assumes "run_ok {i} ru" "quiet ru" "i < n_items ru"
  shows "run_ok {i} (close_item ru i now) \<and> quiet (close_item ru i now) \<and> others {i} ru (close_item ru i now)"
proof -
  have u: "run_ok {i} (set_itm i st ru\<lparr>ru_os := s'\<rparr>) \<and> quiet (set_itm i st ru\<lparr>ru_os := s'\<rparr>) \<and>
      others {i} ru (set_itm i st ru\<lparr>ru_os := s'\<rparr>)" if "im_state st = im_state (itm ru i)" for st s'
    using update_ok [OF assms(1), of "set_itm i st ru\<lparr>ru_os := s'\<rparr>" i st] that assms(2) by simp
  show ?thesis
  proof (cases "im_f (itm ru i)")
    case None
    then have "close_item ru i now = set_itm i ((itm ru i)\<lparr>im_closed := True\<rparr>) ru\<lparr>ru_os := ru_os ru\<rparr>"
      by (simp add: close_item_def Let_def)
    then show ?thesis using u [of "(itm ru i)\<lparr>im_closed := True\<rparr>" "ru_os ru"] by simp
  next
    case (Some f)
    obtain r f' s' where c: "Close f (ru_os ru) now = (r, f', s')" by (metis prod.exhaust)
    show ?thesis
    proof (cases "im_closed (itm ru i)")
      case True
      then show ?thesis using Some assms by (simp add: close_item_def Let_def)
    next
      case False
      then have "close_item ru i now = set_itm i ((itm ru i)\<lparr>im_f := Some f', im_closed := True\<rparr>) ru\<lparr>ru_os := s'\<rparr>"
        using Some c by (simp add: close_item_def Let_def)
      then show ?thesis using u [of "(itm ru i)\<lparr>im_f := Some f', im_closed := True\<rparr>" s'] by simp
    qed
  qed
qed

lemma endItem_ok:
  assumes "run_ok {i} ru" "quiet ru" "i < n_items ru" "ItemDone \<le> state"
  shows "step_ok i ru (endItem e now ru i state err) \<and> ended (itm (endItem e now ru i state err) i)"
proof (cases "state = ItemDone")
  case True
  then show ?thesis using markEnded_ok [OF assms, of e err] assms(3) by (simp add: endItem_def)
next
  case False
  note C = close_item_ok [OF assms(1-3), of now]
  have "i < n_items (close_item ru i now)" using C assms(3) by (simp add: others_def)
  then have "step_ok i (close_item ru i now) (markEnded e (close_item ru i now) i state err) \<and>
      ended (itm (markEnded e (close_item ru i now) i state err) i)"
    using markEnded_ok C assms(4) by blast
  then show ?thesis using C False assms(3) others_trans unfolding step_ok_def by (auto simp: endItem_def)
qed

lemma okq_endItem:
  assumes "okq ru" "i < n_items ru" "ItemDone \<le> state"
  shows "step_ok i ru (endItem e now ru i state err) \<and> ended (itm (endItem e now ru i state err) i)"
  using endItem_ok [of i ru state e now err] assms run_ok_mono by (auto simp: okq_def)

lemma step_length: "step_ok i ru ru' \<Longrightarrow> n_items ru' = n_items ru"
  by (simp add: step_ok_def others_def)

lemma finalize_item_ok:
  assumes "okq ru" "i < n_items ru"
  shows "step_ok i ru (finalize_item e now False ru i) \<and> ended (itm (finalize_item e now False ru i) i)"
proof -
  obtain r f' s' where c: "(case im_f (itm ru i) of None \<Rightarrow> (Inr (), None, ru_os ru)
      | Some f \<Rightarrow> (case Finalize f (ru_os ru) now of (r, f', s') \<Rightarrow> (r, Some f', s'))) = (r, f', s')"
    by (metis prod.exhaust)
  let ?ru = "ru\<lparr>ru_os := s', ru_items := (ru_items ru)[i := (itm ru i)\<lparr>im_f := f', im_closed := True\<rparr>]\<rparr>"
  have U: "run_ok {i} ?ru" "quiet ?ru" "others {i} ru ?ru"
    using update_ok [of "{i}" ru ?ru i "(itm ru i)\<lparr>im_f := f', im_closed := True\<rparr>"] assms(1) run_ok_mono [of "{}" ru "{i}"]
    by (simp_all add: okq_def)
  have i: "i < n_items ?ru" using assms(2) by simp
  have eq: "finalize_item e now False ru i = (case r of Inl err \<Rightarrow> endItem e now ?ru i ItemFailed (Some (RStore err))
      | Inr _ \<Rightarrow> endItem e now ?ru i ItemDone None)"
    unfolding finalize_item_def c using assms(2) by (cases r) (simp_all add: Let_def)
  have "step_ok i ?ru (finalize_item e now False ru i) \<and> ended (itm (finalize_item e now False ru i) i)"
    unfolding eq using endItem_ok [OF U(1,2) i] by (cases r) (simp_all add: ended_states)
  then show ?thesis using U(3) others_trans unfolding step_ok_def by blast
qed

lemma AddFile_length: "AddFile b f = (Inr u, f', b') \<Longrightarrow> length (b_files b') = Suc (length (b_files b))"
  by (auto simp: AddFile_def split: sum.splits prod.splits bool.splits)

lemma finish_ok:
  assumes "okq ru" "i < n_items ru"
  shows "step_ok i ru (finish e now False ru i) \<and> gone (itm (finish e now False ru i) i)"
proof (cases "im_closed (itm ru i)")
  case True
  then show ?thesis using assms by (simp add: finish_def Let_def step_ok_refl gone_def)
next
  case open_: False
  obtain b ru1 where c: "(case im_f (itm ru i) of Some f \<Rightarrow> if Batchable f then addToBatch ru i f else (False, ru)
      | None \<Rightarrow> (False, ru)) = (b, ru1)" by (metis prod.exhaust)
  show ?thesis
  proof (cases b)
    case False
    then have "ru1 = ru \<or> (\<exists>f'. ru1 = set_itm i ((itm ru i)\<lparr>im_f := Some f'\<rparr>) ru)"
      using c by (auto simp: addToBatch_def split: option.splits if_splits prod.splits sum.splits)
    then have u: "step_ok i ru ru1"
      using update_step [OF assms(1), of ru1 i] step_ok_refl [OF assms(1)] by auto
    have "step_ok i ru1 (finalize_item e now False ru1 i) \<and> ended (itm (finalize_item e now False ru1 i) i)"
      using u assms(2) finalize_item_ok step_length [OF u] by (simp add: step_ok_def)
    then show ?thesis using open_ c False step_ok_trans [OF u] by (simp add: finish_def Let_def gone_def)
  next
    case True
    then obtain f bt f' b' where a: "im_f (itm ru i) = Some f" "ru_batch ru = Some bt" "AddFile bt f = (Inr (), f', b')"
      "ru1 = (set_itm i ((itm ru i)\<lparr>im_f := Some f'\<rparr>) ru)\<lparr>ru_batch := Some b', ru_batched := ru_batched ru @ [i]\<rparr>"
      using c by (auto simp: addToBatch_def split: option.splits if_splits prod.splits sum.splits)
    define ru2 where "ru2 = set_itm i ((itm ru1 i)\<lparr>im_closed := True\<rparr>) ru1"
    have it: "itm ru2 j = (if j = i then (itm ru i)\<lparr>im_f := Some f', im_closed := True\<rparr> else itm ru j)" "n_items ru2 = n_items ru" for j
      using a(4) assms(2) by (simp_all add: ru2_def nth_list_update)
    have s2: "ru_batch ru2 = Some b'" "ru_batched ru2 = ru_batched ru @ [i]" "ru_low ru2 = ru_low ru" "ru_ended ru2 = ru_ended ru"
      "ru_r ru2 = ru_r ru" "ru_paused ru2 = ru_paused ru" "ru_pausedItems ru2 = ru_pausedItems ru"
      using a(4) by (simp_all add: ru2_def)
    have ec: "ended_count (ru_items ru2) = ended_count (ru_items ru)"
      using ended_count_update [OF assms(2), of "(itm ru i)\<lparr>im_f := Some f', im_closed := True\<rparr>"] a(4) assms(2)
      by (simp add: ru2_def split: if_splits)
    have "batch_shape ru2"
      using assms a(2) AddFile_length [OF a(3)] by (auto simp: okq_def run_ok_def batch_shape_def s2 it(2))
    then have "run_ok {} ru2"
      using assms ec by (auto simp: okq_def run_ok_def s2 it)
    note F = flushBatch_ok [OF this, of e False]
    have o: "others {i} ru ru2" using it(2) s2 by (auto simp: others_def it(1))
    have "gone (itm (flushBatch e False ru2) i)"
    proof (cases "itm (flushBatch e False ru2) i = itm ru2 i")
      case True then show ?thesis using it(1) [of i] by (simp add: gone_def)
    next
      case False then show ?thesis using F unfolding others_def gone_def by blast
    qed
    moreover have "step_ok i ru (flushBatch e False ru2)"
      using F o others_trans others_mono [of "{}"] unfolding step_ok_def okq_def by blast
    ultimately show ?thesis using open_ c True by (simp add: finish_def Let_def ru2_def)
  qed
qed

text \<open>The fields the scheduler reads are left alone.\<close>

definition same_sched :: "item \<Rightarrow> item \<Rightarrow> bool" where
  "same_sched st st' \<longleftrightarrow> im_total st' = im_total st \<and> im_next st' = im_next st \<and> im_retries st' = im_retries st \<and>
     im_digest st' = im_digest st \<and> im_processed st' = im_processed st \<and> im_gen st' = im_gen st \<and>
     (im_f st \<noteq> None \<longrightarrow> im_f st' \<noteq> None)"

lemma same_sched_refl [simp]: "same_sched st st"
  by (simp add: same_sched_def)

lemma same_sched_trans: "same_sched a b \<Longrightarrow> same_sched b c \<Longrightarrow> same_sched a c"
  by (simp add: same_sched_def)

lemma ended_gone: "ended st \<Longrightarrow> gone st"
  by (simp add: gone_def)

lemma gone_stays: "step_ok i ru ru' \<Longrightarrow> j < n_items ru \<Longrightarrow> ended (itm ru j) \<Longrightarrow> ended (itm ru' j)"
  by (simp add: step_ok_def others_def)

lemma update_itm: "i < n_items ru \<Longrightarrow> itm (set_itm i st ru) i = st"
  by simp

lemma endItem_gone:
  assumes "okq ru" "i < n_items ru" "ItemDone \<le> state"
  shows "step_ok i ru (endItem e now ru i state err) \<and> gone (itm (endItem e now ru i state err) i)"
  using okq_endItem [OF assms] ended_gone by blast

lemma retry_ok:
  assumes "okq ru" "t_item t < n_items ru"
  shows "step_ok (t_item t) ru (retry e now ru t bad) \<and>
    (let st = itm ru (t_item t); st' = itm (retry e now ru t bad) (t_item t) in
      gone st' \<or> t_gen t \<noteq> im_gen st \<or>
      (same_sched (st\<lparr>im_retries := im_retries st @ [t_index t]\<rparr>) st' \<and> im_fresh st' = im_fresh st))"
proof -
  let ?i = "t_item t"
  let ?st = "itm ru ?i"
  let ?n = "im_attempts ?st (t_index t) + 1"
  let ?st1 = "if bad then ?st\<lparr>im_attempts := (im_attempts ?st)(t_index t := ?n)\<rparr> else ?st"
  show ?thesis
  proof (cases "ended ?st \<or> t_gen t \<noteq> im_gen ?st")
    case True
    then have "retry e now ru t bad = ru" by (simp add: retry_def Let_def)
    then show ?thesis using True assms by (auto simp: step_ok_refl gone_def)
  next
    case live: False
    show ?thesis
    proof (cases "bad \<and> ?n \<ge> maxChunkAttempts")
      case True
      have u: "step_ok ?i ru (set_itm ?i ?st1 ru)" by (rule set_step [OF assms(1)]) simp_all
      have "retry e now ru t bad = endItem e now (set_itm ?i ?st1 ru) ?i ItemFailed (Some (RNeverMatched (t_index t)))"
        using live True by (simp add: retry_def Let_def)
      then show ?thesis
        using endItem_gone [of "set_itm ?i ?st1 ru" ?i ItemFailed] u assms(2) step_ok_trans [OF u]
        by (simp add: step_ok_def ended_states)
    next
      case False
      have eq: "retry e now ru t bad = set_itm ?i (?st1\<lparr>im_retries := im_retries ?st1 @ [t_index t]\<rparr>) ru"
        using live False unfolding retry_def Let_def by auto
      have "step_ok ?i ru (retry e now ru t bad)" unfolding eq by (rule set_step [OF assms(1)]) simp_all
      then show ?thesis unfolding eq using assms(2) by (simp add: same_sched_def Let_def)
    qed
  qed
qed

lemma complete_ok:
  assumes "okq ru" "i < n_items ru" "im_f (itm ru i) \<noteq> None \<or> r_Sink (ru_r ru) = SinkNull"
  shows "step_ok i ru (complete_item e now False ru i) \<and>
    (let st' = itm (complete_item e now False ru i) i in
      gone st' \<or> (same_sched ((itm ru i)\<lparr>im_digest := True\<rparr>) st' \<and> im_fresh st' = im_fresh (itm ru i)))"
proof -
  let ?st = "itm ru i"
  have A: "step_ok i ru (ask_digest ru i l) \<and> (let st' = itm (ask_digest ru i l) i in
      gone st' \<or> (same_sched (?st\<lparr>im_digest := True\<rparr>) st' \<and> im_fresh st' = im_fresh ?st))" for l
  proof -
    have "step_ok i ru (ask_digest ru i l)" unfolding ask_digest_def Let_def by (rule set_step [OF assms(1)]) simp_all
    then show ?thesis using assms(2) by (auto simp: ask_digest_def Let_def gone_def same_sched_def)
  qed
  show ?thesis
  proof (cases "im_total ?st = 0 \<or> (im_total ?st = 1 \<and> im_fresh ?st ! 0)")
    case True
    then show ?thesis using finish_ok [OF assms(1,2), of e now] by (simp add: complete_item_def Let_def)
  next
    case False
    note d = this
    show ?thesis
    proof (cases "im_closed ?st")
      case True
      then have "complete_item e now False ru i = ru" using d by (auto simp: complete_item_def Let_def)
      then show ?thesis using True assms(1) by (simp add: step_ok_refl gone_def Let_def)
    next
      case open_: False
      show ?thesis
      proof (cases "im_f ?st")
        case None
        then have "complete_item e now False ru i = ask_digest ru i (FileDigest (e_sha e) (im_hashes ?st))"
          using d open_ assms(3) unfolding complete_item_def Let_def by auto
        then show ?thesis using A by metis
      next
        case (Some f)
        then have "complete_item e now False ru i = (case Hashes f of
            Inl err \<Rightarrow> endItem e now ru i ItemFailed (Some (RStore err)) | Inr hs \<Rightarrow> ask_digest ru i (FileDigest (e_sha e) hs))"
          using d open_ unfolding complete_item_def Let_def by auto
        then show ?thesis using A endItem_gone [OF assms(1,2), of ItemFailed e now]
          by (cases "Hashes f") (auto simp: ended_states Let_def)
      qed
    qed
  qed
qed

definition start_again :: "item \<Rightarrow> item" where
  "start_again st = st\<lparr>im_restarted := True, im_f := None, im_processed := 0, im_fresh := map (\<lambda>_. False) (im_fresh st),
     im_counted := 0, im_next := 0, im_retries := [], im_attempts := (\<lambda>_. 0)\<rparr>"

lemma startOver_ok:
  assumes "okq ru" "i < n_items ru"
  shows "step_ok i ru (startOver e now ru i) \<and>
    (gone (itm (startOver e now ru i) i) \<or> itm (startOver e now ru i) i = start_again (itm ru i))"
proof -
  let ?st = "itm ru i" and ?ru0 = "set_itm i ((itm ru i)\<lparr>im_restarted := True\<rparr>) ru"
  have u: "step_ok i ru ?ru0" by (rule set_step [OF assms(1)]) simp_all
  have i: "i < n_items ?ru0" "okq ?ru0" using assms(2) u by (simp_all add: step_ok_def)
  show ?thesis
  proof (cases "ended ?st \<or> (\<not> im_restarted ?st \<and> im_closed ?st)")
    case True
    then have "startOver e now ru i = ?ru0" by (auto simp: startOver_def Let_def)
    then show ?thesis using u True assms(2) by (auto simp: gone_def)
  next
    case no: False
    show ?thesis
    proof (cases "im_restarted ?st")
      case True
      then have "startOver e now ru i = endItem e now ?ru0 i ItemFailed (Some RDigestTwice)"
        using no by (simp add: startOver_def Let_def)
      then show ?thesis using endItem_gone [OF i(2,1), of ItemFailed e now] step_ok_trans [OF u] by (simp add: ended_states)
    next
      case False
      define ru' where "ru' = startOver e now ru i"
      have "ru_items ru' = (ru_items ru)[i := start_again ?st]" "same_run ru ru'"
        using no False by (simp_all add: ru'_def startOver_def Let_def start_again_def same_run_def)
      then show ?thesis using update_step [OF assms(1), of ru' i "start_again ?st"] assms(2)
        by (simp add: ru'_def start_again_def)
    qed
  qed
qed

lemma verified_ok:
  assumes "okq ru" "i < n_items ru"
  shows "step_ok i ru (verified e now False ru i d) \<and>
    (gone (itm (verified e now False ru i d) i) \<or> itm (verified e now False ru i d) i = start_again (itm ru i))"
  using finish_ok [OF assms] startOver_ok [OF assms] by (simp add: verified_def)

end
