(* ===== verification/ReceiverKeep.thy ===== *)
theory ReceiverKeep
  imports ReceiverInv
begin

text \<open>
  What opening an item, making its file and writing a chunk keep: the fields the scheduler reads,
  and whether the item is over.
\<close>

lemma same_step:
  assumes "okq ru" "same_run ru ru'" "ru_items ru' = ru_items ru"
  shows "step_ok i ru ru'"
  using update_step [OF assms(1,2), of i "itm ru i"] assms(3) by simp

text \<open>Opening and creating change only what belongs to the file.\<close>

definition kept :: "nat \<Rightarrow> run \<Rightarrow> run \<Rightarrow> bool" where
  "kept i ru ru' \<longleftrightarrow> step_ok i ru ru' \<and> (gone (itm ru' i) \<or> (same_sched (itm ru i) (itm ru' i) \<and>
     im_fresh (itm ru' i) = im_fresh (itm ru i) \<and> im_closed (itm ru' i) = im_closed (itm ru i)))"

lemma kept_trans:
  assumes a: "kept i ru ru'" and b: "kept i ru' ru''" and i: "i < n_items ru"
  shows "kept i ru ru''"
proof -
  have s: "step_ok i ru ru''" using a b step_ok_trans unfolding kept_def by blast
  show ?thesis
  proof (cases "gone (itm ru' i)")
    case True
    then have "gone (itm ru'' i)" using b i a gone_stays [of i ru' ru'' i] step_length [of i ru ru']
      unfolding kept_def gone_def by auto
    then show ?thesis using s by (simp add: kept_def)
  next
    case False
    then show ?thesis using a b s same_sched_trans [of "itm ru i" "itm ru' i" "itm ru'' i"] unfolding kept_def by auto
  qed
qed

lemma kept_update:
  assumes "okq ru" "i < n_items ru" "same_run ru ru'" "ru_items ru' = (ru_items ru)[i := st]"
    and "im_state st = im_state (itm ru i)" "im_closed st = im_closed (itm ru i)" "same_sched (itm ru i) st"
    and "im_fresh st = im_fresh (itm ru i)"
  shows "kept i ru ru'"
  using update_step [OF assms(1,3-6)] assms(2,4,6-8) by (simp add: kept_def)

lemma kept_same: "okq ru \<Longrightarrow> same_run ru ru' \<Longrightarrow> ru_items ru' = ru_items ru \<Longrightarrow> kept i ru ru'"
  using same_step by (simp add: kept_def)

lemma kept_refl: "okq ru \<Longrightarrow> kept i ru ru"
  by (simp add: kept_same same_run_def)

lemma kept_gone: "step_ok i ru ru' \<Longrightarrow> gone (itm ru' i) \<Longrightarrow> kept i ru ru'"
  by (simp add: kept_def)

lemma kept_okq: "kept i ru ru' \<Longrightarrow> okq ru'" "kept i ru ru' \<Longrightarrow> n_items ru' = n_items ru"
  "kept i ru ru' \<Longrightarrow> ru_r ru' = ru_r ru"
  by (simp_all add: kept_def step_ok_def others_def)

lemma open_place_ok:
  assumes "okq ru" "i < n_items ru" "open_place e now ru i pl = (r, ru')"
  shows "kept i ru ru'"
proof -
  let ?st = "itm ru i"
  consider (got) "pl_Done pl" | (resume) "\<not> pl_Done pl" "pl_Resume pl" | (free) "\<not> pl_Done pl" "\<not> pl_Resume pl" by blast
  then show ?thesis
  proof cases
    case got
    define ru1 where "ru1 = (set_itm i (?st\<lparr>im_closed := True\<rparr>) ru)\<lparr>ru_bytes := ru_bytes ru + it_Size (im_it ?st)\<rparr>"
    have "run_ok {i} ru1" "quiet ru1" "others {i} ru ru1"
      using update_ok [of "{i}" ru ru1 i "?st\<lparr>im_closed := True\<rparr>"] assms(1) run_ok_mono [of "{}" ru "{i}"]
      by (simp_all add: okq_def ru1_def same_run_def)
    moreover have "i < n_items ru1" using assms(2) by (simp add: ru1_def)
    ultimately have "step_ok i ru1 (endItem e now ru1 i ItemDone None) \<and> ended (itm (endItem e now ru1 i ItemDone None) i)"
      using endItem_ok by simp
    moreover have "ru' = endItem e now ru1 i ItemDone None"
      using assms(3) got by (simp add: open_place_def Let_def ru1_def)
    ultimately show ?thesis using \<open>others {i} ru ru1\<close> others_trans ended_gone
      by (metis kept_gone step_ok_def)
  next
    case resume
    obtain o' s' where o: "Open (e_sha e) now (ru_os ru) (pl_Name pl) (run_params e ru ?st (pl_Overwrite pl)) = (o', s')"
      by (metis prod.exhaust)
    show ?thesis
    proof (cases o')
      case (Inl err)
      then have "ru' = ru\<lparr>ru_os := s'\<rparr>" using assms(3) resume o by (simp add: open_place_def Let_def)
      then show ?thesis using assms(1) by (simp add: kept_same same_run_def)
    next
      case (Inr f)
      then have ru': "ru' = (set_itm i (?st\<lparr>im_f := Some f, im_counted := f_resumed f\<rparr>) ru)
          \<lparr>ru_os := s', ru_bytes := ru_bytes ru + (f_resumed f - im_counted ?st)\<rparr>"
        using assms(3) resume o by (simp add: open_place_def Let_def)
      show ?thesis
        by (rule kept_update [OF assms(1,2), of _ "?st\<lparr>im_f := Some f, im_counted := f_resumed f\<rparr>"])
          (simp_all add: ru' same_run_def same_sched_def)
    qed
  next
    case free
    then have ru': "ru' = (set_itm i (?st\<lparr>im_counted := 0\<rparr>) ru)\<lparr>ru_bytes := ru_bytes ru - im_counted ?st\<rparr>"
      using assms(3) by (simp add: open_place_def Let_def)
    show ?thesis
      by (rule kept_update [OF assms(1,2), of _ "?st\<lparr>im_counted := 0\<rparr>"]) (simp_all add: ru' same_run_def same_sched_def)
  qed
qed

lemma open_item_ok:
  assumes "okq ru" "i < n_items ru" "open_item e now ru i = (r, ru')"
  shows "kept i ru ru'"
proof (cases "r_Sink (ru_r ru) = SinkNull")
  case True
  then have ru': "ru' = start_item (set_itm i ((itm ru i)\<lparr>im_opened := True\<rparr>) ru) i"
    using assms(3) by (simp add: open_item_def Let_def)
  show ?thesis
    by (rule kept_update [OF assms(1,2), of _ "(itm ru i)\<lparr>im_opened := True\<rparr>"])
      (simp_all add: ru' start_item_def emitItem_def Let_def same_run_def same_sched_def)
next
  case False
  let ?st = "itm ru i"
  obtain rp s' where rs: "\<And>safe. SafeRelPath (e_upp e) (e_goos e) (it_Path (im_it ?st)) = Inr safe \<Longrightarrow>
      Resolve (e_uni e) (ru_os ru) (itemName (ru_plan ru) (ru_rootDir ru) safe) (run_params e ru ?st False)
        (item_policy (ru_r ru) (ru_plan ru)) = (rp, s')"
    by (cases "SafeRelPath (e_upp e) (e_goos e) (it_Path (im_it ?st))") (auto simp: prod_eq_iff)
  show ?thesis
  proof (cases "SafeRelPath (e_upp e) (e_goos e) (it_Path (im_it ?st))")
    case (Inl err)
    then have "ru' = ru" using assms(3) False by (auto simp: open_item_def Let_def split: sink.splits)
    then show ?thesis using assms(1) by (simp add: kept_refl)
  next
    case (Inr safe)
    note rs = rs [OF Inr]
    show ?thesis
    proof (cases rp)
      case (Inl err)
      then have "ru' = ru\<lparr>ru_os := s'\<rparr>" using assms(3) False Inr rs by (simp add: open_item_def Let_def)
      then show ?thesis using assms(1) by (simp add: kept_same same_run_def)
    next
      case p: (Inr pl)
      define ru2 where "ru2 = note_place (ru\<lparr>ru_os := s'\<rparr>) i safe pl"
      have K: "kept i ru ru2"
        by (rule kept_update [OF assms(1,2), of _ "?st\<lparr>im_opened := True, im_safe := safe, im_place := pl,
              im_saved := path_Join (r_OutDir (ru_r ru)) (pl_Name pl), im_started := True\<rparr>"])
          (simp_all add: ru2_def note_place_def start_item_def emitItem_def Let_def same_run_def same_sched_def)
      have "open_item e now ru i = open_place e now ru2 i pl"
        using False Inr rs p by (simp add: open_item_def Let_def ru2_def)
      then have "kept i ru2 ru'" using open_place_ok [of ru2 i e now pl r ru'] kept_okq [OF K] assms(2,3) by simp
      then show ?thesis using kept_trans [OF K _ assms(2)] by simp
    qed
  qed
qed

lemma create_ok:
  assumes "okq ru" "i < n_items ru" "create e now ru i = (r, ru')"
  shows "kept i ru ru'" "r = Inr u \<Longrightarrow> im_f (itm ru' i) \<noteq> None" "itm ru' i = (itm ru i)\<lparr>im_f := im_f (itm ru' i)\<rparr>"
proof -
  obtain mr ru1 where m: "markRoot ru = (mr, ru1)" by (metis prod.exhaust)
  have m1: "ru_items ru1 = ru_items ru" "same_run ru ru1"
    using m by (auto simp: markRoot_def same_run_def split: if_splits option.splits prod.splits)
  have K: "kept i ru ru1" using assms(1) m1 by (simp add: kept_same)
  obtain o' s' where o: "Open (e_sha e) now (ru_os ru1) (pl_Name (im_place (itm ru1 i)))
      (run_params e ru1 (itm ru1 i) (pl_Overwrite (im_place (itm ru1 i)))) = (o', s')" by (metis prod.exhaust)
  consider (fail) err where "mr = Inl err" | (err) x err where "mr = Inr x" "o' = Inl err" | (made) x f where "mr = Inr x" "o' = Inr f"
    by (cases mr; cases o') simp_all
  then have "kept i ru ru' \<and> (r = Inr u \<longrightarrow> im_f (itm ru' i) \<noteq> None) \<and> itm ru' i = (itm ru i)\<lparr>im_f := im_f (itm ru' i)\<rparr>"
  proof cases
    case fail
    then have "ru' = ru1" "r = Inl (RPlace err)" using assms(3) m by (simp_all add: create_def)
    then show ?thesis using K m1 by simp
  next
    case err
    then have eq: "ru' = ru1\<lparr>ru_os := s'\<rparr>" "r = Inl (RStore err)" using assms(3) m o by (simp_all add: create_def Let_def)
    then have "kept i ru1 ru'" using kept_okq [OF K] by (simp add: kept_same same_run_def)
    then show ?thesis using kept_trans [OF K _ assms(2)] eq m1 by simp
  next
    case made
    then have eq: "ru' = (set_itm i ((itm ru1 i)\<lparr>im_f := Some f\<rparr>) ru1)\<lparr>ru_os := s'\<rparr>"
      using assms(3) m o by (simp add: create_def Let_def)
    have "kept i ru1 ru'"
      using kept_update [OF kept_okq(1) [OF K], of i ru' "(itm ru1 i)\<lparr>im_f := Some f\<rparr>"] assms(2) kept_okq(2) [OF K] eq
      by (simp add: same_run_def same_sched_def)
    then show ?thesis using kept_trans [OF K _ assms(2)] eq m1 assms(2) by simp
  qed
  then show "kept i ru ru'" "r = Inr u \<Longrightarrow> im_f (itm ru' i) \<noteq> None" "itm ru' i = (itm ru i)\<lparr>im_f := im_f (itm ru' i)\<rparr>"
    by blast+
qed


section \<open>Preparing and writing a chunk\<close>

lemma gone_kept: "kept i ru ru' \<Longrightarrow> i < n_items ru \<Longrightarrow> gone (itm ru i) \<Longrightarrow> gone (itm ru' i)"
  using gone_stays [of i ru ru' i] by (auto simp: kept_def gone_def)

lemma prepare_locked_ok:
  assumes "okq ru" "t_item t < n_items ru" "prepare_locked e now ru t = (p, ru')"
  shows "kept (t_item t) ru ru' \<and> (t_gen t = im_gen (itm ru (t_item t)) \<longrightarrow> gone (itm ru' (t_item t)) \<or>
    (p = Request \<or> p = CountIt \<and> im_f (itm ru' (t_item t)) \<noteq> None))"
proof (cases "im_closed (itm ru (t_item t)) \<or> t_gen t \<noteq> im_gen (itm ru (t_item t))")
  case True
  then have "ru' = ru" using assms(3) by (simp add: prepare_locked_def Let_def)
  then show ?thesis using True assms(1) by (auto simp: kept_refl gone_def)
next
  case False
  let ?i = "t_item t"
  obtain r ru1 where o: "(if \<not> im_opened (itm ru ?i) then open_item e now ru ?i else (Inr (), ru)) = (r, ru1)"
    by (metis prod.exhaust)
  have K: "kept ?i ru ru1"
    using o open_item_ok [OF assms(1,2)] kept_refl [OF assms(1)] by (cases "im_opened (itm ru ?i)") auto
  have E: "prepare_locked e now ru t = (case (r, ru1) of
      (Inl err, ru1) \<Rightarrow> (DoneWith, endItem e now ru1 ?i ItemFailed (Some err))
    | (Inr _, ru1) \<Rightarrow>
        if im_closed (itm ru1 ?i) then (DoneWith, ru1)
        else (case im_f (itm ru1 ?i) of
                Some f \<Rightarrow> (if im_total (itm ru1 ?i) > 0 \<and> Has f (t_index t) then CountIt else Request, ru1)
              | None \<Rightarrow> (Request, ru1)))"
    using False unfolding prepare_locked_def Let_def o by simp
  show ?thesis
  proof (cases r)
    case (Inl err)
    then have "ru' = endItem e now ru1 ?i ItemFailed (Some err)" using E assms(3) by simp
    then have "step_ok ?i ru1 ru' \<and> gone (itm ru' ?i)"
      using endItem_gone [OF kept_okq(1) [OF K], of ?i ItemFailed e now "Some err"] kept_okq(2) [OF K] assms(2)
      by (simp add: ended_states)
    then show ?thesis using kept_trans [OF K kept_gone assms(2)] by blast
  next
    case (Inr u)
    then have "ru' = ru1" "p \<noteq> DoneWith \<or> im_closed (itm ru1 ?i)" "p = CountIt \<longrightarrow> im_f (itm ru1 ?i) \<noteq> None"
      using E assms(3) by (simp_all split: if_splits option.splits)
    then show ?thesis using K by (cases p) (simp_all add: gone_def)
  qed
qed

text \<open>The same with the hash kept aside.\<close>

definition scheduled :: "nat \<Rightarrow> run \<Rightarrow> run \<Rightarrow> bool" where
  "scheduled i ru ru' \<longleftrightarrow> step_ok i ru ru' \<and> (gone (itm ru' i) \<or> same_sched (itm ru i) (itm ru' i))"

lemma scheduled_kept: "kept i ru ru' \<Longrightarrow> scheduled i ru ru'"
  by (auto simp: kept_def scheduled_def)

lemma scheduled_gone: "step_ok i ru ru' \<Longrightarrow> gone (itm ru' i) \<Longrightarrow> scheduled i ru ru'"
  by (simp add: scheduled_def)

lemma scheduled_okq: "scheduled i ru ru' \<Longrightarrow> okq ru'" "scheduled i ru ru' \<Longrightarrow> n_items ru' = n_items ru"
  "scheduled i ru ru' \<Longrightarrow> ru_r ru' = ru_r ru"
  by (simp_all add: scheduled_def step_ok_def others_def)

lemma scheduled_update:
  assumes "okq ru" "i < n_items ru" "same_run ru ru'" "ru_items ru' = (ru_items ru)[i := st]"
    and "im_state st = im_state (itm ru i)" "im_closed st = im_closed (itm ru i)" "same_sched (itm ru i) st"
  shows "scheduled i ru ru'"
  using update_step [OF assms(1,3-6)] assms(2,4,7) by (simp add: scheduled_def)

lemma writeFailed_gone:
  assumes "okq ru" "same_run ru ru1" "ru_items ru1 = (ru_items ru)[i := st]" "i < n_items ru" "t_item t = i"
    and "im_state st = im_state (itm ru i)" "im_closed st = im_closed (itm ru i)"
  shows "step_ok i ru (writeFailed e now False ru1 t err) \<and> gone (itm (writeFailed e now False ru1 t err) i)"
proof -
  have u: "step_ok i ru ru1" by (rule update_step [OF assms(1-3,6,7)])
  then have "okq ru1" "i < n_items ru1" using assms(4) step_length [OF u] by (simp_all add: step_ok_def)
  then show ?thesis
    using endItem_gone [of ru1 i ItemFailed e now "Some err"] step_ok_trans [OF u] assms(5)
    by (simp add: writeFailed_def ended_states)
qed

lemma write_file_ok:
  assumes "okq ru" "t_item t < n_items ru" "im_f (itm ru (t_item t)) = Some f" "write_file e now False ru t data hsum f = (c, ru')"
  shows "step_ok (t_item t) ru ru' \<and> (gone (itm ru' (t_item t)) \<or> c \<and> same_sched (itm ru (t_item t)) (itm ru' (t_item t)))"
proof -
  let ?i = "t_item t" and ?k = "t_index t"
  let ?st = "itm ru ?i"
  have hash: "scheduled ?i ru (if ?k < im_total ?st then set_itm ?i (keep_hash (itm ru1 ?i) ?k hsum) ru1 else ru1)"
    if "same_run ru ru1" "ru_items ru1 = (ru_items ru)[?i := st1]" "same_sched ?st st1"
      "im_state st1 = im_state ?st" "im_closed st1 = im_closed ?st" for ru1 st1
    using that assms(2)
    by (intro scheduled_update [OF assms(1,2), where st = "if ?k < im_total ?st then keep_hash st1 ?k hsum else st1"])
      (simp_all add: keep_hash_def same_run_def same_sched_def)
  show ?thesis
  proof (cases "im_total ?st > 0 \<and> \<not> Has f ?k")
    case False
    then have "c" "ru' = (if ?k < im_total ?st then set_itm ?i (keep_hash (itm ru ?i) ?k hsum) ru else ru)"
      using assms(4) unfolding write_file_def Let_def by (simp_all only: if_False prod.inject)
    moreover have "scheduled ?i ru ru'" unfolding calculation(2) by (rule hash [of ru ?st]) (simp_all add: same_run_def)
    ultimately show ?thesis by (auto simp: scheduled_def)
  next
    case True
    obtain r1 f1 s1 where w: "WriteChunk f (ru_os ru) ?k data hsum = (r1, f1, s1)" by (metis prod.exhaust)
    obtain r2 f2 s2 where d: "CommitIfDue f1 s1 now = (r2, f2, s2)" by (metis prod.exhaust)
    note eq = assms(4) [unfolded write_file_def Let_def if_P [OF True] w d prod.case]
    consider (w) err where "r1 = Inl err" | (d) x err where "r1 = Inr x" "r2 = Inl err" | (good) x y where "r1 = Inr x" "r2 = Inr y"
      by (cases r1; cases r2) simp_all
    then show ?thesis
    proof cases
      case w
      then have "ru' = writeFailed e now False ((set_itm ?i (?st\<lparr>im_f := Some f1\<rparr>) ru)\<lparr>ru_os := s1\<rparr>) t (RStore err)"
        using eq by simp
      then show ?thesis
        using writeFailed_gone [OF assms(1), of "(set_itm ?i (?st\<lparr>im_f := Some f1\<rparr>) ru)\<lparr>ru_os := s1\<rparr>" ?i "?st\<lparr>im_f := Some f1\<rparr>"]
          assms(2) by simp
    next
      case d
      then have "ru' = writeFailed e now False ((set_itm ?i (?st\<lparr>im_f := Some f2\<rparr>) ru)\<lparr>ru_os := s2\<rparr>) t (RStore err)"
        using eq by simp
      then show ?thesis
        using writeFailed_gone [OF assms(1), of "(set_itm ?i (?st\<lparr>im_f := Some f2\<rparr>) ru)\<lparr>ru_os := s2\<rparr>" ?i "?st\<lparr>im_f := Some f2\<rparr>"]
          assms(2) by simp
    next
      case good
      define ru1 where "ru1 = count_bytes ((set_itm ?i (?st\<lparr>im_f := Some f2\<rparr>) ru)\<lparr>ru_os := s2\<rparr>) ?i data"
      have "c" "ru' = (if ?k < im_total ?st then set_itm ?i (keep_hash (itm ru1 ?i) ?k hsum) ru1 else ru1)"
        using eq good unfolding ru1_def by (simp_all split del: if_split)
      moreover have "scheduled ?i ru ru'" unfolding calculation(2)
        by (rule hash [of ru1 "?st\<lparr>im_f := Some f2, im_counted := im_counted ?st + int (length data)\<rparr>"])
          (use assms(2) in \<open>simp_all add: ru1_def count_bytes_def same_run_def same_sched_def\<close>)
      ultimately show ?thesis by (auto simp: scheduled_def)
    qed
  qed
qed


lemma write_null_ok:
  assumes "okq ru" "t_item t < n_items ru" "write_null ru t data hsum = (c, ru')"
  shows "step_ok (t_item t) ru ru'" "gone (itm ru (t_item t)) \<Longrightarrow> gone (itm ru' (t_item t))"
    "\<not> gone (itm ru (t_item t)) \<Longrightarrow> im_total (itm ru (t_item t)) > 0 \<longrightarrow> \<not> im_fresh (itm ru (t_item t)) ! t_index t \<Longrightarrow>
      c \<and> same_sched (itm ru (t_item t)) (itm ru' (t_item t)) \<and>
      (im_fresh (itm ru' (t_item t)) = im_fresh (itm ru (t_item t)) \<or>
       im_fresh (itm ru' (t_item t)) = (im_fresh (itm ru (t_item t)))[t_index t := True])"
proof -
  let ?i = "t_item t" and ?k = "t_index t"
  let ?st = "itm ru ?i"
  let ?new = "(keep_hash ?st ?k hsum)\<lparr>im_counted := im_counted ?st + int (length data)\<rparr>"
  have cases: "ru' = ru \<and> (c \<longleftrightarrow> \<not> im_closed ?st \<and> im_total ?st = 0) \<and> (im_closed ?st \<or> im_total ?st = 0 \<or> im_fresh ?st ! ?k) \<or>
      c \<and> ru' = count_bytes (set_itm ?i (keep_hash ?st ?k hsum) ru) ?i data"
    using assms(3) by (auto simp: write_null_def Let_def split: if_splits)
  have new: "scheduled ?i ru ru1" "im_fresh (itm ru1 ?i) = (im_fresh ?st)[?k := True]" "gone ?st \<Longrightarrow> gone (itm ru1 ?i)"
    if "ru1 = count_bytes (set_itm ?i (keep_hash ?st ?k hsum) ru) ?i data" for ru1
  proof -
    show "scheduled ?i ru ru1"
      by (rule scheduled_update [OF assms(1,2), of _ ?new])
        (use assms(2) in \<open>simp_all add: that count_bytes_def keep_hash_def same_run_def same_sched_def\<close>)
    show "im_fresh (itm ru1 ?i) = (im_fresh ?st)[?k := True]" "gone ?st \<Longrightarrow> gone (itm ru1 ?i)"
      using assms(2) by (simp_all add: that count_bytes_def keep_hash_def gone_def)
  qed
  have same: "same_sched ?st (itm ru1 ?i)"
    if "ru1 = count_bytes (set_itm ?i (keep_hash ?st ?k hsum) ru) ?i data" for ru1
    using assms(2) by (simp add: that count_bytes_def keep_hash_def same_sched_def)
  show "step_ok ?i ru ru'" using cases new(1) assms(1) by (auto simp: scheduled_def step_ok_refl)
  show "gone ?st \<Longrightarrow> gone (itm ru' ?i)" using cases new(3) by blast
  show "c \<and> same_sched ?st (itm ru' ?i) \<and> (im_fresh (itm ru' ?i) = im_fresh ?st \<or> im_fresh (itm ru' ?i) = (im_fresh ?st)[?k := True])"
    if "\<not> gone ?st" "im_total ?st > 0 \<longrightarrow> \<not> im_fresh ?st ! ?k"
    using cases
  proof
    assume a: "ru' = ru \<and> (c \<longleftrightarrow> \<not> im_closed ?st \<and> im_total ?st = 0) \<and> (im_closed ?st \<or> im_total ?st = 0 \<or> im_fresh ?st ! ?k)"
    have "\<not> im_closed ?st" using that(1) by (simp add: gone_def)
    then show ?thesis using a that(2) by auto
  next
    assume "c \<and> ru' = count_bytes (set_itm ?i (keep_hash ?st ?k hsum) ru) ?i data"
    then show ?thesis using new(2) same by blast
  qed
qed

lemma write_locked_disk:
  assumes "okq ru" "t_item t < n_items ru" "r_Sink (ru_r ru) \<noteq> SinkNull"
    and "write_locked e now False ru t data hsum = (c, ru')"
  shows "step_ok (t_item t) ru ru' \<and> (gone (itm ru (t_item t)) \<longrightarrow> gone (itm ru' (t_item t))) \<and>
    (t_gen t = im_gen (itm ru (t_item t)) \<longrightarrow> gone (itm ru' (t_item t)) \<or>
    c \<and> same_sched (itm ru (t_item t)) (itm ru' (t_item t)) \<and> im_f (itm ru' (t_item t)) \<noteq> None)"
proof (cases "im_closed (itm ru (t_item t)) \<or> t_gen t \<noteq> im_gen (itm ru (t_item t))")
  case True
  then have "ru' = ru" using assms(3,4) by (auto simp: write_locked_def Let_def split: if_splits)
  then show ?thesis using True assms(1) by (auto simp: step_ok_refl gone_def)
next
  case no: False
  then have False: "\<not> im_closed (itm ru (t_item t))" by blast
  let ?i = "t_item t"
  let ?st = "itm ru ?i"
  obtain r ru1 where m: "(if im_f ?st = None \<and> \<not> im_closed ?st then create e now ru ?i else (Inr (), ru)) = (r, ru1)"
    by (metis prod.exhaust)
  have K: "kept ?i ru ru1"
    using m create_ok(1) [OF assms(1,2)] kept_refl [OF assms(1)] by (cases "im_f ?st = None") (auto simp: False)
  have E: "write_locked e now False ru t data hsum = (case (r, ru1) of
      (Inl err, ru1) \<Rightarrow> (False, writeFailed e now False ru1 t err)
    | (Inr _, ru1) \<Rightarrow>
        if im_closed (itm ru1 ?i) then (False, ru1)
        else (case im_f (itm ru1 ?i) of None \<Rightarrow> (False, ru1) | Some f \<Rightarrow> write_file e now False ru1 t data hsum f))"
    using assms(3) no unfolding write_locked_def Let_def m by simp
  have i: "?i < n_items ru1" "okq ru1" using kept_okq [OF K] assms(2) by simp_all
  show ?thesis
  proof (cases r)
    case (Inl err)
    then have "ru' = writeFailed e now False ru1 t err" using E assms(4) by simp
    then have "step_ok ?i ru1 ru' \<and> gone (itm ru' ?i)"
      using writeFailed_gone [OF i(2), of ru1 ?i "itm ru1 ?i"] i(1) by (simp add: same_run_def)
    then show ?thesis using K step_ok_trans unfolding kept_def by blast
  next
    case (Inr u)
    show ?thesis
    proof (cases "im_closed (itm ru1 ?i)")
      case True
      then have "ru' = ru1" using E Inr assms(4) by simp
      then show ?thesis using K True by (simp add: kept_def gone_def)
    next
      case open_: False
      have "im_f (itm ru1 ?i) \<noteq> None"
      proof (cases "im_f ?st = None")
        case True
        then show ?thesis using m False Inr create_ok(2) [OF assms(1,2)] by simp
      next
        case False
        then show ?thesis using m by auto
      qed
      then obtain f where f: "im_f (itm ru1 ?i) = Some f" by auto
      have "write_file e now False ru1 t data hsum f = (c, ru')" using E Inr open_ f assms(4) by simp
      from write_file_ok [OF i(2,1) f this]
      have W: "step_ok ?i ru1 ru'" "gone (itm ru' ?i) \<or> c \<and> same_sched (itm ru1 ?i) (itm ru' ?i)" by simp_all
      have S: "step_ok ?i ru ru'" using K W(1) step_ok_trans unfolding kept_def by blast
      have G: "gone ?st \<Longrightarrow> gone (itm ru' ?i)" using gone_stays [OF S assms(2)] False by (auto simp: gone_def)
      show ?thesis
      proof (cases "gone (itm ru1 ?i)")
        case True
        then have "gone (itm ru' ?i)" using open_ gone_stays [OF W(1) i(1)] by (auto simp: gone_def)
        then show ?thesis using S by simp
      next
        case live: False
        then have "same_sched ?st (itm ru1 ?i)" using K by (simp add: kept_def)
        then have "c \<and> same_sched ?st (itm ru' ?i) \<and> im_f (itm ru' ?i) \<noteq> None \<or> gone (itm ru' ?i)"
          using W(2) f same_sched_trans [of ?st "itm ru1 ?i" "itm ru' ?i"] by (auto simp: same_sched_def)
        then show ?thesis using S G by blast
      qed
    qed
  qed
qed


section \<open>An item that is over stays over\<close>

lemma retry_gone:
  assumes "okq ru" "t_item t < n_items ru" "gone (itm ru (t_item t))"
  shows "gone (itm (retry e now ru t bad) (t_item t))"
proof (cases "ended (itm ru (t_item t))")
  case True
  then show ?thesis using retry_ok [OF assms(1,2)] gone_stays assms(2) ended_gone by blast
next
  case False
  let ?i = "t_item t"
  define st1 where "st1 = (if bad then (itm ru ?i)\<lparr>im_attempts := (im_attempts (itm ru ?i))(t_index t := im_attempts (itm ru ?i) (t_index t) + 1)\<rparr>
    else itm ru ?i)"
  have c: "im_closed st1" "im_state st1 = im_state (itm ru ?i)" using assms(3) False by (simp_all add: st1_def gone_def)
  then have u: "step_ok ?i ru (set_itm ?i st1 ru)" using assms(3) False by (intro set_step [OF assms(1)]) (simp_all add: gone_def)
  consider (a) "retry e now ru t bad = ru"
    | (b) "retry e now ru t bad = endItem e now (set_itm ?i st1 ru) ?i ItemFailed (Some (RNeverMatched (t_index t)))"
    | (c) "retry e now ru t bad = set_itm ?i (st1\<lparr>im_retries := im_retries st1 @ [t_index t]\<rparr>) ru"
    unfolding retry_def Let_def st1_def by presburger
  then show ?thesis
  proof cases
    case a then show ?thesis using assms(3) by simp
  next
    case b then show ?thesis
      using endItem_gone [of "set_itm ?i st1 ru" ?i ItemFailed e now] u assms(2) by (simp add: step_ok_def ended_states)
  next
    case c then show ?thesis using assms(2) \<open>im_closed st1\<close> by (simp add: gone_def)
  qed
qed

lemma complete_gone:
  assumes "okq ru" "i < n_items ru" "gone (itm ru i)"
  shows "step_ok i ru (complete_item e now False ru i) \<and> gone (itm (complete_item e now False ru i) i)"
proof (cases "im_total (itm ru i) = 0 \<or> (im_total (itm ru i) = 1 \<and> im_fresh (itm ru i) ! 0) \<or> im_closed (itm ru i)")
  case True
  then show ?thesis using finish_ok [OF assms(1,2)] assms by (auto simp: complete_item_def Let_def step_ok_refl)
next
  case False
  then have e: "ended (itm ru i)" using assms(3) by (auto simp: gone_def)
  define l where "l hs = (itm ru i)\<lparr>im_local := FileDigest (e_sha e) hs\<rparr>" for hs
  have s: "step_ok i ru (set_itm i (l hs) ru)" for hs by (rule set_step [OF assms(1)]) (simp_all add: l_def)
  have g: "gone (itm (set_itm i (l hs) ru) i)" for hs using e assms(2) by (simp add: l_def gone_def)
  have a: "ask_digest ru i (FileDigest (e_sha e) hs) = set_itm i (l hs) ru" for hs
    using e by (simp add: ask_digest_def Let_def l_def)
  show ?thesis
    using False s g assms endItem_gone [OF assms(1,2), of ItemFailed e now]
    by (auto simp: complete_item_def Let_def a step_ok_refl ended_states split: option.split sum.split)
qed

lemma verified_gone:
  assumes "okq ru" "i < n_items ru" "gone (itm ru i)"
  shows "gone (itm (verified e now False ru i d) i)"
proof (cases "ended (itm ru i) \<or> d = im_local (itm ru i)")
  case True
  have v: "step_ok i ru (verified e now False ru i d)" using verified_ok [OF assms(1,2)] by blast
  from True show ?thesis
  proof
    assume "ended (itm ru i)"
    then show ?thesis using gone_stays [OF v assms(2)] ended_gone by blast
  next
    assume "d = im_local (itm ru i)"
    then show ?thesis using finish_ok [OF assms(1,2)] by (simp add: verified_def)
  qed
next
  case False
  then have "startOver e now ru i = endItem e now (set_itm i ((itm ru i)\<lparr>im_restarted := True\<rparr>) ru) i ItemFailed (Some RDigestTwice) \<or>
      startOver e now ru i = set_itm i ((itm ru i)\<lparr>im_restarted := True\<rparr>) ru"
    using assms(3) by (simp add: startOver_def Let_def gone_def)
  moreover have "step_ok i ru (set_itm i ((itm ru i)\<lparr>im_restarted := True\<rparr>) ru)"
    by (rule set_step [OF assms(1)]) simp_all
  ultimately show ?thesis
    using False assms(2,3) endItem_gone [of "set_itm i ((itm ru i)\<lparr>im_restarted := True\<rparr>) ru" i ItemFailed e now "Some RDigestTwice"]
    by (auto simp: verified_def step_ok_def ended_states gone_def)
qed

end
