(* ===== verification/Reception.thy ===== *)
theory Reception
  imports ReceiverKeep
begin

text \<open>
  A reception as a machine: the workers of \<^verbatim>\<open>worker\<close> in \<^verbatim>\<open>pkg/transfer/receiver.go\<close> take tasks from
  the scheduler, prepare them, get their answers, write and count the chunks, in any order, while
  the user pauses, resumes and skips items, connections break, and the disk changes and fails. A
  step is what the code does under one lock, so the steps of the workers interleave as they do
  there. The invariant accounts for every chunk of every item that is not over; from it, a
  reception whose workers are idle always has a task to give.
\<close>

section \<open>The machine\<close>

type_synonym sys = "run \<times> worker list"

definition idle_worker :: worker where
  "idle_worker = \<lparr>w_inflight = [], w_prep = None, w_queue = [], w_counts = [], w_completes = []\<rparr>"

text \<open>No call fails for a full disk in these runs (the operations have the answer of
  \<^verbatim>\<open>engine.IsDiskFull\<close> as an argument, here \<^const>\<open>False\<close>).\<close>

inductive reception_step :: "env \<Rightarrow> sys \<Rightarrow> sys \<Rightarrow> bool" for e where
  ask: "w < length ws \<Longrightarrow> length (w_inflight (ws ! w)) < maxInFlight \<Longrightarrow> w_prep (ws ! w) = None \<Longrightarrow>
    sched_next False ru = (GotTask t, ru') \<Longrightarrow>
    reception_step e (ru, ws)
      (ru', ws[w := if t_index t = digest_index then (ws ! w)\<lparr>w_inflight := w_inflight (ws ! w) @ [t]\<rparr>
                    else (ws ! w)\<lparr>w_prep := Some t\<rparr>])"
| nothing: "sched_next c ru = (r, ru') \<Longrightarrow> \<forall>t. r \<noteq> GotTask t \<Longrightarrow> reception_step e (ru, ws) (ru', ws)"
| prepare: "w < length ws \<Longrightarrow> w_prep (ws ! w) = Some t \<Longrightarrow> prepare_locked e now ru t = (p, ru') \<Longrightarrow>
    reception_step e (ru, ws)
      (ru', ws[w := (case p of
          Request \<Rightarrow> (ws ! w)\<lparr>w_prep := None, w_inflight := w_inflight (ws ! w) @ [t]\<rparr>
        | DoneWith \<Rightarrow> (ws ! w)\<lparr>w_prep := None\<rparr>
        | CountIt \<Rightarrow> (ws ! w)\<lparr>w_prep := None, w_counts := w_counts (ws ! w) @ [t_item t]\<rparr>)])"
| answer: "w < length ws \<Longrightarrow> w_inflight (ws ! w) = t # ts \<Longrightarrow> take_answer e now False ru t typ p = Some (ru', x) \<Longrightarrow>
    reception_step e (ru, ws)
      (ru', ws[w := (case x of None \<Rightarrow> (ws ! w)\<lparr>w_inflight := ts\<rparr>
                     | Some y \<Rightarrow> (ws ! w)\<lparr>w_inflight := ts, w_queue := w_queue (ws ! w) @ [y]\<rparr>)])"
| cut: "w < length ws \<Longrightarrow>
    reception_step e (ru, ws) (drop_tasks e now ru (w_inflight (ws ! w)), ws[w := (ws ! w)\<lparr>w_inflight := []\<rparr>])"
| store: "w < length ws \<Longrightarrow> w_queue (ws ! w) = (t, data, hsum) # xs \<Longrightarrow>
    writer_takes e now False ru (t, data, hsum) = (c, ru') \<Longrightarrow>
    reception_step e (ru, ws)
      (ru', ws[w := (if c then (ws ! w)\<lparr>w_queue := xs, w_counts := w_counts (ws ! w) @ [t_item t]\<rparr>
                     else (ws ! w)\<lparr>w_queue := xs\<rparr>)])"
| count: "w < length ws \<Longrightarrow> w_counts (ws ! w) = i # is \<Longrightarrow> countChunk ru i = (final, ru') \<Longrightarrow>
    reception_step e (ru, ws)
      (ru', ws[w := (if final then (ws ! w)\<lparr>w_counts := is, w_completes := w_completes (ws ! w) @ [i]\<rparr>
                     else (ws ! w)\<lparr>w_counts := is\<rparr>)])"
| complete: "w < length ws \<Longrightarrow> w_completes (ws ! w) = i # is \<Longrightarrow>
    reception_step e (ru, ws) (complete_item e now False ru i, ws[w := (ws ! w)\<lparr>w_completes := is\<rparr>])"
| skip: "reception_step e (ru, ws) (SkipItem e now i ru, ws)"
| pause: "reception_step e (ru, ws) (Pause ru, ws)"
| resume: "reception_step e (ru, ws) (Resume ru, ws)"
| pause_item: "reception_step e (ru, ws) (PauseItem i ru, ws)"
| resume_item: "reception_step e (ru, ws) (ResumeItem i ru, ws)"
| flush: "reception_step e (ru, ws) (flushBatch e True ru, ws)"
| disk: "reception_step e (ru, ws) (ru\<lparr>ru_os := s\<rparr>, ws)"

section \<open>The account of an item\<close>

text \<open>\<open>C\<close> are the chunks the workers hold, \<open>D\<close> the digests to ask, asked or being prepared and the
  completions, \<open>K\<close> the chunks written and not counted. A chunk scheduled is in one place only.\<close>

definition waiting :: "item \<Rightarrow> nat multiset \<Rightarrow> nat multiset" where
  "waiting st C = C + filter_mset (\<lambda>k. k \<noteq> digest_index) (mset (im_retries st))"

definition digests :: "item \<Rightarrow> nat \<Rightarrow> nat" where
  "digests st D = D + count (mset (im_retries st)) digest_index + of_bool (im_digest st)"

definition account :: "bool \<Rightarrow> item \<Rightarrow> nat multiset \<Rightarrow> nat \<Rightarrow> nat \<Rightarrow> bool" where
  "account null st C D K \<longleftrightarrow>
     sched_count st \<le> digest_index \<and> im_next st \<le> sched_count st \<and> waiting st C \<subseteq># mset [0..<im_next st] \<and>
     im_processed st + K + size (waiting st C) = im_next st \<and>
     digests st D = of_bool (im_processed st = sched_count st) \<and>
     (im_processed st + K > 0 \<longrightarrow> null \<or> im_f st \<noteq> None) \<and>
     (null \<and> im_total st > 0 \<longrightarrow> length (im_fresh st) = im_total st \<and>
        (\<forall>k < im_total st. im_fresh st ! k \<longrightarrow> k < im_next st \<and> k \<notin># waiting st C))"

lemma sched_count_simps [simp]:
  "sched_count (st\<lparr>im_digest := a\<rparr>) = sched_count st" "sched_count (st\<lparr>im_next := b\<rparr>) = sched_count st"
  "sched_count (st\<lparr>im_retries := c\<rparr>) = sched_count st" "sched_count (st\<lparr>im_fresh := d\<rparr>) = sched_count st"
  "sched_count (st\<lparr>im_processed := b\<rparr>) = sched_count st" "sched_count (start_again st) = sched_count st"
  by (simp_all add: sched_count_def start_again_def)

lemma start_again_simps [simp]:
  "im_next (start_again st) = 0" "im_processed (start_again st) = 0" "im_total (start_again st) = im_total st"
  "im_fresh (start_again st) = map (\<lambda>_. False) (im_fresh st)" "waiting (start_again st) C = C"
  "digests (start_again st) D = D + of_bool (im_digest st)" "im_gen (start_again st) = im_gen st"
  by (simp_all add: start_again_def waiting_def digests_def)

lemma sched_count_pos: "0 < sched_count st"
  by (simp add: sched_count_def)

lemma waiting_less: "account null st C D K \<Longrightarrow> k \<in># waiting st C \<Longrightarrow> k < im_next st"
  using mset_subset_eqD [of "waiting st C" "mset [0..<im_next st]" k] by (auto simp: account_def)

lemma waiting_once: "account null st C D K \<Longrightarrow> count (waiting st C) k \<le> 1"
proof -
  assume "account null st C D K"
  then have "count (waiting st C) k \<le> count (mset [0..<im_next st]) k"
    by (intro mset_subset_eq_count) (simp add: account_def)
  also have "\<dots> \<le> 1" using distinct_count_atmost_1 [of "[0..<im_next st]"] by simp
  finally show ?thesis .
qed

lemma account_cong:
  assumes "account null st C D K" "same_sched st st'" "null \<Longrightarrow> im_fresh st' = im_fresh st"
  shows "account null st' C D K"
proof -
  have "sched_count st' = sched_count st" "waiting st' C = waiting st C" "digests st' D = digests st D"
    using assms(2) by (simp_all add: same_sched_def sched_count_def waiting_def digests_def)
  then show ?thesis using assms unfolding account_def same_sched_def by auto
qed

lemma account_ask_digest:
  "account null st C D K \<Longrightarrow> im_digest st \<Longrightarrow> account null (st\<lparr>im_digest := False\<rparr>) C (Suc D) K"
  by (simp add: account_def waiting_def digests_def)

lemma account_next:
  assumes "account null st C D K" "im_next st < sched_count st"
  shows "account null (st\<lparr>im_next := Suc (im_next st)\<rparr>) (add_mset (im_next st) C) D K"
  using assms unfolding account_def waiting_def digests_def by auto

lemma account_moved:
  "account null st C D K \<Longrightarrow> waiting (st\<lparr>im_retries := rs\<rparr>) C' = waiting st C \<Longrightarrow>
   digests (st\<lparr>im_retries := rs\<rparr>) D' = digests st D \<Longrightarrow> account null (st\<lparr>im_retries := rs\<rparr>) C' D' K"
  by (simp add: account_def)

lemma account_retry:
  assumes "account null st C D K" "mset (im_retries st) = add_mset x (mset rs)"
  shows "account null (st\<lparr>im_retries := rs\<rparr>) (if x = digest_index then C else add_mset x C)
           (if x = digest_index then Suc D else D) K"
  by (rule account_moved [OF assms(1)]) (simp_all add: waiting_def digests_def assms(2))

lemma account_put_back:
  assumes "account null st (if x = digest_index then C else add_mset x C) (if x = digest_index then Suc D else D) K"
  shows "account null (st\<lparr>im_retries := im_retries st @ [x]\<rparr>) C D K"
  by (rule account_moved [OF assms]) (simp_all add: waiting_def digests_def)

lemma account_counting:
  assumes "account null st (add_mset x C) D K" "null \<or> im_f st \<noteq> None"
  shows "account null st C D (Suc K)"
  using assms subset_mset.order_trans [of "waiting st C" "waiting st (add_mset x C)"]
  unfolding account_def waiting_def digests_def by auto

lemma account_fresh:
  assumes "account True st (add_mset x C) D K"
  shows "account True (st\<lparr>im_fresh := (im_fresh st)[x := True]\<rparr>) C D (Suc K)"
proof -
  have a: "account True st C D (Suc K)" by (rule account_counting [OF assms]) simp
  have x: "x < im_next st" using waiting_less [OF assms, of x] by (simp add: waiting_def)
  have "waiting st (add_mset x C) = add_mset x (waiting st C)" by (simp add: waiting_def)
  then have "count (waiting st C) x = 0" using waiting_once [OF assms, of x] by simp
  then have n: "x \<notin># waiting st C" by (simp add: not_in_iff)
  have w: "waiting (st\<lparr>im_fresh := l\<rparr>) C = waiting st C" "digests (st\<lparr>im_fresh := l\<rparr>) D = digests st D" for l
    by (simp_all add: waiting_def digests_def)
  have f: "(im_fresh st)[x := True] ! k \<Longrightarrow> k = x \<or> im_fresh st ! k" for k
    by (cases "x < length (im_fresh st)") (auto simp: nth_list_update list_update_beyond split: if_splits)
  have old: "im_total st > 0 \<Longrightarrow> length (im_fresh st) = im_total st \<and>
      (\<forall>k < im_total st. im_fresh st ! k \<longrightarrow> k < im_next st \<and> k \<notin># waiting st C)"
    using a by (simp add: account_def)
  have "\<forall>k < im_total st. (im_fresh st)[x := True] ! k \<longrightarrow> k < im_next st \<and> k \<notin># waiting st C" if "im_total st > 0"
    using f x n old [OF that] by blast
  then show ?thesis using a by (simp add: account_def w)
qed

lemma account_count:
  assumes "account null st C D (Suc K)"
  shows "account null (st\<lparr>im_processed := im_processed st + 1\<rparr>) C
    (if im_processed st + 1 = sched_count st then Suc D else D) K"
proof -
  have "im_processed st \<noteq> sched_count st" using assms unfolding account_def by auto
  then show ?thesis using assms unfolding account_def waiting_def digests_def by auto
qed

lemma account_completed:
  assumes "account null st C (Suc D) K"
  shows "null \<or> im_f st \<noteq> None" "account null (st\<lparr>im_digest := True\<rparr>) C D K" "account null (start_again st) C D K"
proof -
  have d: "digests st (Suc D) = of_bool (im_processed st = sched_count st)" using assms by (simp add: account_def)
  have p: "im_processed st = sched_count st" by (rule ccontr) (use d in \<open>simp add: digests_def\<close>)
  then have p: "im_processed st = sched_count st" "\<not> im_digest st" "D = 0" "digest_index \<notin># mset (im_retries st)"
    using d by (simp_all add: digests_def not_in_iff split: if_splits)
  show "null \<or> im_f st \<noteq> None" using assms p(1) sched_count_pos [of st] unfolding account_def by auto
  show "account null (st\<lparr>im_digest := True\<rparr>) C D K"
    using assms p unfolding account_def waiting_def digests_def by auto
  have "im_processed st + K + size (waiting st C) = im_next st" "im_next st \<le> sched_count st"
    using assms by (simp_all add: account_def)
  then have "K + size (waiting st C) = 0" using p(1) by linarith
  then have z: "K = 0" "waiting st C = {#}" by simp_all
  then have "C = {#}" "filter_mset (\<lambda>k. k \<noteq> digest_index) (mset (im_retries st)) = {#}" by (simp_all add: waiting_def)
  then show "account null (start_again st) C D K"
    using assms p(2,3) z(1) sched_count_pos [of st] by (simp add: account_def)
qed

section \<open>What the scheduler picks\<close>

lemma min_at_spec:
  assumes "xs \<noteq> []"
  shows "min_at xs < length xs \<and> (\<forall>k < length xs. xs ! min_at xs \<le> xs ! k)"
proof -
  have "let m = foldl (\<lambda>m k. if xs ! k < xs ! m then k else m) 0 [0..<n]
    in m < length xs \<and> (\<forall>k < n. xs ! m \<le> xs ! k)" if "n \<le> length xs" for n
    using that
  proof (induction n)
    case 0
    then show ?case using assms by simp
  next
    case (Suc n)
    then show ?case by (auto simp: Let_def less_Suc_eq intro: order.trans less_imp_le)
  qed
  from this [of "length xs"] show ?thesis by (simp add: min_at_def Let_def)
qed

lemma mset_remove_nth: "m < length xs \<Longrightarrow> mset xs = add_mset (xs ! m) (mset (take m xs @ drop (Suc m) xs))"
  by (metis id_take_nth_drop mset_append mset.simps(2) union_mset_add_mset_right)

text \<open>What an item can be asked for now: its digest, the smallest index to retry, its next chunk.\<close>

definition pick :: "item \<Rightarrow> (nat \<times> item) option" where
  "pick st =
     (if im_digest st then Some (digest_index, st\<lparr>im_digest := False\<rparr>)
      else if im_retries st \<noteq> []
      then (let m = min_at (im_retries st) in
            Some (im_retries st ! m, st\<lparr>im_retries := take m (im_retries st) @ drop (Suc m) (im_retries st)\<rparr>))
      else if im_next st < sched_count st then Some (im_next st, st\<lparr>im_next := im_next st + 1\<rparr>)
      else None)"

definition low_ok :: "run \<Rightarrow> nat \<Rightarrow> bool" where
  "low_ok ru l \<longleftrightarrow> (\<forall>j < l. ended (itm ru j)) \<and> l \<le> n_items ru"

text \<open>The item asked is the first of the list that is neither over nor paused and has something.\<close>

definition passed :: "run \<Rightarrow> nat \<Rightarrow> bool" where
  "passed ru j \<longleftrightarrow> ended (itm ru j) \<or> j \<in> ru_pausedItems ru \<or> pick (itm ru j) = None"

definition picked :: "run \<Rightarrow> nat list \<Rightarrow> task option \<Rightarrow> run \<Rightarrow> bool" where
  "picked ru is r ru' \<longleftrightarrow> (\<exists>l. low_ok ru l \<and>
    (case r of
       None \<Rightarrow> ru' = ru\<lparr>ru_low := l\<rparr> \<and> (\<forall>j \<in> set is. passed ru j)
     | Some t \<Rightarrow> \<exists>as bs st'. is = as @ t_item t # bs \<and> (\<forall>j \<in> set as. passed ru j) \<and>
         \<not> ended (itm ru (t_item t)) \<and> t_item t \<notin> ru_pausedItems ru \<and>
         pick (itm ru (t_item t)) = Some (t_index t, st') \<and> t_gen t = im_gen (itm ru (t_item t)) \<and>
         ru' = ru\<lparr>ru_low := l, ru_items := (ru_items ru)[t_item t := st']\<rparr>))"

lemma picked_cons: "passed ru i \<Longrightarrow> picked ru is r ru' \<Longrightarrow> picked ru (i # is) r ru'"
proof -
  assume i: "passed ru i" and "picked ru is r ru'"
  then obtain l where l: "low_ok ru l \<and>
    (case r of
       None \<Rightarrow> ru' = ru\<lparr>ru_low := l\<rparr> \<and> (\<forall>j \<in> set is. passed ru j)
     | Some t \<Rightarrow> \<exists>as bs st'. is = as @ t_item t # bs \<and> (\<forall>j \<in> set as. passed ru j) \<and>
         \<not> ended (itm ru (t_item t)) \<and> t_item t \<notin> ru_pausedItems ru \<and>
         pick (itm ru (t_item t)) = Some (t_index t, st') \<and> t_gen t = im_gen (itm ru (t_item t)) \<and>
         ru' = ru\<lparr>ru_low := l, ru_items := (ru_items ru)[t_item t := st']\<rparr>)" unfolding picked_def by blast
  show "picked ru (i # is) r ru'"
  proof (cases r)
    case None
    then show ?thesis using l i unfolding picked_def by auto
  next
    case (Some t)
    then obtain as bs st' where "is = as @ t_item t # bs" "\<forall>j \<in> set as. passed ru j"
      and rest: "\<not> ended (itm ru (t_item t)) \<and> t_item t \<notin> ru_pausedItems ru \<and>
         pick (itm ru (t_item t)) = Some (t_index t, st') \<and> t_gen t = im_gen (itm ru (t_item t)) \<and>
         ru' = ru\<lparr>ru_low := l, ru_items := (ru_items ru)[t_item t := st']\<rparr>" using l by auto
    then have "i # is = (i # as) @ t_item t # bs" "\<forall>j \<in> set (i # as). passed ru j" using i by simp_all
    then show ?thesis unfolding picked_def Some option.case using l rest by blast
  qed
qed

lemma picked_low: "picked (ru\<lparr>ru_low := l\<rparr>) is r ru' = picked ru is r ru'"
proof -
  have "low_ok (ru\<lparr>ru_low := l\<rparr>) = low_ok ru" "passed (ru\<lparr>ru_low := l\<rparr>) = passed ru"
    by (simp_all add: low_ok_def passed_def fun_eq_iff)
  then show ?thesis by (cases r) (simp_all add: picked_def)
qed

lemma next_loop_spec:
  "low_ok ru (ru_low ru) \<Longrightarrow> \<forall>i \<in> set is. i < n_items ru \<Longrightarrow> next_loop ru is = (r, ru') \<Longrightarrow> picked ru is r ru'"
proof (induction ru "is" rule: next_loop.induct)
  case (1 ru)
  then show ?case by (auto simp: picked_def intro!: exI [of _ "ru_low ru"])
next
  case (2 ru i "is")
  let ?st = "itm ru i"
  consider (e) "ended ?st" | (p) "\<not> ended ?st" "i \<in> ru_pausedItems ru"
    | (n) "\<not> ended ?st" "i \<notin> ru_pausedItems ru" "pick ?st = None"
    | (s) x st' where "\<not> ended ?st" "i \<notin> ru_pausedItems ru" "pick ?st = Some (x, st')"
    by (cases "pick ?st") auto
  then show ?case
  proof cases
    case e
    let ?ru = "if i = ru_low ru then ru\<lparr>ru_low := ru_low ru + 1\<rparr> else ru"
    have "low_ok ?ru (ru_low ?ru)" using "2.prems"(1,2) e by (auto simp: low_ok_def less_Suc_eq)
    moreover have "next_loop ?ru is = (r, ru')" using "2.prems"(3) e by (simp add: Let_def)
    ultimately have "picked ?ru is r ru'" using "2.IH"(1) [OF refl e] "2.prems"(2) by simp
    then have "picked ru is r ru'" by (simp add: picked_low split: if_splits)
    then show ?thesis using e by (intro picked_cons) (simp_all add: passed_def)
  next
    case p
    then have "picked ru is r ru'" using "2.IH"(2) [OF refl p] "2.prems" by simp
    then show ?thesis using p by (intro picked_cons) (simp_all add: passed_def)
  next
    case n
    then have c: "\<not> im_digest ?st" "\<not> im_retries ?st \<noteq> []" "\<not> im_next ?st < sched_count ?st"
      by (auto simp: pick_def Let_def split: if_splits)
    then have "next_loop ru (i # is) = next_loop ru is" using n(1,2) by (simp add: Let_def)
    then have "picked ru is r ru'" using "2.IH"(3) [OF refl n(1,2) c] "2.prems" by simp
    then show ?thesis using n by (intro picked_cons) (simp_all add: passed_def)
  next
    case s
    have "next_loop ru (i # is) = (Some \<lparr>t_item = i, t_index = x, t_gen = im_gen ?st\<rparr>, set_itm i st' ru)"
      using s by (auto simp: pick_def Let_def split: if_splits)
    then have "r = Some \<lparr>t_item = i, t_index = x, t_gen = im_gen ?st\<rparr>" "ru' = set_itm i st' ru"
      using "2.prems"(3) by simp_all
    then show ?thesis using s "2.prems"(1)
      by (simp add: picked_def) (rule exI [of _ "ru_low ru"], simp, rule exI [of _ "[]"], simp)
  qed
qed

end
