(* ===== verification/ReceptionInv.thy ===== *)
theory ReceptionInv
  imports Reception
begin

text \<open>
  The invariant of a reception, kept by every step: the run is in order, and every item that is not
  over has its chunks accounted for. Then the properties of the machine.
\<close>

section \<open>What the workers hold\<close>

definition tasks :: "worker \<Rightarrow> task list" where
  "tasks k = w_inflight k @ (case w_prep k of None \<Rightarrow> [] | Some t \<Rightarrow> [t]) @ map fst (w_queue k)"

definition chunk_tasks :: "nat \<Rightarrow> worker \<Rightarrow> nat multiset" where
  "chunk_tasks i k = {# t_index t. t \<in># filter_mset (\<lambda>t. t_item t = i \<and> t_index t \<noteq> digest_index) (mset (tasks k)) #}"

definition digest_tasks :: "nat \<Rightarrow> worker \<Rightarrow> nat" where
  "digest_tasks i k = size (filter_mset (\<lambda>t. t_item t = i \<and> t_index t = digest_index) (mset (tasks k)))
     + count (mset (w_completes k)) i"

definition to_count :: "nat \<Rightarrow> worker \<Rightarrow> nat" where
  "to_count i k = count (mset (w_counts k)) i"

definition sum_over :: "('a \<Rightarrow> 'b :: comm_monoid_add) \<Rightarrow> 'a list \<Rightarrow> 'b" where
  "sum_over f ws = sum_list (map f ws)"

definition sum_others :: "('a \<Rightarrow> 'b :: comm_monoid_add) \<Rightarrow> nat \<Rightarrow> 'a list \<Rightarrow> 'b" where
  "sum_others f w ws = sum_over f (take w ws) + sum_over f (drop (Suc w) ws)"

lemma sum_over_at:
  assumes "w < length ws"
  shows "sum_over f ws = sum_others f w ws + f (ws ! w)" "sum_over f (ws[w := k]) = sum_others f w ws + f k"
proof -
  have "sum_over f ws = sum_over f (take w ws @ ws ! w # drop (Suc w) ws)" using id_take_nth_drop [OF assms] by simp
  then show "sum_over f ws = sum_others f w ws + f (ws ! w)" by (simp add: sum_over_def sum_others_def ac_simps)
  show "sum_over f (ws[w := k]) = sum_others f w ws + f k"
    using assms by (simp add: upd_conv_take_nth_drop sum_over_def sum_others_def ac_simps)
qed

definition worker_ok :: "nat \<Rightarrow> worker \<Rightarrow> bool" where
  "worker_ok n k \<longleftrightarrow> (\<forall>t \<in> set (tasks k). t_item t < n) \<and> (\<forall>i \<in> set (w_counts k @ w_completes k). i < n) \<and>
     (\<forall>t. w_prep k = Some t \<longrightarrow> t_index t \<noteq> digest_index) \<and> (\<forall>x \<in> set (w_queue k). t_index (fst x) \<noteq> digest_index)"

definition gens_ok :: "nat \<Rightarrow> item \<Rightarrow> worker \<Rightarrow> bool" where
  "gens_ok i st k \<longleftrightarrow> (\<forall>t \<in> set (tasks k). t_item t = i \<longrightarrow> t_gen t = im_gen st)"

definition item_ok :: "run \<Rightarrow> worker list \<Rightarrow> nat \<Rightarrow> bool" where
  "item_ok ru ws i \<longleftrightarrow> gone (itm ru i) \<or>
     (account (r_Sink (ru_r ru) = SinkNull) (itm ru i) (sum_over (chunk_tasks i) ws) (sum_over (digest_tasks i) ws)
        (sum_over (to_count i) ws) \<and> (\<forall>k \<in> set ws. gens_ok i (itm ru i) k))"

definition reception_inv :: "sys \<Rightarrow> bool" where
  "reception_inv s = (case s of (ru, ws) \<Rightarrow>
     okq ru \<and> (\<forall>k \<in> set ws. worker_ok (n_items ru) k) \<and> (\<forall>i < n_items ru. item_ok ru ws i))"

section \<open>A step on one item by one worker\<close>

definition same_work :: "nat \<Rightarrow> worker \<Rightarrow> worker \<Rightarrow> bool" where
  "same_work j k k' \<longleftrightarrow> chunk_tasks j k' = chunk_tasks j k \<and> digest_tasks j k' = digest_tasks j k \<and>
     to_count j k' = to_count j k \<and> (\<forall>t \<in> set (tasks k'). t_item t = j \<longrightarrow> t \<in> set (tasks k))"

text \<open>What has to be shown for the item: it is over, or its account moves with the worker's.\<close>

definition moves :: "bool \<Rightarrow> nat \<Rightarrow> item \<Rightarrow> item \<Rightarrow> worker \<Rightarrow> worker \<Rightarrow> bool" where
  "moves null i st st' k k' \<longleftrightarrow> im_gen st' = im_gen st \<and> (gens_ok i st k \<longrightarrow> gens_ok i st k') \<and>
     (\<forall>C D K. account null st (C + chunk_tasks i k) (D + digest_tasks i k) (K + to_count i k) \<longrightarrow>
              account null st' (C + chunk_tasks i k') (D + digest_tasks i k') (K + to_count i k'))"

lemma gone_step:
  assumes "others {i} ru ru'" "j < n_items ru" "j \<noteq> i" "gone (itm ru j)"
  shows "gone (itm ru' j)"
proof -
  have "itm ru' j = itm ru j \<or> ended (itm ru' j)" using assms(1,3) by (simp add: others_def)
  then show ?thesis using assms(4) by (auto simp: gone_def)
qed

lemma step_inv:
  assumes inv: "reception_inv (ru, ws)" and w: "w < length ws" and s: "step_ok i ru ru'"
    and k': "worker_ok (n_items ru) k'" "\<forall>j. j \<noteq> i \<longrightarrow> same_work j (ws ! w) k'"
    and i: "i < n_items ru \<Longrightarrow> \<not> gone (itm ru i) \<Longrightarrow>
      gone (itm ru' i) \<or> moves (r_Sink (ru_r ru) = SinkNull) i (itm ru i) (itm ru' i) (ws ! w) k'"
    and gi: "i < n_items ru \<Longrightarrow> gone (itm ru i) \<Longrightarrow> gone (itm ru' i)"
  shows "reception_inv (ru', ws[w := k'])"
proof -
  have n: "n_items ru' = n_items ru" "ru_r ru' = ru_r ru" using s by (simp_all add: step_ok_def others_def)
  have "\<forall>k \<in> set (ws[w := k']). worker_ok (n_items ru') k"
    using inv k'(1) set_update_subset_insert [of ws w k'] by (auto simp: reception_inv_def n)
  moreover have "item_ok ru' (ws[w := k']) j" if j: "j < n_items ru" for j
  proof (cases "gone (itm ru' j)")
    case True
    then show ?thesis by (simp add: item_ok_def)
  next
    case live: False
    let ?null = "r_Sink (ru_r ru) = SinkNull"
    have old: "\<not> gone (itm ru j)" using live gi gone_step [of i ru ru' j] s j by (cases "j = i") (auto simp: step_ok_def)
    then have a: "account ?null (itm ru j) (sum_others (chunk_tasks j) w ws + chunk_tasks j (ws ! w))
        (sum_others (digest_tasks j) w ws + digest_tasks j (ws ! w)) (sum_others (to_count j) w ws + to_count j (ws ! w))"
      and g: "\<forall>k \<in> set ws. gens_ok j (itm ru j) k"
      using inv j by (auto simp: reception_inv_def item_ok_def sum_over_at [OF w])
    have "moves ?null j (itm ru j) (itm ru' j) (ws ! w) k'"
    proof (cases "j = i")
      case True
      then show ?thesis using i live j old by blast
    next
      case False
      then have "itm ru' j = itm ru j" using s live ended_gone by (auto simp: step_ok_def others_def)
      then show ?thesis using k'(2) False by (auto simp: moves_def same_work_def gens_ok_def)
    qed
    then show ?thesis
      using a g w set_update_subset_insert [of ws w k'] nth_mem [OF w]
      by (auto simp: item_ok_def sum_over_at [OF w] moves_def gens_ok_def n)
  qed
  ultimately show ?thesis using s n by (simp add: reception_inv_def step_ok_def)
qed


lemma run_inv:
  assumes "reception_inv (ru, ws)" "okq ru'" "n_items ru' = n_items ru" "ru_r ru' = ru_r ru"
    "\<forall>j < n_items ru. gone (itm ru' j) \<or> itm ru' j = itm ru j"
  shows "reception_inv (ru', ws)"
proof -
  have "item_ok ru' ws j" if j: "j < n_items ru" for j
  proof (cases "gone (itm ru' j)")
    case True
    then show ?thesis by (simp add: item_ok_def)
  next
    case False
    then have "itm ru' j = itm ru j" using assms(5) j by blast
    moreover have "item_ok ru ws j" using assms(1) j by (simp add: reception_inv_def)
    ultimately show ?thesis using assms(4) by (simp add: item_ok_def)
  qed
  then show ?thesis using assms(1-3) unfolding reception_inv_def by simp
qed

section \<open>The work of a worker\<close>

text \<open>\<open>k\<close> holds what \<open>k'\<close> holds and the task \<open>t\<close>.\<close>

definition one_more :: "task \<Rightarrow> worker \<Rightarrow> worker \<Rightarrow> bool" where
  "one_more t k k' \<longleftrightarrow> mset (tasks k) = add_mset t (mset (tasks k'))"

lemma one_more_tasks:
  assumes "one_more t k k'"
  shows "chunk_tasks j k = (if t_item t = j \<and> t_index t \<noteq> digest_index then add_mset (t_index t) (chunk_tasks j k') else chunk_tasks j k')"
    "w_completes k' = w_completes k \<Longrightarrow> digest_tasks j k = (if t_item t = j \<and> t_index t = digest_index then Suc (digest_tasks j k') else digest_tasks j k')"
    "set (tasks k) = insert t (set (tasks k'))"
  using assms arg_cong [of _ _ set_mset] by (auto simp: one_more_def chunk_tasks_def digest_tasks_def set_mset_mset [symmetric] simp del: set_mset_mset)

lemma same_tasks:
  assumes "mset (tasks k') = mset (tasks k)"
  shows "chunk_tasks j k' = chunk_tasks j k" "w_completes k' = w_completes k \<Longrightarrow> digest_tasks j k' = digest_tasks j k"
    "set (tasks k') = set (tasks k)"
  using assms mset_eq_setD [OF assms] by (simp_all add: chunk_tasks_def digest_tasks_def)

lemma same_work_refl: "mset (tasks k') = mset (tasks k) \<Longrightarrow> w_completes k' = w_completes k \<Longrightarrow> w_counts k' = w_counts k \<Longrightarrow>
    same_work j k k'"
  using same_tasks [of k' k] by (simp add: same_work_def to_count_def)

lemma same_work_more:
  "one_more t k k' \<Longrightarrow> j \<noteq> t_item t \<Longrightarrow> w_completes k' = w_completes k \<Longrightarrow>
   count (mset (w_counts k')) j = count (mset (w_counts k)) j \<Longrightarrow> same_work j k k'"
  using one_more_tasks [of t k k'] by (simp add: same_work_def to_count_def)

lemma same_work_less:
  "one_more t k' k \<Longrightarrow> j \<noteq> t_item t \<Longrightarrow> w_completes k' = w_completes k \<Longrightarrow> w_counts k' = w_counts k \<Longrightarrow> same_work j k k'"
  using one_more_tasks [of t k' k] by (auto simp: same_work_def to_count_def)

text \<open>The account of the item of a task moves with it.\<close>

lemma moves_same:
  assumes "same_sched st st'" "null \<longrightarrow> im_fresh st' = im_fresh st" "same_work i k k'"
  shows "moves null i st st' k k'"
  using assms account_cong [of null st _ _ _ st'] by (auto simp: moves_def same_work_def gens_ok_def same_sched_def)

lemma moves_pick:
  assumes "pick st = Some (t_index t, st')" "t_item t = i" "t_gen t = im_gen st" "one_more t k' k"
    "w_completes k' = w_completes k" "w_counts k' = w_counts k"
  shows "moves null i st st' k k'"
proof -
  note o = one_more_tasks [OF assms(4)] 
  have a: "account null st C D K \<Longrightarrow> account null st' (if t_index t = digest_index then C else add_mset (t_index t) C)
      (if t_index t = digest_index then Suc D else D) K" for C D K
  proof -
    assume A: "account null st C D K"
    consider (d) "im_digest st" | (r) "\<not> im_digest st" "im_retries st \<noteq> []" | (n) "\<not> im_digest st" "im_retries st = []" by blast
    then show ?thesis
    proof cases
      case d
      then show ?thesis using A assms(1) account_ask_digest by (auto simp: pick_def)
    next
      case r
      let ?m = "min_at (im_retries st)"
      have e: "t_index t = im_retries st ! ?m" "st' = st\<lparr>im_retries := take ?m (im_retries st) @ drop (Suc ?m) (im_retries st)\<rparr>"
        using r assms(1) by (simp_all add: pick_def Let_def)
      show ?thesis unfolding e by (rule account_retry [OF A mset_remove_nth [OF conjunct1 [OF min_at_spec [OF r(2)]]]])
    next
      case n
      then have n: "im_next st < sched_count st" "t_index t = im_next st" "st' = st\<lparr>im_next := im_next st + 1\<rparr>"
        using assms(1) by (auto simp: pick_def split: if_splits)
      moreover have "t_index t \<noteq> digest_index" using n A by (auto simp: account_def)
      ultimately show ?thesis using account_next [OF A n(1)] by simp
    qed
  qed
  have g: "im_gen st' = im_gen st" using assms(1) by (auto simp: pick_def Let_def split: if_splits)
  show ?thesis unfolding moves_def
  proof (intro conjI impI allI)
    fix C D K assume "account null st (C + chunk_tasks i k) (D + digest_tasks i k) (K + to_count i k)"
    from a [OF this] show "account null st' (C + chunk_tasks i k') (D + digest_tasks i k') (K + to_count i k')"
      using assms(2,5,6) o by (simp add: to_count_def split: if_splits)
  qed (use g o assms(2,3) in \<open>auto simp: gens_ok_def\<close>)
qed

lemma moves_back:
  assumes "same_sched (st\<lparr>im_retries := im_retries st @ [t_index t]\<rparr>) st'" "im_fresh st' = im_fresh st" "t_item t = i"
    "one_more t k k'" "w_completes k' = w_completes k" "w_counts k' = w_counts k"
  shows "moves null i st st' k k'"
proof -
  note o = one_more_tasks [OF assms(4)]
  show ?thesis unfolding moves_def
  proof (intro conjI impI allI)
    fix C D K assume "account null st (C + chunk_tasks i k) (D + digest_tasks i k) (K + to_count i k)"
    then have "account null st (if t_index t = digest_index then C + chunk_tasks i k' else add_mset (t_index t) (C + chunk_tasks i k'))
        (if t_index t = digest_index then Suc (D + digest_tasks i k') else D + digest_tasks i k') (K + to_count i k')"
      using assms(3,5,6) o by (simp add: to_count_def split: if_splits)
    from account_put_back [OF this] show "account null st' (C + chunk_tasks i k') (D + digest_tasks i k') (K + to_count i k')"
      using account_cong assms(1,2) by simp
  qed (use assms o in \<open>auto simp: gens_ok_def same_sched_def\<close>)
qed

lemma moves_counting:
  assumes "same_sched st st'" "null \<or> im_f st' \<noteq> None" "t_item t = i" "t_index t \<noteq> digest_index"
    "null \<longrightarrow> im_fresh st' = im_fresh st \<or> im_fresh st' = (im_fresh st)[t_index t := True]"
    "one_more t k k'" "w_completes k' = w_completes k" "mset (w_counts k') = add_mset i (mset (w_counts k))"
  shows "moves null i st st' k k'"
proof -
  note o = one_more_tasks [OF assms(6)]
  have a: "account null st' C D (Suc K)" if A: "account null st (add_mset (t_index t) C) D K" for C D K
  proof (cases "null \<and> im_fresh st' \<noteq> im_fresh st")
    case True
    then have "account True (st\<lparr>im_fresh := (im_fresh st)[t_index t := True]\<rparr>) C D (Suc K)"
      using account_fresh A by simp
    then show ?thesis using account_cong [of True _ C D "Suc K" st'] assms(1,5) True by (simp add: same_sched_def)
  next
    case False
    then show ?thesis using account_counting account_cong [OF A assms(1)] assms(2) by blast
  qed
  show ?thesis unfolding moves_def
  proof (intro conjI impI allI)
    fix C D K assume "account null st (C + chunk_tasks i k) (D + digest_tasks i k) (K + to_count i k)"
    then have "account null st (add_mset (t_index t) (C + chunk_tasks i k')) (D + digest_tasks i k') (K + to_count i k)"
      using assms(3,4,7) o by simp
    from a [OF this] show "account null st' (C + chunk_tasks i k') (D + digest_tasks i k') (K + to_count i k')"
      using assms(8) by (simp add: to_count_def)
  qed (use assms o in \<open>auto simp: gens_ok_def same_sched_def\<close>)
qed

lemma moves_count:
  assumes "st' = st\<lparr>im_processed := im_processed st + 1\<rparr>" "tasks k' = tasks k"
    "mset (w_counts k) = add_mset i (mset (w_counts k'))"
    "mset (w_completes k') = (if im_processed st + 1 = sched_count st then add_mset i (mset (w_completes k)) else mset (w_completes k))"
  shows "moves null i st st' k k'"
  unfolding moves_def
proof (intro conjI impI allI)
  fix C D K assume "account null st (C + chunk_tasks i k) (D + digest_tasks i k) (K + to_count i k)"
  then have "account null st (C + chunk_tasks i k') (D + digest_tasks i k) (Suc (K + to_count i k'))"
    using assms(2,3) by (simp add: chunk_tasks_def to_count_def)
  from account_count [OF this] show "account null st' (C + chunk_tasks i k') (D + digest_tasks i k') (K + to_count i k')"
    using assms(1,2,4) by (simp add: digest_tasks_def split: if_splits)
qed (use assms in \<open>auto simp: gens_ok_def\<close>)

lemma moves_completed:
  assumes "same_sched (st\<lparr>im_digest := True\<rparr>) st' \<and> im_fresh st' = im_fresh st \<or> st' = start_again st"
    "chunk_tasks i k' = chunk_tasks i k" "digest_tasks i k = Suc (digest_tasks i k')" "to_count i k' = to_count i k"
    "set (tasks k') \<subseteq> set (tasks k)"
  shows "moves null i st st' k k'"
  unfolding moves_def
proof (intro conjI impI allI)
  fix C D K assume "account null st (C + chunk_tasks i k) (D + digest_tasks i k) (K + to_count i k)"
  then have "account null st (C + chunk_tasks i k') (Suc (D + digest_tasks i k')) (K + to_count i k')"
    using assms(2-4) by simp
  from account_completed(2,3) [OF this] assms(1) 
  show "account null st' (C + chunk_tasks i k') (D + digest_tasks i k') (K + to_count i k')"
    using account_cong [of null "st\<lparr>im_digest := True\<rparr>" _ _ _ st'] by auto
qed (use assms in \<open>auto simp: gens_ok_def same_sched_def\<close>)


section \<open>Every step keeps the invariant\<close>

lemma inv_okq: "reception_inv (ru, ws) \<Longrightarrow> okq ru"
  by (simp add: reception_inv_def)

lemma inv_worker: "reception_inv (ru, ws) \<Longrightarrow> w < length ws \<Longrightarrow> worker_ok (n_items ru) (ws ! w)"
  by (simp add: reception_inv_def)

lemma inv_low: "reception_inv (ru, ws) \<Longrightarrow> low_ok ru (ru_low ru)"
  by (simp add: reception_inv_def okq_def run_ok_def low_ok_def)

lemma inv_gen: "reception_inv (ru, ws) \<Longrightarrow> w < length ws \<Longrightarrow> i < n_items ru \<Longrightarrow> \<not> gone (itm ru i) \<Longrightarrow>
    gens_ok i (itm ru i) (ws ! w)"
  by (auto simp: reception_inv_def item_ok_def)

lemma inv_account:
  assumes "reception_inv (ru, ws)" "w < length ws" "i < n_items ru" "\<not> gone (itm ru i)"
  shows "\<exists>C D K. account (r_Sink (ru_r ru) = SinkNull) (itm ru i) (C + chunk_tasks i (ws ! w)) (D + digest_tasks i (ws ! w))
           (K + to_count i (ws ! w))"
proof -
  have "item_ok ru ws i" using assms by (simp add: reception_inv_def)
  then show ?thesis using assms(4) unfolding item_ok_def sum_over_at(1) [OF assms(2)] by blast
qed

lemma low_step: "okq ru \<Longrightarrow> low_ok ru l \<Longrightarrow> okq (ru\<lparr>ru_low := l\<rparr>)"
proof -
  have "batch_shape (ru\<lparr>ru_low := l\<rparr>) = batch_shape ru" by (simp add: batch_shape_def split: option.splits)
  then show "okq ru \<Longrightarrow> low_ok ru l \<Longrightarrow> okq (ru\<lparr>ru_low := l\<rparr>)"
    by (auto simp: okq_def run_ok_def quiet_def onlyBatchedLeft_def low_ok_def)
qed

lemma pick_keeps: "pick st = Some (x, st') \<Longrightarrow> im_state st' = im_state st \<and> im_closed st' = im_closed st"
  by (auto simp: pick_def Let_def split: if_splits)

lemma sched_next_picked:
  assumes "reception_inv (ru, ws)" "sched_next c ru = (r, ru')"
  shows "(\<exists>r'. picked ru [ru_low ru..<n_items ru] r' ru' \<and> r = (case r' of None \<Rightarrow> NothingNow | Some t \<Rightarrow> GotTask t)) \<or>
    ru' = ru \<and> (r = AllEnded \<and> (c \<or> ru_ended ru = n_items ru) \<or> r = NothingNow \<and> ru_paused ru)"
proof (cases "ru_ended ru = n_items ru \<or> c \<or> ru_paused ru")
  case True
  then show ?thesis using assms(2) by (auto simp: sched_next_def split: if_splits)
next
  case False
  obtain r' ru1 where l: "next_loop ru [ru_low ru..<n_items ru] = (r', ru1)" by (metis prod.exhaust)
  then have "picked ru [ru_low ru..<n_items ru] r' ru1"
    using next_loop_spec [OF inv_low [OF assms(1)]] by simp
  moreover have "ru' = ru1" "r = (case r' of None \<Rightarrow> NothingNow | Some t \<Rightarrow> GotTask t)"
    using False assms(2) l by (cases r'; simp add: sched_next_def)+
  ultimately show ?thesis by blast
qed

lemma picked_None_inv:
  assumes "reception_inv (ru, ws)" "picked ru is None ru'"
  shows "reception_inv (ru', ws)"
  using assms low_step [OF inv_okq [OF assms(1)]] by (auto simp: picked_def intro!: run_inv [OF assms(1)])

lemma picked_Some:
  assumes "okq ru" "picked ru is (Some t) ru'" "\<forall>i \<in> set is. i < n_items ru"
  shows "step_ok (t_item t) ru ru' \<and> t_item t < n_items ru \<and> \<not> ended (itm ru (t_item t)) \<and> t_gen t = im_gen (itm ru (t_item t)) \<and>
    pick (itm ru (t_item t)) = Some (t_index t, itm ru' (t_item t))"
proof -
  obtain l as bs st' where l: "low_ok ru l" and p: "is = as @ t_item t # bs" "\<not> ended (itm ru (t_item t))"
    "pick (itm ru (t_item t)) = Some (t_index t, st')" "t_gen t = im_gen (itm ru (t_item t))"
    and ru': "ru' = ru\<lparr>ru_low := l, ru_items := (ru_items ru)[t_item t := st']\<rparr>"
    using assms(2) by (auto simp: picked_def)
  have i: "t_item t < n_items ru" using p(1) assms(3) by simp
  let ?ru = "ru\<lparr>ru_low := l\<rparr>"
  have st: "im_state st' = im_state (itm ru (t_item t))" "im_closed st' = im_closed (itm ru (t_item t))"
    using pick_keeps [OF p(3)] by simp_all
  have "step_ok (t_item t) ?ru ru'"
    by (rule update_step [OF low_step [OF assms(1) l], where st = st']) (simp_all add: ru' st same_run_def)
  then have "step_ok (t_item t) ru ru'" by (simp add: step_ok_def others_def)
  then show ?thesis using p i ru' by simp
qed

lemma ask_inv:
  assumes "reception_inv (ru, ws)" "w < length ws" "sched_next False ru = (GotTask t, ru')" "w_prep (ws ! w) = None"
  shows "reception_inv (ru', ws[w := if t_index t = digest_index then (ws ! w)\<lparr>w_inflight := w_inflight (ws ! w) @ [t]\<rparr>
                    else (ws ! w)\<lparr>w_prep := Some t\<rparr>])" (is "reception_inv (ru', ws[w := ?k])")
proof -
  have "picked ru [ru_low ru..<n_items ru] (Some t) ru'"
    using sched_next_picked [OF assms(1,3)] by (auto split: option.splits)
  from picked_Some [OF inv_okq [OF assms(1)] this]
  have P: "step_ok (t_item t) ru ru'" "t_item t < n_items ru" "t_gen t = im_gen (itm ru (t_item t))"
    "pick (itm ru (t_item t)) = Some (t_index t, itm ru' (t_item t))" "\<not> ended (itm ru (t_item t))" by auto
  have m: "one_more t ?k (ws ! w)" "w_completes ?k = w_completes (ws ! w)" "w_counts ?k = w_counts (ws ! w)"
    using assms(4) by (auto simp: one_more_def tasks_def)
  have W: "worker_ok (n_items ru) ?k"
    using inv_worker [OF assms(1,2)] P(2) assms(4) by (auto simp: worker_ok_def tasks_def)
  show ?thesis
  proof (rule step_inv [OF assms(1,2) P(1) W])
    show "\<forall>j. j \<noteq> t_item t \<longrightarrow> same_work j (ws ! w) ?k" using same_work_less [OF m(1) _ m(2,3)] by blast
    show "gone (itm ru' (t_item t)) \<or> moves (r_Sink (ru_r ru) = SinkNull) (t_item t) (itm ru (t_item t)) (itm ru' (t_item t)) (ws ! w) ?k"
      using moves_pick [where t = t, OF P(4) refl P(3) m] by blast
    show "gone (itm ru' (t_item t))" if "gone (itm ru (t_item t))"
      using that pick_keeps [OF P(4)] by (simp add: gone_def)
  qed
qed


lemma moves_trans:
  "moves null i st st1 k k1 \<Longrightarrow> moves null i st1 st2 k1 k2 \<Longrightarrow> moves null i st st2 k k2"
  unfolding moves_def gens_ok_def by auto

text \<open>The tasks the workers hold are of the item's generation while the item is not over.\<close>

lemma held_task:
  assumes "reception_inv (ru, ws)" "w < length ws" "t \<in> set (tasks (ws ! w))"
  shows "t_item t < n_items ru" "\<not> gone (itm ru (t_item t)) \<Longrightarrow> t_gen t = im_gen (itm ru (t_item t))"
  using inv_worker [OF assms(1,2)] inv_gen [OF assms(1,2)] assms(3) by (auto simp: worker_ok_def gens_ok_def)

lemma retry_inv:
  assumes "reception_inv (ru, ws)" "w < length ws" "one_more t (ws ! w) k'" "w_completes k' = w_completes (ws ! w)"
    "w_counts k' = w_counts (ws ! w)" "worker_ok (n_items ru) k'"
  shows "reception_inv (retry e now ru t bad, ws[w := k'])"
proof -
  let ?i = "t_item t"
  have t: "t \<in> set (tasks (ws ! w))" using one_more_tasks(3) [OF assms(3)] by simp
  note h = held_task [OF assms(1,2) t]
  note R = retry_ok [OF inv_okq [OF assms(1)] h(1), where e = e and now = now and bad = bad]
  show ?thesis
  proof (rule step_inv [OF assms(1,2) _ assms(6)])
    show "step_ok ?i ru (retry e now ru t bad)" using R by blast
    show "\<forall>j. j \<noteq> ?i \<longrightarrow> same_work j (ws ! w) k'" using same_work_more [OF assms(3)] assms(4,5) by simp
    show "gone (itm (retry e now ru t bad) ?i) \<or>
        moves (r_Sink (ru_r ru) = SinkNull) ?i (itm ru ?i) (itm (retry e now ru t bad) ?i) (ws ! w) k'"
      if "\<not> gone (itm ru ?i)"
      using R h(2) [OF that] moves_back [where t = t, OF _ _ refl assms(3-5)] by (auto simp: Let_def)
    show "gone (itm ru ?i) \<Longrightarrow> gone (itm (retry e now ru t bad) ?i)"
      by (rule retry_gone [OF inv_okq [OF assms(1)] h(1)])
  qed
qed

lemma cut_inv:
  assumes "reception_inv (ru, ws)" "w < length ws"
  shows "reception_inv (drop_tasks e now ru (w_inflight (ws ! w)), ws[w := (ws ! w)\<lparr>w_inflight := []\<rparr>])"
proof -
  have "reception_inv (ru, ws) \<Longrightarrow> w < length ws \<Longrightarrow> w_inflight (ws ! w) = ts \<Longrightarrow>
      reception_inv (drop_tasks e now ru ts, ws[w := (ws ! w)\<lparr>w_inflight := []\<rparr>])" for ts
  proof (induction ts arbitrary: ru ws)
    case Nil
    then have "(ws ! w)\<lparr>w_inflight := []\<rparr> = ws ! w" by (cases "ws ! w") simp
    then have "ws[w := (ws ! w)\<lparr>w_inflight := []\<rparr>] = ws" by simp
    then show ?case using Nil.prems(1) by (simp add: drop_tasks_def)
  next
    case (Cons t ts)
    let ?k = "(ws ! w)\<lparr>w_inflight := ts\<rparr>"
    have o: "one_more t (ws ! w) ?k" using Cons.prems(3) by (simp add: one_more_def tasks_def)
    have "worker_ok (n_items ru) ?k"
      using inv_worker [OF Cons.prems(1,2)] Cons.prems(3) by (simp add: worker_ok_def tasks_def)
    then have "reception_inv (retry e now ru t False, ws[w := ?k])"
      using retry_inv [OF Cons.prems(1,2) o] by simp
    from Cons.IH [OF this] Cons.prems(2) show ?case by (simp add: drop_tasks_def)
  qed
  then show ?thesis using assms by blast
qed

lemma prepare_inv:
  assumes "reception_inv (ru, ws)" "w < length ws" "w_prep (ws ! w) = Some t" "prepare_locked e now ru t = (p, ru')"
  shows "reception_inv (ru', ws[w := (case p of
          Request \<Rightarrow> (ws ! w)\<lparr>w_prep := None, w_inflight := w_inflight (ws ! w) @ [t]\<rparr>
        | DoneWith \<Rightarrow> (ws ! w)\<lparr>w_prep := None\<rparr>
        | CountIt \<Rightarrow> (ws ! w)\<lparr>w_prep := None, w_counts := w_counts (ws ! w) @ [t_item t]\<rparr>)])"
    (is "reception_inv (ru', ws[w := ?k])")
proof -
  let ?i = "t_item t"
  have t: "t \<in> set (tasks (ws ! w))" "t_index t \<noteq> digest_index"
    using assms(3) inv_worker [OF assms(1,2)] by (auto simp: tasks_def worker_ok_def)
  note h = held_task [OF assms(1,2) t(1)]
  have W: "worker_ok (n_items ru) ?k"
    using inv_worker [OF assms(1,2)] assms(3) h(1) by (cases p) (auto simp: worker_ok_def tasks_def)
  have S: "same_work j (ws ! w) ?k" if "j \<noteq> ?i" for j
    using that assms(3) by (cases p) (auto simp: same_work_def chunk_tasks_def digest_tasks_def to_count_def tasks_def)
  note P = prepare_locked_ok [OF inv_okq [OF assms(1)] h(1) assms(4)]
  have K: "kept ?i ru ru'" using P by blast
  show ?thesis
  proof (rule step_inv [OF assms(1,2) _ W])
    show "step_ok ?i ru ru'" using K by (simp add: kept_def)
    show "\<forall>j. j \<noteq> ?i \<longrightarrow> same_work j (ws ! w) ?k" using S by blast
    show "gone (itm ru ?i) \<Longrightarrow> gone (itm ru' ?i)" using gone_kept [OF K h(1)] .
    assume live: "\<not> gone (itm ru ?i)"
    let ?null = "r_Sink (ru_r ru) = SinkNull"
    show "gone (itm ru' ?i) \<or> moves ?null ?i (itm ru ?i) (itm ru' ?i) (ws ! w) ?k"
    proof (cases "gone (itm ru' ?i)")
      case False
      then have s: "same_sched (itm ru ?i) (itm ru' ?i)" "im_fresh (itm ru' ?i) = im_fresh (itm ru ?i)"
        and p: "p = Request \<or> p = CountIt \<and> im_f (itm ru' ?i) \<noteq> None"
        using K P h(2) [OF live] by (auto simp: kept_def)
      from p show ?thesis
      proof
        assume "p = Request"
        then have "same_work ?i (ws ! w) ?k" using assms(3) by (intro same_work_refl) (simp_all add: tasks_def)
        then show ?thesis using moves_same [OF s(1)] s(2) by simp
      next
        assume p: "p = CountIt \<and> im_f (itm ru' ?i) \<noteq> None"
        then have "one_more t (ws ! w) ?k" "w_completes ?k = w_completes (ws ! w)"
          "mset (w_counts ?k) = add_mset ?i (mset (w_counts (ws ! w)))"
          using assms(3) by (simp_all add: one_more_def tasks_def)
        then show ?thesis using moves_counting [where t = t and null = ?null, OF s(1) _ refl t(2)] s(2) p by simp
      qed
    qed simp
  qed
qed

lemma store_inv:
  assumes "reception_inv (ru, ws)" "w < length ws" "w_queue (ws ! w) = (t, data, hsum) # xs"
    "writer_takes e now False ru (t, data, hsum) = (c, ru')"
  shows "reception_inv (ru', ws[w := (if c then (ws ! w)\<lparr>w_queue := xs, w_counts := w_counts (ws ! w) @ [t_item t]\<rparr>
                     else (ws ! w)\<lparr>w_queue := xs\<rparr>)])"
    (is "reception_inv (ru', ws[w := ?k])")
proof -
  let ?i = "t_item t" and ?null = "r_Sink (ru_r ru) = SinkNull"
  have t: "t \<in> set (tasks (ws ! w))" "t_index t \<noteq> digest_index"
    using assms(3) inv_worker [OF assms(1,2)] by (auto simp: tasks_def worker_ok_def)
  note h = held_task [OF assms(1,2) t(1)] and ok = inv_okq [OF assms(1)]
  have W: "worker_ok (n_items ru) ?k"
    using inv_worker [OF assms(1,2)] assms(3) h(1) by (cases c) (auto simp: worker_ok_def tasks_def)
  have o: "one_more t (ws ! w) ?k" "w_completes ?k = w_completes (ws ! w)"
    using assms(3) by (simp_all add: one_more_def tasks_def)
  show ?thesis
  proof (cases "e_sha e data \<noteq> hsum")
    case True
    then have "\<not> c" "ru' = retry e now ru t True" using assms(4) by (simp_all add: writer_takes_def)
    then show ?thesis using retry_inv [OF assms(1,2), of t "(ws ! w)\<lparr>w_queue := xs\<rparr>" e now True] o W by simp
  next
    case False
    then have wl: "write_locked e now False ru t data hsum = (c, ru')" using assms(4) by (simp add: writer_takes_def)
    have R: "step_ok ?i ru ru' \<and> (gone (itm ru ?i) \<longrightarrow> gone (itm ru' ?i)) \<and>
      (\<not> gone (itm ru ?i) \<longrightarrow> \<not> gone (itm ru' ?i) \<longrightarrow> c \<and> same_sched (itm ru ?i) (itm ru' ?i) \<and>
        (?null \<or> im_f (itm ru' ?i) \<noteq> None) \<and>
        (?null \<longrightarrow> im_fresh (itm ru' ?i) = im_fresh (itm ru ?i) \<or> im_fresh (itm ru' ?i) = (im_fresh (itm ru ?i))[t_index t := True]))"
    proof (cases ?null)
      case True
      then have wn: "write_null ru t data hsum = (c, ru')" using wl by (simp add: write_locked_def Let_def)
      note N = write_null_ok [OF ok h(1) wn]
      have f: "im_total (itm ru ?i) > 0 \<longrightarrow> \<not> im_fresh (itm ru ?i) ! t_index t" if live: "\<not> gone (itm ru ?i)"
      proof -
        obtain C D K where a: "account ?null (itm ru ?i) (C + chunk_tasks ?i (ws ! w)) (D + digest_tasks ?i (ws ! w)) (K + to_count ?i (ws ! w))"
          using inv_account [OF assms(1,2) h(1) live] by blast
        have "t_index t \<in># chunk_tasks ?i (ws ! w)" using t by (auto simp: chunk_tasks_def)
        then have m: "t_index t \<in># waiting (itm ru ?i) (C + chunk_tasks ?i (ws ! w))" by (simp add: waiting_def)
        have "im_total (itm ru ?i) > 0 \<Longrightarrow> t_index t < im_total (itm ru ?i)"
          using waiting_less [OF a m] a by (simp add: account_def sched_count_def)
        then show ?thesis using a m True by (auto simp: account_def)
      qed
      show ?thesis using N f True by simp
    next
      case False
      from write_locked_disk [OF ok h(1) False wl] h(2) False
      show ?thesis by blast
    qed
    show ?thesis
    proof (rule step_inv [OF assms(1,2) _ W])
      show "step_ok ?i ru ru'" using R by blast
      show "\<forall>j. j \<noteq> ?i \<longrightarrow> same_work j (ws ! w) ?k" using same_work_more [OF o(1)] o(2) by simp
      show "gone (itm ru ?i) \<Longrightarrow> gone (itm ru' ?i)" using R by blast
      assume live: "\<not> gone (itm ru ?i)"
      show "gone (itm ru' ?i) \<or> moves ?null ?i (itm ru ?i) (itm ru' ?i) (ws ! w) ?k"
      proof (cases "gone (itm ru' ?i)")
        case False
        then have r: "c \<and> same_sched (itm ru ?i) (itm ru' ?i) \<and>
        (?null \<or> im_f (itm ru' ?i) \<noteq> None) \<and>
        (?null \<longrightarrow> im_fresh (itm ru' ?i) = im_fresh (itm ru ?i) \<or> im_fresh (itm ru' ?i) = (im_fresh (itm ru ?i))[t_index t := True])"
          using R live by blast
        then have "mset (w_counts ?k) = add_mset ?i (mset (w_counts (ws ! w)))" by simp
        then show ?thesis using moves_counting [where t = t and null = ?null, OF _ _ refl t(2) _ o] r by blast
      qed simp
    qed
  qed
qed


lemma count_inv:
  assumes "reception_inv (ru, ws)" "w < length ws" "w_counts (ws ! w) = i # is" "countChunk ru i = (final, ru')"
  shows "reception_inv (ru', ws[w := (if final then (ws ! w)\<lparr>w_counts := is, w_completes := w_completes (ws ! w) @ [i]\<rparr>
                     else (ws ! w)\<lparr>w_counts := is\<rparr>)])" (is "reception_inv (ru', ws[w := ?k])")
proof -
  let ?st = "itm ru i"
  have i: "i < n_items ru" using inv_worker [OF assms(1,2)] assms(3) by (simp add: worker_ok_def)
  have c: "final = (im_processed ?st + 1 = sched_count ?st)" "ru' = set_itm i (?st\<lparr>im_processed := im_processed ?st + 1\<rparr>) ru"
    using assms(4) by (auto simp: countChunk_def Let_def)
  have W: "worker_ok (n_items ru) ?k"
    using inv_worker [OF assms(1,2)] assms(3) by (cases final) (auto simp: worker_ok_def tasks_def)
  have S: "step_ok i ru ru'" unfolding c(2) by (rule set_step [OF inv_okq [OF assms(1)]]) simp_all
  show ?thesis
  proof (rule step_inv [OF assms(1,2) S W])
    show "\<forall>j. j \<noteq> i \<longrightarrow> same_work j (ws ! w) ?k"
      using assms(3) by (cases final) (auto simp: same_work_def chunk_tasks_def digest_tasks_def to_count_def tasks_def)
    show "gone (itm ru' i) \<or> moves (r_Sink (ru_r ru) = SinkNull) i ?st (itm ru' i) (ws ! w) ?k"
      using assms(3) i by (intro disjI2 moves_count) (auto simp: c tasks_def)
    show "gone ?st \<Longrightarrow> gone (itm ru' i)" using i by (simp add: c gone_def)
  qed
qed

lemma complete_inv:
  assumes "reception_inv (ru, ws)" "w < length ws" "w_completes (ws ! w) = i # is"
  shows "reception_inv (complete_item e now False ru i, ws[w := (ws ! w)\<lparr>w_completes := is\<rparr>])"
    (is "reception_inv (?ru, ws[w := ?k])")
proof -
  let ?st = "itm ru i" and ?null = "r_Sink (ru_r ru) = SinkNull"
  have i: "i < n_items ru" using inv_worker [OF assms(1,2)] assms(3) by (simp add: worker_ok_def)
  note ok = inv_okq [OF assms(1)]
  have W: "worker_ok (n_items ru) ?k"
    using inv_worker [OF assms(1,2)] assms(3) by (auto simp: worker_ok_def tasks_def)
  have u: "chunk_tasks j ?k = chunk_tasks j (ws ! w)" "to_count j ?k = to_count j (ws ! w)" "tasks ?k = tasks (ws ! w)"
    "digest_tasks j (ws ! w) = (if j = i then Suc (digest_tasks j ?k) else digest_tasks j ?k)" for j
    using assms(3) by (simp_all add: chunk_tasks_def digest_tasks_def to_count_def tasks_def)
  have live: "step_ok i ru ?ru \<and> (gone (itm ?ru i) \<or> same_sched (?st\<lparr>im_digest := True\<rparr>) (itm ?ru i) \<and> im_fresh (itm ?ru i) = im_fresh ?st)"
    if "\<not> gone ?st"
  proof -
    obtain C D K where "account ?null ?st (C + chunk_tasks i (ws ! w)) (D + digest_tasks i (ws ! w)) (K + to_count i (ws ! w))"
      using inv_account [OF assms(1,2) i] \<open>\<not> gone ?st\<close> by blast
    then have "account ?null ?st (C + chunk_tasks i (ws ! w)) (Suc (D + digest_tasks i ?k)) (K + to_count i (ws ! w))"
      using u(4) [of i] by simp
    then have "im_f ?st \<noteq> None \<or> ?null" using account_completed(1) by blast
    from complete_ok [OF ok i this, of e now] show ?thesis by (simp add: Let_def)
  qed
  show ?thesis
  proof (rule step_inv [OF assms(1,2) _ W])
    show "step_ok i ru ?ru" using live complete_gone [OF ok i] by blast
    show "\<forall>j. j \<noteq> i \<longrightarrow> same_work j (ws ! w) ?k" using u by (simp add: same_work_def)
    show "gone ?st \<Longrightarrow> gone (itm ?ru i)" using complete_gone [OF ok i] by blast
    show "gone (itm ?ru i) \<or> moves ?null i ?st (itm ?ru i) (ws ! w) ?k" if "\<not> gone ?st"
      using live [OF that] moves_completed [of ?st "itm ?ru i" i ?k "ws ! w"] u(1,2,4) [of i] u(3) by auto
  qed
qed

lemma answer_inv:
  assumes "reception_inv (ru, ws)" "w < length ws" "w_inflight (ws ! w) = t # ts"
    "take_answer e now False ru t typ p = Some (ru', x)"
  shows "reception_inv (ru', ws[w := (case x of None \<Rightarrow> (ws ! w)\<lparr>w_inflight := ts\<rparr>
                     | Some y \<Rightarrow> (ws ! w)\<lparr>w_inflight := ts, w_queue := w_queue (ws ! w) @ [y]\<rparr>)])"
    (is "reception_inv (ru', ws[w := ?k])")
proof -
  let ?i = "t_item t" and ?null = "r_Sink (ru_r ru) = SinkNull"
  have t: "t \<in> set (tasks (ws ! w))" using assms(3) by (simp add: tasks_def)
  note h = held_task [OF assms(1,2) t] and ok = inv_okq [OF assms(1)]
  consider (error) err where "ru' = endItem e now ru ?i ItemFailed err" "x = None"
    | (digest) d where "t_index t = digest_index" "x = None"
        "ru' = (if t_gen t = im_gen (itm ru ?i) then verified e now False ru ?i d else ru)"
    | (chunk) data hsum where "ru' = ru" "x = Some (t, data, hsum)" "t_index t \<noteq> digest_index"
    using assms(4) unfolding take_answer_def Let_def
    by (auto split: if_splits sum.splits prod.splits)
  then show ?thesis
  proof cases
    case error
    have W: "worker_ok (n_items ru) ?k"
      using inv_worker [OF assms(1,2)] assms(3) error(2) by (auto simp: worker_ok_def tasks_def)
    have o: "one_more t (ws ! w) ?k" using assms(3) error(2) by (simp add: one_more_def tasks_def)
    have G: "step_ok ?i ru ru' \<and> gone (itm ru' ?i)"
      unfolding error(1) using endItem_gone [OF ok h(1), of ItemFailed] by (simp add: ended_states)
    show ?thesis
      by (rule step_inv [OF assms(1,2) _ W]) (use G same_work_more [OF o] error(2) in auto)
  next
    case digest
    have W: "worker_ok (n_items ru) ?k"
      using inv_worker [OF assms(1,2)] assms(3) digest(2) by (auto simp: worker_ok_def tasks_def)
    have o: "one_more t (ws ! w) ?k" "w_completes ?k = w_completes (ws ! w)" using assms(3) digest(2) by (simp_all add: one_more_def tasks_def)
    note u = one_more_tasks(1) [OF o(1), of ?i] one_more_tasks(2) [OF o, of ?i] one_more_tasks(3) [OF o(1)]
    note V = verified_ok [OF ok h(1), of e now d]
    have live: "gone (itm ru' ?i) \<or> itm ru' ?i = start_again (itm ru ?i)" if "\<not> gone (itm ru ?i)"
      using V h(2) [OF that] digest(3) by simp
    show ?thesis
    proof (rule step_inv [OF assms(1,2) _ W])
      show "step_ok ?i ru ru'" using V digest(3) ok by (simp add: step_ok_refl)
      show "\<forall>j. j \<noteq> ?i \<longrightarrow> same_work j (ws ! w) ?k" using same_work_more [OF o(1)] digest(2) by simp
      show "gone (itm ru ?i) \<Longrightarrow> gone (itm ru' ?i)" using verified_gone [OF ok h(1)] digest(3) by simp
      show "gone (itm ru' ?i) \<or> moves ?null ?i (itm ru ?i) (itm ru' ?i) (ws ! w) ?k" if "\<not> gone (itm ru ?i)"
        using live [OF that] moves_completed [of "itm ru ?i" "itm ru' ?i" ?i ?k "ws ! w"] u digest(1,2)
        by (auto simp: to_count_def)
    qed
  next
    case chunk
    have W: "worker_ok (n_items ru) ?k"
      using inv_worker [OF assms(1,2)] assms(3) chunk by (auto simp: worker_ok_def tasks_def)
    have "mset (tasks ?k) = mset (tasks (ws ! w))" "w_completes ?k = w_completes (ws ! w)" "w_counts ?k = w_counts (ws ! w)"
      using assms(3) chunk(2) by (simp_all add: tasks_def)
    then have s: "same_work j (ws ! w) ?k" for j by (rule same_work_refl)
    show ?thesis unfolding chunk(1)
      by (rule step_inv [OF assms(1,2) step_ok_refl [OF ok, of ?i] W]) (use s moves_same in auto)
  qed
qed


lemma okq_cong:
  assumes "okq ru" "ru_items ru' = ru_items ru" "ru_ended ru' = ru_ended ru" "ru_low ru' = ru_low ru"
    "ru_batch ru' = ru_batch ru" "ru_batched ru' = ru_batched ru"
  shows "okq ru'"
proof -
  have "batch_shape ru' = batch_shape ru" using assms(2-) by (simp add: batch_shape_def split: option.splits)
  then show ?thesis using assms by (auto simp: okq_def run_ok_def quiet_def onlyBatchedLeft_def)
qed

lemma same_inv:
  assumes "reception_inv (ru, ws)" "ru_items ru' = ru_items ru" "ru_ended ru' = ru_ended ru" "ru_low ru' = ru_low ru"
    "ru_batch ru' = ru_batch ru" "ru_batched ru' = ru_batched ru" "ru_r ru' = ru_r ru"
  shows "reception_inv (ru', ws)"
  using okq_cong [OF inv_okq [OF assms(1)] assms(2-6)] assms(2,7) by (intro run_inv [OF assms(1)]) simp_all

lemma over_inv:
  assumes "reception_inv (ru, ws)" "step_ok i ru ru'" "i < n_items ru \<Longrightarrow> gone (itm ru' i)"
  shows "reception_inv (ru', ws)"
proof (rule run_inv [OF assms(1)])
  show "okq ru'" "n_items ru' = n_items ru" "ru_r ru' = ru_r ru" using assms(2) by (simp_all add: step_ok_def others_def)
  show "\<forall>j < n_items ru. gone (itm ru' j) \<or> itm ru' j = itm ru j"
  proof (intro allI impI)
    fix j assume "j < n_items ru"
    then show "gone (itm ru' j) \<or> itm ru' j = itm ru j"
      using assms(2,3) ended_gone by (cases "j = i") (auto simp: step_ok_def others_def)
  qed
qed

lemma endItem_inv:
  assumes "reception_inv (ru, ws)" "ItemDone \<le> state"
  shows "reception_inv (endItem e now ru i state err, ws)"
proof (cases "i < n_items ru")
  case True
  then show ?thesis using endItem_gone [OF inv_okq [OF assms(1)] True assms(2)] over_inv [OF assms(1)] by blast
next
  case False
  then show ?thesis using assms(1) by (simp add: endItem_def)
qed

lemma flush_inv: "reception_inv (ru, ws) \<Longrightarrow> reception_inv (flushBatch e force ru, ws)"
proof (rule run_inv, assumption)
  assume inv: "reception_inv (ru, ws)"
  have F: "okq (flushBatch e force ru)" "others {} ru (flushBatch e force ru)"
    using flushBatch_ok [of "{}" ru e force] inv_okq [OF inv] by (simp_all add: okq_def)
  then show "okq (flushBatch e force ru)" "n_items (flushBatch e force ru) = n_items ru" "ru_r (flushBatch e force ru) = ru_r ru"
    by (simp_all add: others_def)
  show "\<forall>j < n_items ru. gone (itm (flushBatch e force ru) j) \<or> itm (flushBatch e force ru) j = itm ru j"
    using F(2) ended_gone unfolding others_def by blast
qed

text \<open>The invariant of a machine, stated once for what a step keeps.\<close>

lemma step_keeps:
  assumes "reception_step e x y" "reception_inv x"
  shows "reception_inv y"
  using assms
proof (induction rule: reception_step.induct)
  case ask then show ?case using ask_inv by blast
next
  case (nothing c ru r ru' ws)
  from sched_next_picked [OF nothing.prems nothing.hyps(1)] show ?case
  proof
    assume "\<exists>r'. picked ru [ru_low ru..<n_items ru] r' ru' \<and> r = (case r' of None \<Rightarrow> NothingNow | Some t \<Rightarrow> GotTask t)"
    then obtain r' where r': "picked ru [ru_low ru..<n_items ru] r' ru'" "r = (case r' of None \<Rightarrow> NothingNow | Some t \<Rightarrow> GotTask t)"
      by blast
    then have "r' = None" using nothing.hyps(2) by (cases r') simp_all
    then show ?thesis using picked_None_inv [OF nothing.prems] r'(1) by simp
  qed (use nothing.prems in auto)
next
  case prepare then show ?case using prepare_inv by blast
next
  case answer then show ?case using answer_inv by blast
next
  case cut then show ?case using cut_inv by blast
next
  case store then show ?case using store_inv by blast
next
  case count then show ?case using count_inv by blast
next
  case complete then show ?case using complete_inv by blast
next
  case (skip ru ws now i)
  then show ?case using endItem_inv [of ru ws ItemSkipped e now "nat i" None] by (simp add: SkipItem_def ended_states)
next
  case (pause ru ws) then show ?case by (rule same_inv) (simp_all add: Pause_def)
next
  case (resume ru ws) then show ?case by (rule same_inv) (simp_all add: Resume_def)
next
  case (pause_item ru ws i) then show ?case by (rule same_inv) (simp_all add: PauseItem_def)
next
  case (resume_item ru ws i) then show ?case by (rule same_inv) (simp_all add: ResumeItem_def)
next
  case flush then show ?case using flush_inv by blast
next
  case (disk ru ws s) then show ?case by (rule same_inv) simp_all
qed

interpretation reception: step_invariant "reception_step e" reception_inv for e
  by unfold_locales (rule step_keeps)

section \<open>The start\<close>

lemma sum_over_idle: "f idle_worker = 0 \<Longrightarrow> sum_over f (replicate n idle_worker) = 0"
  by (induction n) (simp_all add: sum_over_def)

lemma idle_none [simp]: "tasks idle_worker = []" "chunk_tasks i idle_worker = {#}" "digest_tasks i idle_worker = 0"
  "to_count i idle_worker = 0"
  by (simp_all add: idle_worker_def tasks_def chunk_tasks_def digest_tasks_def to_count_def)

lemma new_item_account: "account null (new_item c it) {#} 0 0"
proof -
  have "unat (Chunks (it_Size it) c) \<le> 4294967295" using unat_bounds(3) [of "Chunks (it_Size it) c"] by linarith
  then show ?thesis
    by (auto simp: account_def new_item_def Let_def waiting_def digests_def sched_count_def digest_index_def)
qed

lemma newRun_inv: "reception_inv (newRun r off s, replicate n idle_worker)"
proof -
  have "ended_count (map (new_item c) its) = 0" for c its
    by (induction its) (simp_all add: ended_count_def new_item_def Let_def ended_states)
  then have "okq (newRun r off s)"
    by (simp add: okq_def run_ok_def quiet_def batch_shape_def newRun_def new_item_def Let_def)
  moreover have "item_ok (newRun r off s) (replicate n idle_worker) i" if "i < length (o_Items off)" for i
    using that new_item_account by (simp add: item_ok_def newRun_def sum_over_idle gens_ok_def)
  moreover have "worker_ok m idle_worker" for m by (simp add: worker_ok_def) (simp add: idle_worker_def)
  ultimately show ?thesis by (simp add: reception_inv_def) (simp add: newRun_def)
qed

lemma skip_all_inv: "reception_inv (ru, ws) \<Longrightarrow> reception_inv (skip_all e now ru is err, ws)"
  by (induction "is" arbitrary: ru) (simp_all add: endItem_inv ended_states)

lemma endItem_no_batch: "ru_batch ru = None \<Longrightarrow> ru_batch (endItem e now ru i state err) = None"
  by (auto simp: endItem_def markEnded_def mark_ended_def emitItem_def Let_def flushBatch_def close_item_def
      split: option.splits prod.splits)

lemma skip_all_no_batch: "ru_batch ru = None \<Longrightarrow> ru_batch (skip_all e now ru is err) = None"
  by (induction "is" arbitrary: ru) (simp_all add: endItem_no_batch)

lemma start_run_inv:
  assumes "start_run e now r off skips s = Inr (Inr ru)"
  shows "reception_inv (ru, replicate n idle_worker)"
proof (cases "r_Sink r = SinkNull")
  case True
  then show ?thesis using assms skip_all_inv [OF newRun_inv]
    by (auto simp: start_run_def Let_def split: sum.splits)
next
  case False
  let ?ws = "replicate n idle_worker"
  obtain place s' where p: "findRoot e r off s = (Inr place, s')"
    using assms False by (auto simp: start_run_def Let_def split: sum.splits prod.splits)
  define ru1 where "ru1 = (newRun r off s)\<lparr>ru_plan := planRoot e r off, ru_os := s', ru_rootDir := rp_Name place\<rparr>"
  define ru2 where "ru2 = (if rp_Skip place
      then skip_all e now ru1 [0..<length (ru_items ru1)] (Some (RFolderThere (rp_Name place))) else ru1)"
  define ru3 where "ru3 = (if rt_inRoot (ru_plan ru2) then ru2\<lparr>ru_batch := NewBatch (e_syncfs e)\<rparr> else ru2)"
  have ru: "ru = skip_all e now ru3 (map nat (filter (\<lambda>i. 0 \<le> i) skips)) None"
    using assms False p unfolding start_run_def Let_def ru3_def ru2_def ru1_def by (auto split: sum.splits)
  have "reception_inv (ru1, ?ws)" by (rule same_inv [OF newRun_inv]) (simp_all add: ru1_def)
  then have i2: "reception_inv (ru2, ?ws)" using skip_all_inv by (simp add: ru2_def)
  have b: "ru_batch ru2 = None" using skip_all_no_batch [of ru1] by (simp add: ru2_def ru1_def newRun_def)
  have ok: "okq ru2" using inv_okq [OF i2] .
  then have e: "ru_batched ru2 = []" using b by (simp add: okq_def run_ok_def batch_shape_def)
  have "okq (ru2\<lparr>ru_batch := NewBatch (e_syncfs e)\<rparr>)"
    using ok e by (auto simp: okq_def run_ok_def quiet_def batch_shape_def NewBatch_def)
  then have "reception_inv (ru3, ?ws)" using i2 run_inv [OF i2, of "ru2\<lparr>ru_batch := NewBatch (e_syncfs e)\<rparr>"] by (simp add: ru3_def)
  then show ?thesis unfolding ru by (rule skip_all_inv)
qed


end
