(* ===== verification/ReceptionProps.thy ===== *)
theory ReceptionProps
  imports ReceptionInv
begin

text \<open>
  What a reception guarantees, whatever the order of its steps: it never gets stuck, no chunk is lost
  or handled twice, and the smallest chunk is asked first.
\<close>

section \<open>The properties\<close>

definition idle :: "worker list \<Rightarrow> bool" where
  "idle ws \<longleftrightarrow> list_all (\<lambda>k. k = idle_worker) ws"

lemma idle_sum: "idle ws \<Longrightarrow> f idle_worker = 0 \<Longrightarrow> sum_over f ws = 0"
  by (induction ws) (simp_all add: idle_def sum_over_def)

lemma reachable_inv:
  assumes "start_run e now r off skips s = Inr (Inr ru0)" "(reception_step e)\<^sup>*\<^sup>* (ru0, replicate n idle_worker) (ru, ws)"
  shows "reception_inv (ru, ws)"
  using reception.run_keeps [OF assms(2) start_run_inv [OF assms(1)]] .

text \<open>While something is left, an item is neither over nor in the batch.\<close>

lemma someone_left:
  assumes "okq ru" "\<not> allEnded ru"
  shows "\<exists>i < n_items ru. \<not> gone (itm ru i)"
proof (rule ccontr)
  assume a: "\<not> (\<exists>i < n_items ru. \<not> gone (itm ru i))"
  let ?E = "{i. i < n_items ru \<and> ended (itm ru i)}"
  have ok: "ru_ended ru = ended_count (ru_items ru)"
    "\<forall>i < n_items ru. im_closed (itm ru i) \<longrightarrow> ended (itm ru i) \<or> i \<in> set (ru_batched ru)" "quiet ru"
    using assms(1) by (simp_all add: okq_def run_ok_def)
  have E: "card ?E = ru_ended ru" using ok(1) by (simp add: ended_count_def length_filter_conv_card)
  have "{..<n_items ru} \<subseteq> ?E \<union> set (ru_batched ru)" using a ok(2) by (auto simp: gone_def)
  then have "n_items ru \<le> card (?E \<union> set (ru_batched ru))" using card_mono [of "?E \<union> set (ru_batched ru)" "{..<n_items ru}"] by simp
  also have "\<dots> \<le> ru_ended ru + length (ru_batched ru)"
    using card_Un_le [of ?E "set (ru_batched ru)"] card_length [of "ru_batched ru"] E by linarith
  finally have l: "n_items ru - ru_ended ru \<le> length (ru_batched ru)" by linarith
  moreover have "ru_ended ru \<le> n_items ru" using ok(1) ended_count_le by simp
  ultimately show False using ok(3) assms(2) by (cases "ru_batched ru") (auto simp: quiet_def onlyBatchedLeft_def allEnded_def)
qed

text \<open>With no worker at work, an item that is not over has something to ask.\<close>

lemma idle_picks:
  assumes "reception_inv (ru, ws)" "idle ws" "i < n_items ru" "\<not> gone (itm ru i)"
  shows "pick (itm ru i) \<noteq> None"
proof -
  let ?st = "itm ru i"
  have "item_ok ru ws i" using assms(1,3) by (simp add: reception_inv_def)
  then have a: "account (r_Sink (ru_r ru) = SinkNull) ?st {#} 0 0"
    using assms(2,4) by (simp add: item_ok_def idle_sum)
  show ?thesis
  proof (rule ccontr)
    assume "\<not> pick ?st \<noteq> None"
    then have n: "\<not> im_digest ?st" "im_retries ?st = []" "\<not> im_next ?st < sched_count ?st"
      by (auto simp: pick_def Let_def split: if_splits)
    then have "digests ?st 0 = 0" "waiting ?st {#} = {#}" by (simp_all add: digests_def waiting_def)
    then have "im_processed ?st = im_next ?st" "im_processed ?st \<noteq> sched_count ?st" "im_next ?st \<le> sched_count ?st"
      using a by (auto simp: account_def)
    then show False using n(3) by simp
  qed
qed




lemma account_digest:
  assumes "account null st C D K" "im_digest st \<or> digest_index \<in> set (im_retries st)"
  shows "im_next st = sched_count st" "waiting st C = {#}" "digests st D = 1"
proof -
  have "0 < count (mset (im_retries st)) digest_index" if "digest_index \<in> set (im_retries st)"
    using that by (simp add: count_mset_gt_0)
  then have "0 < digests st D" using assms(2) by (auto simp: digests_def)
  then have d: "im_processed st = sched_count st" "digests st D = 1"
    using assms(1) by (auto simp: account_def split: if_splits)
  have e: "im_processed st + K + size (waiting st C) = im_next st" "im_next st \<le> sched_count st"
    using assms(1) by (simp_all add: account_def)
  show "im_next st = sched_count st" "digests st D = 1" using d e by linarith+
  have "size (waiting st C) = 0" using d(1) e by linarith
  then show "waiting st C = {#}" by simp
qed

lemma pick_smallest:
  assumes a: "account null st C D K" and p: "pick st = Some (x, st')"
    and k: "k \<in> set (im_retries st) \<or> (im_next st \<le> k \<and> k < sched_count st)"
  shows "x \<le> k"
proof -
  consider (d) "im_digest st" | (r) "\<not> im_digest st" "im_retries st \<noteq> []" | (n) "\<not> im_digest st" "im_retries st = []" by blast
  then show ?thesis
  proof cases
    case d
    note z = account_digest [OF a disjI1 [OF d]]
    have "digest_index \<notin> set (im_retries st)"
      using z(3) d count_mset_gt_0 [of digest_index "im_retries st"] by (auto simp: digests_def)
    moreover have "\<not> (\<exists>k \<in> set (im_retries st). k \<noteq> digest_index)"
      using z(2) by (auto simp: waiting_def filter_mset_eq_conv)
    ultimately have "k \<notin> set (im_retries st)" by (cases "k = digest_index") auto
    then show ?thesis using k z(1) by linarith
  next
    case r
    let ?m = "min_at (im_retries st)"
    have x: "x = im_retries st ! ?m" using p r by (simp add: pick_def Let_def)
    note m = min_at_spec [OF r(2)]
    show ?thesis
    proof (cases "k \<in> set (im_retries st)")
      case True
      then show ?thesis using m x by (auto simp: in_set_conv_nth)
    next
      case False
      have xs: "x \<in> set (im_retries st)" using m x by simp
      have "x \<noteq> digest_index" using account_digest(1) [OF a] xs k False by auto
      then have "x \<in># waiting st C" using xs by (simp add: waiting_def)
      then show ?thesis using waiting_less [OF a] k False by fastforce
    qed
  next
    case n
    then show ?thesis using p k by (simp add: pick_def split: if_splits)
  qed
qed

text \<open>C38. The scheduler gives the smallest chunk of the first item that has something to ask: every
  item before it has ended, is paused, or has nothing to ask now; and of its own chunks to ask again or
  not asked yet, none is smaller.\<close>

theorem asks_smallest:
  assumes "start_run e now r off skips s = Inr (Inr ru0)"
    and "(reception_step e)\<^sup>*\<^sup>* (ru0, replicate n idle_worker) (ru, ws)"
    and "sched_next c ru = (GotTask t, ru')" "\<not> im_closed (ru_items ru ! t_item t)"
  shows "(\<forall>j < t_item t. passed ru j) \<and> t_item t \<notin> ru_pausedItems ru \<and> t_gen t = im_gen (ru_items ru ! t_item t) \<and>
    (\<forall>k. k \<in> set (im_retries (ru_items ru ! t_item t)) \<or>
         (im_next (ru_items ru ! t_item t) \<le> k \<and> k < sched_count (ru_items ru ! t_item t)) \<longrightarrow> t_index t \<le> k)"
proof -
  let ?st = "itm ru (t_item t)"
  have inv: "reception_inv (ru, ws)" by (rule reachable_inv [OF assms(1,2)])
  then have "picked ru [ru_low ru..<n_items ru] (Some t) ru'"
    using sched_next_picked [OF inv assms(3)] by (auto split: option.splits)
  then obtain as bs st' where p: "[ru_low ru..<n_items ru] = as @ t_item t # bs" "\<forall>j \<in> set as. passed ru j"
    "\<not> ended ?st" "t_item t \<notin> ru_pausedItems ru" "pick ?st = Some (t_index t, st')" "t_gen t = im_gen ?st"
    by (auto simp: picked_def)
  have i: "t_item t < n_items ru" using arg_cong [OF p(1), of set] by auto
  have "\<forall>j < t_item t. passed ru j"
  proof (intro allI impI)
    fix j assume j: "j < t_item t"
    show "passed ru j"
    proof (cases "j < ru_low ru")
      case True
      then show ?thesis using inv_low [OF inv] by (simp add: low_ok_def passed_def)
    next
      case False
      then have "j \<in> set (as @ t_item t # bs)" using j i p(1) [symmetric] by simp
      moreover have "sorted (as @ t_item t # bs)" using p(1) [symmetric] by simp
      ultimately show ?thesis using j p(2) by (auto simp: sorted_append)
    qed
  qed
  moreover have "t_index t \<le> k"
    if k: "k \<in> set (im_retries ?st) \<or> (im_next ?st \<le> k \<and> k < sched_count ?st)" for k
  proof -
    have "account (r_Sink (ru_r ru) = SinkNull) ?st (sum_over (chunk_tasks (t_item t)) ws)
        (sum_over (digest_tasks (t_item t)) ws) (sum_over (to_count (t_item t)) ws)"
      using inv i p(3) assms(4) by (auto simp: reception_inv_def item_ok_def gone_def)
    from pick_smallest [OF this p(5)] k show ?thesis by blast
  qed
  ultimately show ?thesis using p(4,6) by blast
qed


section \<open>An example\<close>

text \<open>Two files of three bytes to the null sink: the first chunk is asked, then its connection is cut.\<close>

definition ex_null :: receiver where "ex_null = ex_recv\<lparr>r_Sink := SinkNull\<rparr>"

definition ex_t0 :: task where "ex_t0 = \<lparr>t_item = 0, t_index = 0, t_gen = 0\<rparr>"

definition ex_run0 :: run where "ex_run0 = newRun ex_null (two_files ''a'' ''b'') empty_os"
definition ex_run1 :: run where "ex_run1 = set_itm 0 ((itm ex_run0 0)\<lparr>im_next := 1\<rparr>) ex_run0"
definition ex_run2 :: run where "ex_run2 = snd (prepare_locked ex_env 0 ex_run1 ex_t0)"
definition ex_run3 :: run where "ex_run3 = drop_tasks ex_env 0 ex_run2 [ex_t0]"

lemma ex_two_chunks: "unat (Chunks 3 0x40000) = 1"
  by (simp add: Chunks_def wrap64_def signed_divide_int_def Let_def)

lemma ex_start: "start_run ex_env 0 ex_null (two_files ''a'' ''b'') [] empty_os = Inr (Inr ex_run0)"
proof -
  have v: "Validate (e_uni ex_env) (two_files ''a'' ''b'') = Inr ()"
    by (simp add: Validate_def two_files_def ex_env_def offer_limits path_key_def ToLower_def to_slash_def
        ascii_def lower_char_def backslash_def Chunks_def wrap64_def signed_divide_int_def Let_def)
  show ?thesis by (simp add: start_run_def v ex_null_def ex_run0_def Let_def)
qed

lemma ex_items: "ru_items ex_run0 = [new_item 0x40000 \<lparr>it_Item = 0, it_Path = ''a'', it_Size = 3, it_MTime = 0\<rparr>,
    new_item 0x40000 \<lparr>it_Item = 1, it_Path = ''b'', it_Size = 3, it_MTime = 0\<rparr>]"
  by (simp add: ex_run0_def newRun_def two_files_def)

lemma ex_run0: "ru_ended ex_run0 = 0" "\<not> ru_paused ex_run0" "ru_low ex_run0 = 0" "ru_pausedItems ex_run0 = {}"
  "r_Sink (ru_r ex_run0) = SinkNull"
  by (simp_all add: ex_run0_def newRun_def ex_null_def)

lemmas ex_item = new_item_def Let_def ex_two_chunks

lemma ex_ask: "sched_next False ex_run0 = (GotTask ex_t0, ex_run1)"
  by (simp add: sched_next_def ex_run0 ex_items upt_conv_Cons ex_item sched_count_def ex_t0_def ex_run1_def ended_states)

lemma ex_prepare: "prepare_locked ex_env 0 ex_run1 ex_t0 = (Request, ex_run2)"
  by (simp add: ex_run2_def prepare_locked_def ex_run1_def ex_run0 ex_items ex_item open_item_def start_item_def
      emitItem_def ex_t0_def)

definition ex_asked :: worker where "ex_asked = idle_worker\<lparr>w_inflight := [ex_t0]\<rparr>"

lemma ex_receives2: "(reception_step ex_env)\<^sup>*\<^sup>* (ex_run0, replicate 1 idle_worker) (ex_run2, [ex_asked])"
proof -
  have 1: "reception_step ex_env (ex_run0, [idle_worker]) (ex_run1, [idle_worker\<lparr>w_prep := Some ex_t0\<rparr>])"
    using reception_step.ask [of 0 "[idle_worker]" ex_run0 ex_t0 ex_run1 ex_env] ex_ask
    by (simp add: idle_worker_def maxInFlight_def ex_t0_def digest_index_def)
  have 2: "reception_step ex_env (ex_run1, [idle_worker\<lparr>w_prep := Some ex_t0\<rparr>]) (ex_run2, [ex_asked])"
    using reception_step.prepare [of 0 "[idle_worker\<lparr>w_prep := Some ex_t0\<rparr>]" ex_t0 ex_env 0 ex_run1 Request ex_run2] ex_prepare
    by (simp add: idle_worker_def ex_asked_def)
  show ?thesis using rtranclp.rtrancl_into_rtrancl [OF r_into_rtranclp [of "reception_step ex_env", OF 1] 2] by simp
qed

lemma ex_receives3: "(reception_step ex_env)\<^sup>*\<^sup>* (ex_run0, replicate 1 idle_worker) (ex_run3, [idle_worker])"
proof -
  have "reception_step ex_env (ex_run2, [ex_asked]) (ex_run3, [idle_worker])"
    using reception_step.cut [of 0 "[ex_asked]" ex_env ex_run2 0] by (simp add: ex_run3_def ex_asked_def idle_worker_def)
  then show ?thesis by (rule rtranclp.rtrancl_into_rtrancl [OF ex_receives2])
qed

lemma ex_run2: "ru_items ex_run2 = [(itm ex_run0 0)\<lparr>im_next := 1, im_opened := True\<rparr>, itm ex_run0 1]"
  "ru_ended ex_run2 = 0" "\<not> ru_paused ex_run2" "ru_low ex_run2 = 0" "ru_pausedItems ex_run2 = {}"
  by (simp_all add: ex_run2_def prepare_locked_def ex_run1_def ex_run0 ex_items ex_item open_item_def start_item_def
      emitItem_def ex_t0_def)

lemma ex_run3: "ru_items ex_run3 = [(itm ex_run0 0)\<lparr>im_next := 1, im_retries := [0], im_opened := True\<rparr>, itm ex_run0 1]"
  "ru_ended ex_run3 = 0" "\<not> ru_paused ex_run3" "ru_low ex_run3 = 0" "ru_pausedItems ex_run3 = {}"
  by (simp_all add: ex_run3_def drop_tasks_def retry_def ex_run2 ex_items ex_item ex_t0_def ended_states)



theorem asks_smallest_witness:
  "\<exists>ru'. sched_next False ex_run3 = (GotTask ex_t0, ru') \<and> t_item ex_t0 \<notin> ru_pausedItems ex_run3 \<and>
     t_gen ex_t0 = im_gen (ru_items ex_run3 ! 0)"
proof -
  have "\<exists>ru'. sched_next False ex_run3 = (GotTask ex_t0, ru')"
    by (simp add: sched_next_def ex_run3 ex_items upt_conv_Cons ex_item sched_count_def ex_t0_def ended_states min_at_def)
  then obtain ru' where r: "sched_next False ex_run3 = (GotTask ex_t0, ru')" ..
  show ?thesis using asks_smallest [OF ex_start ex_receives3 r] r
    by (simp add: ex_run3 ex_items ex_item ex_t0_def sched_count_def)
qed

end
