(* ===== verification/ReceptionFaults.thy ===== *)
theory ReceptionFaults
  imports ReceptionProps
begin

text \<open>
  Two states in which a reception does not do what it means to: a count that comes after the disk was
  found full, and an item with the name of another item's partial file.
\<close>

section \<open>A chunk counted late\<close>

text \<open>C37. The full disk sets an item aside and takes its count of chunks back to zero, but a chunk whose
  write had ended just before is still counted after it: the item then has one chunk counted of those
  it is about to ask again, none of them handled, and its end will come one chunk early.\<close>

theorem late_count_after_full_disk:
  assumes "i < length (ru_items ru)" "\<not> ItemDone \<le> im_state (ru_items ru ! i)" "\<not> im_closed (ru_items ru ! i)"
    and "countChunk (diskFull now ru i (im_gen (ru_items ru ! i))) i = (final, ru')"
  shows "im_processed (ru_items ru' ! i) = 1 \<and> im_next (ru_items ru' ! i) = 0 \<and> im_retries (ru_items ru' ! i) = [] \<and>
    im_f (ru_items ru' ! i) = None \<and> (final \<longleftrightarrow> im_total (ru_items ru ! i) \<le> 1)"
proof -
  define ru1 where "ru1 = diskFull now ru i (im_gen (ru_items ru ! i))"
  have d: "length (ru_items ru1) = length (ru_items ru)" "im_processed (itm ru1 i) = 0" "im_next (itm ru1 i) = 0"
    "im_retries (itm ru1 i) = []" "im_f (itm ru1 i) = None" "im_total (itm ru1 i) = im_total (itm ru i)"
    using assms(1-3) by (simp_all add: ru1_def diskFull_def Let_def)
  have c: "ru' = set_itm i ((itm ru1 i)\<lparr>im_processed := im_processed (itm ru1 i) + 1\<rparr>) ru1"
    "final = (im_processed (itm ru1 i) + 1 = sched_count (itm ru1 i))"
    using assms(4) by (simp_all add: countChunk_def Let_def ru1_def)
  have "final = (im_total (ru_items ru ! i) \<le> 1)"
    unfolding c(2) sched_count_def d(2,6) by presburger
  then show ?thesis using d assms(1) by (simp add: c(1))
qed

theorem late_count_after_full_disk_witness:
  "\<exists>ru'. countChunk (diskFull 0 ex_run2 0 0) 0 = (True, ru') \<and> im_processed (ru_items ru' ! 0) = 1"
proof -
  obtain f ru' where c: "countChunk (diskFull 0 ex_run2 0 0) 0 = (f, ru')" by (metis prod.exhaust)
  then show ?thesis
    using late_count_after_full_disk [of 0 ex_run2 0 f ru'] by (auto simp: ex_run2 ex_items ex_item ended_states)
qed

section \<open>An item with the name of a partial file\<close>

text \<open>The disk once the item \<^verbatim>\<open>d/f\<close> has its file: its bytes go to \<^verbatim>\<open>d/f.part\<close>, next to the journal. The
  other item of the offer is \<^verbatim>\<open>d/f.part\<close>.\<close>

definition ex_part_os :: os where
  "ex_part_os = \<lparr>os_files = [''d/f.part'' \<mapsto> \<lparr>fn_data = [1], fn_sync = []\<rparr>,
       ''d/f.part.state'' \<mapsto> \<lparr>fn_data = [], fn_sync = []\<rparr>], os_dirs = {''d''}, os_faults = []\<rparr>"

definition ex_part_run :: run where
  "ex_part_run = (newRun ex_recv (two_files ''d/f'' ''d/f.part'') ex_part_os)
     \<lparr>ru_plan := \<lparr>rt_inRoot = True, rt_Base = ''d'', rt_strip = ''d/'', rt_Key = replicate 32 0\<rparr>, ru_rootDir := ''d''\<rparr>"

text \<open>C36. An offer may hold \<^verbatim>\<open>f\<close> and \<^verbatim>\<open>f.part\<close> in one folder. Once \<^verbatim>\<open>f\<close> is being received, opening
  \<^verbatim>\<open>f.part\<close> finds the partial file of \<^verbatim>\<open>f\<close> under its name and takes it for the item already received:
  the item ends as done, and nothing of it was received.\<close>

theorem part_item_taken_for_done:
  "\<exists>ru'. open_item ex_env 0 ex_part_run 1 = (Inr (), ru') \<and> im_state (ru_items ru' ! 1) = ItemDone \<and>
     im_processed (ru_items ru' ! 1) = 0 \<and> im_saved (ru_items ru' ! 1) = ''/home/u/Downloads/d/f.part''"
proof -
  let ?st = "itm ex_part_run 1"
  have it: "im_it ?st = \<lparr>it_Item = 1, it_Path = ''d/f.part'', it_Size = 3, it_MTime = 0\<rparr>" "\<not> im_started ?st"
    "im_state ?st = ItemPending" "n_items ex_part_run = 2" "ru_batch ex_part_run = None" "im_processed ?st = 0"
    by (simp_all add: ex_part_run_def newRun_def two_files_def new_item_def Let_def)
  have s: "SafeRelPath (e_upp ex_env) (e_goos ex_env) ''d/f.part'' = Inr ''d/f.part''"
    by (simp add: SafeRelPath_def safeRelPath_def ex_env_def to_slash_def backslash_def
        maxPathLen_def maxComponentLen_def hasControlChar_def Let_def)
  have n: "itemName (ru_plan ex_part_run) (ru_rootDir ex_part_run) ''d/f.part'' = ''d/f.part''"
    by (simp add: ex_part_run_def itemName_def TrimPrefix_def Let_def)
  have o: "ru_os ex_part_run = ex_part_os" "r_Sink (ru_r ex_part_run) = SinkDisk" "item_policy (ru_r ex_part_run) (ru_plan ex_part_run) = PolicySkip"
    "r_OutDir (ru_r ex_part_run) = ''/home/u/Downloads''"
    by (simp_all add: ex_part_run_def newRun_def ex_recv_def item_policy_def)
  have sp: "SplitNameAndExt (e_uni ex_env) ''d/f.part'' = (''d'', ''f'', ''.part'')"
    by (simp add: SplitNameAndExt_def to_slash_def backslash_def path_Dir_def path_Clean_def path_Base_def
        strip_slashes_def path_Ext_def multiExts_def ToLower_def ascii_def lower_char_def suffix_def Let_def ex_env_def)
  have f0: "FormatCandidateName ''d'' ''f'' 0 ''.part'' = ''d/f.part''"
    by (simp add: FormatCandidateName_def path_Join_def path_Clean_def)
  have m: "[0..<maxCandidates] = 0 # [1..<maxCandidates]"
    using upt_conv_Cons [of 0 maxCandidates] by (simp add: maxCandidates_def del: upt_conv_Cons_Cons)
  have c: "checkFolders ex_part_os ''d'' = (Inr (), ex_part_os)"
    by (simp add: checkFolders_def Stat_def Lstat_def ex_part_os_def pop_def anc_error_def ancestors_def path_Join_def path_Clean_def)
  have pk: "peek ex_part_os ''d/f.part'' p = (partialNone, ex_part_os)" for p
    by (simp add: peek_def OpenRead_def Lstat_def ex_part_os_def pop_def anc_error_def ancestors_def upt_rec
        JournalSuffix_def PartSuffix_def)
  have l: "Lstat ex_part_os ''d/f.part'' = (Inr False, ex_part_os)"
    by (simp add: Lstat_def ex_part_os_def pop_def anc_error_def ancestors_def upt_rec)
  have r: "Resolve (e_uni ex_env) ex_part_os ''d/f.part'' p PolicySkip =
      (Inr \<lparr>pl_Name = ''d/f.part'', pl_Resume = False, pl_Done = True, pl_Overwrite = False\<rparr>, ex_part_os)" for p
    by (simp add: Resolve_def sp c m f0 pk l Let_def)
  have j: "path_Join ''/home/u/Downloads'' ''d/f.part'' = ''/home/u/Downloads/d/f.part''"
    by (simp add: path_Join_def path_Clean_def)
  show ?thesis
    using it by (simp add: open_item_def Let_def o s n r j note_place_def start_item_def emitItem_def open_place_def
        endItem_def markEnded_def mark_ended_def flushBatch_def ended_states)
qed

end
