(* ===== verification/OpenFiles.thy ===== *)
theory OpenFiles
  imports Prelude "HOL-Library.AList" "HOL-Library.Multiset"
begin

text \<open>
  The files a sender keeps open (\<^verbatim>\<open>acquire\<close>, \<^verbatim>\<open>release\<close> and \<^verbatim>\<open>closeFiles\<close> of
  \<^verbatim>\<open>pkg/transfer/sender.go\<close>), shared by its connections. The table is an association list
  without duplicates; where the code ranges over its map, the order of the keys is an argument.
  An entry stands for the open file and the connections reading it; while it is being opened
  the lock is not held, so looking an item up and the end of its open are separate steps.
\<close>

section \<open>The table\<close>

definition maxOpenFiles :: nat where "maxOpenFiles = 64"

record open_file =
  of_open :: bool
  of_refs :: nat

type_synonym files = "(nat \<times> open_file) list"

datatype found = Reuse files | Wait | Opens files

definition acquire_find :: "files \<Rightarrow> nat \<Rightarrow> found" where
  "acquire_find fs i =
     (case map_of fs i of
        None \<Rightarrow> Opens (AList.update i \<lparr>of_open = False, of_refs = 0\<rparr> fs)
      | Some f \<Rightarrow> if of_open f then Reuse (AList.update i (f\<lparr>of_refs := Suc (of_refs f)\<rparr>) fs) else Wait)"

text \<open>A file nobody reads, the first in the order of the range.\<close>

definition idle :: "files \<Rightarrow> nat \<Rightarrow> bool" where
  "idle fs i = (case map_of fs i of None \<Rightarrow> False | Some f \<Rightarrow> of_open f \<and> of_refs f = 0)"

definition evict :: "nat list \<Rightarrow> files \<Rightarrow> nat \<Rightarrow> files" where
  "evict order fs i =
     (case find (\<lambda>j. j \<noteq> i \<and> idle fs j) order of None \<Rightarrow> fs | Some j \<Rightarrow> AList.delete j fs)"

definition acquire_opened :: "nat list \<Rightarrow> files \<Rightarrow> nat \<Rightarrow> bool \<Rightarrow> files" where
  "acquire_opened order fs i ok =
     (if \<not> ok then AList.delete i fs
      else
        let fs1 = AList.update i \<lparr>of_open = True, of_refs = 1\<rparr> fs
        in if length fs1 > maxOpenFiles then evict order fs1 i else fs1)"

definition release_file :: "files \<Rightarrow> nat \<Rightarrow> files" where
  "release_file fs i =
     (case map_of fs i of
        None \<Rightarrow> fs
      | Some f \<Rightarrow> if of_refs f > 0 then AList.update i (f\<lparr>of_refs := of_refs f - 1\<rparr>) fs else fs)"

section \<open>Its users\<close>

text \<open>Every connection, and the goroutine that hashes ahead, reads at most one file at a time: the
  users are the items being read and those being opened, \<open>K\<close> of them at most.\<close>

record users =
  us_files :: files
  us_reads :: "nat multiset"
  us_opens :: "nat multiset"

definition busy :: "users \<Rightarrow> nat" where
  "busy u = size (us_reads u) + size (us_opens u)"

inductive files_step :: "nat \<Rightarrow> users \<Rightarrow> users \<Rightarrow> bool" for K :: nat where
  reuse: "busy u < K \<Longrightarrow> acquire_find (us_files u) i = Reuse fs \<Longrightarrow>
    files_step K u (u\<lparr>us_files := fs, us_reads := add_mset i (us_reads u)\<rparr>)"
| opens: "busy u < K \<Longrightarrow> acquire_find (us_files u) i = Opens fs \<Longrightarrow>
    files_step K u (u\<lparr>us_files := fs, us_opens := add_mset i (us_opens u)\<rparr>)"
| opened: "i \<in># us_opens u \<Longrightarrow> set order = insert i (fst ` set (us_files u)) \<Longrightarrow>
    files_step K u (u\<lparr>us_files := acquire_opened order (us_files u) i True,
      us_reads := add_mset i (us_reads u), us_opens := us_opens u - {#i#}\<rparr>)"
| failed: "i \<in># us_opens u \<Longrightarrow>
    files_step K u (u\<lparr>us_files := acquire_opened order (us_files u) i False, us_opens := us_opens u - {#i#}\<rparr>)"
| released: "i \<in># us_reads u \<Longrightarrow>
    files_step K u (u\<lparr>us_files := release_file (us_files u) i, us_reads := us_reads u - {#i#}\<rparr>)"

definition no_users :: users where
  "no_users = \<lparr>us_files = [], us_reads = {#}, us_opens = {#}\<rparr>"

text \<open>The files really open, and what holds of them: the count of an open file is that of its
  readers, an entry not open yet has one opener, and there are not too many.\<close>

definition open_items :: "files \<Rightarrow> nat set" where
  "open_items fs = {i. \<exists>f. map_of fs i = Some f \<and> of_open f}"

fun entry_ok :: "open_file option \<Rightarrow> nat \<Rightarrow> nat \<Rightarrow> bool" where
  "entry_ok None reads opens \<longleftrightarrow> reads = 0 \<and> opens = 0"
| "entry_ok (Some f) reads opens \<longleftrightarrow> (if of_open f then of_refs f = reads \<and> opens = 0 else reads = 0 \<and> opens = 1)"

definition files_inv :: "nat \<Rightarrow> users \<Rightarrow> bool" where
  "files_inv K u \<longleftrightarrow>
     distinct (map fst (us_files u)) \<and> busy u \<le> K \<and>
     (\<forall>i. entry_ok (map_of (us_files u) i) (count (us_reads u) i) (count (us_opens u) i)) \<and>
     card (open_items (us_files u)) \<le> max maxOpenFiles K"

lemma files_invD:
  assumes "files_inv K u"
  shows "distinct (map fst (us_files u))" "busy u \<le> K" "card (open_items (us_files u)) \<le> max maxOpenFiles K"
    "entry_ok (map_of (us_files u) i) (count (us_reads u) i) (count (us_opens u) i)"
  using assms by (auto simp: files_inv_def)

text \<open>What an entry says of the users of its item.\<close>

lemma entry_reading: "entry_ok e (Suc n) k \<Longrightarrow> \<exists>f. e = Some f \<and> of_open f \<and> of_refs f = Suc n \<and> k = 0"
  by (cases e) (auto split: if_splits)

lemma entry_opening: "entry_ok e n (Suc k) \<Longrightarrow> \<exists>f. e = Some f \<and> \<not> of_open f \<and> n = 0 \<and> k = 0"
  by (cases e) (auto split: if_splits)

lemma finite_open_items [simp]: "finite (open_items fs)"
  by (rule finite_subset [where B = "fst ` set fs"]) (auto simp: open_items_def dest: map_of_SomeD intro: rev_image_eqI)

lemma open_items_update:
  "open_items (AList.update i f fs) = (if of_open f then insert i (open_items fs) else open_items fs - {i})"
  by (auto simp: open_items_def update_conv)

lemma open_items_delete: "open_items (AList.delete i fs) = open_items fs - {i}"
  by (auto simp: open_items_def delete_conv)

lemma map_of_delete: "map_of (AList.delete i fs) j = (if i = j then None else map_of fs j)"
  by (simp add: delete_conv)

lemma map_of_update: "map_of (AList.update i f fs) j = (if i = j then Some f else map_of fs j)"
  by (simp add: update_conv)

lemma card_open_le: "card (open_items fs) \<le> length fs"
proof -
  have "open_items fs \<subseteq> fst ` set fs"
    by (auto simp: open_items_def dest: map_of_SomeD intro: rev_image_eqI)
  then have "card (open_items fs) \<le> card (fst ` set fs)" by (simp add: card_mono)
  also have "\<dots> \<le> length fs" by (metis card_image_le card_length finite_set le_trans)
  finally show ?thesis .
qed

text \<open>When nothing idle is left, every open file has a reader.\<close>

lemma evict_cases:
  "evict order fs i = fs \<and> (\<forall>j \<in> set order. j \<noteq> i \<longrightarrow> \<not> idle fs j) \<or>
   (\<exists>j. j \<noteq> i \<and> idle fs j \<and> evict order fs i = AList.delete j fs)"
  by (auto simp: evict_def find_None_iff find_Some_iff split: option.splits)

lemma opened_item:
  assumes "files_inv K u" "i \<in># us_opens u"
  obtains f where "map_of (us_files u) i = Some f" "\<not> of_open f" "count (us_reads u) i = 0"
    "count (us_opens u) i = 1" "i \<notin> open_items (us_files u)"
proof -
  obtain k where k: "count (us_opens u) i = Suc k" using assms(2) by (metis count_greater_zero_iff gr0_implies_Suc)
  from entry_opening [OF files_invD(4) [OF assms(1), of i, unfolded k]]
  obtain f where "map_of (us_files u) i = Some f" "\<not> of_open f" "count (us_reads u) i = 0" "k = 0" by blast
  then show thesis using that k by (auto simp: open_items_def)
qed

lemma card_set_mset: "card (set_mset M) \<le> size M"
proof (induction M)
  case (add x M)
  have "card (insert x (set_mset M)) \<le> Suc (card (set_mset M))" by (simp add: card_insert_if)
  with add show ?case by simp
qed simp

lemma all_read:
  assumes inv: "files_inv K u" and "\<And>j. j \<in> open_items (us_files u) \<Longrightarrow> \<not> idle (us_files u) j"
  shows "card (open_items (us_files u)) \<le> size (us_reads u)"
proof -
  have "open_items (us_files u) \<subseteq> set_mset (us_reads u)"
  proof
    fix j assume j: "j \<in> open_items (us_files u)"
    then obtain f where f: "map_of (us_files u) j = Some f" "of_open f" by (auto simp: open_items_def)
    with assms(2) [OF j] have "of_refs f \<noteq> 0" by (simp add: idle_def)
    with files_invD(4) [OF inv, of j] f show "j \<in># us_reads u" by (auto simp: not_in_iff)
  qed
  then have "card (open_items (us_files u)) \<le> card (set_mset (us_reads u))" by (rule card_mono [rotated]) simp
  then show ?thesis using card_set_mset [of "us_reads u"] by (rule order_trans)
qed

lemma opened_card:
  assumes inv: "files_inv K u" and i: "i \<in># us_opens u" and order: "set order = insert i (fst ` set (us_files u))"
  shows "card (open_items (acquire_opened order (us_files u) i True)) \<le> max maxOpenFiles K"
proof -
  let ?fs = "us_files u" and ?fs1 = "AList.update i \<lparr>of_open = True, of_refs = 1\<rparr> (us_files u)"
  obtain f where f: "i \<notin> open_items ?fs" using opened_item [OF inv i] by metis
  have o1: "open_items ?fs1 = insert i (open_items ?fs)" by (simp add: open_items_update)
  consider (short) "length ?fs1 \<le> maxOpenFiles"
    | (none) "evict order ?fs1 i = ?fs1" "\<forall>j \<in> set order. j \<noteq> i \<longrightarrow> \<not> idle ?fs1 j" "length ?fs1 > maxOpenFiles"
    | (some) j where "j \<noteq> i" "idle ?fs1 j" "evict order ?fs1 i = AList.delete j ?fs1" "length ?fs1 > maxOpenFiles"
    using evict_cases [of order ?fs1 i] by fastforce
  then show ?thesis
  proof cases
    case short
    with card_open_le [of ?fs1] show ?thesis by (simp add: acquire_opened_def)
  next
    case none
    have "\<not> idle ?fs j" if "j \<in> open_items ?fs" for j
    proof -
      have "j \<in> fst ` set ?fs" "j \<noteq> i"
        using that f by (auto simp: open_items_def dest: map_of_SomeD intro: rev_image_eqI)
      then show ?thesis using none(2) order by (auto simp: idle_def map_of_update)
    qed
    from all_read [OF inv this] have "card (open_items ?fs) \<le> size (us_reads u)" .
    moreover have "0 < size (us_opens u)" using i by (metis nonempty_has_size empty_iff set_mset_empty)
    ultimately have "Suc (card (open_items ?fs)) \<le> K" using files_invD(2) [OF inv] by (simp add: busy_def)
    then show ?thesis using none(1,3) f o1 by (simp add: acquire_opened_def)
  next
    case (some j)
    then have j: "j \<in> open_items ?fs" by (auto simp: idle_def map_of_update open_items_def split: option.splits if_splits)
    have "open_items (AList.delete j ?fs1) = insert i (open_items ?fs - {j})"
      using o1 some(1) by (auto simp: open_items_delete)
    moreover have "card (insert i (open_items ?fs - {j})) = card (open_items ?fs)"
      using f j card_Suc_Diff1 [OF finite_open_items j] by simp
    ultimately show ?thesis using some(3,4) files_invD(3) [OF inv] by (simp add: acquire_opened_def)
  qed
qed

lemma acquire_opened_True:
  "acquire_opened order fs i True = AList.update i \<lparr>of_open = True, of_refs = 1\<rparr> fs \<or>
   (\<exists>j. j \<noteq> i \<and> idle fs j \<and>
      acquire_opened order fs i True = AList.delete j (AList.update i \<lparr>of_open = True, of_refs = 1\<rparr> fs))"
  using evict_cases [of order "AList.update i \<lparr>of_open = True, of_refs = 1\<rparr> fs" i]
  by (auto simp: acquire_opened_def Let_def idle_def map_of_update)

lemma distinct_table [simp]:
  "distinct (map fst fs) \<Longrightarrow> distinct (map fst (AList.update i f fs))"
  "distinct (map fst fs) \<Longrightarrow> distinct (map fst (AList.delete i fs))"
  by (simp_all add: distinct_update distinct_delete)


section \<open>What every step keeps\<close>

lemma acquire_find_cases:
  "acquire_find fs i = Reuse fs' \<Longrightarrow>
     \<exists>f. map_of fs i = Some f \<and> of_open f \<and> fs' = AList.update i (f\<lparr>of_refs := Suc (of_refs f)\<rparr>) fs"
  "acquire_find fs i = Opens fs' \<Longrightarrow> map_of fs i = None \<and> fs' = AList.update i \<lparr>of_open = False, of_refs = 0\<rparr> fs"
  by (auto simp: acquire_find_def split: option.splits if_splits)

text \<open>A step on one item changes its entry and its counts only.\<close>

lemma one_item:
  assumes inv: "files_inv K u" and "distinct (map fst (us_files v))" "busy v \<le> K"
    "card (open_items (us_files v)) \<le> max maxOpenFiles K"
    "entry_ok (map_of (us_files v) i) (count (us_reads v) i) (count (us_opens v) i)"
    "\<And>j. j \<noteq> i \<Longrightarrow> count (us_reads v) j = count (us_reads u) j \<and> count (us_opens v) j = count (us_opens u) j"
    "\<And>j. j \<noteq> i \<Longrightarrow> map_of (us_files v) j = map_of (us_files u) j \<or> map_of (us_files v) j = None \<and> idle (us_files u) j"
  shows "files_inv K v"
proof -
  have "entry_ok (map_of (us_files v) j) (count (us_reads v) j) (count (us_opens v) j)" for j
  proof (cases "j = i")
    case False
    then show ?thesis
      using assms(6,7) [OF False] files_invD(4) [OF inv, of j] by (auto simp: idle_def split: option.splits if_splits)
  qed (use assms(5) in simp)
  with assms(2-4) show ?thesis by (simp add: files_inv_def)
qed

lemma reuse_keeps:
  assumes inv: "files_inv K u" and "busy u < K" "acquire_find (us_files u) i = Reuse fs"
  shows "files_inv K (u\<lparr>us_files := fs, us_reads := add_mset i (us_reads u)\<rparr>)"
proof -
  obtain f where f: "map_of (us_files u) i = Some f" "of_open f"
    "fs = AList.update i (f\<lparr>of_refs := Suc (of_refs f)\<rparr>) (us_files u)"
    using acquire_find_cases(1) [OF assms(3)] by blast
  have "i \<in> open_items (us_files u)" using f(1,2) by (simp add: open_items_def)
  then have "open_items fs = open_items (us_files u)" using f(2,3) by (simp add: open_items_update insert_absorb)
  then show ?thesis
    using f files_invD [OF inv] files_invD(4) [OF inv, of i] assms(2)
    by (intro one_item [OF inv, of _ i]) (simp_all add: map_of_update busy_def)
qed

lemma opens_keeps:
  assumes inv: "files_inv K u" and "busy u < K" "acquire_find (us_files u) i = Opens fs"
  shows "files_inv K (u\<lparr>us_files := fs, us_opens := add_mset i (us_opens u)\<rparr>)"
proof -
  have f: "map_of (us_files u) i = None" "fs = AList.update i \<lparr>of_open = False, of_refs = 0\<rparr> (us_files u)"
    using acquire_find_cases(2) [OF assms(3)] by blast+
  have "i \<notin> open_items (us_files u)" using f(1) by (simp add: open_items_def)
  then have "open_items fs = open_items (us_files u)" using f(2) by (simp add: open_items_update)
  then show ?thesis
    using f files_invD [OF inv] files_invD(4) [OF inv, of i] assms(2)
    by (intro one_item [OF inv, of _ i]) (simp_all add: map_of_update busy_def)
qed

lemma opened_keeps:
  assumes inv: "files_inv K u" and i: "i \<in># us_opens u" and order: "set order = insert i (fst ` set (us_files u))"
  shows "files_inv K (u\<lparr>us_files := acquire_opened order (us_files u) i True,
      us_reads := add_mset i (us_reads u), us_opens := us_opens u - {#i#}\<rparr>)"
proof -
  obtain f where f: "count (us_reads u) i = 0" "count (us_opens u) i = 1" using opened_item [OF inv i] by metis
  have busy: "size (us_opens u) = Suc (size (us_opens u - {#i#}))" using i by (metis insert_DiffM size_add_mset)
  have tab: "map_of (acquire_opened order (us_files u) i True) i = Some \<lparr>of_open = True, of_refs = 1\<rparr>"
    "distinct (map fst (acquire_opened order (us_files u) i True))"
    "\<And>j. j \<noteq> i \<Longrightarrow> map_of (acquire_opened order (us_files u) i True) j = map_of (us_files u) j \<or>
      map_of (acquire_opened order (us_files u) i True) j = None \<and> idle (us_files u) j"
    using acquire_opened_True [of order "us_files u" i] files_invD(1) [OF inv]
    by (auto simp: map_of_update map_of_delete split: if_splits)
  show ?thesis
    using f busy files_invD(2) [OF inv] opened_card [OF assms] tab
    by (intro one_item [OF inv, of _ i]) (simp_all add: busy_def)
qed

lemma failed_keeps:
  assumes inv: "files_inv K u" and i: "i \<in># us_opens u"
  shows "files_inv K (u\<lparr>us_files := acquire_opened order (us_files u) i False, us_opens := us_opens u - {#i#}\<rparr>)"
proof -
  obtain f where f: "count (us_reads u) i = 0" "count (us_opens u) i = 1" "i \<notin> open_items (us_files u)"
    using opened_item [OF inv i] by metis
  have busy: "size (us_opens u) = Suc (size (us_opens u - {#i#}))" using i by (metis insert_DiffM size_add_mset)
  show ?thesis
    using f busy files_invD [OF inv]
    by (intro one_item [OF inv, of _ i])
      (simp_all add: acquire_opened_def map_of_delete busy_def open_items_delete)
qed

lemma released_keeps:
  assumes inv: "files_inv K u" and i: "i \<in># us_reads u"
  shows "files_inv K (u\<lparr>us_files := release_file (us_files u) i, us_reads := us_reads u - {#i#}\<rparr>)"
proof -
  obtain n where n: "count (us_reads u) i = Suc n" using i by (metis count_greater_zero_iff gr0_implies_Suc)
  from entry_reading [OF files_invD(4) [OF inv, of i, unfolded n]]
  obtain f where f: "map_of (us_files u) i = Some f" "of_open f" "of_refs f = Suc n" "count (us_opens u) i = 0" by blast
  have eq: "release_file (us_files u) i = AList.update i (f\<lparr>of_refs := n\<rparr>) (us_files u)"
    using f by (simp add: release_file_def)
  have "i \<in> open_items (us_files u)" using f(1,2) by (simp add: open_items_def)
  then have items: "open_items (release_file (us_files u) i) = open_items (us_files u)"
    using f(2) by (simp add: eq open_items_update insert_absorb)
  have busy: "size (us_reads u) = Suc (size (us_reads u - {#i#}))" using i by (metis insert_DiffM size_add_mset)
  show ?thesis
    using n f busy items files_invD [OF inv]
    by (intro one_item [OF inv, of _ i]) (simp_all add: eq map_of_update busy_def)
qed

lemma files_step_keeps: "files_step K u v \<Longrightarrow> files_inv K u \<Longrightarrow> files_inv K v"
  by (induction rule: files_step.induct)
    (auto intro: reuse_keeps opens_keeps opened_keeps failed_keeps released_keeps)

interpretation open_files: step_invariant "files_step K" "files_inv K" for K
  by unfold_locales (rule files_step_keeps)

lemma files_inv_start: "files_inv K no_users"
  by (simp add: files_inv_def no_users_def busy_def open_items_def)

section \<open>Properties\<close>


definition ex_users :: "nat multiset \<Rightarrow> users" where
  "ex_users m = \<lparr>us_files = [(7, \<lparr>of_open = True, of_refs = size m\<rparr>)], us_reads = m, us_opens = {#}\<rparr>"

lemma ex_files_run: "(files_step 2)\<^sup>*\<^sup>* no_users (ex_users {#7, 7#})"
proof -
  let ?u1 = "\<lparr>us_files = [(7, \<lparr>of_open = False, of_refs = 0\<rparr>)], us_reads = {#}, us_opens = {#7#}\<rparr> :: users"
  have "files_step 2 no_users ?u1"
    using files_step.opens [of no_users 2 7 "[(7, \<lparr>of_open = False, of_refs = 0\<rparr>)]"]
    by (simp add: no_users_def busy_def acquire_find_def)
  moreover have "files_step 2 ?u1 (ex_users {#7#})"
    using files_step.opened [of 7 ?u1 "[7]" 2]
    by (simp add: ex_users_def acquire_opened_def maxOpenFiles_def)
  moreover have "files_step 2 (ex_users {#7#}) (ex_users {#7, 7#})"
    using files_step.reuse [of "ex_users {#7#}" 2 7 "[(7, \<lparr>of_open = True, of_refs = Suc (Suc 0)\<rparr>)]"]
    by (simp add: ex_users_def busy_def acquire_find_def numeral_2_eq_2)
  ultimately show ?thesis by (meson converse_rtranclp_into_rtranclp rtranclp.rtrancl_refl)
qed


end
