(* ===== verification/Sender.thy ===== *)
theory Sender
  imports OpenFiles Messages Offer Events
begin

text \<open>
  The sender of a transfer (\<^verbatim>\<open>pkg/transfer/sender.go\<close>): it answers the receiver's
  requests, in whatever order they come, on several connections. What the code reads of the
  world (opening a file, its size and date, its bytes, the order of a range over a map) is an
  argument, given for each moment of an operation, so that a file may change at any time.
  The times of the stages are left out.
\<close>

section \<open>Data\<close>

record source =
  so_open :: "nat \<Rightarrow> bool"
  so_stat :: "nat \<Rightarrow> (int \<times> int) option"
  so_read :: "nat \<Rightarrow> nat \<Rightarrow> nat \<Rightarrow> bytes option"
  so_order :: "nat list"

datatype source_error = SourceChanged | OpenFailed | ReadFailed

record ahead =
  ah_upTo :: nat
  ah_hashes :: "bytes list"
  ah_ok :: bool
  ah_done :: bool

record sender =
  sd_offer :: offer
  sd_paths :: "string list"
  sd_src :: "(nat \<Rightarrow> nat \<Rightarrow> bytes option) option"
  sd_files :: files
  sd_fixed :: "nat list"
  sd_served :: "64 word list list"
  sd_hashes :: "bytes list list"
  sd_itemBytes :: "nat \<Rightarrow> int"
  sd_active :: "nat set"
  sd_ahead :: "nat \<rightharpoonup> ahead"
  sd_aheadNext :: "nat list"
  sd_quit :: bool
  sd_digestReads :: nat
  sd_bytes :: int
  sd_wire :: int
  sd_streams :: nat
  sd_finished :: bool
  sd_partial :: bool

datatype sender_error =
    PathCount nat nat
  | OfferRefused offer_error
  | NotRegularFile nat
  | SourceItems nat

definition zero_hash :: bytes where "zero_hash = replicate 32 0"

text \<open>An empty list stands for Go's \<^verbatim>\<open>nil\<close> in \<open>sd_served\<close>: a list made has at least one word.\<close>

definition NewSender :: "(string \<Rightarrow> string) \<Rightarrow> offer \<Rightarrow> string list \<Rightarrow> sender_error + sender" where
  "NewSender uni off paths =
     (if length paths \<noteq> length (o_Items off) then Inl (PathCount (length paths) (length (o_Items off)))
      else case Validate uni off of
        Inl e \<Rightarrow> Inl (OfferRefused e)
      | Inr _ \<Rightarrow> Inr \<lparr>sd_offer = off, sd_paths = paths, sd_src = None, sd_files = [], sd_fixed = [],
          sd_served = replicate (length paths) [], sd_hashes = replicate (length paths) [],
          sd_itemBytes = (\<lambda>_. 0), sd_active = {}, sd_ahead = Map.empty, sd_aheadNext = [], sd_quit = False,
          sd_digestReads = 0, sd_bytes = 0, sd_wire = 0, sd_streams = 0, sd_finished = False, sd_partial = False\<rparr>)"

text \<open>A sender of files already open: \<open>names\<close> are those of the files, \<open>None\<close> for a nil one.\<close>

definition NewSenderFiles :: "(string \<Rightarrow> string) \<Rightarrow> offer \<Rightarrow> string option list \<Rightarrow> sender_error + sender" where
  "NewSenderFiles uni off names =
     (case find (\<lambda>i. names ! i = None) [0..<length names] of
        Some i \<Rightarrow> Inl (NotRegularFile i)
      | None \<Rightarrow> (case NewSender uni off (map the names) of
            Inl e \<Rightarrow> Inl e
          | Inr s \<Rightarrow> Inr (s\<lparr>sd_fixed := [0..<length names]\<rparr>)))"

definition NewSourceSender ::
  "(string \<Rightarrow> string) \<Rightarrow> offer \<Rightarrow> (nat \<Rightarrow> nat \<Rightarrow> bytes option) \<Rightarrow> sender_error + sender" where
  "NewSourceSender uni off src =
     (if length (o_Items off) \<noteq> 1 then Inl (SourceItems (length (o_Items off)))
      else case NewSender uni off [''''] of
        Inl e \<Rightarrow> Inl e
      | Inr s \<Rightarrow> Inr (s\<lparr>sd_src := Some src\<rparr>))"

section \<open>Reading an item\<close>

text \<open>\<open>isfile\<close> is false where the code has a nil file: a bench source, or a failed open.\<close>

definition unchanged :: "source \<Rightarrow> sender \<Rightarrow> nat \<Rightarrow> bool \<Rightarrow> bool" where
  "unchanged w s i isfile =
     (\<not> isfile \<or>
      (let it = o_Items (sd_offer s) ! i in
       case so_stat w i of
         None \<Rightarrow> False
       | Some (sz, mtime) \<Rightarrow> sz = it_Size it \<and> (it_MTime it = 0 \<or> mtime = it_MTime it)))"

text \<open>\<open>None\<close>: another connection is opening the file, this one waits and tries again.\<close>

definition acquire :: "source \<Rightarrow> sender \<Rightarrow> nat \<Rightarrow> ((source_error + unit) \<times> sender) option" where
  "acquire w s i =
     (if i \<in> set (sd_fixed s)
      then Some (if unchanged w s i True then Inr () else Inl SourceChanged, s)
      else case acquire_find (sd_files s) i of
        Wait \<Rightarrow> None
      | Reuse fs \<Rightarrow> Some (Inr (), s\<lparr>sd_files := fs\<rparr>)
      | Opens fs \<Rightarrow>
          let r = (if \<not> so_open w i then Inl OpenFailed
                   else if \<not> unchanged w s i True then Inl SourceChanged else Inr ())
          in Some (r, s\<lparr>sd_files := acquire_opened (so_order w) fs i (r = Inr ())\<rparr>))"

definition release :: "sender \<Rightarrow> nat \<Rightarrow> sender" where
  "release s i = s\<lparr>sd_files := release_file (sd_files s) i\<rparr>"

definition reader :: "source \<Rightarrow> sender \<Rightarrow> nat \<Rightarrow> ((source_error + bool) \<times> sender) option" where
  "reader w s i =
     (if sd_src s \<noteq> None then Some (Inr False, s)
      else map_option (\<lambda>(r, s'). (case r of Inl e \<Rightarrow> Inl e | Inr _ \<Rightarrow> Inr True, s')) (acquire w s i))"

definition let_go :: "sender \<Rightarrow> nat \<Rightarrow> bool \<Rightarrow> sender" where
  "let_go s i isfile = (if isfile then release s i else s)"

definition read_at :: "source \<Rightarrow> sender \<Rightarrow> nat \<Rightarrow> nat \<Rightarrow> nat \<Rightarrow> bytes option" where
  "read_at w s i n off = (case sd_src s of Some f \<Rightarrow> f n off | None \<Rightarrow> so_read w i n off)"

definition readErr :: "source \<Rightarrow> sender \<Rightarrow> nat \<Rightarrow> bool \<Rightarrow> source_error \<Rightarrow> 16 word" where
  "readErr w s i isfile err =
     (if err = SourceChanged \<or> (isfile \<and> \<not> unchanged w s i isfile) then ChunkErrSourceChanged else ChunkErrRead)"

definition span :: "sender \<Rightarrow> int \<Rightarrow> 32 word \<Rightarrow> int \<times> int" where
  "span s sz index =
     (let cs = uint (o_ChunkSize (sd_offer s)); off = uint index * cs in (off, min cs (sz - off)))"

section \<open>The chunks served\<close>

definition servedHash :: "sender \<Rightarrow> nat \<Rightarrow> 32 word \<Rightarrow> bytes option" where
  "servedHash s i index =
     (let bits = sd_served s ! i in
      if bits = [] \<or> and (bits ! unat (index div 64)) (push_bit (unat (index mod 64)) 1) = 0 then None
      else Some (sd_hashes s ! i ! unat index))"

text \<open>The list of bits of an item is made when its first chunk is served: when that is not the
  first of the item, the ones before are to be hashed ahead.\<close>

definition first_served :: "sender \<Rightarrow> nat \<Rightarrow> 32 word \<Rightarrow> sender" where
  "first_served s i index =
     (if sd_served s ! i \<noteq> [] then s
      else
        let chunks = max 1 (Chunks (it_Size (o_Items (sd_offer s) ! i)) (o_ChunkSize (sd_offer s)));
            s1 = s\<lparr>sd_served := (sd_served s)[i := replicate (unat ((chunks + 63) div 64)) 0],
                   sd_hashes := (sd_hashes s)[i := replicate (unat chunks) zero_hash]\<rparr>
        in if index > 0
           then s1\<lparr>sd_ahead := (sd_ahead s)(i \<mapsto> \<lparr>ah_upTo = unat index, ah_hashes = replicate (unat index) zero_hash,
                     ah_ok = False, ah_done = False\<rparr>),
                   sd_aheadNext := sd_aheadNext s @ [i]\<rparr>
           else s1)"

definition markServed :: "sender \<Rightarrow> nat \<Rightarrow> 32 word \<Rightarrow> int \<Rightarrow> bytes \<Rightarrow> sender" where
  "markServed s i index n hsum =
     (let s1 = first_served s i index;
          w = unat (index div 64); b = push_bit (unat (index mod 64)) 1 :: 64 word; bits = sd_served s1 ! i;
          s2 = (if and (bits ! w) b = 0
                then let got = sd_itemBytes s1 i + n
                     in s1\<lparr>sd_served := (sd_served s1)[i := bits[w := or (bits ! w) b]],
                        sd_itemBytes := (sd_itemBytes s1)(i := got),
                        sd_active := (if got < it_Size (o_Items (sd_offer s1) ! i)
                                      then insert i (sd_active s1) else sd_active s1 - {i}),
                        sd_bytes := sd_bytes s1 + n\<rparr>
                else s1)
      in s2\<lparr>sd_hashes := (sd_hashes s2)[i := (sd_hashes s2 ! i)[unat index := hsum]]\<rparr>)"

text \<open>The answer to a request of a chunk; \<open>w k\<close> is the world at the \<open>k\<close>-th moment. \<open>None\<close>: it waits.\<close>

definition chunk ::
  "(bytes \<Rightarrow> bytes) \<Rightarrow> (nat \<Rightarrow> source) \<Rightarrow> sender \<Rightarrow> 32 word \<Rightarrow> 32 word \<Rightarrow> (bytes \<times> sender) option" where
  "chunk sha w s item index =
     (let i = unat item in
      if i \<ge> length (sd_paths s) then Some (AppendChunkError [] item index ChunkErrNoSuchChunk, s)
      else
        let it = o_Items (sd_offer s) ! i in
        if index \<ge> max 1 (Chunks (it_Size it) (o_ChunkSize (sd_offer s)))
        then Some (AppendChunkError [] item index ChunkErrNoSuchChunk, s)
        else
          let (off, n) = span s (it_Size it) index in
          case reader (w 0) s i of
            None \<Rightarrow> None
          | Some (Inl err, s1) \<Rightarrow> Some (AppendChunkError [] item index (readErr (w 0) s1 i False err), s1)
          | Some (Inr isfile, s1) \<Rightarrow>
              (case read_at (w 1) s1 i (nat n) (nat off) of
                 None \<Rightarrow> Some (AppendChunkError [] item index (readErr (w 2) s1 i isfile ReadFailed), let_go s1 i isfile)
               | Some data \<Rightarrow>
                   Some (AppendChunkData [] item index (sha data) data,
                     let_go (markServed s1 i index n (sha data)) i isfile)))"

section \<open>Hashing ahead\<close>

text \<open>\<^verbatim>\<open>hashAhead\<close> and \<^verbatim>\<open>hashChunks\<close>: one goroutine takes the items in turn. Its three parts are
  taking an item, hashing one of its chunks, and the end; other connections run in between.\<close>

definition set_ahead :: "sender \<Rightarrow> nat \<Rightarrow> (ahead \<Rightarrow> ahead) \<Rightarrow> sender" where
  "set_ahead s i f = s\<lparr>sd_ahead := (sd_ahead s)(i := map_option f (sd_ahead s i))\<rparr>"

definition ahead_end :: "sender \<Rightarrow> nat \<Rightarrow> bool \<Rightarrow> sender" where
  "ahead_end s i ok = set_ahead s i (\<lambda>a. a\<lparr>ah_ok := ok, ah_done := True\<rparr>)"

datatype hashing = NotHashing | Hashing nat bool nat

definition hash_take :: "source \<Rightarrow> sender \<Rightarrow> (hashing \<times> sender) option" where
  "hash_take w s =
     (case sd_aheadNext s of
        [] \<Rightarrow> None
      | i # rest \<Rightarrow>
          (case reader w (s\<lparr>sd_aheadNext := rest\<rparr>) i of
             None \<Rightarrow> None
           | Some (Inl _, s1) \<Rightarrow> Some (NotHashing, ahead_end s1 i False)
           | Some (Inr isfile, s1) \<Rightarrow> Some (Hashing i isfile 0, s1)))"

fun hash_next :: "(bytes \<Rightarrow> bytes) \<Rightarrow> source \<Rightarrow> bool \<Rightarrow> sender \<Rightarrow> hashing \<Rightarrow> hashing \<times> sender" where
  "hash_next sha w cancelled s NotHashing = (NotHashing, s)"
| "hash_next sha w cancelled s (Hashing i isfile k) =
     (case sd_ahead s i of
        None \<Rightarrow> (NotHashing, let_go s i isfile)
      | Some a \<Rightarrow>
          if k \<ge> ah_upTo a then (NotHashing, ahead_end (let_go s i isfile) i True)
          else if cancelled then (NotHashing, ahead_end (let_go s i isfile) i False)
          else if servedHash s i (of_nat k) \<noteq> None then (Hashing i isfile (Suc k), s)
          else
            let (off, n) = span s (it_Size (o_Items (sd_offer s) ! i)) (of_nat k) in
            case read_at w s i (nat n) (nat off) of
              None \<Rightarrow> (NotHashing, ahead_end (let_go s i isfile) i False)
            | Some data \<Rightarrow> (Hashing i isfile (Suc k),
                set_ahead s i (\<lambda>a. a\<lparr>ah_hashes := (ah_hashes a)[k := sha data]\<rparr>)))"

text \<open>The hashes of an item's chunks once they are; \<open>None\<close> while they are being hashed. When the
  transfer has also ended, either case of the code's \<^verbatim>\<open>select\<close> may be taken: \<open>pick\<close> says which.\<close>

definition hashedAhead :: "bool \<Rightarrow> sender \<Rightarrow> nat \<Rightarrow> ahead option option" where
  "hashedAhead pick s i =
     (case sd_ahead s i of
        None \<Rightarrow> Some None
      | Some a \<Rightarrow>
          if sd_quit s \<and> (pick \<or> \<not> ah_done a) then Some None
          else if ah_done a then Some (if ah_ok a then Some a else None)
          else None)"

section \<open>The digest\<close>

text \<open>The loop over the chunks: each looks in the sender as it is then, since other connections
  serve meanwhile: \<open>look k s\<close> is what they have made of \<open>s\<close> when chunk \<open>k\<close> is looked at. The
  result is the hashes, or the chunk whose read failed, and the number of reads made.\<close>

definition ready_hash :: "sender \<Rightarrow> nat \<Rightarrow> ahead option \<Rightarrow> nat \<Rightarrow> bytes option" where
  "ready_hash s i pre k =
     (case servedHash s i (of_nat k) of
        Some h \<Rightarrow> Some h
      | None \<Rightarrow> (case pre of
            Some a \<Rightarrow> if k < ah_upTo a then Some (ah_hashes a ! k) else None
          | None \<Rightarrow> None))"

fun digest_loop ::
  "(bytes \<Rightarrow> bytes) \<Rightarrow> (nat \<Rightarrow> source) \<Rightarrow> (nat \<Rightarrow> sender \<Rightarrow> sender) \<Rightarrow> sender \<Rightarrow> nat \<Rightarrow> ahead option
   \<Rightarrow> nat list \<Rightarrow> nat \<Rightarrow> bytes list \<Rightarrow> (nat + bytes list) \<times> nat" where
  "digest_loop sha w look s i pre [] reads acc = (Inr acc, reads)"
| "digest_loop sha w look s i pre (k # ks) reads acc =
     (case ready_hash (look k s) i pre k of
        Some h \<Rightarrow> digest_loop sha w look s i pre ks reads (acc @ [h])
      | None \<Rightarrow>
          (let (off, n) = span s (it_Size (o_Items (sd_offer s) ! i)) (of_nat k) in
           case read_at (w k) s i (nat n) (nat off) of
             None \<Rightarrow> (Inl k, reads)
           | Some data \<Rightarrow> digest_loop sha w look s i pre ks (Suc reads) (acc @ [sha data])))"

text \<open>\<open>w 0\<close> and \<open>w 1\<close> are the world when the file is taken and first checked, \<open>w (2 + k)\<close> when
  chunk \<open>k\<close> is read, and \<open>w (2 + n)\<close> at the last check.\<close>

definition digest ::
  "(bytes \<Rightarrow> bytes) \<Rightarrow> (nat \<Rightarrow> source) \<Rightarrow> (nat \<Rightarrow> sender \<Rightarrow> sender) \<Rightarrow> bool \<Rightarrow> sender \<Rightarrow> 32 word
   \<Rightarrow> (bytes \<times> sender) option" where
  "digest sha w look pick s item =
     (let i = unat item; fail = (\<lambda>code. AppendChunkError [] item DigestIndex code) in
      if i \<ge> length (sd_paths s) then Some (fail ChunkErrNoSuchChunk, s)
      else
        case reader (w 0) s i of
          None \<Rightarrow> None
        | Some (Inl err, s1) \<Rightarrow> Some (fail (readErr (w 0) s1 i False err), s1)
        | Some (Inr isfile, s1) \<Rightarrow>
            if \<not> unchanged (w 1) s1 i isfile then Some (fail ChunkErrSourceChanged, let_go s1 i isfile)
            else
              case hashedAhead pick s1 i of
                None \<Rightarrow> None
              | Some pre \<Rightarrow>
                  let n = unat (Chunks (it_Size (o_Items (sd_offer s1) ! i)) (o_ChunkSize (sd_offer s1)));
                      (r, reads) = digest_loop sha (\<lambda>k. w (2 + k)) look s1 i pre [0..<n] 0 [];
                      s2 = look n s1; s3 = let_go (s2\<lparr>sd_digestReads := sd_digestReads s2 + reads\<rparr>) i isfile
                  in case r of
                       Inl k \<Rightarrow> Some (fail (readErr (w (2 + k)) s1 i isfile ReadFailed), s3)
                     | Inr hashes \<Rightarrow>
                         if \<not> unchanged (w (2 + n)) s1 i isfile then Some (fail ChunkErrSourceChanged, s3)
                         else Some (AppendDigest [] item (FileDigest sha hashes), s3))"

section \<open>The end, the progress and the connections\<close>

definition receiverDone :: "sender \<Rightarrow> byte \<Rightarrow> sender" where
  "receiverDone s status =
     (if sd_finished s then s else s\<lparr>sd_finished := True, sd_partial := (status \<noteq> DoneComplete)\<rparr>)"

record send_progress =
  sp_Bytes :: int
  sp_Total :: int
  sp_Streams :: nat
  sp_Items :: nat
  sp_Finished :: bool
  sp_Partial :: bool
  sp_Active :: "active_item list"

definition Progress :: "sender \<Rightarrow> send_progress" where
  "Progress s = \<lparr>sp_Bytes = sd_bytes s, sp_Total = o_TotalBytes (sd_offer s), sp_Streams = sd_streams s,
     sp_Items = length (sd_paths s), sp_Finished = sd_finished s, sp_Partial = sd_partial s,
     sp_Active = activeOf (sd_active s) (\<lambda>i. (sd_itemBytes s i, it_Size (o_Items (sd_offer s) ! i)))\<rparr>"

definition closeFiles :: "sender \<Rightarrow> sender" where
  "closeFiles s = s\<lparr>sd_files := [], sd_fixed := []\<rparr>"

definition request_limits :: limits where
  "request_limits =
     [TypeChunkRequest \<mapsto> of_nat ChunkRequestLen, TypeDigestRequest \<mapsto> of_nat DigestRequestLen, TypeDone \<mapsto> of_nat DoneLen]"

text \<open>What the preparing goroutine of \<^verbatim>\<open>serveConn\<close> does of the next frame: the answer to write,
  or the end of the connection.\<close>

datatype served = Answer bytes | ConnEnds | Waits

definition serve_request ::
  "(bytes \<Rightarrow> bytes) \<Rightarrow> (nat \<Rightarrow> source) \<Rightarrow> (nat \<Rightarrow> sender \<Rightarrow> sender) \<Rightarrow> bool \<Rightarrow> sender \<Rightarrow> bytes \<Rightarrow> served \<times> sender \<times> bytes" where
  "serve_request sha w look pick s r =
     (case ReadFrame r request_limits of
        (Inl _, r') \<Rightarrow> (ConnEnds, s, r')
      | (Inr (h, p), r') \<Rightarrow>
          if h_Type h = TypeDone
          then (ConnEnds, (case ParseDone p of Inl _ \<Rightarrow> s | Inr status \<Rightarrow> receiverDone s status), r')
          else
            let ans = (if h_Type h = TypeDigestRequest
                       then map_sum id (\<lambda>item. digest sha w look pick s item) (ParseDigestRequest p)
                       else map_sum id (\<lambda>(item, index). chunk sha w s item index) (ParseChunkRequest p))
            in case ans of
                 Inl _ \<Rightarrow> (ConnEnds, s, r')
               | Inr None \<Rightarrow> (Waits, s, r)
               | Inr (Some (out, s')) \<Rightarrow> (Answer out, s', r'))"

text \<open>One connection alone: the requests are answered in their order.\<close>

fun serveConn ::
  "(bytes \<Rightarrow> bytes) \<Rightarrow> (nat \<Rightarrow> nat \<Rightarrow> source) \<Rightarrow> nat \<Rightarrow> sender \<Rightarrow> bytes \<Rightarrow> bytes list \<Rightarrow> bytes list \<times> sender" where
  "serveConn sha w 0 s r out = (out, s)"
| "serveConn sha w (Suc fuel) s r out =
     (case serve_request sha (w fuel) (\<lambda>_ s. s) False s r of
        (Answer a, s', r') \<Rightarrow> serveConn sha w fuel (s'\<lparr>sd_wire := sd_wire s' + int (length a)\<rparr>) r' (out @ [a])
      | (_, s', r') \<Rightarrow> (out, s'))"

section \<open>The whole\<close>

text \<open>The steps of a sender in the worlds \<open>W\<close>: a request of any connection, a step of the goroutine
  that hashes ahead, a connection more or less, bytes written, the end.\<close>

inductive sender_step ::
  "(bytes \<Rightarrow> bytes) \<Rightarrow> (source \<Rightarrow> bool) \<Rightarrow> sender \<times> hashing \<Rightarrow> sender \<times> hashing \<Rightarrow> bool"
  for sha :: "bytes \<Rightarrow> bytes" and W :: "source \<Rightarrow> bool" where
  answers_chunk: "\<forall>k. W (w k) \<Longrightarrow> chunk sha w s item index = Some (out, s') \<Longrightarrow>
    sender_step sha W (s, h) (s', h)"
| answers_digest: "\<forall>k. W (w k) \<Longrightarrow> digest sha w (\<lambda>_ s. s) pick s item = Some (out, s') \<Longrightarrow>
    sender_step sha W (s, h) (s', h)"
| takes: "W w \<Longrightarrow> hash_take w s = Some (h, s') \<Longrightarrow> sender_step sha W (s, NotHashing) (s', h)"
| hashes: "W w \<Longrightarrow> hash_next sha w cancelled s h = (h', s') \<Longrightarrow> sender_step sha W (s, h) (s', h')"
| is_done: "sender_step sha W (s, h) (receiverDone s status, h)"
| connects: "sender_step sha W (s, h) (s\<lparr>sd_streams := n, sd_wire := b, sd_quit := q\<rparr>, h)"

end
