(* ===== verification/SenderInv.thy ===== *)
theory SenderInv
  imports Sender
begin

text \<open>
  The bookkeeping of a sender: which chunks it has served, the bytes counted, the hashes kept
  for the digest and those made ahead. \<open>sender_inv\<close> holds them together for any notion of a good
  hash that the reads of the source give; every step keeps it.
\<close>

section \<open>Chunks of an item\<close>

abbreviation item_size :: "offer \<Rightarrow> nat \<Rightarrow> nat" where
  "item_size off i \<equiv> nat (it_Size (o_Items off ! i))"

abbreviation chunk_size :: "offer \<Rightarrow> nat" where
  "chunk_size off \<equiv> unat (o_ChunkSize off)"

definition chunks_of :: "offer \<Rightarrow> nat \<Rightarrow> nat" where
  "chunks_of off i = unat (max 1 (Chunks (it_Size (o_Items off ! i)) (o_ChunkSize off)))"

definition chunk_len :: "offer \<Rightarrow> nat \<Rightarrow> nat \<Rightarrow> nat" where
  "chunk_len off i k = min (chunk_size off) (item_size off i - k * chunk_size off)"

definition accepted :: "offer \<Rightarrow> bool" where
  "accepted off \<longleftrightarrow> (\<exists>uni. Validate uni off = Inr ())"

lemma accepted_nth:
  assumes "accepted off" "i < length (o_Items off)"
  shows "0 \<le> it_Size (o_Items off ! i)" "MinChunkSize \<le> o_ChunkSize off" "o_ChunkSize off \<le> MaxChunkSize"
    "Chunks (it_Size (o_Items off ! i)) (o_ChunkSize off) \<le> 2 ^ 24"
  using assms accepted_item [OF _ nth_mem [OF assms(2)]] unfolding accepted_def by blast+

lemma chunk_size_bounds:
  assumes "MinChunkSize \<le> cs" "cs \<le> MaxChunkSize"
  shows "2 ^ 18 \<le> unat cs" "unat cs \<le> 2 ^ 23" "0 < cs"
  using assms by (simp_all add: MinChunkSize_def MaxChunkSize_def word_le_nat_alt word_less_nat_alt)

lemma unat_max_1: "unat (max 1 (w :: 32 word)) = max 1 (unat w)"
  by (simp add: max_def word_le_nat_alt)

lemma chunks_of_bounds:
  assumes "accepted off" "i < length (o_Items off)"
  shows "0 < chunks_of off i" "chunks_of off i \<le> 2 ^ 24"
  using accepted_nth(4) [OF assms] by (simp_all add: chunks_of_def unat_max_1 word_le_nat_alt)

text \<open>The number of chunks is never more than the size needs, whatever its width: so every chunk
  starts inside the item.\<close>

lemma Chunks_at_most:
  assumes "0 \<le> sz" "MinChunkSize \<le> cs" "cs \<le> MaxChunkSize" "Chunks sz cs \<le> 2 ^ 24"
  shows "int (unat (Chunks sz cs)) \<le> chunk_count sz cs"
proof (cases "chunk_count sz cs < 2 ^ 32")
  case True
  have "uint (Chunks sz cs) = chunk_count sz cs"
    using assms True chunk_size_bounds(3) [OF assms(2,3)] by (intro Chunks_exact chunk_count_room)
  then show ?thesis by simp
next
  case False
  have "unat (Chunks sz cs) \<le> 2 ^ 24" using assms(4) by (simp add: word_le_nat_alt)
  then have "int (unat (Chunks sz cs)) \<le> int (2 ^ 24)" by (simp only: of_nat_le_iff)
  with False show ?thesis by simp
qed

lemma chunk_inside:
  assumes "accepted off" "i < length (o_Items off)" "k < chunks_of off i"
  shows "k * chunk_size off \<le> item_size off i"
proof (cases k)
  case (Suc j)
  note A = accepted_nth [OF assms(1,2)]
  let ?sz = "it_Size (o_Items off ! i)" and ?cs = "int (chunk_size off)"
  have "0 < chunk_size off" using chunk_size_bounds(1) [OF A(2,3)] by simp
  then have cs: "0 < ?cs" by (simp only: of_nat_0_less_iff)
  have "k < unat (Chunks ?sz (o_ChunkSize off))" using assms(3) Suc by (simp add: chunks_of_def unat_max_1)
  then have "int k < int (unat (Chunks ?sz (o_ChunkSize off)))" by (simp only: of_nat_less_iff)
  then have "int k + 1 \<le> (?sz + ?cs - 1) div ?cs"
    using Chunks_at_most [OF A] by (simp add: chunk_count_def)
  then have "(int k + 1) * ?cs \<le> (?sz + ?cs - 1) div ?cs * ?cs" using cs by (intro mult_right_mono) simp_all
  also have "\<dots> \<le> ?sz + ?cs - 1" using pos_mod_sign [OF cs, of "?sz + ?cs - 1"] minus_mod_eq_div_mult [of "?sz + ?cs - 1" ?cs] by linarith
  finally have "(int k + 1) * ?cs \<le> ?sz + ?cs - 1" .
  then have "int k * ?cs \<le> ?sz" using cs by (simp add: algebra_simps)
  then have "int (k * chunk_size off) \<le> int (item_size off i)" using A(1) by simp
  then show ?thesis by (simp only: zle_int)
qed simp

lemma span_nat:
  assumes "o_Items (sd_offer s) ! i = it" "0 \<le> it_Size it" "k < 2 ^ 32"
    and "k * chunk_size (sd_offer s) \<le> nat (it_Size it)"
  shows "span s (it_Size it) (of_nat k) = (int (k * chunk_size (sd_offer s)), int (chunk_len (sd_offer s) i k))"
proof -
  have "uint (of_nat k :: 32 word) = int k" using assms(3) by (simp add: unsigned_of_nat take_bit_nat_eq_self)
  moreover have "uint (o_ChunkSize (sd_offer s)) = int (chunk_size (sd_offer s))" by simp
  moreover have "min (int c) (it_Size it - int (k * c)) = int (min c (nat (it_Size it) - k * c))"
    if "k * c \<le> nat (it_Size it)" for c
    using that assms(2) by linarith
  ultimately show ?thesis
    using assms unfolding span_def chunk_len_def Let_def by (simp only: of_nat_mult [symmetric] assms(1))
qed

lemma sum_chunks: "(\<Sum>k<m. min c (sz - k * c)) = min (m * c) (sz :: nat)"
  by (induction m) (auto simp: min_def)

lemma sum_chunk_len: "(\<Sum>k<m. chunk_len off i k) = min (m * chunk_size off) (item_size off i)"
  by (simp add: chunk_len_def sum_chunks)

section \<open>The bits of the chunks served\<close>

definition has :: "64 word list \<Rightarrow> nat \<Rightarrow> bool" where
  "has bits k \<longleftrightarrow> bits \<noteq> [] \<and> bit (bits ! (k div 64)) (k mod 64)"

lemma has_Nil [simp]: "\<not> has [] k"
  by (simp add: has_def)

lemma bit_and_one: "and (x :: 64 word) (2 ^ n) = 0 \<longleftrightarrow> \<not> bit x n"
  by (simp add: bit_iff_and_push_bit_not_eq_0)

lemma unat_index:
  assumes "k < 2 ^ 32"
  shows "unat ((of_nat k :: 32 word) div 64) = k div 64" "unat ((of_nat k :: 32 word) mod 64) = k mod 64"
  using assms by (simp_all add: unat_div unat_mod unat_of_nat)

lemma servedHash_has:
  "k < 2 ^ 32 \<Longrightarrow>
   servedHash s i (of_nat k) = (if has (sd_served s ! i) k then Some (sd_hashes s ! i ! k) else None)"
  by (simp add: servedHash_def has_def unat_index bit_and_one unat_of_nat Let_def)

lemma has_replicate [simp]: "k div 64 < n \<Longrightarrow> \<not> has (replicate n 0) k"
  by (simp add: has_def)

lemma bit_or_one: "bit (or (x :: 64 word) (2 ^ n)) m \<longleftrightarrow> bit x m \<or> m = n \<and> n < 64"
  by (auto simp: bit_or_iff bit_exp_iff)

lemma has_set:
  assumes "k div 64 < length bits"
  shows "has (bits[k div 64 := or (bits ! (k div 64)) (2 ^ (k mod 64))]) j \<longleftrightarrow> has bits j \<or> j = k"
proof (cases "j div 64 = k div 64")
  case True
  then have "j = k \<longleftrightarrow> j mod 64 = k mod 64" by (metis div_mult_mod_eq)
  with True assms show ?thesis by (auto simp: has_def bit_or_one)
qed (use assms in \<open>auto simp: has_def\<close>)

section \<open>The invariant\<close>

text \<open>What is known of one item: before its first chunk, nothing; after, the bits and the hashes of
  its chunks, the bytes counted, and, where it was resumed, the hashes made ahead. \<open>good k h\<close>: \<open>h\<close>
  may stand for the hash of chunk \<open>k\<close>.\<close>

definition served_len :: "offer \<Rightarrow> nat \<Rightarrow> 64 word list \<Rightarrow> nat" where
  "served_len off i bits = (\<Sum>k<chunks_of off i. if has bits k then chunk_len off i k else 0)"

fun ahead_ok :: "(nat \<Rightarrow> bytes \<Rightarrow> bool) \<Rightarrow> 64 word list \<Rightarrow> ahead option \<Rightarrow> bool" where
  "ahead_ok good bits None \<longleftrightarrow> True"
| "ahead_ok good bits (Some a) \<longleftrightarrow> length (ah_hashes a) = ah_upTo a \<and>
     (ah_done a \<and> ah_ok a \<longrightarrow> (\<forall>k<ah_upTo a. has bits k \<or> good k (ah_hashes a ! k)))"

definition item_inv ::
  "(nat \<Rightarrow> bytes \<Rightarrow> bool) \<Rightarrow> offer \<Rightarrow> nat \<Rightarrow> 64 word list \<Rightarrow> bytes list \<Rightarrow> int \<Rightarrow> bool \<Rightarrow> ahead option \<Rightarrow> bool" where
  "item_inv good off i bits hs got act ah \<longleftrightarrow>
     got = int (served_len off i bits) \<and>
     act = (got < it_Size (o_Items off ! i) \<and> (\<exists>k<chunks_of off i. has bits k)) \<and>
     (if bits = [] then ah = None
      else length bits = (chunks_of off i + 63) div 64 \<and> length hs = chunks_of off i \<and>
        (\<forall>k<chunks_of off i. has bits k \<longrightarrow> good k (hs ! k)) \<and>
        ahead_ok good bits ah \<and> (\<forall>a. ah = Some a \<longrightarrow> ah_upTo a < chunks_of off i))"

fun hashing_ok :: "(nat \<Rightarrow> nat \<Rightarrow> bytes \<Rightarrow> bool) \<Rightarrow> sender \<Rightarrow> hashing \<Rightarrow> bool" where
  "hashing_ok good s NotHashing \<longleftrightarrow> True"
| "hashing_ok good s (Hashing i isfile k) \<longleftrightarrow> i < length (sd_paths s) \<and>
     (case sd_ahead s i of None \<Rightarrow> False
      | Some a \<Rightarrow> \<forall>j<min k (ah_upTo a). has (sd_served s ! i) j \<or> good i j (ah_hashes a ! j))"

definition sender_inv ::
  "(nat \<Rightarrow> nat \<Rightarrow> bytes \<Rightarrow> bool) \<Rightarrow> offer \<Rightarrow> (nat \<Rightarrow> nat \<Rightarrow> bytes option) option \<Rightarrow> sender \<times> hashing \<Rightarrow> bool" where
  "sender_inv good off src x \<longleftrightarrow>
     (case x of (s, h) \<Rightarrow>
        sd_offer s = off \<and> sd_src s = src \<and> length (sd_paths s) = length (o_Items off) \<and>
        length (sd_served s) = length (o_Items off) \<and> length (sd_hashes s) = length (o_Items off) \<and>
        (\<forall>i<length (o_Items off). item_inv (good i) off i (sd_served s ! i) (sd_hashes s ! i) (sd_itemBytes s i)
           (i \<in> sd_active s) (sd_ahead s i)) \<and>
        sd_bytes s = (\<Sum>i<length (o_Items off). sd_itemBytes s i) \<and> sd_active s \<subseteq> {..<length (o_Items off)} \<and>
        (\<forall>i \<in> set (sd_aheadNext s). i < length (o_Items off) \<and> sd_ahead s i \<noteq> None) \<and> hashing_ok good s h)"

text \<open>The reads of the source, in the worlds \<open>W\<close>, give good hashes.\<close>

definition reads_good ::
  "(bytes \<Rightarrow> bytes) \<Rightarrow> (source \<Rightarrow> bool) \<Rightarrow> (nat \<Rightarrow> nat \<Rightarrow> bytes \<Rightarrow> bool) \<Rightarrow> offer
   \<Rightarrow> (nat \<Rightarrow> nat \<Rightarrow> bytes option) option \<Rightarrow> bool" where
  "reads_good sha W good off src \<longleftrightarrow>
     (\<forall>w i k data. W w \<longrightarrow> i < length (o_Items off) \<longrightarrow> k < chunks_of off i \<longrightarrow>
        (case src of Some f \<Rightarrow> f (chunk_len off i k) (k * chunk_size off)
         | None \<Rightarrow> so_read w i (chunk_len off i k) (k * chunk_size off)) = Some data \<longrightarrow> good i k (sha data))"

section \<open>Parts of the operations\<close>

lemma release_same [simp]:
  "sd_offer (let_go s i b) = sd_offer s" "sd_src (let_go s i b) = sd_src s" "sd_paths (let_go s i b) = sd_paths s"
  "sd_served (let_go s i b) = sd_served s" "sd_hashes (let_go s i b) = sd_hashes s"
  "sd_itemBytes (let_go s i b) = sd_itemBytes s" "sd_active (let_go s i b) = sd_active s"
  "sd_ahead (let_go s i b) = sd_ahead s" "sd_aheadNext (let_go s i b) = sd_aheadNext s"
  "sd_bytes (let_go s i b) = sd_bytes s" "sd_quit (let_go s i b) = sd_quit s"
  by (simp_all add: let_go_def release_def)

lemma hashing_ok_cong:
  "sd_paths t = sd_paths s \<Longrightarrow> sd_served t = sd_served s \<Longrightarrow> sd_ahead t = sd_ahead s \<Longrightarrow>
   hashing_ok good t h = hashing_ok good s h"
  by (cases h) (simp_all split: option.split)

text \<open>What the invariant is about.\<close>

definition same_books :: "sender \<Rightarrow> sender \<Rightarrow> bool" where
  "same_books s t \<longleftrightarrow> sd_offer t = sd_offer s \<and> sd_src t = sd_src s \<and> sd_paths t = sd_paths s \<and>
     sd_served t = sd_served s \<and> sd_hashes t = sd_hashes s \<and> sd_itemBytes t = sd_itemBytes s \<and>
     sd_active t = sd_active s \<and> sd_ahead t = sd_ahead s \<and> sd_aheadNext t = sd_aheadNext s \<and> sd_bytes t = sd_bytes s"

lemma same_books_inv: "same_books s t \<Longrightarrow> sender_inv good off src (t, h) = sender_inv good off src (s, h)"
  by (simp add: same_books_def sender_inv_def hashing_ok_cong [of t s])

lemma same_books_let_go [simp]: "same_books s (let_go s i b)"
  by (simp add: same_books_def)

lemma same_books_trans: "same_books s t \<Longrightarrow> same_books t u \<Longrightarrow> same_books s u"
  by (simp add: same_books_def)

lemma reader_books: "reader w s i = Some (r, t) \<Longrightarrow> same_books s t \<and> sd_quit t = sd_quit s"
  by (auto simp: reader_def acquire_def same_books_def Let_def split: if_splits found.splits)

lemma same_books_span: "same_books s t \<Longrightarrow> span t = span s \<and> read_at w t = read_at w s \<and> servedHash t = servedHash s"
  by (auto simp: same_books_def span_def read_at_def servedHash_def fun_eq_iff Let_def split: option.split)

text \<open>A step that touches one item.\<close>

lemma hashing_ok_mono:
  assumes "hashing_ok good s h" "sd_paths t = sd_paths s"
    and "\<And>j a. sd_ahead s j = Some a \<Longrightarrow> sd_ahead t j = Some a \<and>
      (\<forall>k<ah_upTo a. has (sd_served s ! j) k \<longrightarrow> has (sd_served t ! j) k)"
  shows "hashing_ok good t h"
proof (cases h)
  case (Hashing i f k)
  with assms(1) obtain a where a: "sd_ahead s i = Some a" "i < length (sd_paths s)"
    "\<forall>j<min k (ah_upTo a). has (sd_served s ! i) j \<or> good i j (ah_hashes a ! j)"
    by (auto split: option.splits)
  with assms(3) [OF a(1)] assms(2) Hashing show ?thesis by auto
qed simp

lemma one_item_inv:
  assumes inv: "sender_inv good off src (s, h0)" and i: "i < length (o_Items off)"
    and same: "sd_offer t = sd_offer s" "sd_src t = sd_src s" "sd_paths t = sd_paths s"
    and upd: "sd_served t = (sd_served s)[i := b]" "sd_hashes t = (sd_hashes s)[i := hs]"
    and others: "\<And>j. j \<noteq> i \<Longrightarrow> sd_itemBytes t j = sd_itemBytes s j \<and> (j \<in> sd_active t \<longleftrightarrow> j \<in> sd_active s) \<and>
      sd_ahead t j = sd_ahead s j"
    and item: "item_inv (good i) off i b hs (sd_itemBytes t i) (i \<in> sd_active t) (sd_ahead t i)"
    and bytes: "sd_bytes t = sd_bytes s + (sd_itemBytes t i - sd_itemBytes s i)"
    and queue: "\<forall>j \<in> set (sd_aheadNext t). j < length (o_Items off) \<and> sd_ahead t j \<noteq> None"
    and hash: "hashing_ok good t h"
  shows "sender_inv good off src (t, h)"
proof -
  have len: "length (sd_paths s) = length (o_Items off)" "length (sd_served s) = length (o_Items off)"
    "length (sd_hashes s) = length (o_Items off)"
    using inv by (simp_all add: sender_inv_def)
  have act: "sd_active t \<subseteq> {..<length (o_Items off)}"
  proof
    fix j assume "j \<in> sd_active t"
    then show "j \<in> {..<length (o_Items off)}"
      using others [of j] inv i len by (cases "j = i") (auto simp: sender_inv_def)
  qed
  have items: "item_inv (good j) off j (sd_served t ! j) (sd_hashes t ! j) (sd_itemBytes t j) (j \<in> sd_active t) (sd_ahead t j)"
    if "j < length (o_Items off)" for j
  proof (cases "j = i")
    case False
    then show ?thesis using others [OF False] inv that by (simp add: sender_inv_def upd)
  qed (use item i len in \<open>simp add: upd\<close>)
  have "(\<Sum>j<length (o_Items off). sd_itemBytes t j) =
      (\<Sum>j<length (o_Items off). sd_itemBytes s j) + (sd_itemBytes t i - sd_itemBytes s i)"
  proof -
    have "(\<Sum>j\<in>{..<length (o_Items off)} - {i}. sd_itemBytes t j) = (\<Sum>j\<in>{..<length (o_Items off)} - {i}. sd_itemBytes s j)"
      using others by (intro sum.cong) auto
    then show ?thesis
      using i len by (simp add: sum.remove [of "{..<length (o_Items off)}" i "sd_itemBytes t"]
          sum.remove [of "{..<length (o_Items off)}" i "sd_itemBytes s"])
  qed
  moreover have "sd_bytes s = (\<Sum>j<length (o_Items off). sd_itemBytes s j)" using inv by (simp add: sender_inv_def)
  ultimately have sum: "sd_bytes t = (\<Sum>j<length (o_Items off). sd_itemBytes t j)" using bytes by simp
  show ?thesis
    unfolding sender_inv_def prod.case
    using inv act items sum queue hash by (simp add: sender_inv_def same upd)
qed

section \<open>Serving a chunk\<close>

lemma bits_len:
  assumes "accepted off" "i < length (o_Items off)" "sd_offer s = off"
  shows "unat ((max 1 (Chunks (it_Size (o_Items off ! i)) (o_ChunkSize off)) + 63) div 64) = (chunks_of off i + 63) div 64"
    and "unat (max 1 (Chunks (it_Size (o_Items off ! i)) (o_ChunkSize off))) = chunks_of off i"
proof -
  let ?c = "max 1 (Chunks (it_Size (o_Items off ! i)) (o_ChunkSize off))"
  have c: "unat ?c \<le> 2 ^ 24" using chunks_of_bounds(2) [OF assms(1,2)] by (simp add: chunks_of_def)
  then have "unat (?c + 63) = unat ?c + 63" by (subst unat_add_lem [THEN iffD1]) simp_all
  then show "unat ((?c + 63) div 64) = (chunks_of off i + 63) div 64" by (simp add: unat_div chunks_of_def)
  show "unat ?c = chunks_of off i" by (simp add: chunks_of_def)
qed

lemma served_len_none: "(\<And>k. k < chunks_of off i \<Longrightarrow> \<not> has bits k) \<Longrightarrow> served_len off i bits = 0"
  by (simp add: served_len_def)

lemma word_of_chunk: "k < m \<Longrightarrow> k div 64 < (m + 63) div 64" for k m :: nat
  by (simp add: less_eq_div_iff_mult_less_eq div_less_iff_less_mult flip: Suc_le_eq)

lemma first_served_inv:
  assumes inv: "sender_inv good off src (s, h)" and acc: "accepted off" and i: "i < length (o_Items off)"
    and k: "k < chunks_of off i"
  shows "sender_inv good off src (first_served s i (of_nat k), h)" "sd_served (first_served s i (of_nat k)) ! i \<noteq> []"
    "has (sd_served s ! j) n \<Longrightarrow> has (sd_served (first_served s i (of_nat k)) ! j) n"
proof -
  let ?t = "first_served s i (of_nat k)"
  have len: "length (sd_paths s) = length (o_Items off)" "length (sd_served s) = length (o_Items off)"
    "length (sd_hashes s) = length (o_Items off)" "sd_offer s = off"
    using inv by (simp_all add: sender_inv_def)
  have k32: "k < 2 ^ 32" using k chunks_of_bounds(2) [OF acc i] by simp
  then have uk: "unat (of_nat k :: 32 word) = k" by (simp add: unat_of_nat)
  have pos: "(of_nat k :: 32 word) > 0 \<longleftrightarrow> k > 0" using uk by (metis word_gt_0 unat_gt_0)
  have nz: "(chunks_of off i + 63) div 64 \<noteq> 0" using chunks_of_bounds(1) [OF acc i] by simp
  show "sd_served ?t ! i \<noteq> []" using len i nz bits_len [OF acc i len(4)] by (simp add: first_served_def Let_def)
  show "has (sd_served s ! j) n \<Longrightarrow> has (sd_served ?t ! j) n"
    by (cases "j = i"; cases "sd_served s ! i = []") (simp_all add: first_served_def Let_def)
  show "sender_inv good off src (?t, h)"
  proof (cases "sd_served s ! i = []")
    case True
    have item: "item_inv (good i) off i [] (sd_hashes s ! i) (sd_itemBytes s i) (i \<in> sd_active s) (sd_ahead s i)"
      using inv i len True by (auto simp: sender_inv_def)
    then have none: "sd_ahead s i = None" "i \<notin> sd_active s" "sd_itemBytes s i = 0"
      by (simp_all add: item_inv_def served_len_def)
    let ?b = "replicate ((chunks_of off i + 63) div 64) (0 :: 64 word)" and ?hs = "replicate (chunks_of off i) zero_hash"
    let ?a = "\<lparr>ah_upTo = k, ah_hashes = replicate k zero_hash, ah_ok = False, ah_done = False\<rparr>"
    note bl = bits_len [OF acc i len(4)]
    have t: "sd_served ?t = (sd_served s)[i := ?b]" "sd_hashes ?t = (sd_hashes s)[i := ?hs]"
      "sd_offer ?t = sd_offer s" "sd_src ?t = sd_src s" "sd_paths ?t = sd_paths s" "sd_bytes ?t = sd_bytes s"
      "sd_itemBytes ?t = sd_itemBytes s" "sd_active ?t = sd_active s"
      "sd_ahead ?t = (if k > 0 then (sd_ahead s)(i \<mapsto> ?a) else sd_ahead s)"
      "sd_aheadNext ?t = (if k > 0 then sd_aheadNext s @ [i] else sd_aheadNext s)"
      using True by (simp_all add: first_served_def Let_def len(4) bl pos uk)
    have hash: "hashing_ok good ?t h"
    proof (rule hashing_ok_mono [of good s])
      show "hashing_ok good s h" using inv by (simp add: sender_inv_def)
      show "sd_paths ?t = sd_paths s" by (rule t(5))
      fix j a assume "sd_ahead s j = Some a"
      then show "sd_ahead ?t j = Some a \<and> (\<forall>k<ah_upTo a. has (sd_served s ! j) k \<longrightarrow> has (sd_served ?t ! j) k)"
        using none(1) by (cases "j = i") (simp_all add: t(1,9))
    qed
    have new: "\<not> has ?b j" if "j < chunks_of off i" for j using word_of_chunk [OF that] by simp
    then have item': "item_inv (good i) off i ?b ?hs 0 False (sd_ahead ?t i)"
      using nz none(1) k chunks_of_bounds(1) [OF acc i] by (simp add: item_inv_def t served_len_none)
    have queue: "\<forall>j \<in> set (sd_aheadNext ?t). j < length (o_Items off) \<and> sd_ahead ?t j \<noteq> None"
      using inv i len by (auto simp: t sender_inv_def)
    show ?thesis
      by (rule one_item_inv [OF inv i t(3,4,5,1,2) _ _ _ queue hash])
        (use item' none in \<open>simp_all add: t(6-9)\<close>)
  qed (use inv in \<open>simp add: first_served_def\<close>)
qed

lemma served_len_set:
  assumes "k < chunks_of off i" "\<not> has bits k" "\<And>j. has bits' j \<longleftrightarrow> has bits j \<or> j = k"
  shows "served_len off i bits' = served_len off i bits + chunk_len off i k"
proof -
  have "served_len off i bits' =
      (\<Sum>j<chunks_of off i. (if has bits j then chunk_len off i j else 0) + (if j = k then chunk_len off i j else 0))"
    using assms(2,3) unfolding served_len_def by (intro sum.cong) auto
  also have "\<dots> = served_len off i bits + chunk_len off i k"
    using assms(1) by (simp add: sum.distrib served_len_def)
  finally show ?thesis .
qed

lemma ahead_ok_mono: "ahead_ok good bits a \<Longrightarrow> (\<And>k. has bits k \<Longrightarrow> has bits' k) \<Longrightarrow> ahead_ok good bits' a"
  by (cases a) auto

lemma markServed_inv:
  assumes inv: "sender_inv good off src (s, h)" and acc: "accepted off" and i: "i < length (o_Items off)"
    and k: "k < chunks_of off i" and g: "good i k hsum"
  shows "sender_inv good off src (markServed s i (of_nat k) (int (chunk_len off i k)) hsum, h)"
    "has (sd_served s ! j) n \<Longrightarrow> has (sd_served (markServed s i (of_nat k) (int (chunk_len off i k)) hsum) ! j) n"
    "has (sd_served (markServed s i (of_nat k) (int (chunk_len off i k)) hsum) ! i) k"
proof -
  let ?s1 = "first_served s i (of_nat k)" and ?t = "markServed s i (of_nat k) (int (chunk_len off i k)) hsum"
  note inv1 = first_served_inv [OF inv acc i k]
  let ?bits = "sd_served ?s1 ! i" and ?hs = "sd_hashes ?s1 ! i"
  have len: "length (sd_paths ?s1) = length (o_Items off)" "length (sd_served ?s1) = length (o_Items off)"
    "length (sd_hashes ?s1) = length (o_Items off)" "sd_offer ?s1 = off"
    using inv1(1) by (simp_all add: sender_inv_def)
  have item: "item_inv (good i) off i ?bits ?hs (sd_itemBytes ?s1 i) (i \<in> sd_active ?s1) (sd_ahead ?s1 i)"
    using inv1(1) i len by (simp add: sender_inv_def)
  have k32: "k < 2 ^ 32" using k chunks_of_bounds(2) [OF acc i] by simp
  then have uk: "unat (of_nat k :: 32 word) = k" by (simp add: unat_of_nat)
  let ?set = "?bits[k div 64 := or (?bits ! (k div 64)) (2 ^ (k mod 64))]"
  define b where "b = (if has ?bits k then ?bits else ?set)"
  have "k div 64 < length ?bits" using item inv1(2) word_of_chunk [OF k] by (simp add: item_inv_def)
  then have b: "has b j \<longleftrightarrow> has ?bits j \<or> j = k" "b \<noteq> []" "length b = length ?bits" for j
    using inv1(2) by (auto simp: b_def has_set)
  let ?got = "sd_itemBytes ?s1 i + (if has ?bits k then 0 else int (chunk_len off i k))"
  have t: "sd_offer ?t = sd_offer ?s1" "sd_src ?t = sd_src ?s1" "sd_paths ?t = sd_paths ?s1"
    "sd_served ?t = (sd_served ?s1)[i := b]" "sd_hashes ?t = (sd_hashes ?s1)[i := ?hs[k := hsum]]"
    "sd_itemBytes ?t = (sd_itemBytes ?s1)(i := ?got)" "sd_ahead ?t = sd_ahead ?s1"
    "sd_aheadNext ?t = sd_aheadNext ?s1"
    "sd_bytes ?t = sd_bytes ?s1 + (if has ?bits k then 0 else int (chunk_len off i k))"
    "sd_active ?t = (if has ?bits k then sd_active ?s1
       else if ?got < it_Size (o_Items off ! i) then insert i (sd_active ?s1) else sd_active ?s1 - {i})"
    using inv1(2) len by (simp_all add: markServed_def Let_def unat_index [OF k32] bit_and_one uk b_def has_def)
  have got: "?got = int (served_len off i b)"
  proof (cases "has ?bits k")
    case True
    then show ?thesis using item by (simp add: b_def item_inv_def)
  next
    case False
    have "served_len off i b = served_len off i ?bits + chunk_len off i k"
      using k False b(1) by (rule served_len_set)
    with False item show ?thesis by (simp add: item_inv_def)
  qed
  have item': "item_inv (good i) off i b (?hs[k := hsum]) ?got (i \<in> sd_active ?t) (sd_ahead ?t i)"
  proof -
    have "i \<in> sd_active ?t \<longleftrightarrow> ?got < it_Size (o_Items off ! i) \<and> (\<exists>j<chunks_of off i. has b j)"
      using item k b(1) by (auto simp: t(10) item_inv_def)
    moreover have "good i j (?hs[k := hsum] ! j)" if "j < chunks_of off i" "has b j" for j
      using that item g b(1) inv1(2) by (cases "j = k") (auto simp: item_inv_def)
    moreover have "ahead_ok (good i) b (sd_ahead ?t i)"
      using item inv1(2) b(1) by (auto simp: t(7) item_inv_def intro: ahead_ok_mono)
    moreover have "\<forall>a. sd_ahead ?t i = Some a \<longrightarrow> ah_upTo a < chunks_of off i"
      using item inv1(2) by (auto simp: t(7) item_inv_def)
    ultimately show ?thesis
      using item inv1(2) b(2,3) got by (simp add: item_inv_def)
  qed
  have hash: "hashing_ok good ?t h"
  proof (rule hashing_ok_mono [of good ?s1])
    show "hashing_ok good ?s1 h" using inv1(1) by (simp add: sender_inv_def)
    show "sd_paths ?t = sd_paths ?s1" by (rule t(3))
    fix j a assume "sd_ahead ?s1 j = Some a"
    then show "sd_ahead ?t j = Some a \<and> (\<forall>n<ah_upTo a. has (sd_served ?s1 ! j) n \<longrightarrow> has (sd_served ?t ! j) n)"
      using b(1) i len by (cases "j = i") (simp_all add: t(4,7))
  qed
  have queue: "\<forall>j \<in> set (sd_aheadNext ?t). j < length (o_Items off) \<and> sd_ahead ?t j \<noteq> None"
    using inv1(1) unfolding sender_inv_def prod.case t(7,8) by blast
  show "sender_inv good off src (?t, h)"
    by (rule one_item_inv [OF inv1(1) i t(1-5) _ _ _ queue hash])
      (use item' in \<open>simp_all add: t(6,7,9,10)\<close>)
  show "has (sd_served s ! j) n \<Longrightarrow> has (sd_served ?t ! j) n"
    using first_served_inv(3) [OF inv acc i k, of j n] b(1) i len(2) by (cases "j = i") (simp_all add: t(4))
  show "has (sd_served ?t ! i) k" using b(1) i len(2) by (simp add: t(4))
qed

section \<open>Every step\<close>

lemma sender_invD:
  assumes "sender_inv good off src (s, h)"
  shows "sd_offer s = off" "sd_src s = src" "length (sd_paths s) = length (o_Items off)"
    "length (sd_served s) = length (o_Items off)" "length (sd_hashes s) = length (o_Items off)"
    "hashing_ok good s h"
    "i < length (o_Items off) \<Longrightarrow>
      item_inv (good i) off i (sd_served s ! i) (sd_hashes s ! i) (sd_itemBytes s i) (i \<in> sd_active s) (sd_ahead s i)"
    "i \<in> set (sd_aheadNext s) \<Longrightarrow> i < length (o_Items off) \<and> sd_ahead s i \<noteq> None"
  using assms by (auto simp: sender_inv_def)

lemma chunk_span:
  assumes "sd_offer s = off" "accepted off" "i < length (o_Items off)" "k < chunks_of off i"
  shows "span s (it_Size (o_Items off ! i)) (of_nat k) = (int (k * chunk_size off), int (chunk_len off i k))"
  using span_nat [of s i "o_Items off ! i" k] assms accepted_nth(1) [OF assms(2,3)] chunk_inside [OF assms(2-4)]
    chunks_of_bounds(2) [OF assms(2,3)] by simp

text \<open>What the answer to a request of a chunk is, when it does not wait.\<close>

lemma chunk_cases:
  assumes "chunk sha w s item index = Some (out, t)" "sd_offer s = off" "length (sd_paths s) = length (o_Items off)"
    and acc: "accepted off"
  shows "(\<exists>code. out = AppendChunkError [] item index code) \<and> same_books s t \<or>
    unat item < length (o_Items off) \<and> unat index < chunks_of off (unat item) \<and>
    (\<exists>s1 r data. reader (w 0) s (unat item) = Some (Inr r, s1) \<and>
       read_at (w 1) s (unat item) (chunk_len off (unat item) (unat index)) (unat index * chunk_size off) = Some data \<and>
       out = AppendChunkData [] item index (sha data) data \<and>
       t = let_go (markServed s1 (unat item) index (int (chunk_len off (unat item) (unat index))) (sha data)) (unat item) r)"
proof -
  let ?i = "unat item"
  let ?it = "o_Items off ! ?i"
  have out: ?thesis if "\<not> ?i < length (o_Items off)" using that assms(1-3) by (auto simp: chunk_def Let_def same_books_def)
  have range: "index \<ge> max 1 (Chunks (it_Size ?it) (o_ChunkSize off)) \<longleftrightarrow> \<not> unat index < chunks_of off ?i"
    by (simp add: chunks_of_def word_le_nat_alt not_less)
  have nochunk: ?thesis if "?i < length (o_Items off)" "\<not> unat index < chunks_of off ?i"
    using that assms(1-3) range by (auto simp: chunk_def Let_def same_books_def)
  have served: ?thesis if i: "?i < length (o_Items off)" and k: "unat index < chunks_of off ?i"
  proof -
    have sp: "span s (it_Size ?it) index = (int (unat index * chunk_size off), int (chunk_len off ?i (unat index)))"
      using chunk_span [OF assms(2) acc i k] by simp
    have eq: "chunk sha w s item index = (case reader (w 0) s ?i of
            None \<Rightarrow> None
          | Some (Inl err, s1) \<Rightarrow> Some (AppendChunkError [] item index (readErr (w 0) s1 ?i False err), s1)
          | Some (Inr isfile, s1) \<Rightarrow>
              (case read_at (w 1) s1 ?i (chunk_len off ?i (unat index)) (unat index * chunk_size off) of
                 None \<Rightarrow> Some (AppendChunkError [] item index (readErr (w 2) s1 ?i isfile ReadFailed), let_go s1 ?i isfile)
               | Some data \<Rightarrow>
                   Some (AppendChunkData [] item index (sha data) data,
                     let_go (markServed s1 ?i index (int (chunk_len off ?i (unat index))) (sha data)) ?i isfile)))"
      unfolding chunk_def Let_def assms(2) sp prod.case nat_int using i k range assms(3) by (simp del: max.bounded_iff)
    obtain r s1 where r: "reader (w 0) s ?i = Some (r, s1)"
      using assms(1) unfolding eq by (cases "reader (w 0) s ?i") auto
    have b: "same_books s s1" using reader_books [OF r] by blast
    then have rd: "read_at (w 1) s1 = read_at (w 1) s" using same_books_span by blast
    show ?thesis
    proof (cases r)
      case (Inl e)
      then show ?thesis using assms(1) b r unfolding eq by auto
    next
      case (Inr f)
      then show ?thesis
        using assms(1) i k r rd same_books_trans [OF b same_books_let_go] unfolding eq
        by (cases "read_at (w 1) s ?i (chunk_len off ?i (unat index)) (unat index * chunk_size off)") auto
    qed
  qed
  show ?thesis using out nochunk served by blast
qed

lemma chunk_inv:
  assumes inv: "sender_inv good off src (s, h)" and acc: "accepted off" and W: "\<forall>k. W (w k)"
    and reads: "reads_good sha W good off src" and c: "chunk sha w s item index = Some (out, t)"
  shows "sender_inv good off src (t, h)"
proof -
  note D = sender_invD [OF inv]
  consider "same_books s t"
    | s1 r data where "unat item < length (o_Items off)" "unat index < chunks_of off (unat item)"
       "reader (w 0) s (unat item) = Some (Inr r, s1)"
       "read_at (w 1) s (unat item) (chunk_len off (unat item) (unat index)) (unat index * chunk_size off) = Some data"
       "t = let_go (markServed s1 (unat item) index (int (chunk_len off (unat item) (unat index))) (sha data)) (unat item) r"
    using chunk_cases [OF c D(1,3) acc] by blast
  then show ?thesis
  proof cases
    case 1
    then show ?thesis using inv by (simp add: same_books_inv)
  next
    case 2
    have s1: "sender_inv good off src (s1, h)"
      using inv reader_books [OF 2(3)] same_books_inv by blast
    have "good (unat item) (unat index) (sha data)"
      using reads 2(1,2,4) W D(2) unfolding reads_good_def read_at_def by blast
    from markServed_inv(1) [OF s1 acc 2(1,2) this]
    have "sender_inv good off src (markServed s1 (unat item) index (int (chunk_len off (unat item) (unat index))) (sha data), h)"
      by simp
    then show ?thesis
      unfolding 2(5) by (simp only: same_books_inv [OF same_books_let_go])
  qed
qed

lemma digest_books:
  assumes "digest sha w (\<lambda>_ s. s) pick s item = Some (out, t)"
  shows "same_books s t"
proof -
  have trans: "same_books s1 t' \<Longrightarrow> same_books s s1 \<Longrightarrow> same_books s t'" for s1 t' using same_books_trans by blast
  have go: "same_books s (let_go (s\<lparr>sd_digestReads := n\<rparr>) i b)" for s n i b by (simp add: same_books_def)
  show ?thesis
  proof (cases "unat item \<ge> length (sd_paths s)")
    case True
    then show ?thesis using assms by (auto simp: digest_def same_books_def)
  next
    case False
    then obtain r s1 where r: "reader (w 0) s (unat item) = Some (r, s1)"
      using assms by (cases "reader (w 0) s (unat item)") (auto simp: digest_def)
    have "same_books s1 t"
      using assms False r
      by (auto simp: digest_def Let_def go same_books_def split: sum.splits option.splits if_splits prod.splits)
    with reader_books [OF r] show ?thesis using trans by blast
  qed
qed

text \<open>A hash made ahead.\<close>

lemma set_ahead_inv:
  assumes inv: "sender_inv good off src (s, h)" and i: "i < length (o_Items off)" and a: "sd_ahead s i = Some a"
    and ok: "ahead_ok (good i) (sd_served s ! i) (Some (f a))" "ah_upTo (f a) = ah_upTo a"
    and hash: "hashing_ok good (set_ahead s i f) h'"
  shows "sender_inv good off src (set_ahead s i f, h')"
proof -
  let ?t = "set_ahead s i f"
  note D = sender_invD [OF inv]
  have item: "item_inv (good i) off i (sd_served s ! i) (sd_hashes s ! i) (sd_itemBytes ?t i) (i \<in> sd_active ?t) (sd_ahead ?t i)"
    using D(7) [OF i] a ok by (auto simp: item_inv_def set_ahead_def)
  have queue: "\<forall>j \<in> set (sd_aheadNext ?t). j < length (o_Items off) \<and> sd_ahead ?t j \<noteq> None"
    using D(3) a by (auto simp: set_ahead_def dest: D(8))
  show ?thesis
    by (rule one_item_inv [OF inv i _ _ _ _ _ _ item _ queue hash]) (simp_all add: set_ahead_def)
qed

lemma hashing_ok_books:
  "same_books s t \<Longrightarrow> hashing_ok good t h = hashing_ok good s h"
  by (rule hashing_ok_cong) (simp_all add: same_books_def)

lemma ahead_end_inv:
  assumes inv: "sender_inv good off src (s, h)" and i: "i < length (o_Items off)" and a: "sd_ahead s i = Some a"
    and ok: "ok \<Longrightarrow> \<forall>k<ah_upTo a. has (sd_served s ! i) k \<or> good i k (ah_hashes a ! k)"
  shows "sender_inv good off src (ahead_end s i ok, NotHashing)"
proof -
  have "sd_served s ! i \<noteq> []" "length (ah_hashes a) = ah_upTo a"
    using sender_invD(7) [OF inv i] a by (auto simp: item_inv_def split: if_splits)
  then show ?thesis
    unfolding ahead_end_def using ok by (intro set_ahead_inv [OF inv i a]) auto
qed

lemma hash_take_inv:
  assumes inv: "sender_inv good off src (s, NotHashing)" and c: "hash_take w s = Some (h', t)"
  shows "sender_inv good off src (t, h')"
proof -
  obtain i rest where q: "sd_aheadNext s = i # rest" using c by (auto simp: hash_take_def split: list.splits)
  let ?s0 = "s\<lparr>sd_aheadNext := rest\<rparr>"
  have inv0: "sender_inv good off src (?s0, NotHashing)" using inv q by (simp add: sender_inv_def)
  obtain r s1 where r: "reader w ?s0 i = Some (r, s1)" using c q by (auto simp: hash_take_def split: option.splits)
  have inv1: "sender_inv good off src (s1, NotHashing)" using inv0 reader_books [OF r] same_books_inv by blast
  have "sd_ahead s1 = sd_ahead s" using reader_books [OF r] by (simp add: same_books_def)
  moreover have "i < length (o_Items off) \<and> sd_ahead s i \<noteq> None" using sender_invD(8) [OF inv] q by simp
  ultimately obtain a where a: "sd_ahead s1 i = Some a" "i < length (o_Items off)" by auto
  show ?thesis
  proof (cases r)
    case (Inl e)
    then show ?thesis using ahead_end_inv [OF inv1 a(2,1), of False] c q r by (simp add: hash_take_def)
  next
    case (Inr f)
    then have "h' = Hashing i f 0" "t = s1" using c q r by (simp_all add: hash_take_def)
    then show ?thesis using inv1 a by (simp add: sender_inv_def)
  qed
qed

lemma hash_next_inv:
  assumes inv: "sender_inv good off src (s, h)" and acc: "accepted off" and W: "W w"
    and reads: "reads_good sha W good off src" and c: "hash_next sha w cancelled s h = (h', t)"
  shows "sender_inv good off src (t, h')"
proof (cases h)
  case (Hashing i f k)
  note D = sender_invD [OF inv]
  obtain a where a: "sd_ahead s i = Some a" "i < length (o_Items off)"
    "\<forall>j<min k (ah_upTo a). has (sd_served s ! i) j \<or> good i j (ah_hashes a ! j)"
    using D(3,6) Hashing by (auto split: option.splits)
  have item: "length (ah_hashes a) = ah_upTo a" "ah_upTo a < chunks_of off i"
    "ah_done a \<and> ah_ok a \<longrightarrow> (\<forall>k<ah_upTo a. has (sd_served s ! i) k \<or> good i k (ah_hashes a ! k))"
    using D(7) [OF a(2)] a(1) by (auto simp: item_inv_def split: if_splits)
  have go: "sender_inv good off src (let_go s i f, h)" using inv by (simp add: same_books_inv [OF same_books_let_go])
  have fail: "sender_inv good off src (ahead_end (let_go s i f) i False, NotHashing)"
    by (rule ahead_end_inv [OF go a(2)]) (simp_all add: a(1))
  consider (full) "k \<ge> ah_upTo a" | (cancel) "k < ah_upTo a" cancelled
    | (next_one) "k < ah_upTo a" "\<not> cancelled" by fastforce
  then show ?thesis
  proof cases
    case full
    have "sender_inv good off src (ahead_end (let_go s i f) i True, NotHashing)"
      by (rule ahead_end_inv [OF go a(2)]) (use a(1,3) full in \<open>simp_all add: min_absorb2\<close>)
    then show ?thesis using c Hashing a(1) full by simp
  next
    case cancel
    then show ?thesis using c Hashing a(1) fail by simp
  next
    case next_one
    have k: "k < chunks_of off i" using next_one(1) item(2) by simp
    then have k32: "k < 2 ^ 32" using chunks_of_bounds(2) [OF acc a(2)] by simp
    have sp: "span s (it_Size (o_Items off ! i)) (of_nat k) = (int (k * chunk_size off), int (chunk_len off i k))"
      by (rule chunk_span [OF D(1) acc a(2) k])
    have step: "hash_next sha w cancelled s h =
      (if has (sd_served s ! i) k then (Hashing i f (Suc k), s)
       else case read_at w s i (chunk_len off i k) (k * chunk_size off) of
              None \<Rightarrow> (NotHashing, ahead_end (let_go s i f) i False)
            | Some data \<Rightarrow> (Hashing i f (Suc k),
                set_ahead s i (\<lambda>a. a\<lparr>ah_hashes := (ah_hashes a)[k := sha data]\<rparr>)))"
      unfolding Hashing hash_next.simps a(1) option.case Let_def D(1) sp prod.case nat_int servedHash_has [OF k32]
      using next_one by simp
    show ?thesis
    proof (cases "has (sd_served s ! i) k")
      case True
      then have "hashing_ok good s (Hashing i f (Suc k))" using a D(3) by (auto simp: less_Suc_eq min_def split: if_splits)
      moreover have "h' = Hashing i f (Suc k)" "t = s" using c step True by simp_all
      ultimately show ?thesis using inv by (simp add: sender_inv_def del: hashing_ok.simps)
    next
      case new: False
      show ?thesis
      proof (cases "read_at w s i (chunk_len off i k) (k * chunk_size off)")
        case None
        then show ?thesis using c step new fail by simp
      next
        case (Some data)
        let ?f = "\<lambda>a. a\<lparr>ah_hashes := (ah_hashes a)[k := sha data]\<rparr>"
        have t: "h' = Hashing i f (Suc k)" "t = set_ahead s i ?f" using c step new Some by simp_all
        have g: "good i k (sha data)"
          using reads a(2) k Some W D(2) unfolding reads_good_def read_at_def by blast
        have new_hash: "(ah_hashes a)[k := sha data] ! j = (if j = k then sha data else ah_hashes a ! j)" for j
          using next_one(1) item(1) by simp
        have "ahead_ok (good i) (sd_served s ! i) (Some (?f a))"
          using item g by (simp add: new_hash)
        moreover have "hashing_ok good (set_ahead s i ?f) (Hashing i f (Suc k))"
          using a item(1) g D(3) next_one(1) by (auto simp: set_ahead_def nth_list_update less_Suc_eq)
        ultimately show ?thesis unfolding t using set_ahead_inv [OF inv a(2,1), of ?f] by simp
      qed
    qed
  qed
qed (use assms in simp)

lemma sender_step_keeps:
  assumes "sender_step sha W x y" "sender_inv good off src x" "accepted off" "reads_good sha W good off src"
  shows "sender_inv good off src y"
  using assms(1,2)
proof (cases rule: sender_step.cases)
  case (answers_chunk w s item index out s' h)
  then show ?thesis using chunk_inv [of good off src s h W w sha item index out s'] assms by simp
next
  case (answers_digest w pick s item out s' h)
  then show ?thesis using digest_books [OF answers_digest(4)] assms(2) by (simp add: same_books_inv)
next
  case (takes w s h s')
  then show ?thesis using hash_take_inv assms(2) by simp
next
  case (hashes w cancelled s h h' s')
  then show ?thesis using hash_next_inv [of good off src s h W w sha cancelled h' s'] assms by simp
next
  case (is_done s h status)
  have "same_books s (receiverDone s status)" by (simp add: receiverDone_def same_books_def)
  then show ?thesis using assms(2) is_done by (simp add: same_books_inv)
next
  case (connects s h q b n)
  have "same_books s (s\<lparr>sd_streams := n, sd_wire := b, sd_quit := q\<rparr>)" by (simp add: same_books_def)
  then show ?thesis using assms(2) connects by (simp add: same_books_inv)
qed

text \<open>A chunk once served stays so.\<close>

lemma chunk_served_mono:
  assumes inv: "sender_inv (\<lambda>_ _ _. True) off src (s, h)" and acc: "accepted off"
    and c: "chunk sha w s item index = Some (out, t)" and has: "has (sd_served s ! i) k"
  shows "has (sd_served t ! i) k"
proof -
  note D = sender_invD [OF inv]
  consider "same_books s t"
    | s1 r data where "unat item < length (o_Items off)" "unat index < chunks_of off (unat item)"
       "reader (w 0) s (unat item) = Some (Inr r, s1)"
       "t = let_go (markServed s1 (unat item) index (int (chunk_len off (unat item) (unat index))) (sha data)) (unat item) r"
    using chunk_cases [OF c D(1,3) acc] by blast
  then show ?thesis
  proof cases
    case 1
    then show ?thesis using has by (simp add: same_books_def)
  next
    case 2
    have b: "same_books s s1" using reader_books [OF 2(3)] by blast
    have s1: "sender_inv (\<lambda>_ _ _. True) off src (s1, h)" using inv same_books_inv [OF b] by blast
    have "has (sd_served s1 ! i) k" using b has by (simp add: same_books_def)
    from markServed_inv(2) [OF s1 acc 2(1,2) TrueI this] show ?thesis by (simp add: 2(4))
  qed
qed

lemma ahead_served [simp]: "sd_served (ahead_end s i ok) = sd_served s" "sd_served (set_ahead s i f) = sd_served s"
  by (simp_all add: ahead_end_def set_ahead_def)

lemma hash_take_served:
  assumes "hash_take w s = Some (h', t)"
  shows "sd_served t = sd_served s"
proof -
  obtain i rest where q: "sd_aheadNext s = i # rest" using assms by (auto simp: hash_take_def split: list.splits)
  obtain r s1 where r: "reader w (s\<lparr>sd_aheadNext := rest\<rparr>) i = Some (r, s1)"
    using assms q by (auto simp: hash_take_def split: option.splits)
  have "sd_served s1 = sd_served s" using reader_books [OF r] by (simp add: same_books_def)
  then show ?thesis using assms q r by (cases r) (auto simp: hash_take_def)
qed

lemma hash_next_served: "hash_next sha w cancelled s h = (h', t) \<Longrightarrow> sd_served t = sd_served s"
  by (cases h) (auto simp: Let_def split: option.splits if_splits prod.splits)

lemma step_served_mono:
  assumes "sender_step sha W (s, h) (t, h')" "sender_inv (\<lambda>_ _ _. True) off src (s, h)" "accepted off"
    "has (sd_served s ! i) k"
  shows "has (sd_served t ! i) k"
  using assms(1)
proof (cases rule: sender_step.cases)
  case (answers_chunk w item index out)
  then show ?thesis using chunk_served_mono assms by blast
next
  case (answers_digest w pick item out)
  then show ?thesis using digest_books assms(4) by (auto simp: same_books_def)
next
  case (takes w)
  then show ?thesis using hash_take_served assms(4) by metis
next
  case (hashes w cancelled)
  then show ?thesis using hash_next_served assms(4) by metis
qed (use assms(4) in \<open>simp_all add: receiverDone_def\<close>)

interpretation sending: step_invariant "\<lambda>x y. accepted off \<and> reads_good sha W good off src \<and> sender_step sha W x y"
    "sender_inv good off src" for sha W good off src
  by unfold_locales (auto intro: sender_step_keeps)

lemma sender_run_inv:
  assumes "(sender_step sha W)\<^sup>*\<^sup>* x y" "sender_inv good off src x" "accepted off" "reads_good sha W good off src"
  shows "sender_inv good off src y"
proof -
  have "(\<lambda>x y. accepted off \<and> reads_good sha W good off src \<and> sender_step sha W x y)\<^sup>*\<^sup>* x y"
    using assms(1) by (rule rtranclp_mono [THEN predicate2D, rotated]) (use assms(3,4) in auto)
  then show ?thesis using assms(2) by (rule sending.run_keeps)
qed

section \<open>The start\<close>

text \<open>A sender just made, of any kind.\<close>

definition starts :: "(string \<Rightarrow> string) \<Rightarrow> offer \<Rightarrow> sender \<Rightarrow> bool" where
  "starts uni off s \<longleftrightarrow>
     (\<exists>paths. NewSender uni off paths = Inr s) \<or> (\<exists>names. NewSenderFiles uni off names = Inr s) \<or>
     (\<exists>src. NewSourceSender uni off src = Inr s)"

lemma NewSender_inv:
  assumes "NewSender uni off paths = Inr s"
  shows "accepted off \<and> sd_offer s = off \<and> sender_inv good off (sd_src s) (s, NotHashing)"
proof -
  have v: "Validate uni off = Inr ()" and len: "length paths = length (o_Items off)"
    using assms by (auto simp: NewSender_def split: if_splits sum.splits)
  have s: "s = \<lparr>sd_offer = off, sd_paths = paths, sd_src = None, sd_files = [], sd_fixed = [],
          sd_served = replicate (length paths) [], sd_hashes = replicate (length paths) [],
          sd_itemBytes = (\<lambda>_. 0), sd_active = {}, sd_ahead = Map.empty, sd_aheadNext = [], sd_quit = False,
          sd_digestReads = 0, sd_bytes = 0, sd_wire = 0, sd_streams = 0, sd_finished = False, sd_partial = False\<rparr>"
    using assms v len by (simp add: NewSender_def)
  show ?thesis using v len by (auto simp: s accepted_def sender_inv_def item_inv_def served_len_none)
qed

lemma starts_inv:
  assumes "starts uni off s"
  shows "accepted off \<and> sd_offer s = off \<and> sender_inv good off (sd_src s) (s, NotHashing)"
proof -
  obtain s0 paths where s0: "NewSender uni off paths = Inr s0"
    "same_books (s0\<lparr>sd_src := sd_src s\<rparr>) s"
    using assms unfolding starts_def
    by (auto simp: NewSenderFiles_def NewSourceSender_def same_books_def split: option.splits sum.splits if_splits)
  have "sender_inv good off (sd_src s) (s0\<lparr>sd_src := sd_src s\<rparr>, NotHashing)"
    using NewSender_inv [OF s0(1), of good] by (simp add: sender_inv_def)
  then show ?thesis
    using NewSender_inv [OF s0(1)] s0(2) same_books_inv [OF s0(2)] by (auto simp: same_books_def)
qed

lemma run_served_mono:
  assumes "(sender_step sha W)\<^sup>*\<^sup>* x y" "sender_inv (\<lambda>_ _ _. True) off src x" "accepted off"
    "has (sd_served (fst x) ! i) k"
  shows "has (sd_served (fst y) ! i) k"
  using assms
proof (induction rule: rtranclp_induct)
  case (step y z)
  have "reads_good sha W (\<lambda>_ _ _. True) off src" by (simp add: reads_good_def)
  then have "sender_inv (\<lambda>_ _ _. True) off src y" using sender_run_inv [OF step.hyps(1)] step.prems by blast
  then show ?case using step step_served_mono [of sha W "fst y" "snd y" "fst z" "snd z"] by simp
qed

end
