(* ===== verification/Bench.thy ===== *)
theory Bench
  imports Offer
begin

text \<open>
  The sources and the offer of a measure (\<^verbatim>\<open>pkg/transfer/bench.go\<close>), and what a sender asks of
  anything it reads (Go's \<^verbatim>\<open>io.ReaderAt\<close>): \<open>reader_at\<close> is that interface for contents that do
  not change.
\<close>

section \<open>What is read at an offset\<close>

text \<open>\<open>readAt n off\<close> is the \<open>n\<close> bytes at \<open>off\<close>, or \<open>None\<close> when they cannot all be read.\<close>

locale reader_at =
  fixes readAt :: "nat \<Rightarrow> nat \<Rightarrow> bytes option" and content :: "nat \<Rightarrow> byte" and len :: nat
  assumes reads: "off + n \<le> len \<Longrightarrow> readAt n off = Some (map content [off..<off + n])"
begin

lemma reads_length: "off + n \<le> len \<Longrightarrow> readAt n off = Some d \<Longrightarrow> length d = n"
  using reads by auto

text \<open>Reads one after the other are the read of the whole.\<close>

lemma reads_append:
  assumes "off + n + m \<le> len"
  shows "\<exists>a b. readAt n off = Some a \<and> readAt m (off + n) = Some b \<and> readAt (n + m) off = Some (a @ b)"
proof -
  have "[off..<off + (n + m)] = [off..<off + n] @ [off + n..<off + n + m]"
    using upt_add_eq_append [of off "off + n" m] by (simp add: add.assoc)
  then show ?thesis using assms reads [of off n] reads [of "off + n" m] reads [of off "n + m"]
    by (simp add: add.assoc)
qed

end

section \<open>The offer\<close>

definition BenchOffer :: "int \<Rightarrow> 32 word \<Rightarrow> offer" where
  "BenchOffer sz chunkSize =
     \<lparr>o_TransferID = ''bench'', o_Root = ''bench.bin'',
      o_Items = [\<lparr>it_Item = 0, it_Path = ''bench.bin'', it_Size = sz, it_MTime = 0\<rparr>],
      o_TotalBytes = sz, o_ChunkSize = chunkSize, o_Kind = KindBench, o_Count = 0\<rparr>"

section \<open>The sources\<close>

definition ZeroSource :: "nat \<Rightarrow> nat \<Rightarrow> bytes option" where
  "ZeroSource n off = Some (replicate n 0)"

text \<open>The loop of \<^verbatim>\<open>randomSource.ReadAt\<close>: copies of the block until the buffer is full. An empty
  block would make Go divide by zero.\<close>

function random_fill :: "bytes \<Rightarrow> nat \<Rightarrow> nat \<Rightarrow> nat \<Rightarrow> bytes \<Rightarrow> bytes option" where
  "random_fill b len off n acc =
     (if n < len then
        (if b = [] then None
         else
           let k = min (len - n) (length b - (off + n) mod length b)
           in random_fill b len off (n + k) (acc @ take k (drop ((off + n) mod length b) b)))
      else Some acc)"
  by pat_completeness auto
termination
proof (relation "measure (\<lambda>(b, len, off, n, acc). len - n)")
  fix b :: bytes and len off n :: nat and acc :: bytes and k
  assume A: "n < len" "b \<noteq> []" "k = min (len - n) (length b - (off + n) mod length b)"
  have "(off + n) mod length b < length b" using A(2) by simp
  then have "0 < k" using A(1,3) by simp
  with A(1) show "((b, len, off, n + k, acc @ take k (drop ((off + n) mod length b) b)), b, len, off, n, acc)
      \<in> measure (\<lambda>(b, len, off, n, acc). len - n)" by simp
qed simp

declare random_fill.simps [simp del]

definition randomSource :: "bytes \<Rightarrow> nat \<Rightarrow> nat \<Rightarrow> bytes option" where
  "randomSource b n off = random_fill b n off 0 []"

definition random_block_len :: nat where "random_block_len = 4 * 2 ^ 20"

text \<open>\<^verbatim>\<open>RandomSource\<close>: \<open>draw\<close> is what \<^verbatim>\<open>rand.Read\<close> puts in the block, \<open>None\<close> when it fails.\<close>

definition random_block :: "(nat \<Rightarrow> byte) \<Rightarrow> bytes" where
  "random_block draw = map draw [0..<random_block_len]"

definition RandomSource :: "(nat \<Rightarrow> byte) option \<Rightarrow> (nat \<Rightarrow> nat \<Rightarrow> bytes option) option" where
  "RandomSource draw = map_option (\<lambda>d. randomSource (random_block d)) draw"

section \<open>They are read the same way every time\<close>

lemma random_fill_spec:
  assumes "b \<noteq> []" "n \<le> len"
  shows "random_fill b len off n acc = Some (acc @ map (\<lambda>j. b ! (j mod length b)) [off + n..<off + len])"
  using assms
proof (induction b len off n acc rule: random_fill.induct)
  case (1 b len off n acc)
  show ?case
  proof (cases "n < len")
    case True
    let ?p = "(off + n) mod length b"
    let ?k = "min (len - n) (length b - ?p)"
    have p: "?p < length b" using 1 by simp
    have mod: "(off + n + j) mod length b = ?p + j" if "j < ?k" for j
    proof -
      have "j < length b - ?p" using that by simp
      then have "?p + j < length b" by linarith
      then show ?thesis by (metis mod_add_left_eq mod_less)
    qed
    have "take ?k (drop ?p b) = map (\<lambda>j. b ! (j mod length b)) [off + n..<off + n + ?k]"
      by (rule nth_equalityI) (use p mod in auto)
    moreover have "[off + n..<off + len] = [off + n..<off + n + ?k] @ [off + n + ?k..<off + len]"
      using upt_add_eq_append [of "off + n" "off + n + ?k" "len - n - ?k"] True by simp
    moreover have "random_fill b len off (n + ?k) (acc @ take ?k (drop ?p b)) =
        Some ((acc @ take ?k (drop ?p b)) @ map (\<lambda>j. b ! (j mod length b)) [off + (n + ?k)..<off + len])"
      using 1 True by (intro "1.IH") simp_all
    ultimately show ?thesis
      using True 1 by (subst random_fill.simps) (simp add: Let_def add.assoc)
  next
    case False
    then show ?thesis using 1 by (subst random_fill.simps) simp
  qed
qed

lemma random_block_not_Nil: "random_block draw \<noteq> []"
  by (simp add: random_block_def random_block_len_def)

interpretation zero_source: reader_at ZeroSource "\<lambda>_. 0" len for len
  by unfold_locales (auto simp: ZeroSource_def map_replicate_const)

interpretation random_source: reader_at "randomSource (random_block draw)"
    "\<lambda>j. random_block draw ! (j mod length (random_block draw))" len for draw len
  by unfold_locales (simp add: randomSource_def random_fill_spec random_block_not_Nil)

end
