(* ===== verification/SenderProps.thy ===== *)
theory SenderProps
  imports SenderInv Bench
begin

text \<open>
  What a sender answers: over contents that do not change, every digest is that of the contents,
  whatever was served or hashed before and meanwhile; and, over any source, the progress counts
  each chunk served once.
\<close>

section \<open>Contents that do not change\<close>

definition chunk_data :: "(nat \<Rightarrow> nat \<Rightarrow> byte) \<Rightarrow> offer \<Rightarrow> nat \<Rightarrow> nat \<Rightarrow> bytes" where
  "chunk_data c off i k = map (c i) [k * chunk_size off..<k * chunk_size off + chunk_len off i k]"

text \<open>The worlds in which the files have the size and date of the offer, and the contents \<open>c\<close>.\<close>

definition steady :: "(nat \<Rightarrow> nat \<Rightarrow> byte) \<Rightarrow> offer \<Rightarrow> source \<Rightarrow> bool" where
  "steady c off w \<longleftrightarrow> (\<forall>i<length (o_Items off).
     so_open w i \<and> so_stat w i = Some (it_Size (o_Items off ! i), it_MTime (o_Items off ! i)) \<and>
     reader_at (so_read w i) (c i) (item_size off i))"

definition steady_src :: "(nat \<Rightarrow> nat \<Rightarrow> byte) \<Rightarrow> offer \<Rightarrow> (nat \<Rightarrow> nat \<Rightarrow> bytes option) option \<Rightarrow> bool" where
  "steady_src c off src \<longleftrightarrow>
     (\<forall>f. src = Some f \<longrightarrow> (\<forall>i<length (o_Items off). reader_at f (c i) (item_size off i)))"

context reader_at
begin

lemma reads_chunk:
  assumes "accepted off" "i < length (o_Items off)" "k < chunks_of off i" "len = item_size off i"
  shows "readAt (chunk_len off i k) (k * chunk_size off) =
    Some (map content [k * chunk_size off..<k * chunk_size off + chunk_len off i k])"
  using chunk_inside [OF assms(1-3)] assms(4) by (intro reads) (simp add: chunk_len_def)

end

text \<open>What a read of the sender gives then.\<close>

lemma steady_read:
  assumes "steady c off w" "steady_src c off (sd_src s)" "accepted off" "i < length (o_Items off)" "k < chunks_of off i"
  shows "read_at w s i (chunk_len off i k) (k * chunk_size off) = Some (chunk_data c off i k)"
proof (cases "sd_src s")
  case None
  have "reader_at (so_read w i) (c i) (item_size off i)" using assms(1,4) by (simp add: steady_def)
  from reader_at.reads_chunk [OF this assms(3-5) refl] None show ?thesis by (simp add: read_at_def chunk_data_def)
next
  case (Some f)
  have "reader_at f (c i) (item_size off i)" using assms(2,4) Some by (simp add: steady_src_def)
  from reader_at.reads_chunk [OF this assms(3-5) refl] Some show ?thesis by (simp add: read_at_def chunk_data_def)
qed

definition good_hash :: "(bytes \<Rightarrow> bytes) \<Rightarrow> (nat \<Rightarrow> nat \<Rightarrow> byte) \<Rightarrow> offer \<Rightarrow> nat \<Rightarrow> nat \<Rightarrow> bytes \<Rightarrow> bool" where
  "good_hash sha c off i k h \<longleftrightarrow> h = sha (chunk_data c off i k)"

lemma steady_reads_good:
  assumes "steady_src c off src" "accepted off"
  shows "reads_good sha (steady c off) (good_hash sha c off) off src"
  unfolding reads_good_def
proof (intro allI impI)
  fix w i k data
  assume w: "steady c off w" and i: "i < length (o_Items off)" and k: "k < chunks_of off i"
    and r: "(case src of None \<Rightarrow> so_read w i (chunk_len off i k) (k * chunk_size off)
        | Some f \<Rightarrow> f (chunk_len off i k) (k * chunk_size off)) = Some data"
  have "data = chunk_data c off i k"
  proof (cases src)
    case None
    have "reader_at (so_read w i) (c i) (item_size off i)" using w i by (simp add: steady_def)
    from reader_at.reads_chunk [OF this assms(2) i k refl] None r show ?thesis by (simp add: chunk_data_def)
  next
    case (Some f)
    have "reader_at f (c i) (item_size off i)" using assms(1) i Some by (simp add: steady_src_def)
    from reader_at.reads_chunk [OF this assms(2) i k refl] Some r show ?thesis by (simp add: chunk_data_def)
  qed
  then show "good_hash sha c off i k (sha data)" by (simp add: good_hash_def)
qed

lemma steady_unchanged:
  "steady c off w \<Longrightarrow> sd_offer s = off \<Longrightarrow> i < length (o_Items off) \<Longrightarrow> unchanged w s i b"
  by (simp add: steady_def unchanged_def Let_def)

lemma steady_reader:
  assumes "steady c off w" "sd_offer s = off" "i < length (o_Items off)" "reader w s i = Some (r, s1)"
  shows "\<exists>b. r = Inr b"
  using assms(4) steady_unchanged [OF assms(1-3)] assms(1,3)
  by (auto simp: reader_def acquire_def steady_def Let_def split: if_splits found.splits)

section \<open>The digest\<close>

lemma digest_loop_steady:
  assumes "\<And>k. k \<in> set ks \<Longrightarrow> case ready_hash (look k s) i pre k of Some h \<Rightarrow> h = g k
      | None \<Rightarrow> (case span s (it_Size (o_Items (sd_offer s) ! i)) (of_nat k) of (off, n) \<Rightarrow>
          map_option sha (read_at (w k) s i (nat n) (nat off)) = Some (g k))"
  shows "fst (digest_loop sha w look s i pre ks reads acc) = Inr (acc @ map g ks)"
  using assms
proof (induction ks arbitrary: reads acc)
  case (Cons k ks)
  have k: "case ready_hash (look k s) i pre k of Some h \<Rightarrow> h = g k
      | None \<Rightarrow> (case span s (it_Size (o_Items (sd_offer s) ! i)) (of_nat k) of (off, n) \<Rightarrow>
          map_option sha (read_at (w k) s i (nat n) (nat off)) = Some (g k))"
    using Cons.prems by simp
  have IH: "fst (digest_loop sha w look s i pre ks reads acc) = Inr (acc @ map g ks)" for reads acc
    using Cons by simp
  from k show ?case by (auto simp: IH Let_def split: option.splits prod.splits)
qed simp

text \<open>The chunks whose hash is ready: served, or hashed ahead.\<close>

lemma ready_hash_good:
  assumes s1: "sender_inv (good_hash sha c off) off src (s1, h1)" and t: "sender_inv (good_hash sha c off) off src (t, h2)"
    and more: "\<And>k. has (sd_served s1 ! i) k \<Longrightarrow> has (sd_served t ! i) k" and acc: "accepted off"
    and i: "i < length (o_Items off)" and k: "k < chunks_of off i"
    and pre: "hashedAhead pick s1 i = Some pre" and r: "ready_hash t i pre k = Some h"
  shows "h = sha (chunk_data c off i k)"
proof -
  have k32: "k < 2 ^ 32" using k chunks_of_bounds(2) [OF acc i] by simp
  show ?thesis
  proof (cases "has (sd_served t ! i) k")
    case True
    then have "h = sd_hashes t ! i ! k" using r by (simp add: ready_hash_def servedHash_has [OF k32])
    moreover have "sd_served t ! i \<noteq> []" using True by auto
    ultimately show ?thesis using sender_invD(7) [OF t i] True k by (auto simp: item_inv_def good_hash_def)
  next
    case False
    then obtain a where a: "pre = Some a" "k < ah_upTo a" "h = ah_hashes a ! k"
      using r by (auto simp: ready_hash_def servedHash_has [OF k32] split: option.splits if_splits)
    then have "sd_ahead s1 i = Some a" "ah_done a" "ah_ok a"
      using pre by (auto simp: hashedAhead_def split: option.splits if_splits)
    then have "has (sd_served s1 ! i) k \<or> good_hash sha c off i k (ah_hashes a ! k)"
      using sender_invD(7) [OF s1 i] a(2) by (auto simp: item_inv_def split: if_splits)
    then show ?thesis using False more a(3) by (auto simp: good_hash_def)
  qed
qed

lemma digest_answer:
  assumes "starts uni off s0" "steady_src c off (sd_src s0)" "(sender_step sha (steady c off))\<^sup>*\<^sup>* (s0, NotHashing) (s, h)"
    and "\<And>k. steady c off (w k)" "\<And>k u. \<exists>h'. (sender_step sha (steady c off))\<^sup>*\<^sup>* (u, h) (look k u, h')"
    and "unat item < length (o_Items off)" "digest sha w look pick s item = Some (out, t)"
  shows "out = AppendDigest [] item (FileDigest sha (map (\<lambda>k. sha (chunk_data c off (unat item) k))
      [0..<unat (Chunks (it_Size (o_Items off ! unat item)) (o_ChunkSize off))]))"
proof -
  let ?i = "unat item" and ?n = "unat (Chunks (it_Size (o_Items off ! unat item)) (o_ChunkSize off))"
  let ?g = "\<lambda>k. sha (chunk_data c off ?i k)"
  have acc: "accepted off" and start: "sender_inv good off (sd_src s0) (s0, NotHashing)" for good
    using starts_inv [OF assms(1)] by blast+
  have inv: "sender_inv (good_hash sha c off) off (sd_src s0) (s, h)"
    and inv': "sender_inv (\<lambda>_ _ _. True) off (sd_src s0) (s, h)"
    using sender_run_inv [OF assms(3) start acc] steady_reads_good [OF assms(2) acc] by (blast, simp add: reads_good_def)
  note D = sender_invD [OF inv]
  obtain r s1 where r: "reader (w 0) s ?i = Some (r, s1)"
    using assms(6,7) D(3) by (cases "reader (w 0) s ?i") (auto simp: digest_def)
  obtain b where b: "r = Inr b" using steady_reader [OF assms(4) D(1) assms(6) r] by blast
  have books: "same_books s s1" using reader_books [OF r] by blast
  then have inv1: "sender_inv (good_hash sha c off) off (sd_src s0) (s1, h)"
    "sender_inv (\<lambda>_ _ _. True) off (sd_src s0) (s1, h)"
    using inv inv' same_books_inv [OF books] by blast+
  have D1: "sd_offer s1 = off" "sd_src s1 = sd_src s0" using sender_invD(1,2) [OF inv1(1)] by blast+
  obtain pre where pre: "hashedAhead pick s1 ?i = Some pre"
    using assms(6,7) D(3) r b steady_unchanged [OF assms(4) D1(1) assms(6)]
    by (cases "hashedAhead pick s1 ?i") (auto simp: digest_def)
  have le: "k < chunks_of off ?i" if "k < ?n" for k using that by (simp add: chunks_of_def unat_max_1)
  have "fst (digest_loop sha (\<lambda>k. w (2 + k)) look s1 ?i pre [0..<?n] 0 []) = Inr ([] @ map ?g [0..<?n])"
  proof (rule digest_loop_steady)
    fix k assume "k \<in> set [0..<?n]"
    then have k: "k < chunks_of off ?i" using le by simp
    obtain h' where run: "(sender_step sha (steady c off))\<^sup>*\<^sup>* (s1, h) (look k s1, h')" using assms(5) by blast
    have inv2: "sender_inv (good_hash sha c off) off (sd_src s0) (look k s1, h')"
      using sender_run_inv [OF run inv1(1) acc] steady_reads_good [OF assms(2) acc] by blast
    have more: "has (sd_served (look k s1) ! ?i) n" if "has (sd_served s1 ! ?i) n" for n
      using run_served_mono [OF run inv1(2) acc] that by simp
    have rd: "read_at (w (2 + k)) s1 ?i (chunk_len off ?i k) (k * chunk_size off) = Some (chunk_data c off ?i k)"
      by (rule steady_read) (use assms(2,4,6) D1 acc k in auto)
    have sp: "span s1 (it_Size (o_Items (sd_offer s1) ! ?i)) (of_nat k) =
        (int (k * chunk_size off), int (chunk_len off ?i k))"
      using chunk_span [OF D1(1) acc assms(6) k] D1(1) by simp
    show "case ready_hash (look k s1) ?i pre k of Some h \<Rightarrow> h = ?g k
      | None \<Rightarrow> (case span s1 (it_Size (o_Items (sd_offer s1) ! ?i)) (of_nat k) of (off, n) \<Rightarrow>
          map_option sha (read_at (w (2 + k)) s1 ?i (nat n) (nat off)) = Some (?g k))"
      unfolding sp prod.case nat_int rd
      using ready_hash_good [OF inv1(1) inv2 more acc assms(6) k pre] by (simp split: option.split)
  qed
  then obtain reads where loop: "digest_loop sha (\<lambda>k. w (2 + k)) look s1 ?i pre [0..<?n] 0 [] = (Inr (map ?g [0..<?n]), reads)"
    by (metis append_Nil prod.exhaust_sel)
  show ?thesis
    using assms(6,7) D(3) r b steady_unchanged [OF assms(4) D1(1) assms(6)] pre loop D1(1)
    by (auto simp: digest_def Let_def)
qed

text \<open>C2. The digest a sender answers with, over contents that do not change, is that of the
  contents: whatever chunks it has served before, in any order and on any connection, whatever
  it has hashed ahead, and whatever it serves while the digest is being made (\<open>look\<close>).\<close>

theorem digest_is_of_the_contents:
  assumes "starts uni off s0" "steady_src c off (sd_src s0)" "(sender_step sha (steady c off))\<^sup>*\<^sup>* (s0, NotHashing) (s, h)"
    and "\<And>k. steady c off (w k)" "\<And>k u. \<exists>h'. (sender_step sha (steady c off))\<^sup>*\<^sup>* (u, h) (look k u, h')"
    and "unat item < length (o_Items off)" "digest sha w look pick s item = Some (out, t)"
  shows "out = AppendDigest [] item (FileDigest sha (map (\<lambda>k. sha (chunk_data c off (unat item) k))
      [0..<unat (Chunks (it_Size (o_Items off ! unat item)) (o_ChunkSize off))]))"
  by (rule digest_answer [OF assms])

text \<open>A bench sender of zeros.\<close>

definition ex_bench :: offer where
  "ex_bench = BenchOffer 300000 0x40000"

lemma ex_bench_valid: "Validate id ex_bench = Inr ()"
  by (simp add: Validate_def ex_bench_def BenchOffer_def offer_limits path_key_def ToLower_def to_slash_def
      ascii_def lower_char_def backslash_def Chunks_def wrap64_def signed_divide_int_def Let_def)

definition ex_sender :: sender where
  "ex_sender = (case NewSourceSender id ex_bench ZeroSource of Inr s \<Rightarrow> s)"

lemma ex_sender_new: "NewSourceSender id ex_bench ZeroSource = Inr ex_sender"
  using ex_bench_valid
  by (simp add: ex_sender_def NewSourceSender_def NewSender_def) (simp add: ex_bench_def BenchOffer_def)

definition ex_world :: source where
  "ex_world = \<lparr>so_open = \<lambda>_. True, so_stat = \<lambda>_. Some (300000, 0), so_read = \<lambda>_. ZeroSource, so_order = []\<rparr>"

lemma ex_world_steady: "steady (\<lambda>_ _. 0) ex_bench ex_world"
  by (simp add: steady_def ex_world_def ex_bench_def BenchOffer_def zero_source.reader_at_axioms)

lemma ex_sender_fields: "sd_src ex_sender = Some ZeroSource" "length (sd_paths ex_sender) = 1" "sd_ahead ex_sender = Map.empty"
  using ex_bench_valid
  by (simp_all add: ex_sender_def NewSourceSender_def NewSender_def) (simp_all add: ex_bench_def BenchOffer_def)

lemma ex_digest: "digest sha (\<lambda>_. ex_world) (\<lambda>_ s. s) False ex_sender 0 \<noteq> None"
  using ex_sender_fields
  by (auto simp: digest_def reader_def unchanged_def hashedAhead_def Let_def split: prod.split sum.split)

theorem digest_is_of_the_contents_witness:
  "\<forall>sha. \<exists>t. digest sha (\<lambda>_. ex_world) (\<lambda>_ s. s) False ex_sender 0 =
     Some (AppendDigest [] 0 (FileDigest sha [sha (replicate 262144 0), sha (replicate 37856 0)]), t)"
proof
  fix sha :: "bytes \<Rightarrow> bytes"
  obtain out t where d: "digest sha (\<lambda>_. ex_world) (\<lambda>_ s. s) False ex_sender 0 = Some (out, t)"
    using ex_digest by (metis option.exhaust prod.exhaust)
  have st: "starts id ex_bench ex_sender" using ex_sender_new by (auto simp: starts_def)
  have src: "steady_src (\<lambda>_ _. 0) ex_bench (sd_src ex_sender)"
    by (simp add: steady_src_def ex_sender_fields zero_source.reader_at_axioms)
  have ch: "Chunks 300000 0x40000 = 2" by (simp add: Chunks_def wrap64_def signed_divide_int_def)
  have up: "[0..<2] = [0, 1 :: nat]" by (simp add: upt_rec)
  have "out = AppendDigest [] 0 (FileDigest sha (map (\<lambda>k. sha (chunk_data (\<lambda>_ _. 0) ex_bench 0 k)) [0..<2]))"
    using digest_is_of_the_contents [OF st src rtranclp.rtrancl_refl ex_world_steady _ _ d]
    by (auto simp: ex_bench_def BenchOffer_def ch)
  then show "\<exists>t. digest sha (\<lambda>_. ex_world) (\<lambda>_ s. s) False ex_sender 0 =
     Some (AppendDigest [] 0 (FileDigest sha [sha (replicate 262144 0), sha (replicate 37856 0)]), t)"
    using d by (simp add: up chunk_data_def chunk_len_def ex_bench_def BenchOffer_def map_replicate_const)
qed

section \<open>The progress\<close>

lemma sum_le_eq:
  fixes f g :: "'a \<Rightarrow> 'b :: ordered_cancel_comm_monoid_add"
  assumes "finite A" "\<And>x. x \<in> A \<Longrightarrow> f x \<le> g x"
  shows "sum f A = sum g A \<longleftrightarrow> (\<forall>x \<in> A. f x = g x)"
  using assms sum_strict_mono_ex1 [of A f g] by (metis order_less_irrefl order_le_less sum.cong)

lemma served_len_le: "served_len off i bits \<le> (\<Sum>k<chunks_of off i. chunk_len off i k)"
  unfolding served_len_def by (intro sum_mono) simp

lemma chunks_cover:
  assumes "accepted off" "i < length (o_Items off)" "chunk_count (it_Size (o_Items off ! i)) (o_ChunkSize off) < 2 ^ 32"
  shows "item_size off i \<le> unat (Chunks (it_Size (o_Items off ! i)) (o_ChunkSize off)) * chunk_size off"
proof -
  note A = accepted_nth [OF assms(1,2)]
  let ?sz = "it_Size (o_Items off ! i)" and ?cs = "int (chunk_size off)"
  note C = chunk_size_bounds [OF A(2,3)]
  have "uint (Chunks ?sz (o_ChunkSize off)) = chunk_count ?sz (o_ChunkSize off)"
    using A C(3) assms(3) by (intro Chunks_exact chunk_count_room)
  then have n: "int (unat (Chunks ?sz (o_ChunkSize off))) = (?sz + ?cs - 1) div ?cs" by (simp add: chunk_count_def)
  have "0 < chunk_size off" using C(1) by simp
  then have cs: "0 < ?cs" by (simp only: of_nat_0_less_iff)
  have "int (unat (Chunks ?sz (o_ChunkSize off))) * ?cs = ?sz + ?cs - 1 - (?sz + ?cs - 1) mod ?cs"
    unfolding n by (simp only: minus_mod_eq_div_mult)
  then have "?sz \<le> int (unat (Chunks ?sz (o_ChunkSize off))) * ?cs"
    using pos_mod_bound [OF cs, of "?sz + ?cs - 1"] by linarith
  then have "int (item_size off i) \<le> int (unat (Chunks ?sz (o_ChunkSize off)) * chunk_size off)" using A(1) by simp
  then show ?thesis by (simp only: of_nat_le_iff)
qed

lemma item_chunks_total:
  assumes "accepted off" "i < length (o_Items off)" "chunk_count (it_Size (o_Items off ! i)) (o_ChunkSize off) < 2 ^ 32"
  shows "(\<Sum>k<chunks_of off i. chunk_len off i k) = item_size off i"
proof -
  have "unat (Chunks (it_Size (o_Items off ! i)) (o_ChunkSize off)) * chunk_size off \<le> chunks_of off i * chunk_size off"
    by (simp add: chunks_of_def unat_max_1)
  with chunks_cover [OF assms] have "item_size off i \<le> chunks_of off i * chunk_size off" by (rule order_trans)
  then show ?thesis by (simp add: sum_chunk_len)
qed

lemma accepted_total: "accepted off \<Longrightarrow> o_TotalBytes off = (\<Sum>i<length (o_Items off). it_Size (o_Items off ! i))"
  unfolding accepted_def Validate_Inr valid_offer_def Let_def
  by (auto simp: sum_list_sum_nth atLeast0LessThan)

lemma item_served_le:
  assumes "accepted off" "i < length (o_Items off)"
  shows "int (served_len off i bits) \<le> it_Size (o_Items off ! i)"
proof -
  have "served_len off i bits \<le> item_size off i" using served_len_le [of off i bits] by (simp add: sum_chunk_len)
  then show ?thesis using accepted_nth(1) [OF assms] by linarith
qed

text \<open>The progress: what it is, its bound, and when it is reached.\<close>

lemma progress_parts:
  assumes "starts uni off s0" "(sender_step sha W)\<^sup>*\<^sup>* (s0, NotHashing) (s, h)"
    and "\<forall>it \<in> set (o_Items off). chunk_count (it_Size it) (o_ChunkSize off) < 2 ^ 32"
  shows "sp_Bytes (Progress s) = int (\<Sum>i<length (o_Items off). \<Sum>k<chunks_of off i.
        if servedHash s i (of_nat k) \<noteq> None then chunk_len off i k else 0)"
    "sp_Bytes (Progress s) \<le> sp_Total (Progress s)"
    "sp_Bytes (Progress s) = sp_Total (Progress s) \<longleftrightarrow>
       (\<forall>i<length (o_Items off). \<forall>k<chunks_of off i. chunk_len off i k > 0 \<longrightarrow> servedHash s i (of_nat k) \<noteq> None)"
proof -
  have acc: "accepted off" and start: "sender_inv (\<lambda>_ _ _. True) off (sd_src s0) (s0, NotHashing)"
    using starts_inv [OF assms(1)] by blast+
  have inv: "sender_inv (\<lambda>_ _ _. True) off (sd_src s0) (s, h)"
    using sender_run_inv [OF assms(2) start acc] by (simp add: reads_good_def)
  let ?n = "length (o_Items off)" and ?l = "\<lambda>i. served_len off i (sd_served s ! i)"
  have sh: "servedHash s i (of_nat k) \<noteq> None \<longleftrightarrow> has (sd_served s ! i) k" if "i < ?n" "k < chunks_of off i" for i k
    using that chunks_of_bounds(2) [OF acc that(1)] by (simp add: servedHash_has)
  have item: "sd_itemBytes s i = int (?l i)" if "i < ?n" for i
    using sender_invD(7) [OF inv that] by (simp add: item_inv_def)
  have bytes: "sp_Bytes (Progress s) = (\<Sum>i<?n. int (?l i))"
    using inv item by (simp add: Progress_def sender_inv_def)
  have tot: "sp_Total (Progress s) = (\<Sum>i<?n. it_Size (o_Items off ! i))"
    using sender_invD(1) [OF inv] accepted_total [OF acc] by (simp add: Progress_def)
  show "sp_Bytes (Progress s) = int (\<Sum>i<?n. \<Sum>k<chunks_of off i.
        if servedHash s i (of_nat k) \<noteq> None then chunk_len off i k else 0)"
    unfolding bytes of_nat_sum [symmetric] served_len_def
    by (intro arg_cong [of _ _ int] sum.cong refl if_cong) (simp only: sh lessThan_iff)
  show "sp_Bytes (Progress s) \<le> sp_Total (Progress s)"
    unfolding bytes tot by (intro sum_mono item_served_le [OF acc]) simp
  have "sp_Bytes (Progress s) = sp_Total (Progress s) \<longleftrightarrow> (\<forall>i<?n. int (?l i) = it_Size (o_Items off ! i))"
    unfolding bytes tot using sum_le_eq [of "{..<?n}" "\<lambda>i. int (?l i)" "\<lambda>i. it_Size (o_Items off ! i)"]
      item_served_le [OF acc] by auto
  moreover have "int (?l i) = it_Size (o_Items off ! i) \<longleftrightarrow>
      (\<forall>k<chunks_of off i. chunk_len off i k > 0 \<longrightarrow> servedHash s i (of_nat k) \<noteq> None)" if i: "i < ?n" for i
  proof -
    have "it_Size (o_Items off ! i) = int (\<Sum>k<chunks_of off i. chunk_len off i k)"
      using item_chunks_total [OF acc i] assms(3) i accepted_nth(1) [OF acc i] by simp
    then have "int (?l i) = it_Size (o_Items off ! i) \<longleftrightarrow> ?l i = (\<Sum>k<chunks_of off i. chunk_len off i k)"
      by (simp only: of_nat_eq_iff)
    also have "\<dots> \<longleftrightarrow> (\<forall>k<chunks_of off i. (if has (sd_served s ! i) k then chunk_len off i k else 0) = chunk_len off i k)"
      unfolding served_len_def by (subst sum_le_eq) auto
    also have "\<dots> \<longleftrightarrow> (\<forall>k<chunks_of off i. chunk_len off i k > 0 \<longrightarrow> servedHash s i (of_nat k) \<noteq> None)"
      using sh [OF i] by auto
    finally show ?thesis .
  qed
  ultimately show "sp_Bytes (Progress s) = sp_Total (Progress s) \<longleftrightarrow>
       (\<forall>i<?n. \<forall>k<chunks_of off i. chunk_len off i k > 0 \<longrightarrow> servedHash s i (of_nat k) \<noteq> None)"
    by simp
qed


text \<open>The same sender after one request, of the second chunk.\<close>

lemma ex_chunk:
  obtains out s where "chunk sha (\<lambda>_. ex_world) ex_sender 0 1 = Some (out, s)" "servedHash s 0 1 \<noteq> None"
proof -
  have acc: "accepted ex_bench" using ex_bench_valid by (auto simp: accepted_def)
  have start: "sender_inv (\<lambda>_ _ _. True) ex_bench (sd_src ex_sender) (ex_sender, NotHashing)" "sd_offer ex_sender = ex_bench"
    using starts_inv [of id ex_bench ex_sender] ex_sender_new by (auto simp: starts_def)
  have ch: "chunks_of ex_bench 0 = 2"
    by (simp add: chunks_of_def ex_bench_def BenchOffer_def Chunks_def wrap64_def signed_divide_int_def)
  have n: "length (o_Items ex_bench) = 1" by (simp add: ex_bench_def BenchOffer_def)
  have sp: "span ex_sender (it_Size (o_Items ex_bench ! 0)) 1 = (int (1 * chunk_size ex_bench), int (chunk_len ex_bench 0 1))"
    using chunk_span [OF start(2) acc, of 0 1] n ch by simp
  have rng: "\<not> max 1 (Chunks (it_Size (o_Items ex_bench ! 0)) (o_ChunkSize ex_bench)) \<le> (1 :: 32 word)"
    by (simp add: ex_bench_def BenchOffer_def Chunks_def wrap64_def signed_divide_int_def word_le_nat_alt)
  have "chunk sha (\<lambda>_. ex_world) ex_sender 0 1 = Some (AppendChunkData [] 0 1 (sha (replicate (chunk_len ex_bench 0 1) 0))
      (replicate (chunk_len ex_bench 0 1) 0),
      markServed ex_sender 0 (of_nat 1) (int (chunk_len ex_bench 0 1)) (sha (replicate (chunk_len ex_bench 0 1) 0)))"
    unfolding chunk_def Let_def start(2) unat_0 sp prod.case
    using rng by (simp add: ex_sender_fields reader_def read_at_def ZeroSource_def let_go_def del: max.bounded_iff)
  moreover have "servedHash (markServed ex_sender 0 (of_nat 1) (int (chunk_len ex_bench 0 1)) h) 0 (of_nat 1) \<noteq> None" for h
    using markServed_inv(3) [OF start(1) acc, of 0 1] n ch
      servedHash_has [of 1 "markServed ex_sender 0 (of_nat 1) (int (chunk_len ex_bench 0 1)) h" 0] by simp
  ultimately show thesis using that by simp
qed


end
