(* ===== verification/Exchange.thy ===== *)
theory Exchange
  imports SenderProps Receiver StoreFinal
begin

text \<open>
  Both ends of a transfer together: what a sender writes is what a receiver takes, and a file the
  receiver has checked against the sender's digest and put under its name is the sender's file,
  byte for byte, unless two given inputs are a collision of SHA-256.
\<close>

section \<open>The frames a receiver takes\<close>

text \<open>The limits of \<^verbatim>\<open>worker\<close>.\<close>

definition answer_limits :: "32 word \<Rightarrow> limits" where
  "answer_limits chunks =
     [TypeChunkData \<mapsto> of_nat ChunkDataHeaderLen + chunks, TypeChunkError \<mapsto> of_nat ChunkErrorLen,
      TypeDigest \<mapsto> of_nat DigestLen]"

lemma answer_limit:
  "answer_limits cs TypeChunkError = Some 10" "answer_limits cs TypeDigest = Some 36"
  "answer_limits cs TypeChunkData = Some (44 + cs)"
  by (simp_all add: answer_limits_def message_types message_lengths)

text \<open>Any answer that fits is read back as the message written.\<close>

lemma answer_read:
  assumes "msg_ok m" "answer_limits cs (msg_type m) = Some mx" "length (msg_payload m) \<le> unat mx"
  shows "\<exists>h p. ReadFrame (append_msg [] m @ tail) (answer_limits cs) = (Inr (h, p), tail) \<and>
    h_Type h = msg_type m \<and> parse_msg (msg_type m) p = Inr m"
  using ReadFrame_AppendFrame [of "answer_limits cs" "msg_type m" mx "msg_payload m" tail] assms parse_msg_payload [OF assms(1)]
  by (auto simp: append_msg_frame [OF assms(1)])

text \<open>The payload a reader gets of a frame is the one written, whatever its limits.\<close>

lemma ReadFrame_twice:
  assumes "ReadFrame (AppendFrame [] t q @ r) limits = (Inr (hr, p), r')" "length q \<le> unat (-1 :: 32 word)"
  shows "p = q"
proof -
  let ?any = "\<lambda>_. Some (-1) :: 32 word option"
  from assms(1) obtain mx where e: "AppendFrame [] t q @ r = AppendFrame [] (h_Type hr) p @ r'" "length p \<le> unat (mx :: 32 word)"
    by (auto simp: ReadFrame_iff)
  have "unat mx \<le> unat (-1 :: 32 word)" by (simp only: word_le_nat_alt [symmetric] word_order.extremum)
  then have "length p \<le> unat (-1 :: 32 word)" using e(2) by linarith
  then have "ReadFrame (AppendFrame [] (h_Type hr) p @ r') ?any =
      (Inr (\<lparr>h_Type = h_Type hr, h_PayloadLen = of_nat (length p)\<rparr>, p), r')"
    by (intro ReadFrame_AppendFrame) simp_all
  moreover have "ReadFrame (AppendFrame [] t q @ r) ?any = (Inr (\<lparr>h_Type = t, h_PayloadLen = of_nat (length q)\<rparr>, q), r)"
    using assms(2) by (intro ReadFrame_AppendFrame) simp_all
  ultimately show ?thesis using e(1) by simp
qed

text \<open>A request is read as it was written.\<close>

lemma chunk_request_read:
  "ReadFrame (AppendChunkRequest [] item index @ rest) request_limits =
     (Inr (\<lparr>h_Type = TypeChunkRequest, h_PayloadLen = 8\<rparr>, put32 item @ put32 index), rest)"
  using ReadFrame_AppendFrame [of request_limits TypeChunkRequest 8 "put32 item @ put32 index" rest]
  by (simp add: AppendChunkRequest_def request_limits_def message_types message_lengths)

lemma ParseChunkRequest_put: "ParseChunkRequest (put32 item @ put32 index) = Inr (item, index)"
  by (simp add: ParseChunkRequest_def ChunkRequestLen_def slice_def)

lemma serve_chunk_request:
  "serve_request sha w look pick s (AppendChunkRequest [] item index @ rest) =
     (case chunk sha w s item index of
        None \<Rightarrow> (Waits, s, AppendChunkRequest [] item index @ rest)
      | Some (out, s') \<Rightarrow> (Answer out, s', rest))"
  by (simp add: serve_request_def chunk_request_read ParseChunkRequest_put message_types split: option.split)

section \<open>A chunk goes across\<close>

text \<open>What the code asks of a source: a read that succeeds gives all the bytes (\<^verbatim>\<open>io.ReaderAt\<close>).\<close>

definition full_reads :: "(source \<Rightarrow> bool) \<Rightarrow> (nat \<Rightarrow> nat \<Rightarrow> bytes option) option \<Rightarrow> bool" where
  "full_reads W src \<longleftrightarrow>
     (\<forall>w i n off d. W w \<longrightarrow> so_read w i n off = Some d \<longrightarrow> length d = n) \<and>
     (\<forall>f n off d. src = Some f \<longrightarrow> f n off = Some d \<longrightarrow> length d = n)"

lemma full_read: "full_reads W (sd_src s) \<Longrightarrow> W w \<Longrightarrow> read_at w s i n off = Some d \<Longrightarrow> length d = n"
  by (auto simp: full_reads_def read_at_def split: option.splits)

text \<open>C3. A receiver asks for a chunk, a sender answers, over any source: the receiver takes either
  an error, which ends the item, or that very chunk with data whose SHA-256 is the one it came
  with, so that it is written and not asked again. No answer of a sender is dropped as
  malformed, out of order or too large.\<close>

theorem chunk_goes_across:
  assumes "starts uni off s0" "(sender_step (e_sha e) W)\<^sup>*\<^sup>* (s0, NotHashing) (s, h)" "full_reads W (sd_src s0)" "\<And>k. W (w k)"
    and "\<And>x. length (e_sha e x) = 32" "unat item = t_item t" "unat index = t_index t" "t_index t \<noteq> digest_index"
    and "serve_request (e_sha e) w look pick s (AppendChunkRequest [] item index @ rest) = (Answer out, s', rest')"
  shows "rest' = rest \<and> (\<exists>hr p. ReadFrame (out @ tail) (answer_limits (o_ChunkSize off)) = (Inr (hr, p), tail) \<and>
    ((\<exists>code. take_answer e now full ru t (h_Type hr) p =
        Some (endItem e now ru (t_item t) ItemFailed (Some (RChunkErr code)), None)) \<or>
     (\<exists>data. take_answer e now full ru t (h_Type hr) p = Some (ru, Some (t, data, e_sha e data)) \<and>
        length data = chunk_len off (t_item t) (t_index t) \<and>
        writer_takes e now full ru (t, data, e_sha e data) = write_locked e now full ru t data (e_sha e data))))"
proof -
  have acc: "accepted off" and start: "sender_inv (\<lambda>_ _ _. True) off (sd_src s0) (s0, NotHashing)"
    using starts_inv [OF assms(1)] by blast+
  have inv: "sender_inv (\<lambda>_ _ _. True) off (sd_src s0) (s, h)"
    using sender_run_inv [OF assms(2) start acc] by (simp add: reads_good_def)
  note D = sender_invD [OF inv]
  have c: "chunk (e_sha e) w s item index = Some (out, s')" "rest' = rest"
    using assms(9) by (auto simp: serve_chunk_request split: option.splits)
  consider (err) code where "out = append_msg [] (ChunkError item index code)"
    | (data) data where "out = append_msg [] (ChunkData item index (e_sha e data) data)"
       "length data = chunk_len off (t_item t) (t_index t)" "t_item t < length (o_Items off)"
    using chunk_cases [OF c(1) D(1,3) acc] full_read [of W s, OF _ assms(4)] assms(3,6,7) D(2) by fastforce
  then show ?thesis
  proof cases
    case (err code)
    obtain hr p where r: "ReadFrame (out @ tail) (answer_limits (o_ChunkSize off)) = (Inr (hr, p), tail)"
      "h_Type hr = TypeChunkError" "parse_msg TypeChunkError p = Inr (ChunkError item index code)"
      using answer_read [of "ChunkError item index code" "o_ChunkSize off" 10 tail] err by (auto simp: answer_limit)
    then have "ParseChunkError p = Inr (item, index, code)"
      by (auto simp: parse_msg_def message_types map_sum_Inr)
    then show ?thesis using r c(2) by (auto simp: take_answer_def Let_def)
  next
    case (data data)
    have len: "length data \<le> chunk_size off" using data(2) by (simp add: chunk_len_def)
    have cs: "chunk_size off \<le> 2 ^ 23" using accepted_nth [OF acc data(3)] chunk_size_bounds(2) by blast
    then have mx: "unat (44 + o_ChunkSize off) = 44 + chunk_size off" by (subst unat_add_lem [THEN iffD1]) simp_all
    obtain hr p where r: "ReadFrame (out @ tail) (answer_limits (o_ChunkSize off)) = (Inr (hr, p), tail)"
      "h_Type hr = TypeChunkData" "parse_msg TypeChunkData p = Inr (ChunkData item index (e_sha e data) data)"
      using answer_read [of "ChunkData item index (e_sha e data) data" "o_ChunkSize off" "44 + o_ChunkSize off" tail]
        data(1) len cs assms(5) by (auto simp: answer_limit mx)
    then have "ParseChunkData p = Inr (item, index, e_sha e data, data)"
      by (auto simp: parse_msg_def message_types map_sum_Inr)
    then have "take_answer e now full ru t (h_Type hr) p = Some (ru, Some (t, data, e_sha e data))"
      using r(2) assms(6-8) by (simp add: take_answer_def Let_def message_types)
    then show ?thesis using r(1) data(2) c(2) by (auto simp: writer_takes_def)
  qed
qed

definition ex_task :: task where
  "ex_task = \<lparr>t_item = 0, t_index = 1, t_gen = 0\<rparr>"

theorem chunk_goes_across_witness:
  "\<exists>out s' hr p. serve_request (e_sha ex_env) (\<lambda>_. ex_world) (\<lambda>_ s. s) False ex_sender (AppendChunkRequest [] 0 1) = (Answer out, s', []) \<and>
     ReadFrame out (answer_limits 0x40000) = (Inr (hr, p), [])"
proof -
  obtain out s' where c: "chunk (e_sha ex_env) (\<lambda>_. ex_world) ex_sender 0 1 = Some (out, s')" using ex_chunk by metis
  have sv: "serve_request (e_sha ex_env) (\<lambda>_. ex_world) (\<lambda>_ s. s) False ex_sender (AppendChunkRequest [] 0 1 @ []) = (Answer out, s', [])"
    unfolding serve_chunk_request by (simp add: c)
  have st: "starts id ex_bench ex_sender" using ex_sender_new by (auto simp: starts_def)
  have full: "full_reads (\<lambda>w. w = ex_world) (sd_src ex_sender)"
    by (auto simp: full_reads_def ex_sender_fields ex_world_def ZeroSource_def)
  have "\<exists>hr p. ReadFrame (out @ []) (answer_limits (o_ChunkSize ex_bench)) = (Inr (hr, p), [])"
    using chunk_goes_across [OF st rtranclp.rtrancl_refl full _ _ _ _ _ sv, of ex_task "[]" 0 False undefined]
    by (auto simp: ex_env_def ex_task_def digest_index_def)
  then show ?thesis using sv by (simp add: ex_bench_def BenchOffer_def)
qed

section \<open>A file goes across\<close>

text \<open>The receiver's chunks are those of the offer.\<close>

lemma file_chunks:
  assumes "p_Size (f_p f) = it_Size (o_Items off ! i)" "p_ChunkSize (f_p f) = o_ChunkSize off"
  shows "param_chunks (f_p f) = Chunks (it_Size (o_Items off ! i)) (o_ChunkSize off)"
    "k * chunk_size off \<le> item_size off i \<Longrightarrow> chunkLen f k = chunk_len off i k" "csize f = chunk_size off"
proof -
  show "param_chunks (f_p f) = Chunks (it_Size (o_Items off ! i)) (o_ChunkSize off)" "csize f = chunk_size off"
    using assms by (simp_all add: param_chunks_def Chunks_def)
  assume "k * chunk_size off \<le> item_size off i"
  then show "chunkLen f k = chunk_len off i k"
    unfolding chunkLen_def chunk_len_def assms by linarith
qed

text \<open>Contents whose chunks are those of \<open>c\<close> are \<open>c\<close>.\<close>

lemma chunks_make_contents:
  assumes "0 < cs" "sz \<le> n * cs"
    and "\<And>k. k < n \<Longrightarrow> k * cs \<le> sz \<Longrightarrow> k * cs + min cs (sz - k * cs) \<le> length d \<and>
      slice (k * cs) (min cs (sz - k * cs)) d = map c [k * cs..<k * cs + min cs (sz - k * cs)]"
  shows "sz \<le> length d \<and> take sz d = map c [0..<sz]"
proof -
  have at: "j < length d \<and> d ! j = c j" if j: "j < sz" for j
  proof -
    let ?k = "j div cs" and ?r = "j mod cs"
    have jk: "j = ?k * cs + ?r" by simp
    have le: "?k * cs \<le> j" by (simp add: div_times_less_eq_dividend)
    have "?k < n" using j assms(1,2) by (metis div_less_iff_less_mult order_less_le_trans)
    moreover have "?k * cs \<le> sz" using le j by linarith
    ultimately have K: "?k * cs + min cs (sz - ?k * cs) \<le> length d"
      "slice (?k * cs) (min cs (sz - ?k * cs)) d = map c [?k * cs..<?k * cs + min cs (sz - ?k * cs)]"
      using assms(3) by blast+
    have r: "?r < min cs (sz - ?k * cs)" using assms(1) j jk mod_less_divisor [OF assms(1), of j] by linarith
    have "slice (?k * cs) (min cs (sz - ?k * cs)) d ! ?r = c j"
    proof -
      have "[?k * cs..<?k * cs + min cs (sz - ?k * cs)] ! ?r = ?k * cs + ?r"
        by (rule nth_upt) (use r in linarith)
      then show ?thesis unfolding K(2) using r jk by (subst nth_map) (simp_all only: length_upt diff_add_inverse)
    qed
    moreover have "slice (?k * cs) (min cs (sz - ?k * cs)) d ! ?r = d ! j"
      using r K(1) jk by (simp add: slice_def)
    moreover have "j < length d" using K(1) r jk by linarith
    ultimately show ?thesis by simp
  qed
  have len: "sz \<le> length d"
  proof (cases sz)
    case (Suc j)
    then show ?thesis using at [of j] by simp
  qed simp
  then show ?thesis using at by (auto intro: nth_equalityI)
qed

text \<open>C1. A file the receiver has put under its name (\<open>published\<close>), after its check of the digest
  (\<^verbatim>\<open>verified\<close>: the digest of its own chunk hashes is the one the sender answered with, as read
  from the wire), holds exactly the bytes of the sender's file, synced, or there is a collision
  of SHA-256 at hand: of the two inputs of the digest, or of two chunks.\<close>

theorem received_file_is_the_sent_file:
  assumes "starts uni off s0" "steady_src c off (sd_src s0)" "(sender_step sha (steady c off))\<^sup>*\<^sup>* (s0, NotHashing) (s, h)"
    and "\<And>k. steady c off (w k)" "\<And>k u. \<exists>h'. (sender_step sha (steady c off))\<^sup>*\<^sup>* (u, h) (look k u, h')"
    and "unat item < length (o_Items off)" "digest sha w look pick s item = Some (out, t)"
    and "ReadFrame (out @ tail) limits = (Inr (hr, p), tail')" "ParseDigest p = Inr (it, d)"
    and "Hashes f = Inr hs" "FileDigest sha hs = d" "published sha f disk" "shape_ok f"
    and "p_Size (f_p f) = it_Size (o_Items off ! unat item)" "p_ChunkSize (f_p f) = o_ChunkSize off"
    and "\<And>x. length (sha x) = 32" "chunk_count (it_Size (o_Items off ! unat item)) (o_ChunkSize off) < 2 ^ 32"
  shows "it = item \<and> (\<exists>nd. os_files disk (f_name f) = Some nd \<and> fn_sync nd = fn_data nd \<and>
    (let sent = map (\<lambda>k. sha (chunk_data c off (unat item) k)) [0..<f_n f] in
      take (item_size off (unat item)) (fn_data nd) = map (c (unat item)) [0..<item_size off (unat item)] \<or>
      filedigest_input hs \<noteq> filedigest_input sent \<and> sha (filedigest_input hs) = sha (filedigest_input sent) \<or>
      (\<exists>k<f_n f. slice (chunk_off f k) (chunkLen f k) (fn_data nd) \<noteq> chunk_data c off (unat item) k \<and>
         sha (slice (chunk_off f k) (chunkLen f k) (fn_data nd)) = sha (chunk_data c off (unat item) k))))"
proof -
  let ?i = "unat item" and ?g = "\<lambda>k. sha (chunk_data c off (unat item) k)"
  have acc: "accepted off" using starts_inv [OF assms(1)] by blast
  note A = accepted_nth [OF acc assms(6)]
  note F = file_chunks [OF assms(14,15)]
  have n: "f_n f = unat (Chunks (it_Size (o_Items off ! ?i)) (o_ChunkSize off))"
    using assms(13) F(1) by (simp add: shape_ok_def)
  have out: "out = AppendFrame [] TypeDigest (put32 item @ FileDigest sha (map ?g [0..<f_n f]))"
    using digest_answer [OF assms(1-7)] by (simp add: n AppendDigest_def)
  have "length (put32 item @ FileDigest sha (map ?g [0..<f_n f])) \<le> unat (-1 :: 32 word)"
    using assms(16) by (simp add: FileDigest_def unsigned_minus_1_eq_mask mask_eq_exp_minus_1)
  from ReadFrame_twice [OF assms(8) [unfolded out] this] have p: "p = put32 item @ FileDigest sha (map ?g [0..<f_n f])" .
  then have d: "it = item" "d = FileDigest sha (map ?g [0..<f_n f])"
    using assms(9) assms(16) by (auto simp: ParseDigest_def DigestLen_def FileDigest_def split: if_splits)
  obtain nd where nd: "os_files disk (f_name f) = Some nd" "fn_sync nd = fn_data nd"
    "\<And>k. k < f_n f \<Longrightarrow> on_disk sha f (fn_data nd) k (f_hashes f ! k)"
    using assms(12) by (auto simp: published_def)
  have hs: "hs = f_hashes f" using assms(10) by (simp add: Hashes_def split: if_splits)
  have hl: "length hs = f_n f" using assms(13) hs by (simp add: shape_ok_def)
  have h32: "\<forall>x \<in> set hs. length x = 32"
  proof -
    have "length (f_hashes f ! k) = 32" if "k < f_n f" for k using nd(3) [OF that] assms(16) unfolding on_disk_def by metis
    then show ?thesis using hl unfolding hs by (auto simp: in_set_conv_nth)
  qed
  have eq: "sha (filedigest_input hs) = sha (filedigest_input (map ?g [0..<f_n f]))"
    using d(2) assms(11) by (simp add: FileDigest_def)
  show ?thesis
  proof (cases "filedigest_input hs = filedigest_input (map ?g [0..<f_n f])")
    case True
    then have fh: "f_hashes f = map ?g [0..<f_n f]"
      unfolding hs [symmetric] using h32 assms(16) by (intro filedigest_input_inject) simp_all
    have chunk: "sha (slice (chunk_off f k) (chunkLen f k) (fn_data nd)) = ?g k"
      "chunk_off f k + chunkLen f k \<le> length (fn_data nd)" if "k < f_n f" for k
      using nd(3) [OF that] that unfolding fh by (simp_all add: on_disk_def)
    have same: "take (item_size off ?i) (fn_data nd) = map (c ?i) [0..<item_size off ?i]"
      if all: "\<And>k. k < f_n f \<Longrightarrow> slice (chunk_off f k) (chunkLen f k) (fn_data nd) = chunk_data c off ?i k"
    proof -
      have cs: "0 < chunk_size off" using chunk_size_bounds(1) [OF A(2,3)] by simp
      have "k * chunk_size off + min (chunk_size off) (item_size off ?i - k * chunk_size off) \<le> length (fn_data nd) \<and>
          slice (k * chunk_size off) (min (chunk_size off) (item_size off ?i - k * chunk_size off)) (fn_data nd) =
          map (c ?i) [k * chunk_size off..<k * chunk_size off + min (chunk_size off) (item_size off ?i - k * chunk_size off)]"
        if k: "k < f_n f" "k * chunk_size off \<le> item_size off ?i" for k
        using chunk(2) [OF k(1)] all [OF k(1)] F(2) [OF k(2)] F(3) by (simp add: chunk_len_def chunk_data_def)
      from chunks_make_contents [OF cs chunks_cover [OF acc assms(6,17), folded n] this]
      show ?thesis by blast
    qed
    show ?thesis using d(1) nd(1,2) same chunk(1) by (auto simp: Let_def)
  qed (use d(1) nd(1,2) eq in \<open>auto simp: Let_def\<close>)
qed

definition ex_zeros :: sfile where
  "ex_zeros = (new_file ''b'' (ex_params\<lparr>p_Size := 300000, p_ChunkSize := 0x40000\<rparr>) 0)
     \<lparr>f_have := [True, True], f_hashes := [replicate 32 0, replicate 32 0]\<rparr>"

definition ex_got :: os where
  "ex_got = ex_os\<lparr>os_files := [''b'' \<mapsto> \<lparr>fn_data = replicate 300000 0, fn_sync = replicate 300000 0\<rparr>]\<rparr>"

lemma ex_sha_zeros: "ex_sha (replicate n 0) = replicate 32 0"
  by (cases n) (simp_all add: ex_sha_def)

lemma ex_zeros_fields: "f_n ex_zeros = 2" "f_name ex_zeros = ''b''" "f_have ex_zeros = [True, True]"
  "f_hashes ex_zeros = [replicate 32 0, replicate 32 0]" "p_Size (f_p ex_zeros) = 300000"
  "p_ChunkSize (f_p ex_zeros) = 0x40000" "length (p_Key (f_p ex_zeros)) = 32"
  by (simp_all add: ex_zeros_def new_file_def reset_chunks_def ex_params_def param_chunks_def wrap64_def signed_divide_int_def)

lemma less_two: "k < 2 \<longleftrightarrow> k = 0 \<or> k = (1 :: nat)"
  by auto

lemma ex_zeros_shape: "shape_ok ex_zeros"
  by (simp add: shape_ok_def ex_zeros_fields less_two chunkLen_def all_conj_distrib)
    (simp add: param_chunks_def ex_zeros_fields wrap64_def signed_divide_int_def)

lemma ex_zeros_published: "published ex_sha ex_zeros ex_got"
  by (simp add: published_def ex_got_def ex_zeros_fields less_two on_disk_def Has_def chunkLen_def slice_def
      ex_sha_zeros all_conj_distrib)

theorem received_file_is_the_sent_file_witness:
  "\<exists>out t. digest ex_sha (\<lambda>_. ex_world) (\<lambda>_ s. s) False ex_sender 0 = Some (out, t) \<and>
     (\<exists>nd. os_files ex_got ''b'' = Some nd \<and> fn_sync nd = fn_data nd)"
proof -
  obtain out t where d: "digest ex_sha (\<lambda>_. ex_world) (\<lambda>_ s. s) False ex_sender 0 = Some (out, t)"
    using ex_digest by (metis option.exhaust prod.exhaust)
  have st: "starts id ex_bench ex_sender" using ex_sender_new by (auto simp: starts_def)
  have src: "steady_src (\<lambda>_ _. 0) ex_bench (sd_src ex_sender)"
    by (simp add: steady_src_def ex_sender_fields zero_source.reader_at_axioms)
  have n: "length (o_Items ex_bench) = 1" "it_Size (o_Items ex_bench ! 0) = 300000" "o_ChunkSize ex_bench = 0x40000"
    "unat (Chunks 300000 0x40000) = 2"
    by (simp_all add: ex_bench_def BenchOffer_def Chunks_def wrap64_def signed_divide_int_def)
  have "out = AppendDigest [] 0 (FileDigest ex_sha (map (\<lambda>k. ex_sha (chunk_data (\<lambda>_ _. 0) ex_bench 0 k)) [0..<2]))"
    using digest_answer [OF st src rtranclp.rtrancl_refl ex_world_steady _ _ d] n by auto
  then have out: "out = AppendFrame [] TypeDigest (put32 0 @ FileDigest ex_sha [replicate 32 0, replicate 32 0])"
    by (simp add: chunk_data_def map_replicate_const ex_sha_zeros AppendDigest_def upt_rec)
  have l32: "length (ex_sha x) = 32" for x by (simp add: ex_sha_def)
  let ?p = "put32 0 @ FileDigest ex_sha [replicate 32 0, replicate 32 0]"
  have rd: "ReadFrame (out @ []) (answer_limits 0x40000) = (Inr (\<lparr>h_Type = TypeDigest, h_PayloadLen = of_nat (length ?p)\<rparr>, ?p), [])"
    unfolding out by (rule ReadFrame_AppendFrame [where mx = 36]) (simp_all add: answer_limit FileDigest_def l32)
  have pd: "ParseDigest ?p = Inr (0, FileDigest ex_sha [replicate 32 0, replicate 32 0])"
    by (simp add: ParseDigest_def DigestLen_def FileDigest_def l32)
  have hs: "Hashes ex_zeros = Inr [replicate 32 0, replicate 32 0]" by (simp add: Hashes_def ex_zeros_fields)
  show ?thesis
    using d received_file_is_the_sent_file [OF st src rtranclp.rtrancl_refl ex_world_steady _ _ d rd pd hs refl
        ex_zeros_published ex_zeros_shape _ _ l32]
    by (auto simp: n ex_zeros_fields chunk_count_def)
qed

end
