(* ===== verification/Hub.thy ===== *)
theory Hub
  imports SecureChan Ids
begin

text \<open>
  The device's single port (\<^verbatim>\<open>pkg/transfer/hub.go\<close>): every secure connection goes, by its first
  frame, to the control listener or to the transfer it names. Listeners are shared between the
  hub and their users, and compared by identity: they are kept in a list, and named by their
  place in it. What one call does under different locks is separate steps.
\<close>

section \<open>Data\<close>

definition DefaultJoinTimeout :: int where "DefaultJoinTimeout = 5 * second"

definition queueLen :: nat where "queueLen = 32"

definition firstFrame :: limits where
  "firstFrame = [TypeControl \<mapsto> MaxControl, TypeDataJoin \<mapsto> DataJoinLen]"

text \<open>A connection, and the bytes it has yet to give.\<close>

type_synonym stream = "conn \<times> bytes"

record listener =
  ln_id :: ID
  ln_peer :: fingerprint
  ln_control :: bool
  ln_queue :: "stream list"
  ln_closed :: bool
  ln_done :: bool

record hub =
  hb_cfg :: chan_config
  hb_JoinTimeout :: int
  hb_control :: "nat option"
  hb_transfers :: "ID \<rightharpoonup> nat"
  hb_listeners :: "listener list"

definition NewHub :: "chan_config \<Rightarrow> hub" where
  "NewHub cfg = \<lparr>hb_cfg = cfg, hb_JoinTimeout = 0, hb_control = None, hb_transfers = Map.empty, hb_listeners = []\<rparr>"

definition newListener :: "ID \<Rightarrow> fingerprint \<Rightarrow> listener" where
  "newListener i peer = \<lparr>ln_id = i, ln_peer = peer, ln_control = IsZero i, ln_queue = [], ln_closed = False, ln_done = False\<rparr>"

definition set_listener :: "nat \<Rightarrow> (listener \<Rightarrow> listener) \<Rightarrow> hub \<Rightarrow> hub" where
  "set_listener l f hb = hb\<lparr>hb_listeners := (hb_listeners hb)[l := f (hb_listeners hb ! l)]\<rparr>"

definition KnownPeer :: "hub \<Rightarrow> fingerprint \<Rightarrow> bool" where
  "KnownPeer hb fp \<longleftrightarrow> (\<exists>l \<in> ran (hb_transfers hb). ln_peer (hb_listeners hb ! l) = fp)"

definition hub_config :: "hub \<Rightarrow> chan_config" where
  "hub_config hb = (hb_cfg hb)\<lparr>cf_Known := Some (\<lambda>fp. KnownPeer hb fp \<or>
     (case cf_Known (hb_cfg hb) of None \<Rightarrow> False | Some outer \<Rightarrow> outer fp))\<rparr>"

section \<open>Listeners\<close>

text \<open>\<^verbatim>\<open>Control\<close> returns the control listener it replaces, which is then closed.\<close>

definition Control :: "hub \<Rightarrow> nat \<times> nat option \<times> hub" where
  "Control hb =
     (let l = length (hb_listeners hb)
      in (l, hb_control hb,
          hb\<lparr>hb_control := Some l, hb_listeners := hb_listeners hb @ [newListener (replicate idLen 0) (replicate 32 0)]\<rparr>))"

definition Register :: "ID \<Rightarrow> fingerprint \<Rightarrow> hub \<Rightarrow> (unit + nat) \<times> hub" where
  "Register i peer hb =
     (if hb_transfers hb i \<noteq> None then (Inl (), hb)
      else
        let l = length (hb_listeners hb)
        in (Inr l, hb\<lparr>hb_transfers := (hb_transfers hb)(i \<mapsto> l), hb_listeners := hb_listeners hb @ [newListener i peer]\<rparr>))"

definition remove_listener :: "nat \<Rightarrow> hub \<Rightarrow> hub" where
  "remove_listener l hb =
     (let x = hb_listeners hb ! l in
      if ln_control x then (if hb_control hb = Some l then hb\<lparr>hb_control := None\<rparr> else hb)
      else if hb_transfers hb (ln_id x) = Some l then hb\<lparr>hb_transfers := (hb_transfers hb)(ln_id x := None)\<rparr>
      else hb)"

text \<open>The three parts of \<^verbatim>\<open>Close\<close>: closed under the listener's lock (false when it was already),
  unregistered, and ended, with what waits closed.\<close>

definition close_mark :: "nat \<Rightarrow> hub \<Rightarrow> bool \<times> hub" where
  "close_mark l hb =
     (if ln_closed (hb_listeners hb ! l) then (False, hb) else (True, set_listener l (\<lambda>x. x\<lparr>ln_closed := True\<rparr>) hb))"

definition close_end :: "nat \<Rightarrow> hub \<Rightarrow> stream list \<times> hub" where
  "close_end l hb = (ln_queue (hb_listeners hb ! l), set_listener l (\<lambda>x. x\<lparr>ln_done := True, ln_queue := []\<rparr>) hb)"

definition CloseListener :: "nat \<Rightarrow> hub \<Rightarrow> stream list \<times> hub" where
  "CloseListener l hb =
     (case close_mark l hb of (False, hb1) \<Rightarrow> ([], hb1) | (True, hb1) \<Rightarrow> close_end l (remove_listener l hb1))"

text \<open>\<^verbatim>\<open>Accept\<close>: when the listener has ended and connections wait, the code's \<^verbatim>\<open>select\<close> may take
  either: \<open>ended\<close> says which. \<open>None\<close>: it waits.\<close>

definition AcceptConn :: "bool \<Rightarrow> nat \<Rightarrow> hub \<Rightarrow> (unit + stream) option \<times> hub" where
  "AcceptConn ended l hb =
     (let x = hb_listeners hb ! l in
      if ln_done x \<and> (ended \<or> ln_queue x = []) then (Some (Inl ()), hb)
      else case ln_queue x of
             [] \<Rightarrow> (None, hb)
           | c # cs \<Rightarrow> (Some (Inr c), set_listener l (\<lambda>x. x\<lparr>ln_queue := cs\<rparr>) hb))"

text \<open>\<open>deliver\<close>: whether the connection was kept.\<close>

definition deliver :: "nat \<Rightarrow> stream \<Rightarrow> hub \<Rightarrow> bool \<times> hub" where
  "deliver l c hb =
     (let x = hb_listeners hb ! l in
      if ln_closed x then (False, hb)
      else if length (ln_queue x) < queueLen then (True, set_listener l (\<lambda>x. x\<lparr>ln_queue := ln_queue x @ [c]\<rparr>) hb)
      else (False, hb))"

section \<open>The first frame\<close>

text \<open>Reading from a connection counts the bytes while it is not authenticated; the first frame is
  far below \<^const>\<open>UnauthReadLimit\<close>.\<close>

definition took :: "bytes \<Rightarrow> bytes \<Rightarrow> conn \<Rightarrow> conn" where
  "took before after c =
     (if cn_state c = Unauth then c\<lparr>cn_unauthRead := cn_unauthRead c + (length before - length after)\<rparr> else c)"

datatype route = Closed | ToControl nat stream | ToTransfer nat stream

text \<open>\<^verbatim>\<open>handle\<close> once the connection is secure, up to the delivery.\<close>

definition join_deadline :: "hub \<Rightarrow> int \<Rightarrow> conn \<Rightarrow> conn" where
  "join_deadline hb now c =
     (if cn_state c = Auth
      then SetReadDeadline (Some (now + (if hb_JoinTimeout hb \<le> 0 then DefaultJoinTimeout else hb_JoinTimeout hb))) c
      else c)"

definition route_data :: "hub \<Rightarrow> header \<Rightarrow> conn \<Rightarrow> bytes \<Rightarrow> route" where
  "route_data hb h c r =
     (if h_PayloadLen h \<noteq> DataJoinLen then Closed
      else case ReadFull (unat DataJoinLen) r of
             (Inl _, _) \<Rightarrow> Closed
           | (Inr i, r') \<Rightarrow>
               (case hb_transfers hb i of
                  None \<Rightarrow> Closed
                | Some l \<Rightarrow>
                    if cn_peer c \<noteq> ln_peer (hb_listeners hb ! l) then Closed
                    else ToTransfer l (SetReadDeadline None (took r r' c), r')))"

definition route_conn :: "hub \<Rightarrow> int \<Rightarrow> conn \<Rightarrow> bytes \<Rightarrow> route" where
  "route_conn hb now c0 r0 =
     (let c1 = join_deadline hb now c0 in
      case ReadFrameHeader r0 firstFrame of
        (Inl _, _) \<Rightarrow> Closed
      | (Inr h, r) \<Rightarrow>
          (let c = took r0 r c1 in
           if h_Type h = TypeControl
           then (case hb_control hb of
                   None \<Rightarrow> Closed
                 | Some l \<Rightarrow> ToControl l (Unread (EncodeHeader h) (if cn_state c = Auth then SetReadDeadline None c else c), r))
           else if h_Type h = TypeDataJoin then route_data hb h c r
           else Closed))"

definition handle :: "hub \<Rightarrow> int \<Rightarrow> conn \<Rightarrow> bytes \<Rightarrow> bool \<times> hub" where
  "handle hb now c r =
     (case route_conn hb now c r of
        Closed \<Rightarrow> (False, hb)
      | ToControl l x \<Rightarrow> deliver l x hb
      | ToTransfer l x \<Rightarrow> deliver l x hb)"

text \<open>The other side: \<^verbatim>\<open>JoinFunc\<close>, once its channel is made, writes this.\<close>

definition join_frame :: "ID \<Rightarrow> bytes" where
  "join_frame i = WriteFrame [] TypeDataJoin i"

section \<open>The hub at work\<close>

text \<open>The state: the hub, the connections routed and not delivered yet, and those taken from a
  listener, with the listener. The handshake used the configuration of some earlier moment: any
  connection may come.\<close>

record hub_sys =
  hs_hub :: hub
  hs_routed :: "(nat \<times> stream) list"
  hs_taken :: "(nat \<times> stream) list"

inductive hub_step :: "hub_sys \<Rightarrow> hub_sys \<Rightarrow> bool" where
  controls: "Control (hs_hub s) = (l, old, hb) \<Longrightarrow> hub_step s (s\<lparr>hs_hub := hb\<rparr>)"
| registers: "\<not> IsZero i \<Longrightarrow> Register i peer (hs_hub s) = (r, hb) \<Longrightarrow> hub_step s (s\<lparr>hs_hub := hb\<rparr>)"
| routes_control: "route_conn (hs_hub s) now c r = ToControl l x \<Longrightarrow>
    hub_step s (s\<lparr>hs_routed := (l, x) # hs_routed s\<rparr>)"
| routes_data: "route_conn (hs_hub s) now c r = ToTransfer l x \<Longrightarrow>
    hub_step s (s\<lparr>hs_routed := (l, x) # hs_routed s\<rparr>)"
| delivers: "(l, x) \<in> set (hs_routed s) \<Longrightarrow> deliver l x (hs_hub s) = (b, hb) \<Longrightarrow>
    hub_step s (s\<lparr>hs_hub := hb, hs_routed := remove1 (l, x) (hs_routed s)\<rparr>)"
| accepts: "l < length (hb_listeners (hs_hub s)) \<Longrightarrow> AcceptConn e l (hs_hub s) = (Some (Inr x), hb) \<Longrightarrow>
    hub_step s (s\<lparr>hs_hub := hb, hs_taken := (l, x) # hs_taken s\<rparr>)"
| marks: "l < length (hb_listeners (hs_hub s)) \<Longrightarrow> close_mark l (hs_hub s) = (b, hb) \<Longrightarrow> hub_step s (s\<lparr>hs_hub := hb\<rparr>)"
| removes: "l < length (hb_listeners (hs_hub s)) \<Longrightarrow> ln_closed (hb_listeners (hs_hub s) ! l) \<Longrightarrow>
    hub_step s (s\<lparr>hs_hub := remove_listener l (hs_hub s)\<rparr>)"
| ends: "l < length (hb_listeners (hs_hub s)) \<Longrightarrow> ln_closed (hb_listeners (hs_hub s) ! l) \<Longrightarrow>
    hb_transfers (hs_hub s) (ln_id (hb_listeners (hs_hub s) ! l)) \<noteq> Some l \<Longrightarrow> close_end l (hs_hub s) = (cs, hb) \<Longrightarrow>
    hub_step s (s\<lparr>hs_hub := hb\<rparr>)"

section \<open>What holds of the hub\<close>

definition fits :: "listener \<Rightarrow> stream \<Rightarrow> bool" where
  "fits x c \<longleftrightarrow> ln_control x \<or> cn_peer (fst c) = ln_peer x"

definition listener_ok :: "hub \<Rightarrow> nat \<Rightarrow> bool" where
  "listener_ok hb l \<longleftrightarrow>
     (let x = hb_listeners hb ! l in
      (\<forall>c \<in> set (ln_queue x). fits x c) \<and> length (ln_queue x) \<le> queueLen \<and> ln_control x = IsZero (ln_id x) \<and>
      (ln_done x \<longrightarrow> ln_closed x \<and> ln_queue x = [] \<and> hb_transfers hb (ln_id x) \<noteq> Some l))"

definition hub_inv :: "hub_sys \<Rightarrow> bool" where
  "hub_inv s \<longleftrightarrow>
     (let hb = hs_hub s; n = length (hb_listeners hb) in
      (\<forall>l<n. listener_ok hb l) \<and>
      (\<forall>l. hb_control hb = Some l \<longrightarrow> l < n \<and> ln_control (hb_listeners hb ! l)) \<and>
      (\<forall>i l. hb_transfers hb i = Some l \<longrightarrow> l < n \<and> ln_id (hb_listeners hb ! l) = i \<and> \<not> IsZero i) \<and>
      (\<forall>p \<in> set (hs_routed s) \<union> set (hs_taken s). fst p < n \<and> fits (hb_listeners hb ! fst p) (snd p)))"

lemma hub_invD:
  assumes "hub_inv s"
  shows "l < length (hb_listeners (hs_hub s)) \<Longrightarrow> listener_ok (hs_hub s) l"
    "hb_control (hs_hub s) = Some l \<Longrightarrow> l < length (hb_listeners (hs_hub s)) \<and> ln_control (hb_listeners (hs_hub s) ! l)"
    "hb_transfers (hs_hub s) i = Some l \<Longrightarrow>
       l < length (hb_listeners (hs_hub s)) \<and> ln_id (hb_listeners (hs_hub s) ! l) = i \<and> \<not> IsZero i"
    "p \<in> set (hs_routed s) \<union> set (hs_taken s) \<Longrightarrow>
       fst p < length (hb_listeners (hs_hub s)) \<and> fits (hb_listeners (hs_hub s) ! fst p) (snd p)"
  using assms unfolding hub_inv_def Let_def by blast+

text \<open>A change of one listener that keeps its name and its use.\<close>

lemma set_listener_inv:
  assumes inv: "hub_inv s" and l: "l < length (hb_listeners (hs_hub s))"
    and x: "ln_id (f x) = ln_id x" "ln_peer (f x) = ln_peer x" "ln_control (f x) = ln_control x"
    and ok: "\<forall>c \<in> set (ln_queue (f x)). fits x c" "length (ln_queue (f x)) \<le> queueLen"
      "ln_done (f x) \<longrightarrow> ln_closed (f x) \<and> ln_queue (f x) = [] \<and> hb_transfers (hs_hub s) (ln_id x) \<noteq> Some l"
    and sub: "set rt \<union> set tk \<subseteq> set (hs_routed s) \<union> set (hs_taken s) \<union> Pair l ` set (ln_queue x)"
    and xl: "x = hb_listeners (hs_hub s) ! l"
  shows "hub_inv (s\<lparr>hs_hub := set_listener l f (hs_hub s), hs_routed := rt, hs_taken := tk\<rparr>)"
proof -
  let ?hb = "hs_hub s" and ?hb' = "set_listener l f (hs_hub s)"
  have nth: "hb_listeners ?hb' ! k = (if k = l then f x else hb_listeners ?hb ! k)" for k
    using l by (simp add: set_listener_def xl)
  have fields: "hb_control ?hb' = hb_control ?hb" "hb_transfers ?hb' = hb_transfers ?hb"
    "length (hb_listeners ?hb') = length (hb_listeners ?hb)"
    by (simp_all add: set_listener_def)
  have fits: "fits (hb_listeners ?hb' ! k) c = fits (hb_listeners ?hb ! k) c" for k c
    using x by (simp add: nth fits_def xl)
  have lok: "listener_ok ?hb' k" if "k < length (hb_listeners ?hb)" for k
    using hub_invD(1) [OF inv that] hub_invD(1) [OF inv l] ok x
    by (cases "k = l") (auto simp: listener_ok_def Let_def nth fields fits_def xl)
  have pairs: "fst p < length (hb_listeners ?hb) \<and> fits (hb_listeners ?hb ! fst p) (snd p)" if "p \<in> set rt \<union> set tk" for p
  proof (cases "p \<in> set (hs_routed s) \<union> set (hs_taken s)")
    case True
    then show ?thesis by (rule hub_invD(4) [OF inv])
  next
    case False
    then have "fst p = l" "snd p \<in> set (ln_queue x)" using that sub by auto
    then show ?thesis using hub_invD(1) [OF inv l] l xl by (auto simp: listener_ok_def Let_def)
  qed
  have "\<forall>p \<in> set rt \<union> set tk. fst p < length (hb_listeners ?hb) \<and> fits (hb_listeners ?hb' ! fst p) (snd p)"
    using pairs fits by blast
  moreover have "ln_control (hb_listeners ?hb' ! k) = ln_control (hb_listeners ?hb ! k)"
    "ln_id (hb_listeners ?hb' ! k) = ln_id (hb_listeners ?hb ! k)" for k
    using x by (simp_all add: nth xl)
  ultimately show ?thesis
    unfolding hub_inv_def Let_def using lok hub_invD(2,3) [OF inv] by (simp add: fields)
qed

text \<open>A new listener, at the end.\<close>

lemma add_listener_inv:
  assumes inv: "hub_inv s" and n: "n = length (hb_listeners (hs_hub s))"
    and hb: "hb_listeners hb = hb_listeners (hs_hub s) @ [newListener i peer]"
    and c: "hb_control hb = hb_control (hs_hub s) \<or> hb_control hb = Some n \<and> IsZero i"
    and t: "hb_transfers hb = hb_transfers (hs_hub s) \<or> hb_transfers hb = (hb_transfers (hs_hub s))(i \<mapsto> n) \<and> \<not> IsZero i"
  shows "hub_inv (s\<lparr>hs_hub := hb\<rparr>)"
proof -
  let ?old = "hb_listeners (hs_hub s)"
  have nth: "k < n \<Longrightarrow> hb_listeners hb ! k = ?old ! k" "hb_listeners hb ! n = newListener i peer" for k
    by (simp_all add: hb n nth_append)
  have len: "length (hb_listeners hb) = Suc n" by (simp add: hb n)
  have old: "listener_ok (hs_hub s) k" if "k < n" for k using hub_invD(1) [OF inv] that n by blast
  have lok: "listener_ok hb k" if "k < Suc n" for k
  proof (cases "k < n")
    case True
    then show ?thesis using old [OF True] t True by (auto simp: listener_ok_def Let_def nth(1) split: if_splits)
  next
    case False
    then have "k = n" using that by simp
    then show ?thesis by (simp add: listener_ok_def nth(2) newListener_def)
  qed
  have ctl: "k < Suc n \<and> ln_control (hb_listeners hb ! k)" if "hb_control hb = Some k" for k
  proof (cases "hb_control (hs_hub s) = Some k")
    case True
    then show ?thesis using hub_invD(2) [OF inv True] nth(1) n by auto
  next
    case False
    then show ?thesis using c that by (auto simp: nth(2) newListener_def)
  qed
  have trs: "k < Suc n \<and> ln_id (hb_listeners hb ! k) = j \<and> \<not> IsZero j" if "hb_transfers hb j = Some k" for j k
  proof (cases "hb_transfers (hs_hub s) j = Some k")
    case True
    then show ?thesis using hub_invD(3) [OF inv True] nth(1) n by auto
  next
    case False
    then have "k = n" "j = i" "\<not> IsZero i" using t that by (auto split: if_splits)
    then show ?thesis by (simp add: nth(2) newListener_def)
  qed
  have prs: "\<forall>p \<in> set (hs_routed s) \<union> set (hs_taken s). fst p < Suc n \<and> fits (hb_listeners hb ! fst p) (snd p)"
  proof
    fix p assume "p \<in> set (hs_routed s) \<union> set (hs_taken s)"
    from hub_invD(4) [OF inv this] show "fst p < Suc n \<and> fits (hb_listeners hb ! fst p) (snd p)" using nth(1) n by simp
  qed
  show ?thesis unfolding hub_inv_def Let_def using lok ctl trs prs by (simp add: len)
qed

lemma remove_inv:
  assumes inv: "hub_inv s"
  shows "hub_inv (s\<lparr>hs_hub := remove_listener l (hs_hub s)\<rparr>)"
proof -
  let ?hb = "hs_hub s" and ?hb' = "remove_listener l (hs_hub s)"
  have f: "hb_listeners ?hb' = hb_listeners ?hb"
    "hb_control ?hb' = hb_control ?hb \<or> hb_control ?hb' = None"
    "hb_transfers ?hb' j = hb_transfers ?hb j \<or> hb_transfers ?hb' j = None" for j
    by (auto simp: remove_listener_def Let_def)
  have lok: "listener_ok ?hb' k" if "k < length (hb_listeners ?hb)" for k
    using hub_invD(1) [OF inv that] f(1) f(3) [of "ln_id (hb_listeners ?hb ! k)"] by (auto simp: listener_ok_def Let_def)
  have ctl: "hb_control ?hb' = Some k \<Longrightarrow> hb_control ?hb = Some k" for k using f(2) by auto
  have trs: "hb_transfers ?hb' j = Some k \<Longrightarrow> hb_transfers ?hb j = Some k" for j k using f(3) [of j] by auto
  show ?thesis
    unfolding hub_inv_def Let_def
    using lok hub_invD(4) [OF inv] hub_invD(2) [OF inv, OF ctl] hub_invD(3) [OF inv, OF trs] by (simp add: f(1))
qed

section \<open>Where a connection goes\<close>

lemma took_peer [simp]: "cn_peer (took a b c) = cn_peer c" "cn_state (took a b c) = cn_state c"
  by (simp_all add: took_def)

lemma deadline_peer [simp]: "cn_peer (SetReadDeadline t c) = cn_peer c" "cn_peer (join_deadline hb now c) = cn_peer c"
  "cn_peer (Unread p c) = cn_peer c" "cn_state (join_deadline hb now c) = cn_state c"
  by (simp_all add: SetReadDeadline_def join_deadline_def Unread_def)

lemma route_data_cases:
  "route_data hb h c r = ToTransfer l x \<Longrightarrow>
     \<exists>i. hb_transfers hb i = Some l \<and> cn_peer c = ln_peer (hb_listeners hb ! l) \<and> cn_peer (fst x) = cn_peer c"
  "route_data hb h c r \<noteq> ToControl l x"
  by (auto simp: route_data_def split: if_splits sum.splits option.splits prod.splits)

lemma route_cases:
  "route_conn hb now c r = ToControl l x \<Longrightarrow> hb_control hb = Some l"
  "route_conn hb now c r = ToTransfer l x \<Longrightarrow>
     \<exists>i. hb_transfers hb i = Some l \<and> cn_peer c = ln_peer (hb_listeners hb ! l) \<and> cn_peer (fst x) = cn_peer c"
proof -
  assume "route_conn hb now c r = ToControl l x"
  then show "hb_control hb = Some l"
    using route_data_cases(2) by (auto simp: route_conn_def Let_def split: sum.splits prod.splits if_splits option.splits)
next
  assume a: "route_conn hb now c r = ToTransfer l x"
  then obtain h r' where "ReadFrameHeader r firstFrame = (Inr h, r')"
    "route_data hb h (took r r' (join_deadline hb now c)) r' = ToTransfer l x"
    by (auto simp: route_conn_def Let_def split: sum.splits prod.splits if_splits option.splits)
  from route_data_cases(1) [OF this(2)]
  show "\<exists>i. hb_transfers hb i = Some l \<and> cn_peer c = ln_peer (hb_listeners hb ! l) \<and> cn_peer (fst x) = cn_peer c"
    by simp
qed

lemma routed_inv:
  assumes inv: "hub_inv s" and l: "l < length (hb_listeners (hs_hub s))" "fits (hb_listeners (hs_hub s) ! l) x"
  shows "hub_inv (s\<lparr>hs_routed := (l, x) # hs_routed s\<rparr>)"
  using inv l by (auto simp: hub_inv_def Let_def)

lemma hub_step_keeps:
  assumes "hub_step s t" "hub_inv s"
  shows "hub_inv t"
  using assms
proof (induction rule: hub_step.induct)
  case (controls s l old hb)
  then show ?case
    by (intro add_listener_inv [of s _ hb "replicate idLen 0" "replicate 32 0", OF _ refl])
      (auto simp: Control_def Let_def IsZero_def)
next
  case (registers i peer s r hb)
  show ?case
  proof (cases "hb_transfers (hs_hub s) i")
    case None
    then show ?thesis using registers
      by (intro add_listener_inv [of s _ hb i peer, OF _ refl]) (auto simp: Register_def Let_def)
  next
    case (Some l)
    then have "hb = hs_hub s" using registers by (simp add: Register_def)
    then show ?thesis using registers by (cases s) simp
  qed
next
  case (routes_control s now c r l x)
  note C = hub_invD(2) [OF routes_control(2) route_cases(1) [OF routes_control(1)]]
  show ?case by (rule routed_inv [OF routes_control(2)]) (use C in \<open>auto simp: fits_def\<close>)
next
  case (routes_data s now c r l x)
  obtain i where i: "hb_transfers (hs_hub s) i = Some l" "cn_peer c = ln_peer (hb_listeners (hs_hub s) ! l)" "cn_peer (fst x) = cn_peer c"
    using route_cases(2) [OF routes_data(1)] by blast
  show ?case by (rule routed_inv [OF routes_data(2)]) (use hub_invD(3) [OF routes_data(2) i(1)] i in \<open>auto simp: fits_def\<close>)
next
  case (delivers l x s b hb)
  have P: "l < length (hb_listeners (hs_hub s))" "fits (hb_listeners (hs_hub s) ! l) x"
    using hub_invD(4) [OF delivers(3), of "(l, x)"] delivers(1) by auto
  have ok: "listener_ok (hs_hub s) l" by (rule hub_invD(1) [OF delivers(3) P(1)])
  have sub: "set (remove1 (l, x) (hs_routed s)) \<subseteq> set (hs_routed s)" by (rule set_remove1_subset)
  show ?case
  proof (cases "hb = hs_hub s")
    case True
    have "hub_inv (s\<lparr>hs_routed := remove1 (l, x) (hs_routed s)\<rparr>)"
    proof -
      have "\<forall>p \<in> set (remove1 (l, x) (hs_routed s)) \<union> set (hs_taken s).
          fst p < length (hb_listeners (hs_hub s)) \<and> fits (hb_listeners (hs_hub s) ! fst p) (snd p)"
        using hub_invD(4) [OF delivers(3)] sub by blast
      then show ?thesis using delivers(3) by (simp add: hub_inv_def Let_def)
    qed
    then show ?thesis using True by (cases s) simp
  next
    case False
    let ?f = "\<lambda>y. y\<lparr>ln_queue := ln_queue y @ [x]\<rparr>"
    have d: "hb = set_listener l ?f (hs_hub s)" "\<not> ln_closed (hb_listeners (hs_hub s) ! l)"
      "length (ln_queue (hb_listeners (hs_hub s) ! l)) < queueLen"
      using delivers(2) False by (auto simp: deliver_def Let_def split: if_splits)
    have "hub_inv (s\<lparr>hs_hub := set_listener l ?f (hs_hub s), hs_routed := remove1 (l, x) (hs_routed s), hs_taken := hs_taken s\<rparr>)"
      by (rule set_listener_inv [OF delivers(3) P(1) _ _ _ _ _ _ _ refl])
        (use ok P(2) d sub in \<open>auto simp: listener_ok_def Let_def dest: subsetD\<close>)
    then show ?thesis by (simp add: d(1))
  qed
next
  case (accepts l s e x hb)
  let ?q = "ln_queue (hb_listeners (hs_hub s) ! l)"
  have ok: "listener_ok (hs_hub s) l" by (rule hub_invD(1) [OF accepts(3,1)])
  obtain cs where q: "?q = x # cs" and hb: "hb = set_listener l (\<lambda>x. x\<lparr>ln_queue := cs\<rparr>) (hs_hub s)"
    using accepts(2) by (auto simp: AcceptConn_def Let_def split: if_splits list.splits)
  have "hub_inv (s\<lparr>hs_hub := set_listener l (\<lambda>x. x\<lparr>ln_queue := cs\<rparr>) (hs_hub s), hs_routed := hs_routed s,
      hs_taken := (l, x) # hs_taken s\<rparr>)"
    by (rule set_listener_inv [OF accepts(3,1) _ _ _ _ _ _ _ refl])
      (use ok q in \<open>auto simp: listener_ok_def Let_def\<close>)
  then show ?case by (simp add: hb)
next
  case (marks l s b hb)
  have ok: "listener_ok (hs_hub s) l" by (rule hub_invD(1) [OF marks(3,1)])
  show ?case
  proof (cases "hb = hs_hub s")
    case False
    then have hb: "hb = set_listener l (\<lambda>x. x\<lparr>ln_closed := True\<rparr>) (hs_hub s)"
      using marks(2) by (auto simp: close_mark_def split: if_splits)
    have "hub_inv (s\<lparr>hs_hub := set_listener l (\<lambda>x. x\<lparr>ln_closed := True\<rparr>) (hs_hub s), hs_routed := hs_routed s, hs_taken := hs_taken s\<rparr>)"
      by (rule set_listener_inv [OF marks(3,1) _ _ _ _ _ _ _ refl]) (use ok in \<open>auto simp: listener_ok_def Let_def\<close>)
    then show ?thesis by (simp add: hb)
  qed (use marks in simp)
next
  case (removes l s)
  then show ?case by (simp add: remove_inv)
next
  case (ends l s cs hb)
  have ok: "listener_ok (hs_hub s) l" by (rule hub_invD(1) [OF ends(5,1)])
  have "hub_inv (s\<lparr>hs_hub := set_listener l (\<lambda>x. x\<lparr>ln_done := True, ln_queue := []\<rparr>) (hs_hub s), hs_routed := hs_routed s,
      hs_taken := hs_taken s\<rparr>)"
    by (rule set_listener_inv [OF ends(5,1) _ _ _ _ _ _ _ refl]) (use ok ends(2,3) in \<open>auto simp: listener_ok_def Let_def\<close>)
  then show ?case using ends(4) by (simp add: close_end_def)
qed

interpretation routing: step_invariant hub_step hub_inv
  by unfold_locales (rule hub_step_keeps)

definition hub_start :: "chan_config \<Rightarrow> hub_sys" where
  "hub_start cfg = \<lparr>hs_hub = NewHub cfg, hs_routed = [], hs_taken = []\<rparr>"

lemma hub_start_inv: "hub_inv (hub_start cfg)"
  by (simp add: hub_inv_def hub_start_def NewHub_def)

lemma reachable_hub: "hub_step\<^sup>*\<^sup>* (hub_start cfg) s \<Longrightarrow> hub_inv s"
  by (rule routing.run_keeps [OF _ hub_start_inv])

section \<open>Properties\<close>

text \<open>C12. Only the peer of a transfer joins it (CHAN-06): whatever connections come, whatever
  transfers are registered and closed, and however the calls interleave, a connection taken from
  the listener of a transfer has the key the transfer was registered for, at most 32 connections
  wait on a listener, and once a listener has ended nothing more comes out of it.\<close>

theorem only_the_peer_joins:
  assumes "hub_step\<^sup>*\<^sup>* (hub_start cfg) s"
  shows "(\<forall>p \<in> set (hs_taken s). ln_control (hb_listeners (hs_hub s) ! fst p) \<or>
      cn_peer (fst (snd p)) = ln_peer (hb_listeners (hs_hub s) ! fst p)) \<and>
    (\<forall>l < length (hb_listeners (hs_hub s)). length (ln_queue (hb_listeners (hs_hub s) ! l)) \<le> queueLen \<and>
      (ln_done (hb_listeners (hs_hub s) ! l) \<longrightarrow> (\<forall>e. AcceptConn e l (hs_hub s) = (Some (Inl ()), hs_hub s)) \<and>
         (\<forall>c. deliver l c (hs_hub s) = (False, hs_hub s))))"
proof -
  note D = hub_invD [OF reachable_hub [OF assms]]
  have "ln_control (hb_listeners (hs_hub s) ! fst p) \<or> cn_peer (fst (snd p)) = ln_peer (hb_listeners (hs_hub s) ! fst p)"
    if "p \<in> set (hs_taken s)" for p
    using D(4) [of p] that by (auto simp: fits_def)
  moreover have "length (ln_queue (hb_listeners (hs_hub s) ! l)) \<le> queueLen \<and>
      (ln_done (hb_listeners (hs_hub s) ! l) \<longrightarrow> (\<forall>e. AcceptConn e l (hs_hub s) = (Some (Inl ()), hs_hub s)) \<and>
         (\<forall>c. deliver l c (hs_hub s) = (False, hs_hub s)))" if "l < length (hb_listeners (hs_hub s))" for l
    using D(1) [OF that] by (auto simp: listener_ok_def Let_def AcceptConn_def deliver_def)
  ultimately show ?thesis by blast
qed

text \<open>The first frame of a data connection, read.\<close>

lemma read_join:
  assumes "length i = 16"
  shows "ReadFrameHeader (join_frame i @ rest) firstFrame = (Inr \<lparr>h_Type = TypeDataJoin, h_PayloadLen = 16\<rparr>, i @ rest)"
  using assms
  by (simp add: join_frame_def WriteFrame_def AppendFrame_def ReadFrameHeader_Inr firstFrame_def DataJoinLen_def
      TypeControl_def TypeDataJoin_def)

lemma route_join:
  assumes "length i = 16"
  shows "route_conn hb now c (join_frame i @ rest) =
    (case hb_transfers hb i of
       None \<Rightarrow> Closed
     | Some l \<Rightarrow> if cn_peer c \<noteq> ln_peer (hb_listeners hb ! l) then Closed
         else ToTransfer l (SetReadDeadline None (took (i @ rest) rest (took (join_frame i @ rest) (i @ rest) (join_deadline hb now c))), rest))"
  unfolding route_conn_def read_join [OF assms] Let_def route_data_def
  using assms by (simp add: TypeControl_def TypeDataJoin_def DataJoinLen_def ReadFull_append split: option.split)

text \<open>A transfer registered: who is known, who is let in, who is refused, and the end.\<close>

lemma registered_parts:
  assumes "hub_step\<^sup>*\<^sup>* (hub_start cfg) s" "\<not> IsZero i" "length i = 16" "Register i peer (hs_hub s) = (Inr l, hb)"
    and "FP_IsZero (cf_Expected (hb_cfg (hs_hub s)))" "FingerprintOf sha spki = peer"
  shows "VerifyConnection sha (hub_config hb) ALPN (Some spki) = Inr (peer, Auth)"
    "cn_peer c = peer \<Longrightarrow> \<exists>c'. cn_peer c' = peer \<and>
       handle hb now c (join_frame i @ rest) = (True, set_listener l (\<lambda>x. x\<lparr>ln_queue := [(c', rest)]\<rparr>) hb)"
    "cn_peer c \<noteq> peer \<Longrightarrow> handle hb now c (join_frame i @ rest) = (False, hb)"
    "handle (snd (CloseListener l hb)) now c (join_frame i @ rest) = (False, snd (CloseListener l hb))"
proof -
  have hb: "l = length (hb_listeners (hs_hub s))"
    "hb = (hs_hub s)\<lparr>hb_transfers := (hb_transfers (hs_hub s))(i \<mapsto> l), hb_listeners := hb_listeners (hs_hub s) @ [newListener i peer]\<rparr>"
    using assms(4) by (auto simp: Register_def Let_def split: if_splits)
  have f: "hb_transfers hb i = Some l" "hb_listeners hb ! l = newListener i peer" "hb_cfg hb = hb_cfg (hs_hub s)"
    "l < length (hb_listeners hb)"
    by (simp_all add: hb)
  have "KnownPeer hb peer" using f(1,2) unfolding KnownPeer_def by (intro bexI [of _ l]) (auto simp: newListener_def ran_def)
  then show "VerifyConnection sha (hub_config hb) ALPN (Some spki) = Inr (peer, Auth)"
    using assms(5,6) f(3) by (simp add: VerifyConnection_def hub_config_def Let_def)
  show "cn_peer c \<noteq> peer \<Longrightarrow> handle hb now c (join_frame i @ rest) = (False, hb)"
    by (simp add: handle_def route_join [OF assms(3)] f(1,2) newListener_def)
  let ?c = "SetReadDeadline None (took (i @ rest) rest (took (join_frame i @ rest) (i @ rest) (join_deadline hb now c)))"
  show "\<exists>c'. cn_peer c' = peer \<and>
       handle hb now c (join_frame i @ rest) = (True, set_listener l (\<lambda>x. x\<lparr>ln_queue := [(c', rest)]\<rparr>) hb)"
    if "cn_peer c = peer"
  proof (intro exI [of _ ?c] conjI)
    show "cn_peer ?c = peer" using that by simp
    show "handle hb now c (join_frame i @ rest) = (True, set_listener l (\<lambda>x. x\<lparr>ln_queue := [(?c, rest)]\<rparr>) hb)"
      using that by (simp add: handle_def route_join [OF assms(3)] f(1,2) newListener_def deliver_def queueLen_def set_listener_def)
  qed
  have "CloseListener l hb = close_end l (remove_listener l (set_listener l (\<lambda>x. x\<lparr>ln_closed := True\<rparr>) hb))"
    by (simp add: CloseListener_def close_mark_def f(2) newListener_def)
  then have "hb_transfers (snd (CloseListener l hb)) i = None"
    using f assms(2) by (simp add: close_end_def remove_listener_def set_listener_def newListener_def Let_def)
  then show "handle (snd (CloseListener l hb)) now c (join_frame i @ rest) = (False, snd (CloseListener l hb))"
    by (simp add: handle_def route_join [OF assms(3)])
qed


section \<open>An example\<close>

definition ex_id :: ID where "ex_id = replicate 16 1"
definition ex_joiner :: fingerprint where "ex_joiner = replicate 32 9"
definition ex_join :: conn where "ex_join = new_conn ex_joiner Auth None"
definition ex_hub :: hub where "ex_hub = snd (Register ex_id ex_joiner (NewHub ex_cfg))"

lemma ex_id_ok: "\<not> IsZero ex_id" "length ex_id = 16"
  by (simp_all add: ex_id_def IsZero_def idLen_def)

lemma ex_register: "Register ex_id ex_joiner (NewHub ex_cfg) = (Inr 0, ex_hub)"
  by (simp add: ex_hub_def Register_def NewHub_def)

lemma ex_hub_fields: "hb_transfers ex_hub ex_id = Some 0" "hb_listeners ex_hub = [newListener ex_id ex_joiner]"
  by (simp_all add: ex_hub_def Register_def NewHub_def)

lemma ex_hub_run:
  obtains s c where "hub_step\<^sup>*\<^sup>* (hub_start ex_cfg) s" "hs_taken s = [(0, c, [])]"
    "hb_listeners (hs_hub s) = [newListener ex_id ex_joiner]"
proof -
  obtain c where c: "route_conn ex_hub 0 ex_join (join_frame ex_id) = ToTransfer 0 (c, [])"
    using route_join [OF ex_id_ok(2), of ex_hub 0 ex_join "[]"]
    by (simp add: ex_hub_fields ex_join_def new_conn_def newListener_def)
  let ?q = "set_listener 0 (\<lambda>x. x\<lparr>ln_queue := ln_queue x @ [(c, [])]\<rparr>) ex_hub"
  let ?s1 = "(hub_start ex_cfg)\<lparr>hs_hub := ex_hub\<rparr>"
  let ?s2 = "?s1\<lparr>hs_routed := (0, c, []) # hs_routed ?s1\<rparr>"
  let ?s3 = "?s2\<lparr>hs_hub := ?q, hs_routed := remove1 (0, c, []) (hs_routed ?s2)\<rparr>"
  let ?s4 = "?s3\<lparr>hs_hub := set_listener 0 (\<lambda>x. x\<lparr>ln_queue := []\<rparr>) ?q, hs_taken := (0, c, []) # hs_taken ?s3\<rparr>"
  have "hub_step (hub_start ex_cfg) ?s1"
    by (rule hub_step.registers [OF ex_id_ok(1), of ex_joiner _ "Inr 0"]) (simp add: hub_start_def ex_register)
  moreover have "hub_step ?s1 ?s2"
    by (rule hub_step.routes_data [of _ 0 ex_join "join_frame ex_id"]) (simp add: c)
  moreover have "deliver 0 (c, []) ex_hub = (True, ?q)"
    by (simp add: deliver_def ex_hub_fields newListener_def queueLen_def)
  then have "hub_step ?s2 ?s3" by (intro hub_step.delivers [where b = True]) simp_all
  moreover have "AcceptConn False 0 ?q = (Some (Inr (c, [])), set_listener 0 (\<lambda>x. x\<lparr>ln_queue := []\<rparr>) ?q)"
    by (simp add: AcceptConn_def set_listener_def ex_hub_fields newListener_def)
  then have "hub_step ?s3 ?s4" by (intro hub_step.accepts [where e = False]) (simp_all add: set_listener_def ex_hub_fields)
  ultimately have "hub_step\<^sup>*\<^sup>* (hub_start ex_cfg) ?s4" by (meson converse_rtranclp_into_rtranclp rtranclp.rtrancl_refl)
  then show thesis by (rule that) (simp_all add: hub_start_def set_listener_def ex_hub_fields newListener_def)
qed

theorem only_the_peer_joins_witness:
  "\<exists>s p. hub_step\<^sup>*\<^sup>* (hub_start ex_cfg) s \<and> p \<in> set (hs_taken s) \<and> cn_peer (fst (snd p)) = ex_joiner"
proof -
  obtain s c where s: "hub_step\<^sup>*\<^sup>* (hub_start ex_cfg) s" "hs_taken s = [(0, c, [])]"
    "hb_listeners (hs_hub s) = [newListener ex_id ex_joiner]"
    by (rule ex_hub_run)
  then have "cn_peer c = ex_joiner"
    using only_the_peer_joins [OF s(1)] by (simp add: newListener_def ex_id_def IsZero_def idLen_def)
  then show ?thesis using s by (intro exI conjI [OF s(1)]) auto
qed


end
