(* ===== verification/Cpace.thy ===== *)
theory Cpace
  imports GoStrings
begin

text \<open>
  The password-authenticated key exchange of the pairing by PIN (\<^verbatim>\<open>pkg/pake\<close>): CPace, its
  messages and its confirmations. The group (the library \<^verbatim>\<open>ristretto255\<close>) and the hash functions
  are the fields of \<open>crypto\<close>; \<^verbatim>\<open>crypto/rand\<close> is the list of blocks it has yet to give.
\<close>

section \<open>Parameters\<close>

record ('s, 'e) crypto =
  cr_derive :: "bytes \<Rightarrow> 'e option"
  cr_decode :: "bytes \<Rightarrow> 'e option"
  cr_encode :: "'e \<Rightarrow> bytes"
  cr_mult :: "'s \<Rightarrow> 'e \<Rightarrow> 'e"
  cr_neutral :: 'e
  cr_scalar :: "bytes \<Rightarrow> 's option"
  cr_is_zero :: "'s \<Rightarrow> bool"
  cr_sha512 :: "bytes \<Rightarrow> bytes"
  cr_hmac512 :: "bytes \<Rightarrow> bytes \<Rightarrow> bytes"
  cr_hmac256 :: "bytes \<Rightarrow> bytes \<Rightarrow> bytes"
  cr_hkdf :: "bytes \<Rightarrow> bytes \<Rightarrow> bytes \<Rightarrow> nat \<Rightarrow> bytes option"
  cr_seal :: "bytes \<Rightarrow> bytes \<Rightarrow> bytes \<Rightarrow> bytes \<Rightarrow> bytes"
  cr_open :: "bytes \<Rightarrow> bytes \<Rightarrow> bytes \<Rightarrow> bytes \<Rightarrow> bytes option"

text \<open>What the library says of the group: encodings of 32 bytes that decode, scalars that commute,
  no divisor of the neutral element (the order is prime).\<close>

definition group_laws :: "('s, 'e) crypto \<Rightarrow> bool" where
  "group_laws c \<longleftrightarrow>
     (\<forall>e. length (cr_encode c e) = 32 \<and> cr_decode c (cr_encode c e) = Some e) \<and>
     (\<forall>x y e. cr_mult c x (cr_mult c y e) = cr_mult c y (cr_mult c x e)) \<and>
     (\<forall>y e. cr_mult c y e = cr_neutral c \<longrightarrow> cr_is_zero c y \<or> e = cr_neutral c)"

datatype pake_error = ErrUnknownSuite | ErrAbort | ErrFinished | ErrRandReader | ErrEncoding

section \<open>Lengths and values\<close>

function leb :: "nat \<Rightarrow> bytes" where
  "leb n = (if n < 128 then [of_nat n] else or (and (of_nat n) 0x7F) 0x80 # leb (drop_bit 7 n))"
  by auto
termination by (relation "measure id") (auto simp: drop_bit_eq_div)

declare leb.simps [simp del]

definition prependLen :: "bytes \<Rightarrow> bytes" where
  "prependLen data = leb (length data) @ data"

definition lvCat :: "bytes list \<Rightarrow> bytes" where
  "lvCat parts = concat (map prependLen parts)"

fun lexLarger :: "bytes \<Rightarrow> bytes \<Rightarrow> bool" where
  "lexLarger (a # as) (b # bs) = (if a \<noteq> b then a > b else lexLarger as bs)"
| "lexLarger as bs = (length as > length bs)"

definition oCat :: "bytes \<Rightarrow> bytes \<Rightarrow> bytes" where
  "oCat a b = (if lexLarger a b then bytes_of ''oc'' @ a @ b else bytes_of ''oc'' @ b @ a)"

definition transcriptIR :: "bytes \<Rightarrow> bytes \<Rightarrow> bytes \<Rightarrow> bytes \<Rightarrow> bytes" where
  "transcriptIR ya ada yb adb = lvCat [ya, ada] @ lvCat [yb, adb]"

definition transcriptOC :: "bytes \<Rightarrow> bytes \<Rightarrow> bytes \<Rightarrow> bytes \<Rightarrow> bytes" where
  "transcriptOC ya ada yb adb = oCat (lvCat [ya, ada]) (lvCat [yb, adb])"

section \<open>The generator\<close>

definition cpaceDSI :: bytes where "cpaceDSI = bytes_of ''CPaceRistretto255''"
definition sha512Block :: nat where "sha512Block = 128"
definition sidOutputLabel :: bytes where "sidOutputLabel = bytes_of ''CPaceSidOutput''"
definition macLabel :: bytes where "macLabel = bytes_of ''CPaceMac''"
definition elementLen :: nat where "elementLen = 32"

definition generatorString :: "bytes \<Rightarrow> bytes \<Rightarrow> bytes \<Rightarrow> bytes \<Rightarrow> nat \<Rightarrow> bytes" where
  "generatorString dsi prs ci sid sInBytes =
     (let zpad = sInBytes - 1 - length (prependLen prs) - length (prependLen dsi)
      in lvCat [dsi, prs, replicate zpad 0, ci, sid])"

definition calculateGenerator :: "('s, 'e) crypto \<Rightarrow> bytes \<Rightarrow> bytes \<Rightarrow> bytes \<Rightarrow> 'e option" where
  "calculateGenerator c prs ci sid = cr_derive c (cr_sha512 c (generatorString cpaceDSI prs ci sid sha512Block))"

definition iskOf :: "('s, 'e) crypto \<Rightarrow> bytes \<Rightarrow> bytes \<Rightarrow> bytes \<Rightarrow> bytes" where
  "iskOf c sid k transcript = cr_sha512 c (lvCat [cpaceDSI @ bytes_of ''_ISK'', sid, k] @ transcript)"

definition sidOutput :: "('s, 'e) crypto \<Rightarrow> bytes \<Rightarrow> bytes" where
  "sidOutput c transcript = cr_sha512 c (sidOutputLabel @ transcript)"

section \<open>The group\<close>

definition identityBytes :: "('s, 'e) crypto \<Rightarrow> bytes" where
  "identityBytes c = cr_encode c (cr_neutral c)"

definition scalarMult :: "('s, 'e) crypto \<Rightarrow> 's \<Rightarrow> 'e \<Rightarrow> bytes" where
  "scalarMult c y g = cr_encode c (cr_mult c y g)"

definition scalarMultVfy :: "('s, 'e) crypto \<Rightarrow> 's \<Rightarrow> bytes \<Rightarrow> bytes" where
  "scalarMultVfy c y x =
     (case cr_decode c x of None \<Rightarrow> identityBytes c | Some p \<Rightarrow> cr_encode c (cr_mult c y p))"

text \<open>\<^verbatim>\<open>sampleScalar\<close> reads blocks of 32 bytes until one gives a scalar that is not zero.\<close>

fun sampleScalar :: "('s, 'e) crypto \<Rightarrow> bytes list \<Rightarrow> pake_error + 's" where
  "sampleScalar c [] = Inl ErrRandReader"
| "sampleScalar c (b # bs) =
     (case cr_scalar c (b[31 := and (b ! 31) 0x0F]) of
        None \<Rightarrow> Inl ErrEncoding
      | Some s \<Rightarrow> if \<not> cr_is_zero c s then Inr s else sampleScalar c bs)"

section \<open>A run\<close>

datatype role = Initiator | Responder

record pake_params =
  pp_Password :: bytes
  pp_CI :: bytes
  pp_SID :: bytes
  pp_Role :: role

record 's cpace =
  cp_role :: role
  cp_sid :: bytes
  cp_y :: 's
  cp_share :: bytes
  cp_ad :: bytes
  cp_peerAD :: bytes
  cp_finished :: bool

record pake_session =
  ss_isk :: bytes
  ss_macKey :: bytes
  ss_own :: bytes
  ss_peer :: bytes

definition newCPaceWith ::
  "('s, 'e) crypto \<Rightarrow> pake_params \<Rightarrow> bytes \<Rightarrow> bytes \<Rightarrow> 's \<Rightarrow> pake_error + 's cpace" where
  "newCPaceWith c p ad peerAD y =
     (case calculateGenerator c (pp_Password p) (pp_CI p) (pp_SID p) of
        None \<Rightarrow> Inl ErrEncoding
      | Some g \<Rightarrow>
          let share = scalarMult c y g in
          if share = identityBytes c then Inl ErrAbort
          else Inr \<lparr>cp_role = pp_Role p, cp_sid = pp_SID p, cp_y = y, cp_share = share, cp_ad = ad,
                 cp_peerAD = peerAD, cp_finished = False\<rparr>)"

definition newCPace :: "('s, 'e) crypto \<Rightarrow> pake_params \<Rightarrow> bytes list \<Rightarrow> pake_error + 's cpace" where
  "newCPace c p rnd = bind_res (sampleScalar c rnd) (\<lambda>y. newCPaceWith c p [] [] y)"

definition SuiteCPaceRistretto255 :: string where "SuiteCPaceRistretto255 = ''CPACE-RISTR255-SHA512''"
definition Suites :: "string list" where "Suites = [SuiteCPaceRistretto255]"

definition New :: "('s, 'e) crypto \<Rightarrow> string \<Rightarrow> pake_params \<Rightarrow> bytes list \<Rightarrow> pake_error + 's cpace" where
  "New c suite p rnd = (if suite = SuiteCPaceRistretto255 then newCPace c p rnd else Inl ErrUnknownSuite)"

definition Share :: "'s cpace \<Rightarrow> bytes" where "Share x = cp_share x"

definition Finish :: "('s, 'e) crypto \<Rightarrow> 's cpace \<Rightarrow> bytes \<Rightarrow> (pake_error + pake_session) \<times> 's cpace" where
  "Finish c x peer =
     (if cp_finished x then (Inl ErrFinished, x)
      else
        let x1 = x\<lparr>cp_finished := True\<rparr> in
        if length peer \<noteq> elementLen then (Inl ErrAbort, x1)
        else
          let k = scalarMultVfy c (cp_y x) peer in
          if k = identityBytes c then (Inl ErrAbort, x1)
          else
            let own = lvCat [cp_share x, cp_ad x]; other = lvCat [peer, cp_peerAD x];
                t = (if cp_role x = Responder then other @ own else own @ other);
                isk = iskOf c (cp_sid x) k t
            in (Inr \<lparr>ss_isk = isk, ss_macKey = cr_sha512 c (macLabel @ cp_sid x @ isk), ss_own = own,
                  ss_peer = other\<rparr>, x1))"

definition Tag :: "('s, 'e) crypto \<Rightarrow> pake_session \<Rightarrow> bytes" where
  "Tag c s = cr_hmac512 c (ss_macKey s) (ss_own s)"

definition Verify :: "('s, 'e) crypto \<Rightarrow> pake_session \<Rightarrow> bytes \<Rightarrow> bool" where
  "Verify c s peerTag \<longleftrightarrow> peerTag = cr_hmac512 c (ss_macKey s) (ss_peer s)"

definition Key :: "('s, 'e) crypto \<Rightarrow> pake_session \<Rightarrow> bytes \<Rightarrow> nat \<Rightarrow> bytes option" where
  "Key c s info n = cr_hkdf c (ss_isk s) [] info n"

section \<open>Cutting lengths and values\<close>

lemma unat_leb_byte: "unat (or (and (of_nat n) 0x7F) 0x80 :: byte) = n mod 128 + 128"
proof -
  have "and (of_nat n :: byte) 0x7F = take_bit 7 (of_nat n)"
    by (simp add: take_bit_eq_mask mask_eq_exp_minus_1)
  then have a: "unat (and (of_nat n :: byte) 0x7F) = n mod 128"
    using unsigned_take_bit_eq [where 'a = nat, of 7 "of_nat n :: byte"] mod_mod_cancel [of 128 256 n]
    by (simp add: unsigned_of_nat take_bit_eq_mod)
  have "unat (or (and (of_nat n) 0x7F) 0x80 :: byte) = or (n mod 128) 128"
    by (simp add: unsigned_or_eq a)
  also have "\<dots> = n mod 128 + 128"
  proof (rule disjunctive_add_eq_or [symmetric], rule bit_eqI)
    fix k
    have "bit (n mod 128) k \<Longrightarrow> k < 7" using bit_take_bit_iff [of 7 n k] by (simp add: take_bit_eq_mod)
    moreover have "bit (128 :: nat) k \<Longrightarrow> k = 7" using bit_exp_iff [where 'a = nat, of 7 k] by simp
    ultimately show "bit (and (n mod 128) 128) k = bit (0 :: nat) k" by (auto simp: bit_and_iff)
  qed
  finally show ?thesis .
qed

lemma leb_small: "n < 128 \<Longrightarrow> leb n = [of_nat n]"
  by (simp add: leb.simps [of n])

lemma leb_large: "128 \<le> n \<Longrightarrow> leb n = or (and (of_nat n) 0x7F) 0x80 # leb (n div 128)"
  by (simp add: leb.simps [of n] drop_bit_eq_div)

lemma leb_not_Nil [simp]: "leb n \<noteq> []"
  by (cases "n < 128") (auto simp: leb_small leb_large)

lemma unat_small_byte: "n < 128 \<Longrightarrow> unat (of_nat n :: byte) = n"
  by (simp add: unat_of_nat)

text \<open>No length is the start of another.\<close>

lemma leb_prefix: "leb n @ r = leb m @ s \<Longrightarrow> n = m \<and> r = s"
proof (induction n arbitrary: m rule: less_induct)
  case (less n)
  show ?case
  proof (cases "n < 128 \<or> m < 128")
    case True
    then show ?thesis
    proof (cases "n < 128 \<and> m < 128")
      case True
      then show ?thesis using less.prems by (auto simp: leb_small dest: arg_cong [where f = unat] simp: unat_of_nat)
    next
      case False
      then obtain a b where ab: "a < 128" "(128 :: nat) \<le> b" "hd (leb n) = of_nat a \<and> hd (leb m) = or (and (of_nat b) 0x7F) 0x80 \<or>
        hd (leb m) = of_nat a \<and> hd (leb n) = or (and (of_nat b) 0x7F) 0x80"
        using True by (auto simp: leb_small leb_large not_less)
      have "hd (leb n) = hd (leb m)" using less.prems by (metis hd_append2 leb_not_Nil)
      then have "unat (of_nat a :: byte) = unat (or (and (of_nat b) 0x7F) 0x80 :: byte)" using ab by auto
      then show ?thesis using ab(1) unat_small_byte [OF ab(1)] by (simp only: unat_leb_byte)
    qed
  next
    case False
    then have eq: "or (and (of_nat n) 0x7F) 0x80 = (or (and (of_nat m) 0x7F) 0x80 :: byte)"
      "leb (n div 128) @ r = leb (m div 128) @ s"
      using less.prems by (simp_all add: leb_large)
    have "n mod 128 = m mod 128" using arg_cong [OF eq(1), of unat] unfolding unat_leb_byte by simp
    moreover have "n div 128 = m div 128 \<and> r = s" by (rule less.IH [OF _ eq(2)]) (use False in simp)
    ultimately show ?thesis by (metis mod_div_decomp)
  qed
qed

lemma prependLen_prefix: "prependLen p @ r = prependLen q @ s \<Longrightarrow> p = q \<and> r = s"
  unfolding prependLen_def using leb_prefix [of "length p" "p @ r" "length q" "q @ s"] by auto

lemma prependLen_not_Nil [simp]: "prependLen p \<noteq> []" "[] \<noteq> prependLen p"
  by (simp_all add: prependLen_def)

lemma lvCat_simps [simp]: "lvCat [] = []" "lvCat (p # ps) = prependLen p @ lvCat ps"
  by (simp_all add: lvCat_def)

lemma lvCat_prefix: "lvCat ps @ r = lvCat qs @ s \<Longrightarrow> length ps = length qs \<Longrightarrow> ps = qs \<and> r = s"
proof (induction ps arbitrary: qs)
  case (Cons p ps)
  then obtain q qs' where q: "qs = q # qs'" by (cases qs) auto
  with Cons.prems have "p = q" "lvCat ps @ r = lvCat qs' @ s"
    using prependLen_prefix [of p "lvCat ps @ r" q "lvCat qs' @ s"] by auto
  with Cons.IH [of qs'] Cons.prems q show ?case by simp
qed simp

lemma lvCat_inject: "lvCat ps = lvCat qs \<longleftrightarrow> ps = qs"
proof
  show "lvCat ps = lvCat qs \<Longrightarrow> ps = qs"
  proof (induction ps arbitrary: qs)
    case Nil
    then show ?case by (cases qs) auto
  next
    case (Cons p ps)
    then obtain q qs' where q: "qs = q # qs'" by (cases qs) auto
    with Cons show ?case using prependLen_prefix [of p "lvCat ps" q "lvCat qs'"] by auto
  qed
qed simp

lemma lexLarger_antisym: "a \<noteq> b \<Longrightarrow> lexLarger a b \<longleftrightarrow> \<not> lexLarger b a"
  by (induction a b rule: lexLarger.induct) (auto simp: not_less order.order_iff_strict)

lemma oCat_commutes: "oCat a b = oCat b a"
  using lexLarger_antisym [of a b] by (cases "a = b") (auto simp: oCat_def)

section \<open>Two sides of a run\<close>

text \<open>A pair of runs of the same PIN, channel identifier and session identifier, one of each role.\<close>

definition matching :: "pake_params \<Rightarrow> pake_params \<Rightarrow> bool" where
  "matching p q \<longleftrightarrow> pp_Password p = pp_Password q \<and> pp_CI p = pp_CI q \<and> pp_SID p = pp_SID q \<and>
     pp_Role p = Initiator \<and> pp_Role q = Responder"

lemma sampleScalar_not_zero: "sampleScalar c rnd = Inr y \<Longrightarrow> \<not> cr_is_zero c y"
  by (induction c rnd rule: sampleScalar.induct) (auto split: option.splits if_splits)

lemma New_run:
  assumes "New c suite p rnd = Inr x"
  shows "\<exists>g. calculateGenerator c (pp_Password p) (pp_CI p) (pp_SID p) = Some g \<and>
      \<not> cr_is_zero c (cp_y x) \<and> cr_mult c (cp_y x) g \<noteq> cr_neutral c \<and> cp_share x = cr_encode c (cr_mult c (cp_y x) g)"
    "cp_role x = pp_Role p" "cp_sid x = pp_SID p" "cp_ad x = []" "cp_peerAD x = []" "\<not> cp_finished x"
proof -
  obtain y where y: "sampleScalar c rnd = Inr y" and w: "newCPaceWith c p [] [] y = Inr x"
    using assms by (auto simp: New_def newCPace_def bind_res_Inr split: if_splits)
  from w show "\<exists>g. calculateGenerator c (pp_Password p) (pp_CI p) (pp_SID p) = Some g \<and>
      \<not> cr_is_zero c (cp_y x) \<and> cr_mult c (cp_y x) g \<noteq> cr_neutral c \<and> cp_share x = cr_encode c (cr_mult c (cp_y x) g)"
    using sampleScalar_not_zero [OF y]
    by (auto simp: newCPaceWith_def Let_def scalarMult_def identityBytes_def split: option.splits if_splits)
  from w show "cp_role x = pp_Role p" "cp_sid x = pp_SID p" "cp_ad x = []" "cp_peerAD x = []" "\<not> cp_finished x"
    by (auto simp: newCPaceWith_def Let_def split: option.splits if_splits)
qed

lemma Finish_run:
  assumes "\<not> cp_finished x" "cp_ad x = []" "cp_peerAD x = []" "length peer = 32" "k = scalarMultVfy c (cp_y x) peer"
    "k \<noteq> identityBytes c" "own = lvCat [cp_share x, []]" "other = lvCat [peer, []]"
    "isk = iskOf c (cp_sid x) k (if cp_role x = Responder then other @ own else own @ other)"
  shows "fst (Finish c x peer) =
    Inr \<lparr>ss_isk = isk, ss_macKey = cr_sha512 c (macLabel @ cp_sid x @ isk), ss_own = own, ss_peer = other\<rparr>"
  using assms by (simp add: Finish_def elementLen_def Let_def)

text \<open>The shared point is the same on both sides, and never the neutral element: both sides finish,
  on the same transcript, hence the same key, and each takes the other's confirmation.\<close>

lemma runs_agree:
  assumes laws: "group_laws c" and pq: "matching p q"
    and x: "New c suite p rx = Inr x" and y: "New c suite q ry = Inr y"
  obtains s t where "fst (Finish c x (Share y)) = Inr s" "fst (Finish c y (Share x)) = Inr t"
    "ss_isk s = ss_isk t" "ss_macKey s = ss_macKey t" "ss_own s = ss_peer t" "ss_peer s = ss_own t"
proof -
  obtain g where g: "calculateGenerator c (pp_Password p) (pp_CI p) (pp_SID p) = Some g" "\<not> cr_is_zero c (cp_y x)"
    "cp_share x = cr_encode c (cr_mult c (cp_y x) g)"
    using New_run(1) [OF x] by blast
  obtain h where h: "calculateGenerator c (pp_Password q) (pp_CI q) (pp_SID q) = Some h"
    "cr_mult c (cp_y y) h \<noteq> cr_neutral c" "cp_share y = cr_encode c (cr_mult c (cp_y y) h)"
    using New_run(1) [OF y] by blast
  have gh: "h = g" using g(1) h(1) pq by (simp add: matching_def)
  define e where "e = cr_mult c (cp_y x) (cr_mult c (cp_y y) g)"
  define k where "k = cr_encode c e"
  have len: "length (cr_encode c e) = 32" "cr_decode c (cr_encode c e) = Some e" for e
    using laws by (simp_all add: group_laws_def)
  have e: "cr_mult c (cp_y y) (cr_mult c (cp_y x) g) = e" using laws unfolding group_laws_def e_def by metis
  have "e \<noteq> cr_neutral c" using laws g(2) h(2) gh unfolding group_laws_def e_def by blast
  then have k: "k \<noteq> identityBytes c" unfolding k_def identityBytes_def using len(2) by (metis option.inject)
  have kx: "k = scalarMultVfy c (cp_y x) (Share y)"
    by (simp add: scalarMultVfy_def Share_def h(3) len gh k_def e_def)
  have ky: "k = scalarMultVfy c (cp_y y) (Share x)"
    by (simp add: scalarMultVfy_def Share_def g(3) len k_def e)
  have l: "length (Share x) = 32" "length (Share y) = 32" by (simp_all add: Share_def g(3) h(3) len)
  note X = New_run(2-6) [OF x] and Y = New_run(2-6) [OF y]
  show thesis
    by (rule that [OF Finish_run [OF X(5) X(3,4) l(2) kx k refl refl refl] Finish_run [OF Y(5) Y(3,4) l(1) ky k refl refl refl]])
      (use pq in \<open>simp_all add: X(1,2) Y(1,2) matching_def Share_def\<close>)
qed

text \<open>The transcript of a run, the initiator's message first.\<close>

definition transcript :: "role \<Rightarrow> pake_session \<Rightarrow> bytes" where
  "transcript r s = (if r = Responder then ss_peer s @ ss_own s else ss_own s @ ss_peer s)"

definition clash :: "('a \<Rightarrow> 'b) \<Rightarrow> 'a \<Rightarrow> 'a \<Rightarrow> bool" where
  "clash f a b \<longleftrightarrow> a \<noteq> b \<and> f a = f b"

text \<open>What is hashed into the key of a run.\<close>

definition isk_input :: "('s, 'e) crypto \<Rightarrow> 's cpace \<Rightarrow> bytes \<Rightarrow> pake_session \<Rightarrow> bytes" where
  "isk_input c x peer s =
     lvCat [cpaceDSI @ bytes_of ''_ISK'', cp_sid x, scalarMultVfy c (cp_y x) peer] @ transcript (cp_role x) s"

lemma Finish_session:
  assumes "New c suite p rnd = Inr x" "fst (Finish c x peer) = Inr s"
  shows "ss_isk s = cr_sha512 c (isk_input c x peer s)" "ss_macKey s = cr_sha512 c (macLabel @ cp_sid x @ ss_isk s)"
    "ss_own s = lvCat [Share x, []]" "ss_peer s = lvCat [peer, []]"
  using assms(2) New_run(2-6) [OF assms(1)]
  by (auto simp: Finish_def Let_def transcript_def Share_def isk_input_def iskOf_def split: if_splits)

section \<open>What a run proves\<close>

text \<open>C14. The same PIN on both sides, in the same TLS session and for the same two devices: whatever
  scalars are drawn, both sides finish on the other's share, each takes the other's confirmation,
  and every key derived is the same.\<close>

theorem pin_runs_agree:
  assumes "group_laws c" and "matching p q" and "New c suite p rx = Inr x" and "New c suite q ry = Inr y"
  shows "\<exists>s t. fst (Finish c x (Share y)) = Inr s \<and> fst (Finish c y (Share x)) = Inr t \<and>
     Verify c s (Tag c t) \<and> Verify c t (Tag c s) \<and> Key c s = Key c t"
proof -
  obtain s t where st: "fst (Finish c x (Share y)) = Inr s" "fst (Finish c y (Share x)) = Inr t"
    "ss_isk s = ss_isk t" "ss_macKey s = ss_macKey t" "ss_own s = ss_peer t" "ss_peer s = ss_own t"
    by (rule runs_agree [OF assms])
  then have "Verify c s (Tag c t)" "Verify c t (Tag c s)" by (simp_all add: Verify_def Tag_def)
  moreover have "Key c s = Key c t" by (intro ext) (simp add: Key_def st(3))
  ultimately show ?thesis using st(1,2) by blast
qed


section \<open>An example\<close>

text \<open>The group of two elements.\<close>

definition ex_crypto :: "(bool, bool) crypto" where
  "ex_crypto =
     \<lparr>cr_derive = (\<lambda>b. Some True), cr_decode = (\<lambda>b. Some (hd b = 1)), cr_encode = (\<lambda>e. replicate 32 (if e then 1 else 0)),
      cr_mult = (\<and>), cr_neutral = False, cr_scalar = (\<lambda>b. Some (hd b = 1)), cr_is_zero = Not,
      cr_sha512 = (\<lambda>b. replicate 64 (of_nat (length b))), cr_hmac512 = (\<lambda>k m. k @ m), cr_hmac256 = (\<lambda>k m. take 32 (m @ k)),
      cr_hkdf = (\<lambda>k s i n. Some (take n (k @ s @ i @ replicate n 0))),
      cr_seal = (\<lambda>k n p ad. p @ ad), cr_open = (\<lambda>k n ct ad. Some (take (length ct - length ad) ct))\<rparr>"

definition ex_pake_params :: "role \<Rightarrow> pake_params" where
  "ex_pake_params r = \<lparr>pp_Password = [49, 50], pp_CI = [7], pp_SID = [8], pp_Role = r\<rparr>"

definition ex_pake_run :: "role \<Rightarrow> bool cpace" where
  "ex_pake_run r = \<lparr>cp_role = r, cp_sid = [8], cp_y = True, cp_share = replicate 32 1, cp_ad = [], cp_peerAD = [], cp_finished = False\<rparr>"

lemma ex_group: "group_laws ex_crypto"
  by (auto simp: group_laws_def ex_crypto_def)

lemma ex_New: "New ex_crypto SuiteCPaceRistretto255 (ex_pake_params r) [replicate 32 0, replicate 32 1] = Inr (ex_pake_run r)"
  by (simp add: New_def newCPace_def newCPaceWith_def calculateGenerator_def ex_crypto_def ex_pake_params_def ex_pake_run_def
      scalarMult_def identityBytes_def numeral_eq_Suc)

theorem pin_runs_agree_witness:
  "\<exists>s t. fst (Finish ex_crypto (ex_pake_run Initiator) (Share (ex_pake_run Responder))) = Inr s \<and>
     fst (Finish ex_crypto (ex_pake_run Responder) (Share (ex_pake_run Initiator))) = Inr t \<and> Key ex_crypto s = Key ex_crypto t"
  using pin_runs_agree [OF ex_group _ ex_New [of Initiator] ex_New [of Responder]]
  by (auto simp: matching_def ex_pake_params_def)


end
