(* ===== verification/Spec2Isabelle.thy ===== *)
theory Spec2Isabelle
  imports Session StoreSaved Place Batches Ids Manifest Pin TrustTalks SecureChan ReceptionFaults Exchange Hub Cpace
begin

text \<open>
  medXfer.
\<close>

end
